(* ===== verification/Prelude.thy ===== *)
theory Prelude
  imports Main "HOL-Library.Word" "HOL-Library.Monad_Syntax"
begin

text \<open>
  Shared vocabulary of the development: the C integer types as machine words, the
  \<open>EFI_STATUS\<close> codes of \<open>include/uefi_min.h\<close>, and bounds-checked access to byte buffers.

  A C buffer is a list of bytes whose length is the size of the object the pointer points
  into; \<open>p + n\<close> is \<open>drop n p\<close>. A load or a store outside the object is undefined behaviour
  in C, and here it is the result \<open>None\<close>: every operation that touches memory has a result
  of type \<open>'a option\<close>, and a theorem of the form \<open>\<exists>r. f x = Some r\<close> says that the code
  makes no out-of-range access on \<open>x\<close>. Values of the C functions themselves, error codes
  included, are inside the \<open>Some\<close>.
\<close>

unbundle bit_operations_syntax

section \<open>Integer types\<close>

type_synonym u8 = "8 word"
type_synonym u16 = "16 word"
type_synonym u32 = "32 word"
type_synonym u64 = "64 word"
type_synonym CHAR16 = "16 word"
type_synonym EFI_STATUS = "64 word"
type_synonym bytes = "8 word list"

section \<open>Theorem collections\<close>

named_theorems efi_codes \<open>the values of the status codes\<close>
named_theorems mem_simps \<open>loads and stores that stay inside their buffer\<close>

section \<open>Status codes\<close>

definition EFI_ERROR_BIT :: u64 where
  "EFI_ERROR_BIT = 0x8000000000000000"

definition EFIERR :: "u64 \<Rightarrow> EFI_STATUS" where
  "EFIERR x = EFI_ERROR_BIT OR x"

definition EFI_ERROR :: "EFI_STATUS \<Rightarrow> bool" where
  "EFI_ERROR st \<longleftrightarrow> st AND EFI_ERROR_BIT \<noteq> 0"

definition EFI_SUCCESS :: EFI_STATUS where "EFI_SUCCESS = 0"
definition EFI_LOAD_ERROR :: EFI_STATUS where "EFI_LOAD_ERROR = EFIERR 1"
definition EFI_INVALID_PARAMETER :: EFI_STATUS where "EFI_INVALID_PARAMETER = EFIERR 2"
definition EFI_UNSUPPORTED :: EFI_STATUS where "EFI_UNSUPPORTED = EFIERR 3"
definition EFI_BAD_BUFFER_SIZE :: EFI_STATUS where "EFI_BAD_BUFFER_SIZE = EFIERR 4"
definition EFI_BUFFER_TOO_SMALL :: EFI_STATUS where "EFI_BUFFER_TOO_SMALL = EFIERR 5"
definition EFI_NOT_READY :: EFI_STATUS where "EFI_NOT_READY = EFIERR 6"
definition EFI_DEVICE_ERROR :: EFI_STATUS where "EFI_DEVICE_ERROR = EFIERR 7"
definition EFI_WRITE_PROTECTED :: EFI_STATUS where "EFI_WRITE_PROTECTED = EFIERR 8"
definition EFI_OUT_OF_RESOURCES :: EFI_STATUS where "EFI_OUT_OF_RESOURCES = EFIERR 9"
definition EFI_VOLUME_CORRUPTED :: EFI_STATUS where "EFI_VOLUME_CORRUPTED = EFIERR 10"
definition EFI_VOLUME_FULL :: EFI_STATUS where "EFI_VOLUME_FULL = EFIERR 11"
definition EFI_NO_MEDIA :: EFI_STATUS where "EFI_NO_MEDIA = EFIERR 12"
definition EFI_MEDIA_CHANGED :: EFI_STATUS where "EFI_MEDIA_CHANGED = EFIERR 13"
definition EFI_NOT_FOUND :: EFI_STATUS where "EFI_NOT_FOUND = EFIERR 14"
definition EFI_ACCESS_DENIED :: EFI_STATUS where "EFI_ACCESS_DENIED = EFIERR 15"
definition EFI_ABORTED :: EFI_STATUS where "EFI_ABORTED = EFIERR 21"
definition EFI_END_OF_FILE :: EFI_STATUS where "EFI_END_OF_FILE = EFIERR 31"

definition EFI_FILE_MODE_READ :: u64 where "EFI_FILE_MODE_READ = 1"

lemmas efi_status_defs = EFI_SUCCESS_def EFI_INVALID_PARAMETER_def EFI_UNSUPPORTED_def
  EFI_BAD_BUFFER_SIZE_def EFI_BUFFER_TOO_SMALL_def EFI_OUT_OF_RESOURCES_def
  EFI_VOLUME_CORRUPTED_def EFI_NOT_FOUND_def EFI_ABORTED_def EFI_END_OF_FILE_def
  EFI_LOAD_ERROR_def EFI_NOT_READY_def EFI_DEVICE_ERROR_def EFI_WRITE_PROTECTED_def
  EFI_VOLUME_FULL_def EFI_NO_MEDIA_def EFI_MEDIA_CHANGED_def EFI_ACCESS_DENIED_def

lemmas efi_status_values [efi_codes] = efi_status_defs [unfolded EFIERR_def EFI_ERROR_BIT_def]

lemma EFI_ERROR_codes [simp]:
  "\<not> EFI_ERROR EFI_SUCCESS" "EFI_ERROR EFI_INVALID_PARAMETER" "EFI_ERROR EFI_UNSUPPORTED"
  "EFI_ERROR EFI_BAD_BUFFER_SIZE" "EFI_ERROR EFI_BUFFER_TOO_SMALL"
  "EFI_ERROR EFI_OUT_OF_RESOURCES" "EFI_ERROR EFI_VOLUME_CORRUPTED" "EFI_ERROR EFI_NOT_FOUND"
  "EFI_ERROR EFI_ABORTED" "EFI_ERROR EFI_END_OF_FILE"
  by (simp_all add: EFI_ERROR_def EFI_ERROR_BIT_def efi_codes)

lemma EFI_ERROR_iff_bit: "EFI_ERROR st \<longleftrightarrow> bit st 63"
proof -
  have "EFI_ERROR_BIT = 2 ^ 63" by (simp add: EFI_ERROR_BIT_def)
  then show ?thesis
    by (metis EFI_ERROR_def and_exp_eq_0_iff_not_bit)
qed

text \<open>An error status is never the success status, whatever firmware returned it.\<close>

lemma EFI_ERROR_not_success [dest]: "EFI_ERROR st \<Longrightarrow> st \<noteq> EFI_SUCCESS"
  by auto

lemma EFI_codes_not_success [simp]:
  "EFI_INVALID_PARAMETER \<noteq> EFI_SUCCESS" "EFI_UNSUPPORTED \<noteq> EFI_SUCCESS"
  "EFI_BAD_BUFFER_SIZE \<noteq> EFI_SUCCESS" "EFI_BUFFER_TOO_SMALL \<noteq> EFI_SUCCESS"
  "EFI_OUT_OF_RESOURCES \<noteq> EFI_SUCCESS" "EFI_VOLUME_CORRUPTED \<noteq> EFI_SUCCESS"
  "EFI_NOT_FOUND \<noteq> EFI_SUCCESS" "EFI_ABORTED \<noteq> EFI_SUCCESS" "EFI_END_OF_FILE \<noteq> EFI_SUCCESS"
  by (simp_all add: efi_codes)

section \<open>Byte buffers\<close>

text \<open>\<open>peek p i\<close> is the load \<open>p[i]\<close>, \<open>poke p i xs\<close> stores the bytes \<open>xs\<close> from \<open>p[i]\<close> on,
  \<open>load p i n\<close> copies \<open>n\<close> bytes out of the buffer.\<close>

definition peek :: "'a list \<Rightarrow> nat \<Rightarrow> 'a option" where
  "peek p i = (if i < length p then Some (p ! i) else None)"

definition poke :: "'a list \<Rightarrow> nat \<Rightarrow> 'a list \<Rightarrow> 'a list option" where
  "poke p i xs = (if i + length xs \<le> length p
     then Some (take i p @ xs @ drop (i + length xs) p) else None)"

definition load :: "'a list \<Rightarrow> nat \<Rightarrow> nat \<Rightarrow> 'a list option" where
  "load p i n = (if i + n \<le> length p then Some (take n (drop i p)) else None)"

text \<open>The short-circuit \<open>&&\<close> of conditions that load from memory.\<close>

definition andM :: "bool option \<Rightarrow> bool option \<Rightarrow> bool option" where
  "andM a b = do { x \<leftarrow> a; if x then b else Some False }"

lemma peek_in [mem_simps]: "i < length p \<Longrightarrow> peek p i = Some (p ! i)"
  by (simp add: peek_def)

lemma peek_eq_Some: "peek p i = Some x \<longleftrightarrow> i < length p \<and> p ! i = x"
  by (simp add: peek_def)

lemma poke_in [mem_simps]:
  "i + length xs \<le> length p \<Longrightarrow> poke p i xs = Some (take i p @ xs @ drop (i + length xs) p)"
  by (simp add: poke_def)

lemma load_in [mem_simps]: "i + n \<le> length p \<Longrightarrow> load p i n = Some (take n (drop i p))"
  by (simp add: load_def)

lemma load_length: "load p i n = Some b \<Longrightarrow> length b = n"
  by (auto simp: load_def split: if_splits)

lemma poke_length: "poke p i xs = Some q \<Longrightarrow> length q = length p"
  by (auto simp: poke_def split: if_splits)

lemma load_poke:
  assumes "poke p i xs = Some q" "n = length xs"
  shows "load q i n = Some xs"
  using assms by (auto simp: poke_def load_def split: if_splits)

lemma andM_simps [simp]:
  "andM (Some True) b = b" "andM (Some False) b = Some False" "andM None b = None"
  by (simp_all add: andM_def)

lemma andM_Some_True: "andM a b = Some True \<longleftrightarrow> a = Some True \<and> b = Some True"
  by (cases a) (auto simp: andM_def)

lemma take_poke_front: "poke p i xs = Some q \<Longrightarrow> j + n \<le> i \<Longrightarrow> take n (drop j q) = take n (drop j p)"
  by (auto simp: poke_def drop_take split: if_splits)

lemma take_poke_back:
  assumes "poke p i xs = Some q" "i + length xs \<le> j"
  shows "drop j q = drop j p"
  using assms by (auto simp: poke_def split: if_splits)

section \<open>Words\<close>

lemma bit_u8_high [simp]: "8 \<le> n \<Longrightarrow> \<not> bit (a :: u8) n"
  by (auto dest: bit_imp_le_length)

lemma unat_add_le:
  fixes a b :: "'a :: len word"
  assumes "unat a + unat b < 2 ^ LENGTH('a)"
  shows "unat (a + b) = unat a + unat b"
  using assms unat_add_lem by blast

lemma unat_mult_le:
  fixes a b :: "'a :: len word"
  assumes "unat a * unat b < 2 ^ LENGTH('a)"
  shows "unat (a * b) = unat a * unat b"
  using assms unat_mult_lem by blast

lemma word_le_sub_unat:
  fixes a b :: "'a :: len word"
  assumes "b \<le> a"
  shows "unat (a - b) = unat a - unat b"
  using assms by (simp add: unat_sub word_le_nat_alt)

lemma unat_ucast_small:
  fixes w :: "'a :: len word"
  assumes "unat w < 2 ^ LENGTH('b)"
  shows "unat (ucast w :: 'b :: len word) = unat w"
  using assms by (simp add: unsigned_ucast_eq take_bit_nat_eq_self)

lemma unat_u32_lt: "unat (w :: u32) < 4294967296"
  using unsigned_less [of w] by simp

lemma unat_u64_lt: "unat (w :: u64) < 18446744073709551616"
  using unsigned_less [of w] by simp

lemma unat_u16_lt: "unat (w :: u16) < 65536"
  using unsigned_less [of w] by simp

lemma unat_ucast_32_64 [simp]: "unat (ucast (w :: u32) :: u64) = unat w"
  by (rule unat_ucast_small) (use unat_u32_lt [of w] in simp)

lemma unat_ucast_16_64 [simp]: "unat (ucast (w :: u16) :: u64) = unat w"
  by (rule unat_ucast_small) (use unat_u16_lt [of w] in simp)

lemma unat_ucast_16_32 [simp]: "unat (ucast (w :: u16) :: u32) = unat w"
  by (rule unat_ucast_small) (use unat_u16_lt [of w] in simp)

end
