(* ===== verification/Bytes.thy ===== *)
theory Bytes
  imports Prelude
begin

text \<open>
  The byte-order helpers of \<open>src/uefi_min.c\<close>: \<open>rd_*\<close> and \<open>wr_*\<close>, \<open>align_up_u64\<close>, and the
  freestanding \<open>memcmp\<close>. \<open>wr_be16\<close> and \<open>wr_be32\<close> take the buffer and the offset that the
  C code adds to its base. The locale \<open>codec\<close> is the contract the packet code relies on:
  a field that was written at an offset is the field that is read there, and the store
  leaves the rest of the buffer alone.
\<close>

section \<open>Readers\<close>

fun rd_le16 :: "bytes \<Rightarrow> u16 option" where
  "rd_le16 (a # b # _) = Some (ucast a OR push_bit 8 (ucast b))"
| "rd_le16 _ = None"

fun rd_le32 :: "bytes \<Rightarrow> u32 option" where
  "rd_le32 (a # b # c # d # _) =
     Some (ucast a OR push_bit 8 (ucast b) OR push_bit 16 (ucast c) OR push_bit 24 (ucast d))"
| "rd_le32 _ = None"

definition rd_le64 :: "bytes \<Rightarrow> u64 option" where
  "rd_le64 p = do {
     lo \<leftarrow> rd_le32 p;
     hi \<leftarrow> rd_le32 (drop 4 p);
     Some (ucast lo OR push_bit 32 (ucast hi)) }"

fun rd_be16 :: "bytes \<Rightarrow> u16 option" where
  "rd_be16 (a # b # _) = Some (push_bit 8 (ucast a) OR ucast b)"
| "rd_be16 _ = None"

fun rd_be32 :: "bytes \<Rightarrow> u32 option" where
  "rd_be32 (a # b # c # d # _) =
     Some (push_bit 24 (ucast a) OR push_bit 16 (ucast b) OR push_bit 8 (ucast c) OR ucast d)"
| "rd_be32 _ = None"

section \<open>Writers\<close>

text \<open>\<open>put_le16\<close> and \<open>put_le32\<close> are the little-endian writers of \<open>src/usb_transport.c\<close>,
  \<open>wr_be64_local\<close> and \<open>rd_be64_local\<close> the 64-bit pair of \<open>src/main.c\<close>.\<close>

definition be16_bytes :: "u16 \<Rightarrow> bytes" where
  "be16_bytes v = [ucast (drop_bit 8 v), ucast v]"

definition be32_bytes :: "u32 \<Rightarrow> bytes" where
  "be32_bytes v = [ucast (drop_bit 24 v), ucast (drop_bit 16 v), ucast (drop_bit 8 v), ucast v]"

definition wr_be16 :: "bytes \<Rightarrow> nat \<Rightarrow> u16 \<Rightarrow> bytes option" where
  "wr_be16 p i v = poke p i (be16_bytes v)"

definition wr_be32 :: "bytes \<Rightarrow> nat \<Rightarrow> u32 \<Rightarrow> bytes option" where
  "wr_be32 p i v = poke p i (be32_bytes v)"

definition le16_bytes :: "u16 \<Rightarrow> bytes" where
  "le16_bytes v = [ucast v, ucast (drop_bit 8 v)]"

definition le32_bytes :: "u32 \<Rightarrow> bytes" where
  "le32_bytes v = [ucast v, ucast (drop_bit 8 v), ucast (drop_bit 16 v), ucast (drop_bit 24 v)]"

definition put_le16 :: "bytes \<Rightarrow> nat \<Rightarrow> u16 \<Rightarrow> bytes option" where
  "put_le16 p i v = poke p i (le16_bytes v)"

definition put_le32 :: "bytes \<Rightarrow> nat \<Rightarrow> u32 \<Rightarrow> bytes option" where
  "put_le32 p i v = poke p i (le32_bytes v)"

definition wr_be64_local :: "bytes \<Rightarrow> nat \<Rightarrow> u64 \<Rightarrow> bytes option" where
  "wr_be64_local p i v = do {
     p \<leftarrow> wr_be32 p i (ucast (drop_bit 32 v));
     wr_be32 p (i + 4) (ucast v) }"

definition rd_be64_local :: "bytes \<Rightarrow> u64 option" where
  "rd_be64_local p = do {
     hi \<leftarrow> rd_be32 p;
     lo \<leftarrow> rd_be32 (drop 4 p);
     Some (push_bit 32 (ucast hi) OR ucast lo) }"

definition be64_bytes :: "u64 \<Rightarrow> bytes" where
  "be64_bytes v = be32_bytes (ucast (drop_bit 32 v)) @ be32_bytes (ucast v)"

lemma length_be_bytes [simp]:
  "length (be16_bytes v) = 2" "length (be32_bytes w) = 4" "length (be64_bytes x) = 8"
  "length (le16_bytes v) = 2" "length (le32_bytes w) = 4"
  by (simp_all add: be16_bytes_def be32_bytes_def be64_bytes_def le16_bytes_def le32_bytes_def)

section \<open>The contract of a fixed-width field\<close>

locale codec =
  fixes enc :: "'v \<Rightarrow> bytes" and dec :: "bytes \<Rightarrow> 'v option" and width :: nat
  assumes enc_length: "length (enc v) = width"
    and dec_enc: "dec (enc v @ r) = Some v"
    and enc_dec: "dec p = Some v \<Longrightarrow> take width p = enc v"
    and dec_None: "dec p = None \<longleftrightarrow> length p < width"
begin

lemma dec_total: "width \<le> length p \<Longrightarrow> \<exists>v. dec p = Some v"
  using dec_None [of p] by fastforce

lemma dec_drop_total: "i + width \<le> length p \<Longrightarrow> \<exists>v. dec (drop i p) = Some v"
  by (rule dec_total) simp

lemma dec_prefix:
  assumes "take width p = take width q" "width \<le> length p" "width \<le> length q"
  shows "dec p = dec q"
proof -
  obtain v where v: "dec p = Some v" using assms(2) dec_total by blast
  then have "q = enc v @ drop width q"
    using enc_dec [OF v] assms(1) by (metis append_take_drop_id)
  then have "dec q = Some v" using dec_enc by metis
  with v show ?thesis by simp
qed

text \<open>What is stored at an offset is what is loaded from it.\<close>

lemma dec_poke:
  assumes "poke p i (enc v) = Some q"
  shows "dec (drop i q) = Some v"
proof -
  from assms have "i \<le> length p" "q = take i p @ enc v @ drop (i + width) p"
    by (auto simp: poke_def enc_length split: if_splits)
  then show ?thesis by (simp add: dec_enc)
qed

text \<open>A field that does not overlap the store keeps its value.\<close>

lemma dec_poke_other:
  assumes q: "poke p i xs = Some q" and j: "j + width \<le> i \<or> i + length xs \<le> j"
  shows "dec (drop j q) = dec (drop j p)"
proof (cases "length p < j + width")
  case True
  then have "length (drop j p) < width \<or> width = 0"
    by (auto simp: less_diff_conv2)
  moreover have "length q = length p" using q by (rule poke_length)
  moreover have "dec (drop j q) = dec (drop j p)" if "width = 0"
    using dec_prefix that by simp
  ultimately show ?thesis using dec_None [of "drop j p"] dec_None [of "drop j q"] by auto
next
  case False
  have len: "length q = length p" using q by (rule poke_length)
  have "take width (drop j q) = take width (drop j p)"
    using j take_poke_front [OF q, of j width] take_poke_back [OF q, of j] by metis
  moreover have "width \<le> length (drop j q)" "width \<le> length (drop j p)"
    using False len by simp_all
  ultimately show ?thesis by (rule dec_prefix)
qed

text \<open>The encoding is injective, so distinct values have distinct wire images.\<close>

lemma enc_inject: "enc v = enc w \<longleftrightarrow> v = w"
  using dec_enc [of v "[]"] dec_enc [of w "[]"] by (metis option.inject)

end

lemma rd_be16_enc: "rd_be16 (be16_bytes v @ r) = Some v"
proof -
  have "push_bit 8 (ucast (ucast (drop_bit 8 v) :: u8)) OR ucast (ucast v :: u8) = v"
  proof (rule bit_word_eqI)
    fix n assume "n < LENGTH(16)"
    then show "bit (push_bit 8 (ucast (ucast (drop_bit 8 v) :: u8)) OR ucast (ucast v :: u8) :: u16) n
        = bit v n"
      by (cases "n < 8") (auto simp: bit_simps)
  qed
  then show ?thesis by (simp add: be16_bytes_def)
qed

lemma join_u32_bytes:
  "push_bit 24 (ucast (ucast (drop_bit 24 v) :: u8)) OR push_bit 16 (ucast (ucast (drop_bit 16 v) :: u8))
     OR push_bit 8 (ucast (ucast (drop_bit 8 v) :: u8)) OR ucast (ucast v :: u8) = (v :: u32)"
  (is "?w = v")
proof (rule bit_word_eqI)
  fix n assume n: "n < LENGTH(32)"
  consider "n < 8" | "8 \<le> n \<and> n < 16" | "16 \<le> n \<and> n < 24" | "24 \<le> n" by linarith
  then show "bit ?w n = bit v n" using n by cases (auto simp: bit_simps)
qed

lemma rd_be32_enc: "rd_be32 (be32_bytes v @ r) = Some v"
  by (simp add: be32_bytes_def join_u32_bytes)

lemma rd_le32_rev: "length p = 4 \<Longrightarrow> rd_le32 (p @ r) = rd_be32 (rev p @ s)"
  by (auto simp: length_Suc_conv numeral_eq_Suc ac_simps)

lemma rd_le16_rev: "length p = 2 \<Longrightarrow> rd_le16 (p @ r) = rd_be16 (rev p @ s)"
  by (auto simp: length_Suc_conv numeral_eq_Suc ac_simps)

lemma rev_le_bytes: "rev (le16_bytes v) = be16_bytes v" "rev (le32_bytes w) = be32_bytes w"
  by (simp_all add: le16_bytes_def le32_bytes_def be16_bytes_def be32_bytes_def)

lemma be16_bytes_join: "be16_bytes (push_bit 8 (ucast a) OR ucast b) = [a, b]"
  by (auto simp: be16_bytes_def bit_simps intro!: bit_word_eqI)

lemma be32_bytes_join:
  "be32_bytes (push_bit 24 (ucast a) OR push_bit 16 (ucast b) OR push_bit 8 (ucast c) OR ucast d)
     = [a, b, c, d]"
  by (auto simp: be32_bytes_def bit_simps intro!: bit_word_eqI)

lemma rd_be16_dec: "rd_be16 p = Some v \<Longrightarrow> take 2 p = be16_bytes v"
  by (cases p rule: rd_be16.cases) (auto simp: be16_bytes_join)

lemma rd_be32_dec: "rd_be32 p = Some v \<Longrightarrow> take 4 p = be32_bytes v"
  by (cases p rule: rd_be32.cases) (auto simp: be32_bytes_join)

lemma rd_None:
  "rd_be16 p = None \<longleftrightarrow> length p < 2" "rd_be32 p = None \<longleftrightarrow> length p < 4"
  "rd_le16 p = None \<longleftrightarrow> length p < 2" "rd_le32 p = None \<longleftrightarrow> length p < 4"
  by (cases p rule: rd_be16.cases; simp) (cases p rule: rd_be32.cases; simp)+

interpretation be16: codec be16_bytes rd_be16 2
  by unfold_locales (auto simp: rd_be16_enc rd_be16_dec rd_None)

interpretation be32: codec be32_bytes rd_be32 4
  by unfold_locales (auto simp: rd_be32_enc rd_be32_dec rd_None)

lemma le_enc:
  "rd_le16 (le16_bytes v @ r) = Some v" "rd_le32 (le32_bytes w @ r) = Some w"
  using rd_le16_rev [of "le16_bytes v" r "[]"] rd_le32_rev [of "le32_bytes w" r "[]"]
    rd_be16_enc [of v "[]"] rd_be32_enc [of w "[]"]
  by (simp_all add: rev_le_bytes)

lemma rd_le16_dec: "rd_le16 p = Some v \<Longrightarrow> take 2 p = le16_bytes v"
  by (cases p rule: rd_le16.cases) (auto simp: le16_bytes_def bit_simps intro!: bit_word_eqI)

lemma rd_le32_dec: "rd_le32 p = Some v \<Longrightarrow> take 4 p = le32_bytes v"
  by (cases p rule: rd_le32.cases) (auto simp: le32_bytes_def bit_simps intro!: bit_word_eqI)

interpretation le16: codec le16_bytes rd_le16 2
  by unfold_locales (auto simp: le_enc rd_le16_dec rd_None)

interpretation le32: codec le32_bytes rd_le32 4
  by unfold_locales (auto simp: le_enc rd_le32_dec rd_None)

lemma join_u64:
  "push_bit 32 (ucast (ucast (drop_bit 32 v) :: u32)) OR ucast (ucast v :: u32) = (v :: u64)"
  (is "?w = v")
proof (rule bit_word_eqI)
  fix n assume "n < LENGTH(64)"
  then show "bit ?w n = bit v n" by (cases "n < 32") (auto simp: bit_simps)
qed

lemma bit_u32_high [simp]: "32 \<le> n \<Longrightarrow> \<not> bit (a :: u32) n"
  by (auto dest: bit_imp_le_length)

lemma split_u64:
  fixes hi lo :: u32
  defines "w \<equiv> (push_bit 32 (ucast hi) OR ucast lo :: u64)"
  shows "ucast (drop_bit 32 w) = hi" "ucast w = lo"
  unfolding w_def by (auto simp: bit_simps intro!: bit_word_eqI)

lemma take_8_split: "take 8 p = take 4 p @ take 4 (drop 4 p)"
  using take_add [of 4 4 p] by simp

lemma rd_be64_dec:
  assumes "rd_be64_local p = Some v"
  shows "take 8 p = be64_bytes v"
proof -
  obtain hi lo where h: "rd_be32 p = Some hi" "rd_be32 (drop 4 p) = Some lo"
      "v = push_bit 32 (ucast hi) OR ucast lo"
    using assms by (auto simp: rd_be64_local_def bind_eq_Some_conv)
  show ?thesis
    using rd_be32_dec [OF h(1)] rd_be32_dec [OF h(2)]
    by (simp only: h(3) take_8_split be64_bytes_def split_u64)
qed

interpretation be64: codec be64_bytes rd_be64_local 8
proof
  show "length (be64_bytes v) = 8" for v by simp
  show "rd_be64_local (be64_bytes v @ r) = Some v" for v r
    by (simp add: rd_be64_local_def be64_bytes_def rd_be32_enc join_u64)
  show "rd_be64_local p = None \<longleftrightarrow> length p < 8" for p
    by (auto simp: rd_be64_local_def bind_eq_None_conv rd_None split: Option.bind_splits)
qed (rule rd_be64_dec)

text \<open>The two 32-bit stores of \<open>wr_be64_local\<close> are one 64-bit store.\<close>

lemma wr_be64_local_poke: "i + 8 \<le> length p \<Longrightarrow> wr_be64_local p i v = poke p i (be64_bytes v)"
  by (simp add: wr_be64_local_def wr_be32_def be64_bytes_def mem_simps ac_simps)

lemma rd_le64_Some: "8 \<le> length p \<Longrightarrow> \<exists>v. rd_le64 p = Some v"
  using le32.dec_total [of p] le32.dec_total [of "drop 4 p"] by (fastforce simp: rd_le64_def)

section \<open>Memory primitives\<close>

text \<open>\<open>memcpy\<close>, \<open>memset\<close> and \<open>memcmp\<close> as the byte loops of \<open>src/uefi_min.c\<close>. The destination
  is the buffer \<open>d\<close> from \<open>d[i]\<close> on, the source the buffer \<open>s\<close> from \<open>s[j]\<close> on; \<open>memcmp\<close>
  returns the difference of the first two bytes that differ.\<close>

fun memcpy :: "bytes \<Rightarrow> nat \<Rightarrow> bytes \<Rightarrow> nat \<Rightarrow> nat \<Rightarrow> bytes option" where
  "memcpy d i s j 0 = Some d"
| "memcpy d i s j (Suc len) = do {
     b \<leftarrow> peek s j;
     d \<leftarrow> poke d i [b];
     memcpy d (Suc i) s (Suc j) len }"

fun memset :: "bytes \<Rightarrow> nat \<Rightarrow> u8 \<Rightarrow> nat \<Rightarrow> bytes option" where
  "memset d i v 0 = Some d"
| "memset d i v (Suc len) = do {
     d \<leftarrow> poke d i [v];
     memset d (Suc i) v len }"

fun memcmp :: "bytes \<Rightarrow> nat \<Rightarrow> bytes \<Rightarrow> nat \<Rightarrow> nat \<Rightarrow> int option" where
  "memcmp a i b j 0 = Some 0"
| "memcmp a i b j (Suc len) = do {
     x \<leftarrow> peek a i;
     y \<leftarrow> peek b j;
     if x \<noteq> y then Some (uint x - uint y) else memcmp a (Suc i) b (Suc j) len }"

lemma memcpy_in [mem_simps]:
  "j + n \<le> length s \<Longrightarrow> i + n \<le> length d
    \<Longrightarrow> memcpy d i s j n = Some (take i d @ take n (drop j s) @ drop (i + n) d)"
proof (induction n arbitrary: d i j)
  case 0
  then show ?case by simp
next
  case (Suc n)
  then show ?case
    by (simp add: mem_simps Cons_nth_drop_Suc [symmetric] ac_simps)
qed

lemma memset_in [mem_simps]:
  "i + n \<le> length d \<Longrightarrow> memset d i v n = Some (take i d @ replicate n v @ drop (i + n) d)"
proof (induction n arbitrary: d i)
  case 0
  then show ?case by simp
next
  case (Suc n)
  then show ?case by (simp add: mem_simps ac_simps)
qed

lemma memcmp_zero_iff:
  "i + n \<le> length a \<Longrightarrow> j + n \<le> length b
    \<Longrightarrow> memcmp a i b j n = Some 0 \<longleftrightarrow> take n (drop i a) = take n (drop j b)"
proof (induction n arbitrary: i j)
  case 0
  then show ?case by simp
next
  case (Suc n)
  then show ?case by (auto simp: mem_simps Cons_nth_drop_Suc [symmetric] dest: word_uint_eqI)
qed

section \<open>Alignment\<close>

definition align_up_u64 :: "u64 \<Rightarrow> u64 \<Rightarrow> u64" where
  "align_up_u64 value alignment =
     (if alignment = 0 then value
      else let rem = value mod alignment
           in if rem \<noteq> 0 then value + alignment - rem else value)"

lemma round_up_nat:
  fixes a v :: nat
  assumes "0 < a"
  shows "a dvd v + (a - v mod a)" "v mod a \<noteq> 0 \<Longrightarrow> v + (a - v mod a) < v + a"
proof -
  have "v mod a < a" using assms by simp
  moreover have "v = v div a * a + v mod a" by (simp only: div_mult_mod_eq)
  ultimately have "v + (a - v mod a) = v div a * a + a" by linarith
  then show "a dvd v + (a - v mod a)" by simp
qed (use assms in simp)

lemma align_up_u64_unat:
  fixes a v :: u64
  assumes "a \<noteq> 0" "unat v + unat a \<le> 2 ^ 64"
  shows "unat (align_up_u64 v a) =
    (if unat v mod unat a = 0 then unat v else unat v + (unat a - unat v mod unat a))"
proof -
  let ?r = "v mod a"
  have r: "unat ?r = unat v mod unat a" by (simp add: unat_mod_distrib)
  have a: "0 < unat a" using assms by (simp add: unat_gt_0)
  have "unat (v + a - ?r) = unat v + (unat a - unat v mod unat a)" if "unat v mod unat a \<noteq> 0"
  proof -
    have le: "?r \<le> a" using a r by (simp add: word_le_nat_alt less_imp_le)
    then have s: "unat (a - ?r) = unat a - unat v mod unat a" by (simp add: unat_sub r)
    have "unat v mod unat a < unat a" using a by simp
    then have "unat v + unat (a - ?r) < 2 ^ 64" using that assms(2) s by linarith
    then have "unat (v + (a - ?r)) = unat v + unat (a - ?r)"
      by (simp add: unat_add_le)
    with s show ?thesis by (simp only: add_diff_eq)
  qed
  moreover have "?r = 0 \<longleftrightarrow> unat v mod unat a = 0" using r by (metis unat_eq_zero)
  ultimately show ?thesis using assms by (auto simp: align_up_u64_def Let_def)
qed

end
