(* ===== verification/Usb_Descriptors.thy ===== *)
theory Usb_Descriptors
  imports Bytes
begin

text \<open>
  The descriptors of the USB function: the structures of \<open>src/include/usbfn.h\<close>, the static ones
  of \<open>src/usb_transport.c\<close> (lines 21-68), and their bytes in memory: fields in order, at their
  natural alignment, little-endian, with the padding at the end of a structure zero, as in any
  static object. A table of pointers that ends in a null pointer is a list.
\<close>

section \<open>Structures\<close>

record USB_DEVICE_DESCRIPTOR =
  dd_Length :: u8
  dd_DescriptorType :: u8
  BcdUSB :: u16
  DeviceClass :: u8
  DeviceSubClass :: u8
  DeviceProtocol :: u8
  MaxPacketSize0 :: u8
  IdVendor :: u16
  IdProduct :: u16
  BcdDevice :: u16
  StrManufacturer :: u8
  StrProduct :: u8
  StrSerialNumber :: u8
  NumConfigurations :: u8

record USB_CONFIG_DESCRIPTOR =
  cd_Length :: u8
  cd_DescriptorType :: u8
  TotalLength :: u16
  NumInterfaces :: u8
  ConfigurationValue :: u8
  Configuration :: u8
  cd_Attributes :: u8
  MaxPower :: u8

record USB_INTERFACE_DESCRIPTOR =
  id_Length :: u8
  id_DescriptorType :: u8
  InterfaceNumber :: u8
  AlternateSetting :: u8
  NumEndpoints :: u8
  InterfaceClass :: u8
  InterfaceSubClass :: u8
  InterfaceProtocol :: u8
  Interface :: u8

record USB_ENDPOINT_DESCRIPTOR =
  ed_Length :: u8
  ed_DescriptorType :: u8
  EndpointAddress :: u8
  ed_Attributes :: u8
  MaxPacketSize :: u16
  Interval :: u8

record EFI_USB_INTERFACE_INFO =
  InterfaceDescriptor :: USB_INTERFACE_DESCRIPTOR
  EndpointDescriptorTable :: "USB_ENDPOINT_DESCRIPTOR list"

record EFI_USB_CONFIG_INFO =
  ConfigDescriptor :: USB_CONFIG_DESCRIPTOR
  InterfaceInfoTable :: "EFI_USB_INTERFACE_INFO list"

record EFI_USB_DEVICE_INFO =
  DeviceDescriptor :: USB_DEVICE_DESCRIPTOR
  ConfigInfoTable :: "EFI_USB_CONFIG_INFO list"

section \<open>Their bytes\<close>

definition device_image :: "USB_DEVICE_DESCRIPTOR \<Rightarrow> bytes" where
  "device_image d = [dd_Length d, dd_DescriptorType d] @ le16_bytes (BcdUSB d)
     @ [DeviceClass d, DeviceSubClass d, DeviceProtocol d, MaxPacketSize0 d]
     @ le16_bytes (IdVendor d) @ le16_bytes (IdProduct d) @ le16_bytes (BcdDevice d)
     @ [StrManufacturer d, StrProduct d, StrSerialNumber d, NumConfigurations d]"

definition config_image :: "USB_CONFIG_DESCRIPTOR \<Rightarrow> bytes" where
  "config_image c = [cd_Length c, cd_DescriptorType c] @ le16_bytes (TotalLength c)
     @ [NumInterfaces c, ConfigurationValue c, Configuration c, cd_Attributes c, MaxPower c] @ [0]"

definition interface_image :: "USB_INTERFACE_DESCRIPTOR \<Rightarrow> bytes" where
  "interface_image i = [id_Length i, id_DescriptorType i, InterfaceNumber i, AlternateSetting i,
     NumEndpoints i, InterfaceClass i, InterfaceSubClass i, InterfaceProtocol i, Interface i]"

definition endpoint_image :: "USB_ENDPOINT_DESCRIPTOR \<Rightarrow> bytes" where
  "endpoint_image e = [ed_Length e, ed_DescriptorType e, EndpointAddress e, ed_Attributes e]
     @ le16_bytes (MaxPacketSize e) @ [Interval e] @ [0]"

lemma image_lengths [simp]:
  "length (device_image d) = 18" "length (config_image c) = 10" "length (interface_image i) = 9"
  "length (endpoint_image e) = 8"
  by (simp_all add: device_image_def config_image_def interface_image_def endpoint_image_def le16_bytes_def)

section \<open>The descriptors of this device\<close>

definition USB_DESC_TYPE_DEVICE :: u8 where "USB_DESC_TYPE_DEVICE = 1"
definition USB_DESC_TYPE_CONFIG :: u8 where "USB_DESC_TYPE_CONFIG = 2"
definition USB_DESC_TYPE_STRING :: u8 where "USB_DESC_TYPE_STRING = 3"
definition USB_DESC_TYPE_BOS :: u8 where "USB_DESC_TYPE_BOS = 15"
definition USB_VENDOR_CODE_MS :: u8 where "USB_VENDOR_CODE_MS = 0xaa"

definition g_device :: USB_DEVICE_DESCRIPTOR where
  "g_device = \<lparr>dd_Length = 18, dd_DescriptorType = USB_DESC_TYPE_DEVICE, BcdUSB = 0x0200,
     DeviceClass = 0xff, DeviceSubClass = 0, DeviceProtocol = 0, MaxPacketSize0 = 64,
     IdVendor = 0x045e, IdProduct = 0x062a, BcdDevice = 0x0100,
     StrManufacturer = 1, StrProduct = 2, StrSerialNumber = 3, NumConfigurations = 1\<rparr>"

definition g_config :: USB_CONFIG_DESCRIPTOR where
  "g_config = \<lparr>cd_Length = 9, cd_DescriptorType = USB_DESC_TYPE_CONFIG, TotalLength = 32, NumInterfaces = 1,
     ConfigurationValue = 1, Configuration = 0, cd_Attributes = 0x80, MaxPower = 250\<rparr>"

definition g_interface :: USB_INTERFACE_DESCRIPTOR where
  "g_interface = \<lparr>id_Length = 9, id_DescriptorType = 4, InterfaceNumber = 0, AlternateSetting = 0,
     NumEndpoints = 2, InterfaceClass = 0xff, InterfaceSubClass = 0x42, InterfaceProtocol = 0x01, Interface = 0\<rparr>"

definition g_ep_out :: USB_ENDPOINT_DESCRIPTOR where
  "g_ep_out = \<lparr>ed_Length = 7, ed_DescriptorType = 5, EndpointAddress = 0x01, ed_Attributes = 2,
     MaxPacketSize = 512, Interval = 0\<rparr>"

definition g_ep_in :: USB_ENDPOINT_DESCRIPTOR where
  "g_ep_in = \<lparr>ed_Length = 7, ed_DescriptorType = 5, EndpointAddress = 0x81, ed_Attributes = 2,
     MaxPacketSize = 512, Interval = 0\<rparr>"

definition g_if_info :: EFI_USB_INTERFACE_INFO where
  "g_if_info = \<lparr>InterfaceDescriptor = g_interface, EndpointDescriptorTable = [g_ep_out, g_ep_in]\<rparr>"

definition g_cfg_info :: EFI_USB_CONFIG_INFO where
  "g_cfg_info = \<lparr>ConfigDescriptor = g_config, InterfaceInfoTable = [g_if_info]\<rparr>"

definition g_dev_info :: EFI_USB_DEVICE_INFO where
  "g_dev_info = \<lparr>DeviceDescriptor = g_device, ConfigInfoTable = [g_cfg_info]\<rparr>"

lemmas descriptor_defs = g_device_def g_config_def g_interface_def g_ep_out_def g_ep_in_def
  device_image_def config_image_def interface_image_def endpoint_image_def

definition g_bos_desc :: bytes where
  "g_bos_desc = [0x05, 0x0f, 0x16, 0x00, 0x01,
     0x07, 0x10, 0x02, 0x02, 0x00, 0x00, 0x00,
     0x0a, 0x10, 0x03, 0x00, 0x0e, 0x00, 0x01, 0x0a, 0xff, 0x07]"

definition g_ms_os_string :: bytes where
  "g_ms_os_string = [18, 3, 77, 0, 83, 0, 70, 0, 84, 0, 49, 0, 48, 0, 48, 0, USB_VENDOR_CODE_MS, 0]"

definition g_ms_compat_id :: bytes where
  "g_ms_compat_id = [0x28, 0x00, 0x00, 0x00, 0x00, 0x01, 0x04, 0x00,
     0x01, 0x00, 0x00, 0x00, 0x00, 0x00, 0x00, 0x00,
     0x00, 0x01] @ map of_char ''WINUSB'' @
     [0x00, 0x00, 0x00, 0x00, 0x00, 0x00,
     0x00, 0x00, 0x00, 0x00, 0x00, 0x00,
     0x00, 0x00, 0x00, 0x00]"

section \<open>Reading descriptors\<close>

text \<open>What a host does with a configuration: it reads one structure after the other, by the counts
  in them. Each reader checks the length byte and the type and returns the rest.\<close>

fun rd_config :: "bytes \<Rightarrow> (USB_CONFIG_DESCRIPTOR \<times> bytes) option" where
  "rd_config (l # t # a # b # n # v # c # at # p # r) =
     (if l \<noteq> 9 \<or> t \<noteq> USB_DESC_TYPE_CONFIG then None
      else do { total \<leftarrow> rd_le16 [a, b];
        Some (\<lparr>cd_Length = l, cd_DescriptorType = t, TotalLength = total, NumInterfaces = n,
          ConfigurationValue = v, Configuration = c, cd_Attributes = at, MaxPower = p\<rparr>, r) })"
| "rd_config _ = None"

fun rd_interface :: "bytes \<Rightarrow> (USB_INTERFACE_DESCRIPTOR \<times> bytes) option" where
  "rd_interface (l # t # n # a # e # c # sc # p # i # r) =
     (if l \<noteq> 9 \<or> t \<noteq> 4 then None
      else Some (\<lparr>id_Length = l, id_DescriptorType = t, InterfaceNumber = n, AlternateSetting = a, NumEndpoints = e,
        InterfaceClass = c, InterfaceSubClass = sc, InterfaceProtocol = p, Interface = i\<rparr>, r))"
| "rd_interface _ = None"

fun rd_endpoint :: "bytes \<Rightarrow> (USB_ENDPOINT_DESCRIPTOR \<times> bytes) option" where
  "rd_endpoint (l # t # ad # at # a # b # i # r) =
     (if l \<noteq> 7 \<or> t \<noteq> 5 then None
      else do { m \<leftarrow> rd_le16 [a, b];
        Some (\<lparr>ed_Length = l, ed_DescriptorType = t, EndpointAddress = ad, ed_Attributes = at, MaxPacketSize = m, Interval = i\<rparr>, r) })"
| "rd_endpoint _ = None"

fun rd_many :: "(bytes \<Rightarrow> ('a \<times> bytes) option) \<Rightarrow> nat \<Rightarrow> bytes \<Rightarrow> ('a list \<times> bytes) option" where
  "rd_many f 0 p = Some ([], p)"
| "rd_many f (Suc n) p = do {
     (x, p) \<leftarrow> f p;
     (xs, p) \<leftarrow> rd_many f n p;
     Some (x # xs, p) }"

definition rd_interface_info :: "bytes \<Rightarrow> (EFI_USB_INTERFACE_INFO \<times> bytes) option" where
  "rd_interface_info p = do {
     (i, p) \<leftarrow> rd_interface p;
     (es, p) \<leftarrow> rd_many rd_endpoint (unat (NumEndpoints i)) p;
     Some (\<lparr>InterfaceDescriptor = i, EndpointDescriptorTable = es\<rparr>, p) }"

definition rd_configuration :: "bytes \<Rightarrow> EFI_USB_CONFIG_INFO option" where
  "rd_configuration p = do {
     (c, r) \<leftarrow> rd_config p;
     (is, r) \<leftarrow> rd_many rd_interface_info (unat (NumInterfaces c)) r;
     if r = [] \<and> unat (TotalLength c) = length p
     then Some \<lparr>ConfigDescriptor = c, InterfaceInfoTable = is\<rparr> else None }"

text \<open>The pieces of a string of structures that start with their own length.\<close>

fun split_lengths :: "nat \<Rightarrow> bytes \<Rightarrow> bytes list option" where
  "split_lengths n [] = Some []"
| "split_lengths 0 (l # r) = None"
| "split_lengths (Suc n) (l # r) =
     (if l = 0 \<or> length (l # r) < unat l then None
      else map_option (Cons (take (unat l) (l # r))) (split_lengths n (drop (unat l) (l # r))))"

text \<open>The device object store announces one capability, but is followed by two.\<close>

lemma bos_counts_one:
  "g_bos_desc ! 4 = 1 \<and> rd_le16 (drop 2 g_bos_desc) = Some (of_nat (length g_bos_desc))
    \<and> map_option length (split_lengths 17 (drop 5 g_bos_desc)) = Some 2"
  by code_simp

end
