(* ===== verification/Firmware.thy ===== *)
theory Firmware
  imports Usb_Descriptors
begin

text \<open>
  The boundary to the UEFI firmware. Every call the code makes through a protocol or a
  services table appends one event to the trace of the world, and what the firmware
  answers is a parameter of the model: a record \<open>env\<close> of functions from the trace
  (which ends in the call being answered) to the answer. Any firmware whose answers depend
  on what it was asked so far is a value of \<open>env\<close>; nothing is assumed of it here. The USB
  messages that the firmware's event handler will report are the list \<open>polls\<close>.
\<close>

section \<open>Device data\<close>

record EFI_BLOCK_IO_MEDIA =
  MediaId :: u32
  RemovableMedia :: bool
  MediaPresent :: bool
  LogicalPartition :: bool
  ReadOnly :: bool
  WriteCaching :: bool
  BlockSize :: u32
  IoAlign :: u32
  LastBlock :: u64
  LowestAlignedLba :: u64
  LogicalBlocksPerPhysicalBlock :: u32
  OptimalTransferLengthGranularity :: u32

text \<open>A Block I/O protocol instance: its \<open>Media\<close> pointer (possibly null) and whether it
  offers \<open>FlushBlocks\<close>.\<close>

record EFI_BLOCK_IO_PROTOCOL =
  Media :: "EFI_BLOCK_IO_MEDIA option"
  FlushBlocks :: bool

text \<open>One message of the USB function event handler: the message id, the raw setup packet
  or transfer result that it carries, and what the controller stored in the receive buffer.\<close>

record USB_SETUP_PACKET =
  RequestType :: u8
  Request :: u8
  Value :: u16
  Index :: u16
  Length :: u16

record USBFN_TRANSFER_RESULT =
  BytesTransferred :: u64
  TransferStatus :: u32
  EndpointIndex :: u8

datatype usbfn_poll =
    Poll_Error EFI_STATUS
  | Poll_Setup USB_SETUP_PACKET
  | Poll_Rx USBFN_TRANSFER_RESULT bytes
  | Poll_Tx USBFN_TRANSFER_RESULT
  | Poll_Speed u64
  | Poll_Detach
  | Poll_Reset
  | Poll_Other u32

section \<open>Protocols\<close>

record EFI_GUID =
  Data1 :: u32
  Data2 :: u16
  Data3 :: u16
  Data4 :: bytes

definition gEfiLoadedImageProtocolGuid :: EFI_GUID where
  "gEfiLoadedImageProtocolGuid = \<lparr>Data1 = 0x5B1B31A1, Data2 = 0x9562, Data3 = 0x11D2,
     Data4 = [0x8E, 0x3F, 0x00, 0xA0, 0xC9, 0x69, 0x72, 0x3B]\<rparr>"

definition gEfiSimpleFileSystemProtocolGuid :: EFI_GUID where
  "gEfiSimpleFileSystemProtocolGuid = \<lparr>Data1 = 0x0964E5B22, Data2 = 0x6459, Data3 = 0x11D2,
     Data4 = [0x8E, 0x39, 0x00, 0xA0, 0xC9, 0x69, 0x72, 0x3B]\<rparr>"

definition gEfiBlockIoProtocolGuid :: EFI_GUID where
  "gEfiBlockIoProtocolGuid = \<lparr>Data1 = 0x964E5B21, Data2 = 0x6459, Data3 = 0x11D2,
     Data4 = [0x8E, 0x39, 0x00, 0xA0, 0xC9, 0x69, 0x72, 0x3B]\<rparr>"

definition gEfiUsbFnIoProtocolGuid :: EFI_GUID where
  "gEfiUsbFnIoProtocolGuid = \<lparr>Data1 = 0x32D2963A, Data2 = 0xFE5D, Data3 = 0x4F30,
     Data4 = [0xB6, 0x33, 0x6E, 0x5D, 0xC5, 0x58, 0x03, 0xCC]\<rparr>"

section \<open>Calls\<close>

datatype event =
    OutputString "CHAR16 list"
  | AllocatePool u64
  | FreePool
  | HandleProtocol EFI_GUID
  | LocateHandleBuffer EFI_GUID
  | LocateProtocol EFI_GUID
  | OpenVolume
  | FileOpen "CHAR16 list" u64 u64
  | FileClose
  | FileSetPosition u64
  | FileGetPosition
  | FileRead u64
  | ReadBlocks u32 u64 u64
  | WriteBlocks u32 u64 u64 bytes
  | DoFlushBlocks
  | GetVariable bytes bytes u64
  | SetVariable bytes bytes u32 bytes
  | TransferOut u8 u64
  | TransferIn u8 bytes
  | SetEndpointStallState u8 bool
  | AbortTransfer u8 bool
  | DetectPort
  | GetMaxTransferSize
  | AllocateTransferBuffer u64
  | FreeTransferBuffer
  | StartController
  | StopController
  | ConfigureEnableEndpoints EFI_USB_DEVICE_INFO

record world =
  trace :: "event list"
  polls :: "usbfn_poll list"

text \<open>The system table: which of its pointers the firmware has set. The program keeps the pointer
  to the table in \<open>g_st\<close>; what is behind the pointers are the other fields of \<open>env\<close>.\<close>

record EFI_SYSTEM_TABLE =
  ConOut :: bool
  RuntimeServices :: bool
  BootServices :: bool

record env =
  g_st :: "EFI_SYSTEM_TABLE option"
  alloc_pool :: "event list \<Rightarrow> EFI_STATUS"
  set_position :: "event list \<Rightarrow> EFI_STATUS"
  get_position :: "event list \<Rightarrow> EFI_STATUS \<times> u64"
  file_read :: "event list \<Rightarrow> EFI_STATUS \<times> bytes"
  read_blocks :: "event list \<Rightarrow> EFI_STATUS \<times> bytes"
  write_blocks :: "event list \<Rightarrow> EFI_STATUS"
  flush_blocks :: "event list \<Rightarrow> EFI_STATUS"
  get_variable :: "event list \<Rightarrow> EFI_STATUS \<times> u32 \<times> u64 \<times> bytes"
  set_variable :: "event list \<Rightarrow> EFI_STATUS"
  has_get_variable :: bool
  has_set_variable :: bool
  has_locate_protocol :: bool
  locate_protocol :: "event list \<Rightarrow> EFI_STATUS \<times> bool"
  has_detect_port :: bool
  has_get_max_transfer :: bool
  has_alloc_buffer :: bool
  has_free_buffer :: bool
  has_start_controller :: bool
  has_stop_controller :: bool
  has_abort_transfer :: bool
  get_max_transfer :: "event list \<Rightarrow> EFI_STATUS \<times> u64"
  alloc_buffer :: "event list \<Rightarrow> EFI_STATUS \<times> bytes option"
  start_controller :: "event list \<Rightarrow> EFI_STATUS"
  configure_endpoints :: "event list \<Rightarrow> EFI_STATUS"
  usb_transfer :: "event list \<Rightarrow> EFI_STATUS"
  usb_stall :: "event list \<Rightarrow> EFI_STATUS"
  handle_protocol :: "event list \<Rightarrow> EFI_STATUS"
  locate_handles :: "event list \<Rightarrow> EFI_STATUS \<times> EFI_BLOCK_IO_PROTOCOL option list"
  open_volume :: "event list \<Rightarrow> EFI_STATUS"
  open_file :: "event list \<Rightarrow> EFI_STATUS"

section \<open>The system table\<close>

definition uefi_set_system_table :: "EFI_SYSTEM_TABLE option \<Rightarrow> env \<Rightarrow> env" where
  "uefi_set_system_table st E = E\<lparr>g_st := st\<rparr>"

definition uefi_system_table :: "env \<Rightarrow> EFI_SYSTEM_TABLE option" where
  "uefi_system_table E = g_st E"

definition uefi_bs :: "env \<Rightarrow> bool" where
  "uefi_bs E \<longleftrightarrow> (case g_st E of None \<Rightarrow> False | Some st \<Rightarrow> BootServices st)"

definition uefi_rs :: "env \<Rightarrow> bool" where
  "uefi_rs E \<longleftrightarrow> (case g_st E of None \<Rightarrow> False | Some st \<Rightarrow> RuntimeServices st)"

definition con_out :: "env \<Rightarrow> bool" where
  "con_out E \<longleftrightarrow> (case g_st E of None \<Rightarrow> False | Some st \<Rightarrow> ConOut st)"

lemma system_table_set [simp]: "uefi_set_system_table (uefi_system_table E) E = E"
  by (simp add: uefi_set_system_table_def uefi_system_table_def)

definition emit :: "event \<Rightarrow> world \<Rightarrow> world" where
  "emit e w = w\<lparr>trace := trace w @ [e]\<rparr>"

lemma emit_simps [simp]:
  "trace (emit e w) = trace w @ [e]" "polls (emit e w) = polls w"
  by (simp_all add: emit_def)

text \<open>The trace only grows; \<open>grew w w'\<close> says that \<open>w'\<close> is later than \<open>w\<close>.\<close>

definition grew :: "world \<Rightarrow> world \<Rightarrow> bool" where
  "grew w w' \<longleftrightarrow> (\<exists>es. trace w' = trace w @ es)"

lemma grew_refl [simp]: "grew w w"
  by (simp add: grew_def)

lemma grew_trans [trans]: "grew u v \<Longrightarrow> grew v w \<Longrightarrow> grew u w"
  by (auto simp: grew_def)

lemma grew_emit [simp]: "grew w v \<Longrightarrow> grew w (emit e v)"
  by (auto simp: grew_def)

lemma grew_later: "grew (emit e w) v \<Longrightarrow> grew w v"
  by (auto simp: grew_def)

lemma grew_polls [simp]: "grew w (v\<lparr>polls := ps\<rparr>) = grew w v" "grew (w\<lparr>polls := ps\<rparr>) v = grew w v"
  by (simp_all add: grew_def)

section \<open>Pool memory\<close>

text \<open>\<open>uefi_alloc\<close> returns zeroed memory of the requested size (at least one byte), or null.\<close>

definition uefi_alloc :: "env \<Rightarrow> u64 \<Rightarrow> world \<Rightarrow> bytes option \<times> world" where
  "uefi_alloc E req w =
     (let n = (if req = 0 then 1 else req)
      in if \<not> uefi_bs E then (None, w)
         else let w = emit (AllocatePool n) w
              in if EFI_ERROR (alloc_pool E (trace w)) then (None, w)
                 else (Some (replicate (unat n) 0), w))"

text \<open>\<open>uefi_free\<close> of a pointer that may be null.\<close>

definition uefi_free :: "env \<Rightarrow> bool \<Rightarrow> world \<Rightarrow> world" where
  "uefi_free E nonnull w = (if nonnull \<and> uefi_bs E then emit FreePool w else w)"

lemma uefi_alloc_polls [simp]: "uefi_alloc E n w = (p, w') \<Longrightarrow> polls w' = polls w"
  by (auto simp: uefi_alloc_def Let_def split: if_splits)

lemma grew_alloc: "uefi_alloc E n v = (p, v') \<Longrightarrow> grew w v \<Longrightarrow> grew w v'"
  by (auto simp: uefi_alloc_def Let_def split: if_splits)

lemma grew_free [simp]: "grew w v \<Longrightarrow> grew w (uefi_free E b v)"
  by (simp add: uefi_free_def)

text \<open>Firmware that never runs out of memory.\<close>

definition memory_ok :: "env \<Rightarrow> bool" where
  "memory_ok E \<longleftrightarrow> uefi_bs E \<and> (\<forall>t. \<not> EFI_ERROR (alloc_pool E t))"

lemma alloc_ok: "memory_ok E \<Longrightarrow> \<exists>b v. uefi_alloc E n w = (Some b, v)"
  by (simp add: uefi_alloc_def memory_ok_def Let_def)

lemma alloc_zeros: "memory_ok E \<Longrightarrow> n \<noteq> 0 \<Longrightarrow> uefi_alloc E n w = (Some (replicate (unat n) 0), emit (AllocatePool n) w)"
  by (simp add: uefi_alloc_def memory_ok_def Let_def)

lemma uefi_alloc_length: "uefi_alloc E n w = (Some b, w') \<Longrightarrow> n \<noteq> 0 \<Longrightarrow> length b = unat n"
  by (auto simp: uefi_alloc_def Let_def split: if_splits)

section \<open>Block I/O\<close>

definition WriteBlocks_call :: "env \<Rightarrow> u32 \<Rightarrow> u64 \<Rightarrow> u64 \<Rightarrow> bytes \<Rightarrow> world \<Rightarrow> EFI_STATUS \<times> world" where
  "WriteBlocks_call E m lba n d w =
     (let w = emit (WriteBlocks m lba n d) w in (write_blocks E (trace w), w))"

definition FlushBlocks_call :: "env \<Rightarrow> world \<Rightarrow> EFI_STATUS \<times> world" where
  "FlushBlocks_call E w = (let w = emit DoFlushBlocks w in (flush_blocks E (trace w), w))"

section \<open>Traces\<close>

text \<open>The block-device effect of a run: its writes, in order, as (LBA, data).\<close>

fun writes_of :: "event list \<Rightarrow> (u64 \<times> bytes) list" where
  "writes_of [] = []"
| "writes_of (WriteBlocks m lba n d # es) = (lba, d) # writes_of es"
| "writes_of (e # es) = writes_of es"

lemma writes_of_append [simp]: "writes_of (xs @ ys) = writes_of xs @ writes_of ys"
  by (induction xs rule: writes_of.induct) auto

definition disk_writes :: "world \<Rightarrow> (u64 \<times> bytes) list" where
  "disk_writes w = writes_of (trace w)"

lemma disk_writes_emit [simp]:
  "disk_writes (emit (WriteBlocks m lba n d) w) = disk_writes w @ [(lba, d)]"
  "disk_writes (emit (OutputString s) w) = disk_writes w"
  "disk_writes (emit (AllocatePool a) w) = disk_writes w"
  "disk_writes (emit FreePool w) = disk_writes w"
  "disk_writes (emit (FileSetPosition a) w) = disk_writes w"
  "disk_writes (emit (FileRead a) w) = disk_writes w"
  "disk_writes (emit DoFlushBlocks w) = disk_writes w"
  "disk_writes (emit (TransferIn i x) w) = disk_writes w"
  "disk_writes (emit (TransferOut i a) w) = disk_writes w"
  "disk_writes (emit (SetEndpointStallState i b) w) = disk_writes w"
  "disk_writes (emit (AbortTransfer i b) w) = disk_writes w"
  "disk_writes (emit (GetVariable x y a) w) = disk_writes w"
  "disk_writes (emit (SetVariable x y k z) w) = disk_writes w"
  "disk_writes (emit (ReadBlocks m lba n) w) = disk_writes w"
  by (simp_all add: disk_writes_def)

lemma disk_writes_alloc [simp]: "uefi_alloc E n w = (p, w') \<Longrightarrow> disk_writes w' = disk_writes w"
  by (auto simp: uefi_alloc_def Let_def split: if_splits)

lemma disk_writes_free [simp]: "disk_writes (uefi_free E b w) = disk_writes w"
  by (simp add: uefi_free_def)

text \<open>The writes that the device accepted: those of the events \<open>es\<close> that come after the history
  \<open>h\<close> and that were not answered with an error, as (media id, LBA, data); and those of a run
  from \<open>w\<close> to a later \<open>w'\<close>.\<close>

fun taken_of :: "env \<Rightarrow> event list \<Rightarrow> event list \<Rightarrow> (u32 \<times> u64 \<times> bytes) list" where
  "taken_of E h [] = []"
| "taken_of E h (WriteBlocks m lba n d # es) =
     (if EFI_ERROR (write_blocks E (h @ [WriteBlocks m lba n d])) then [] else [(m, lba, d)])
       @ taken_of E (h @ [WriteBlocks m lba n d]) es"
| "taken_of E h (e # es) = taken_of E (h @ [e]) es"

lemma taken_of_append: "taken_of E h (xs @ ys) = taken_of E h xs @ taken_of E (h @ xs) ys"
  by (induction E h xs rule: taken_of.induct) simp_all

definition taken :: "env \<Rightarrow> world \<Rightarrow> world \<Rightarrow> (u32 \<times> u64 \<times> bytes) list" where
  "taken E w w' = taken_of E (trace w) (drop (length (trace w)) (trace w'))"

lemma taken_refl [simp]: "taken E w w = []"
  by (simp add: taken_def)

lemma taken_append: "grew u v \<Longrightarrow> grew v w \<Longrightarrow> taken E u w = taken E u v @ taken E v w"
  by (auto simp: grew_def taken_def taken_of_append)

lemma taken_write: "taken E w (emit (WriteBlocks m lba n d) w)
    = (if EFI_ERROR (write_blocks E (trace w @ [WriteBlocks m lba n d])) then [] else [(m, lba, d)])"
  by (simp add: taken_def)

end
