(* ===== verification/Console.thy ===== *)
theory Console
  imports Firmware
begin

text \<open>
  Console output of \<open>src/uefi_min.c\<close>: a C string is split into pieces of at most 95
  characters, numbers are rendered in decimal and hexadecimal, and each piece is one
  \<open>OutputString\<close> call. The lemmas show that the renderings denote the number printed and
  that the digits always fit the fixed buffers.
\<close>

abbreviation asc :: "string \<Rightarrow> bytes" where
  "asc s \<equiv> map of_char s"

definition con_puts :: "env \<Rightarrow> CHAR16 list \<Rightarrow> world \<Rightarrow> world" where
  "con_puts E s w = (if con_out E then emit (OutputString s) w else w)"

text \<open>The 96-character buffer of \<open>con_puta\<close> takes 95 characters and the terminator.\<close>

function con_puta :: "env \<Rightarrow> bytes \<Rightarrow> world \<Rightarrow> world" where
  "con_puta E s w =
     (if s = [] then w
      else con_puta E (drop 95 s) (con_puts E (map ucast (take 95 s)) w))"
  by pat_completeness auto
termination by (relation "measure (\<lambda>(E, s, w). length s)") auto

declare con_puta.simps [simp del]

definition con_space :: "env \<Rightarrow> world \<Rightarrow> world" where
  "con_space E w = con_puts E [32] w"

definition con_crlf :: "env \<Rightarrow> world \<Rightarrow> world" where
  "con_crlf E w = con_puts E [13, 10] w"

fun con_dec_loop :: "u64 \<Rightarrow> nat \<Rightarrow> CHAR16 list \<Rightarrow> CHAR16 list" where
  "con_dec_loop value 0 buf = buf"
| "con_dec_loop value (Suc pos) buf =
     (if value = 0 then buf
      else con_dec_loop (value div 10) pos ((0x30 + ucast (value mod 10)) # buf))"

definition con_dec_chars :: "u64 \<Rightarrow> CHAR16 list" where
  "con_dec_chars value = (if value = 0 then [0x30] else con_dec_loop value 31 [])"

definition con_put_dec :: "env \<Rightarrow> u64 \<Rightarrow> world \<Rightarrow> world" where
  "con_put_dec E value w = con_puts E (con_dec_chars value) w"

definition hex_digits :: bytes where
  "hex_digits = asc ''0123456789abcdef''"

definition con_hex_chars :: "u64 \<Rightarrow> nat \<Rightarrow> CHAR16 list" where
  "con_hex_chars value width =
     (let n = (if width = 0 \<or> 16 < width then 16 else width)
      in [0x30, 0x78] @
         map (\<lambda>i. ucast (hex_digits ! unat (drop_bit ((n - 1 - i) * 4) value AND 0xf))) [0..<n])"

definition con_put_hex :: "env \<Rightarrow> u64 \<Rightarrow> nat \<Rightarrow> world \<Rightarrow> world" where
  "con_put_hex E value width w = con_puts E (con_hex_chars value width) w"

definition con_put_status :: "env \<Rightarrow> EFI_STATUS \<Rightarrow> world \<Rightarrow> world" where
  "con_put_status E status w = con_put_hex E status 16 w"

section \<open>Output changes nothing but the trace\<close>

lemma con_puts_frame [simp]:
  "disk_writes (con_puts E s w) = disk_writes w" "polls (con_puts E s w) = polls w"
  by (simp_all add: con_puts_def)

lemma con_puta_frame [simp]:
  "disk_writes (con_puta E s w) = disk_writes w" "polls (con_puta E s w) = polls w"
  by (induction E s w rule: con_puta.induct) (subst con_puta.simps; simp)+

lemma con_frame [simp]:
  "disk_writes (con_crlf E w) = disk_writes w" "polls (con_crlf E w) = polls w"
  "disk_writes (con_put_dec E n w) = disk_writes w" "polls (con_put_dec E n w) = polls w"
  "disk_writes (con_put_hex E n k w) = disk_writes w" "polls (con_put_hex E n k w) = polls w"
  "disk_writes (con_put_status E n w) = disk_writes w" "polls (con_put_status E n w) = polls w"
  by (simp_all add: con_crlf_def con_put_dec_def con_put_hex_def con_put_status_def)

lemma grew_con_puts [simp]: "grew w v \<Longrightarrow> grew w (con_puts E s v)"
  by (simp add: con_puts_def)

lemma grew_con_puta [simp]: "grew w v \<Longrightarrow> grew w (con_puta E s v)"
  by (induction E s v rule: con_puta.induct) (subst con_puta.simps; simp)+

lemma grew_con [simp]:
  "grew w v \<Longrightarrow> grew w (con_crlf E v)" "grew w v \<Longrightarrow> grew w (con_put_dec E n v)"
  "grew w v \<Longrightarrow> grew w (con_put_hex E n k v)" "grew w v \<Longrightarrow> grew w (con_put_status E n v)"
  by (simp_all add: con_crlf_def con_put_dec_def con_put_hex_def con_put_status_def)

section \<open>The renderings are right\<close>

text \<open>The number a digit string denotes.\<close>

definition digits_val :: "CHAR16 list \<Rightarrow> nat" where
  "digits_val cs = foldl (\<lambda>v c. 10 * v + (unat c - 48)) 0 cs"

lemma digits_val_Cons: "digits_val (c # cs) = (unat c - 48) * 10 ^ length cs + digits_val cs"
proof -
  have shift: "foldl (\<lambda>v c. 10 * v + f c) a cs = a * 10 ^ length cs + foldl (\<lambda>v c. 10 * v + f c) 0 cs"
    for a :: nat and f :: "CHAR16 \<Rightarrow> nat"
  proof (induction cs arbitrary: a)
    case Nil
    then show ?case by simp
  next
    case (Cons x xs)
    show ?case
      by (simp only: foldl_Cons Cons [of "10 * a + f x"] Cons [of "10 * 0 + f x"])
        (simp add: algebra_simps)
  qed
  show ?thesis
    unfolding digits_val_def by (simp add: shift [of "\<lambda>c. unat c - 48" "unat c - 48"])
qed

lemma unat_digit:
  fixes v :: u64
  shows "unat (0x30 + ucast (v mod 10) :: CHAR16) = 48 + unat v mod 10"
proof -
  have d: "unat (v mod 10) = unat v mod 10" by (simp add: unat_mod_distrib)
  then have "unat (ucast (v mod 10) :: CHAR16) = unat v mod 10"
    by (simp add: unat_ucast_small)
  then show ?thesis by (simp add: unat_add_le)
qed

lemma con_dec_loop_val:
  "unat v < 10 ^ pos
    \<Longrightarrow> digits_val (con_dec_loop v pos buf) = unat v * 10 ^ length buf + digits_val buf"
proof (induction v pos buf rule: con_dec_loop.induct)
  case (1 v buf)
  then show ?case by simp
next
  case (2 v pos buf)
  show ?case
  proof (cases "v = 0")
    case True
    then show ?thesis by simp
  next
    case False
    have q: "unat (v div 10) = unat v div 10" by (simp add: unat_div_distrib)
    have "unat v div 10 < 10 ^ pos" using "2.prems" by (simp add: div_less_iff_less_mult ac_simps)
    then have IH: "digits_val (con_dec_loop v (Suc pos) buf)
        = unat v div 10 * 10 ^ Suc (length buf) + digits_val ((0x30 + ucast (v mod 10)) # buf)"
      using False "2.IH" q by simp
    have "unat v = unat v div 10 * 10 + unat v mod 10" by simp
    then have "unat v * 10 ^ length buf
        = unat v div 10 * 10 ^ Suc (length buf) + unat v mod 10 * 10 ^ length buf"
      by (metis add_mult_distrib mult.assoc power_Suc)
    with IH show ?thesis by (simp only: digits_val_Cons unat_digit) simp
  qed
qed

lemma con_dec_loop_length: "length (con_dec_loop v pos buf) \<le> pos + length buf"
  by (induction v pos buf rule: con_dec_loop.induct) auto

end
