(* ===== verification/Options.thy ===== *)
theory Options
  imports Console "HOL-Library.Sublist"
begin

text \<open>
  The command line of \<open>src/main.c\<close> (lines 6-183): the tokens of the UEFI load options and the
  options they set. A pointer into the command line is the rest of it.
\<close>

section \<open>Data\<close>

record OPTIONS =
  show_help :: bool
  list_block :: bool
  packets :: bool
  flash_option :: bool
  usb_ffu :: bool
  yes :: bool
  target :: u32
  path :: "CHAR16 list option"
  path_len :: u64

record EFI_LOADED_IMAGE_PROTOCOL =
  LoadOptionsSize :: u32
  LoadOptions :: "CHAR16 list option"

section \<open>Characters and tokens\<close>

definition ch_is_space :: "CHAR16 \<Rightarrow> bool" where
  "ch_is_space ch \<longleftrightarrow> ch = 0x20 \<or> ch = 9 \<or> ch = 13 \<or> ch = 10"

definition ch_lower :: "CHAR16 \<Rightarrow> CHAR16" where
  "ch_lower ch = (if 0x41 \<le> ch \<and> ch \<le> 0x5a then ch + 32 else ch)"

definition token_is_efi_name :: "CHAR16 list \<Rightarrow> u64 \<Rightarrow> bool option" where
  "token_is_efi_name t len =
     (if len < 4 then Some False
      else andM (do { c \<leftarrow> peek t (unat (len - 4)); Some (c = 0x2e) })
        (andM (do { c \<leftarrow> peek t (unat (len - 3)); Some (ch_lower c = 0x65) })
          (andM (do { c \<leftarrow> peek t (unat (len - 2)); Some (ch_lower c = 0x66) })
                (do { c \<leftarrow> peek t (unat (len - 1)); Some (ch_lower c = 0x69) }))))"

text \<open>The common loop of the two comparisons: how far the string \<open>s\<close> matches the token from
  position \<open>i\<close> on, or a mismatch (\<open>None\<close> inside).\<close>

fun token_scan :: "CHAR16 list \<Rightarrow> nat \<Rightarrow> bytes \<Rightarrow> nat \<Rightarrow> nat option option" where
  "token_scan t len [] i = Some (Some i)"
| "token_scan t len (c # s) i =
     (if len \<le> i then Some None
      else do { x \<leftarrow> peek t i; if x \<noteq> ucast c then Some None else token_scan t len s (Suc i) })"

definition token_eq_ascii :: "CHAR16 list \<Rightarrow> u64 \<Rightarrow> string \<Rightarrow> bool option" where
  "token_eq_ascii t len s = do {
     r \<leftarrow> token_scan t (unat len) (asc s) 0;
     Some (case r of None \<Rightarrow> False | Some i \<Rightarrow> i = unat len) }"

text \<open>The length of the prefix, if the token starts with \<open>s\<close>.\<close>

definition token_starts_ascii :: "CHAR16 list \<Rightarrow> u64 \<Rightarrow> string \<Rightarrow> u64 option option" where
  "token_starts_ascii t len s = map_option (map_option of_nat) (token_scan t (unat len) (asc s) 0)"

fun parse_uint_loop :: "CHAR16 list \<Rightarrow> nat \<Rightarrow> nat \<Rightarrow> u32 \<Rightarrow> u32 option option" where
  "parse_uint_loop t i 0 v = Some (Some v)"
| "parse_uint_loop t i (Suc n) v = do {
     c \<leftarrow> peek t i;
     if c < 0x30 \<or> 0x39 < c then Some None
     else parse_uint_loop t (Suc i) n (v * 10 + ucast (c - 0x30)) }"

definition parse_uint_token :: "CHAR16 list \<Rightarrow> u64 \<Rightarrow> u32 option option" where
  "parse_uint_token t len = (if len = 0 then Some None else parse_uint_loop t 0 (unat len) 0)"

section \<open>Splitting the command line\<close>

text \<open>Both scans stop at the end of the buffer; \<open>left\<close> characters are left.\<close>

fun skip_spaces :: "CHAR16 list \<Rightarrow> nat \<Rightarrow> nat \<Rightarrow> nat option" where
  "skip_spaces cmd pos 0 = Some pos"
| "skip_spaces cmd pos (Suc left) = do {
     c \<leftarrow> peek cmd pos;
     if ch_is_space c then skip_spaces cmd (Suc pos) left else Some pos }"

fun token_end :: "CHAR16 list \<Rightarrow> bool \<Rightarrow> nat \<Rightarrow> nat \<Rightarrow> nat option" where
  "token_end cmd quoted pos 0 = Some pos"
| "token_end cmd quoted pos (Suc left) = do {
     c \<leftarrow> peek cmd pos;
     if c \<noteq> 0 \<and> (quoted \<and> c \<noteq> 0x22 \<or> \<not> quoted \<and> \<not> ch_is_space c)
     then token_end cmd quoted (Suc pos) left else Some pos }"

text \<open>The next token: its start, its end, and where to go on; \<open>None\<close> inside at the end of the
  line.\<close>

definition next_token :: "CHAR16 list \<Rightarrow> nat \<Rightarrow> nat \<Rightarrow> (nat \<times> nat \<times> nat) option option" where
  "next_token cmd len pos = do {
     pos \<leftarrow> skip_spaces cmd pos (len - pos);
     if len \<le> pos then Some None
     else do {
       c \<leftarrow> peek cmd pos;
       if c = 0 then Some None
       else do {
         let quoted = (c = 0x22);
         let start = (if quoted then Suc pos else pos);
         stop \<leftarrow> token_end cmd quoted start (len - start);
         close \<leftarrow> andM (Some (quoted \<and> stop < len)) (do { c \<leftarrow> peek cmd stop; Some (c = 0x22) });
         Some (Some (start, stop, if close then Suc stop else stop)) } } }"

section \<open>Parsing the options\<close>

text \<open>One token that is neither the program's name nor the value of \<open>--target\<close>. The flag says
  that the next token is that value; \<open>Inl\<close> is an error status.\<close>

definition plain_token ::
    "CHAR16 list \<Rightarrow> u64 \<Rightarrow> OPTIONS \<Rightarrow> (EFI_STATUS + OPTIONS) option" where
  "plain_token t len opts = do {
     prefix_len \<leftarrow> token_starts_ascii t len ''--target='';
     (case prefix_len of
        Some k \<Rightarrow> do {
          v \<leftarrow> parse_uint_token (drop (unat k) t) (len - k);
          Some (case v of None \<Rightarrow> Inl EFI_INVALID_PARAMETER | Some v \<Rightarrow> Inr (opts\<lparr>target := v\<rparr>)) }
      | None \<Rightarrow> Some (Inr (if path opts = None then opts\<lparr>path := Some t, path_len := len\<rparr> else opts))) }"

definition option_token ::
    "CHAR16 list \<Rightarrow> u64 \<Rightarrow> OPTIONS \<Rightarrow> (EFI_STATUS + OPTIONS \<times> bool) option" where
  "option_token t len opts = do {
     is_help \<leftarrow> token_eq_ascii t len ''--help'';
     is_h \<leftarrow> token_eq_ascii t len ''-h'';
     is_list \<leftarrow> token_eq_ascii t len ''--list-block'';
     is_packets \<leftarrow> token_eq_ascii t len ''--packets'';
     is_info \<leftarrow> token_eq_ascii t len ''--info'';
     is_flash \<leftarrow> token_eq_ascii t len ''--flash'';
     is_usb_ffu \<leftarrow> token_eq_ascii t len ''--usb-ffu'';
     is_usb \<leftarrow> token_eq_ascii t len ''--usb'';
     is_yes \<leftarrow> token_eq_ascii t len ''--yes'';
     is_target \<leftarrow> token_eq_ascii t len ''--target'';
     if is_help \<or> is_h then Some (Inr (opts\<lparr>show_help := True\<rparr>, False))
     else if is_list then Some (Inr (opts\<lparr>list_block := True\<rparr>, False))
     else if is_packets then Some (Inr (opts\<lparr>packets := True\<rparr>, False))
     else if is_info then Some (Inr (opts\<lparr>packets := False, flash_option := False\<rparr>, False))
     else if is_flash then Some (Inr (opts\<lparr>flash_option := True\<rparr>, False))
     else if is_usb_ffu \<or> is_usb then Some (Inr (opts\<lparr>usb_ffu := True\<rparr>, False))
     else if is_yes then Some (Inr (opts\<lparr>yes := True\<rparr>, False))
     else if is_target then Some (Inr (opts, True))
     else do {
       r \<leftarrow> plain_token t len opts;
       Some (case r of Inl st \<Rightarrow> Inl st | Inr opts \<Rightarrow> Inr (opts, False)) } }"

text \<open>The state of the loop: position, number of tokens, whether a target is expected.\<close>

record PARSE =
  pos :: nat
  token_index :: u64
  expect_target :: bool
  opts :: OPTIONS

definition parse_token :: "CHAR16 list \<Rightarrow> u64 \<Rightarrow> PARSE \<Rightarrow> (EFI_STATUS + PARSE) option" where
  "parse_token t len s = do {
     named \<leftarrow> andM (Some (token_index s = 0)) (token_is_efi_name t len);
     let s' = s\<lparr>token_index := token_index s + 1\<rparr>;
     if named then Some (Inr s')
     else if expect_target s then do {
       v \<leftarrow> parse_uint_token t len;
       Some (case v of None \<Rightarrow> Inl EFI_INVALID_PARAMETER
         | Some v \<Rightarrow> Inr (s'\<lparr>expect_target := False, opts := (opts s)\<lparr>target := v\<rparr>\<rparr>)) }
     else do {
       r \<leftarrow> option_token t len (opts s);
       Some (case r of Inl st \<Rightarrow> Inl st
         | Inr (o', e) \<Rightarrow> Inr (s'\<lparr>opts := o', expect_target := e\<rparr>)) } }"

text \<open>One round of the loop: \<open>Inl\<close> leaves it, with an error or with the final state.\<close>

definition parse_round ::
    "CHAR16 list \<Rightarrow> nat \<Rightarrow> PARSE \<Rightarrow> ((EFI_STATUS + PARSE) + PARSE) option" where
  "parse_round cmd len s = do {
     tok \<leftarrow> next_token cmd len (pos s);
     (case tok of None \<Rightarrow> Some (Inl (Inr s))
      | Some (start, stop, p) \<Rightarrow>
          if start = stop then Some (Inr (s\<lparr>pos := p\<rparr>))
          else do {
            r \<leftarrow> parse_token (drop start cmd) (of_nat (stop - start)) (s\<lparr>pos := p\<rparr>);
            Some (case r of Inl st \<Rightarrow> Inl (Inl st) | Inr s \<Rightarrow> Inr s) }) }"

text \<open>Every round moves on, so the loop ends.\<close>

lemma skip_spaces_mono: "skip_spaces cmd p n = Some q \<Longrightarrow> p \<le> q \<and> q \<le> p + n"
  by (induction cmd p n rule: skip_spaces.induct)
    (auto split: Option.bind_splits if_splits)

lemma token_end_mono: "token_end cmd b p n = Some q \<Longrightarrow> p \<le> q \<and> q \<le> p + n"
  by (induction cmd b p n rule: token_end.induct)
    (auto split: Option.bind_splits if_splits)

lemma token_end_step:
  assumes "token_end cmd False p n = Some q" "peek cmd p = Some c" "c \<noteq> 0" "\<not> ch_is_space c" "0 < n"
  shows "p < q"
proof (cases n)
  case (Suc m)
  then have "token_end cmd False (Suc p) m = Some q" using assms by simp
  then show ?thesis using token_end_mono by force
qed (use assms in simp)

lemma skip_spaces_stop: "skip_spaces cmd p n = Some q \<Longrightarrow> q < p + n \<Longrightarrow> \<exists>c. peek cmd q = Some c \<and> \<not> ch_is_space c"
  by (induction cmd p n rule: skip_spaces.induct)
    (auto split: Option.bind_splits if_splits)

lemma next_token_mono:
  assumes "next_token cmd len p = Some (Some (start, stop, q))"
  shows "p \<le> start" "start \<le> stop" "stop \<le> q" "q \<le> len" "p < q"
proof -
  obtain a where a: "skip_spaces cmd p (len - p) = Some a" and la: "a < len"
    using assms by (auto simp: next_token_def split: Option.bind_splits if_splits)
  obtain c where c: "peek cmd a = Some c" "c \<noteq> 0"
    using assms a la by (auto simp: next_token_def split: Option.bind_splits if_splits)
  have start: "start = (if c = 0x22 then Suc a else a)"
    and stop: "token_end cmd (c = 0x22) start (len - start) = Some stop"
    and q: "q = stop \<or> q = Suc stop \<and> stop < len"
    using assms a la c by (auto simp: next_token_def andM_def Let_def split: Option.bind_splits if_splits)
  have pa: "p \<le> a" using skip_spaces_mono [OF a] by simp
  note m = token_end_mono [OF stop]
  show "p \<le> start" "start \<le> stop" "stop \<le> q" "q \<le> len" using pa m q start la by auto
  have "a < stop" if "c \<noteq> 0x22"
  proof (rule token_end_step)
    show "token_end cmd False a (len - a) = Some stop" using stop start that by simp
    show "\<not> ch_is_space c" using skip_spaces_stop [OF a] la pa c by auto
  qed (use c la in simp_all)
  then show "p < q" using pa m q start by (auto split: if_splits)
qed

lemma parse_token_pos: "parse_token t len s = Some (Inr s') \<Longrightarrow> pos s' = pos s"
  by (auto simp: parse_token_def Let_def split: Option.bind_splits if_splits option.splits sum.splits prod.splits)

lemma parse_round_progress:
  assumes "parse_round cmd len s = Some (Inr s')"
  shows "pos s < pos s' \<and> pos s' \<le> len"
proof -
  obtain start stop p where t: "next_token cmd len (pos s) = Some (Some (start, stop, p))"
    using assms by (cases "next_token cmd len (pos s)") (auto simp: parse_round_def split: option.splits)
  have "pos s' = p" using assms t
    by (auto simp: parse_round_def dest: parse_token_pos split: if_splits Option.bind_splits sum.splits)
  then show ?thesis using next_token_mono [OF t] by simp
qed

function parse_loop :: "CHAR16 list \<Rightarrow> nat \<Rightarrow> PARSE \<Rightarrow> (EFI_STATUS + PARSE) option" where
  "parse_loop cmd len s =
     (if pos s < len then
        (case parse_round cmd len s of
           None \<Rightarrow> None
         | Some (Inl r) \<Rightarrow> Some r
         | Some (Inr s) \<Rightarrow> parse_loop cmd len s)
      else Some (Inr s))"
  by pat_completeness auto
termination
  by (relation "measure (\<lambda>(cmd, len, s). len - pos s)") (auto dest!: parse_round_progress)

declare parse_loop.simps [simp del]

definition default_options :: OPTIONS where
  "default_options = \<lparr>show_help = False, list_block = False, packets = False, flash_option = False,
     usb_ffu = False, yes = False, target = - 1, path = None, path_len = 0\<rparr>"

definition start_parse :: PARSE where
  "start_parse = \<lparr>pos = 0, token_index = 0, expect_target = False, opts = default_options\<rparr>"

text \<open>\<open>loaded\<close> is the loaded image protocol that the firmware hands out, possibly null. An error
  leaves the options as far as they were parsed; the caller does not look at them.\<close>

definition parse_options ::
    "env \<Rightarrow> EFI_LOADED_IMAGE_PROTOCOL option \<Rightarrow> world \<Rightarrow> (EFI_STATUS \<times> OPTIONS \<times> world) option" where
  "parse_options E loaded w =
     (let w = emit (HandleProtocol gEfiLoadedImageProtocolGuid) w; st = handle_protocol E (trace w);
          help_only = Some (EFI_SUCCESS, default_options\<lparr>show_help := True\<rparr>, w)
      in if \<not> uefi_bs E then None
         else if EFI_ERROR st then help_only
         else case loaded of None \<Rightarrow> help_only
         | Some img \<Rightarrow>
           (case LoadOptions img of None \<Rightarrow> help_only
            | Some cmd \<Rightarrow>
                if LoadOptionsSize img = 0 then help_only
                else do {
                  r \<leftarrow> parse_loop cmd (unat (LoadOptionsSize img) div 2) start_parse;
                  Some (case r of Inl st \<Rightarrow> (st, default_options, w)
                    | Inr s \<Rightarrow> if expect_target s then (EFI_INVALID_PARAMETER, opts s, w)
                        else (EFI_SUCCESS, opts s, w)) }))"

definition usage :: "env \<Rightarrow> world \<Rightarrow> world" where
  "usage E w = foldl (\<lambda>w s. con_crlf E (con_puta E (asc s) w)) w
     [''UfpFfu ARM64 UEFI app'', ''Usage: UfpFfu.efi --info <ffu>'', ''       UfpFfu.efi --packets <ffu>'',
      ''       UfpFfu.efi --list-block'', ''       UfpFfu.efi --flash <ffu> --target=N [--yes]'',
      ''       UfpFfu.efi --usb-ffu --target=N --yes'',
      ''Without --yes, --flash only validates the FFU write plan against Block I/O.'']"

section \<open>Tokens\<close>

lemma token_scan_eq:
  "len \<le> length t \<Longrightarrow> i \<le> len \<Longrightarrow> token_scan t len s i
    = Some (if prefix (map ucast s) (drop i (take len t)) then Some (i + length s) else None)"
proof (induction t len s i rule: token_scan.induct)
  case (2 t len c s i)
  show ?case
  proof (cases "len \<le> i")
    case False
    then have "drop i (take len t) = t ! i # drop (Suc i) (take len t)"
      using 2(2) by (simp add: Cons_nth_drop_Suc [symmetric])
    then show ?thesis using 2 False by (auto simp: peek_in)
  qed (use 2 in simp)
qed simp

lemma token_eq_ascii_eq:
  assumes "unat len \<le> length t"
  shows "token_eq_ascii t len s = Some (take (unat len) t = map ucast (asc s))"
proof -
  have "prefix xs ys \<and> length xs = length ys \<longleftrightarrow> ys = xs" for xs ys :: "CHAR16 list"
    by (auto simp: prefix_def)
  from this [of "map ucast (asc s)" "take (unat len) t"] show ?thesis
    using assms by (auto simp: token_eq_ascii_def token_scan_eq [OF assms] simp del: map_map)
qed

text \<open>A number is its digits in base ten, as a 32-bit word: larger numbers wrap around.\<close>

definition is_digit :: "CHAR16 \<Rightarrow> bool" where
  "is_digit c \<longleftrightarrow> 0x30 \<le> c \<and> c \<le> 0x39"

lemma unat_char: "is_digit c \<Longrightarrow> unat (ucast (c - 0x30) :: u32) = unat c - 48"
  using unat_u16_lt [of c] by (subst unat_ucast_small) (auto simp: is_digit_def word_le_nat_alt word_le_sub_unat)

lemma parse_uint_loop_eq:
  "i + n \<le> length t \<Longrightarrow> parse_uint_loop t i n v
    = Some (if \<forall>c \<in> set (take n (drop i t)). is_digit c
        then Some (v * 10 ^ n + of_nat (digits_val (take n (drop i t)))) else None)"
proof (induction n arbitrary: i v)
  case 0
  then show ?case by (simp add: digits_val_def)
next
  case (Suc n)
  let ?c = "t ! i"
  have d: "take (Suc n) (drop i t) = ?c # take n (drop (Suc i) t)" "length (take n (drop (Suc i) t)) = n"
    using Suc.prems by (simp_all add: Cons_nth_drop_Suc [symmetric])
  have dig: "?c < 0x30 \<or> 0x39 < ?c \<longleftrightarrow> \<not> is_digit ?c" by (auto simp: is_digit_def)
  define k where "k = unat ?c - 48"
  have u: "(ucast (?c - 0x30) :: u32) = of_nat k" if "is_digit ?c"
    by (simp add: k_def flip: unat_char [OF that])
  have v: "digits_val (?c # take n (drop (Suc i) t)) = k * 10 ^ n + digits_val (take n (drop (Suc i) t))"
    by (simp only: digits_val_Cons d(2) k_def)
  show ?case using Suc.IH [of "Suc i"] Suc.prems
    by (auto simp: peek_in d(1) dig u v algebra_simps)
qed

lemma parse_uint_token_eq:
  assumes "unat len \<le> length t"
  shows "parse_uint_token t len = Some (if len \<noteq> 0 \<and> (\<forall>c \<in> set (take (unat len) t). is_digit c)
      then Some (of_nat (digits_val (take (unat len) t))) else None)"
  using assms parse_uint_loop_eq [of 0 "unat len" t 0] by (auto simp: parse_uint_token_def)

section \<open>No access outside the command line\<close>

lemma skip_spaces_in: "p + n \<le> length cmd \<Longrightarrow> \<exists>q. skip_spaces cmd p n = Some q"
  by (induction cmd p n rule: skip_spaces.induct) (auto simp: peek_in)

lemma token_end_in: "p + n \<le> length cmd \<Longrightarrow> \<exists>q. token_end cmd b p n = Some q"
  by (induction cmd b p n rule: token_end.induct) (auto simp: peek_in)

lemma next_token_in:
  assumes "p < len" "len \<le> length cmd"
  shows "\<exists>r. next_token cmd len p = Some r"
proof -
  obtain q where q: "skip_spaces cmd p (len - p) = Some q" using skip_spaces_in [of p "len - p" cmd] assms by auto
  show ?thesis
  proof (cases "q < len")
    case True
    have e: "\<exists>x. token_end cmd b st (len - st) = Some x" if "st \<le> len" for b st
      using token_end_in [of st "len - st" cmd b] that assms(2) by simp
    obtain x where x: "token_end cmd (cmd ! q = 0x22) (if cmd ! q = 0x22 then Suc q else q)
        (len - (if cmd ! q = 0x22 then Suc q else q)) = Some x" using e True by fastforce
    have "\<exists>b. andM (Some (cmd ! q = 0x22 \<and> x < len)) (do { c \<leftarrow> peek cmd x; Some (c = 0x22) }) = Some b"
      using assms(2) by (auto simp: andM_def peek_def)
    then show ?thesis using True q x assms(2) by (auto simp: next_token_def peek_in Let_def)
  qed (simp add: next_token_def q)
qed

lemma efi_name_in:
  assumes "unat len \<le> length t"
  shows "\<exists>b. token_is_efi_name t len = Some b"
proof (cases "len < 4")
  case False
  then have l: "4 \<le> unat len" by (simp add: word_less_nat_alt)
  have "peek t (unat (len - k)) = Some (t ! unat (len - k))" if "0 < unat k" "unat k \<le> 4" for k
    using that l assms by (subst peek_in) (auto simp: word_le_sub_unat word_le_nat_alt)
  note pk = this
  show ?thesis using False pk [of 4] pk [of 3] pk [of 2] pk [of 1]
    by (auto simp: token_is_efi_name_def andM_def)
qed (auto simp: token_is_efi_name_def intro: exI [of _ False])

lemma plain_token_in:
  assumes l: "unat len \<le> length t"
  shows "\<exists>r. plain_token t len x = Some r"
proof (cases "prefix (map ucast (asc ''--target='')) (take (unat len) t)")
  case True
  then have "length (map ucast (asc ''--target='') :: CHAR16 list) \<le> length (take (unat len) t)" by (rule prefix_length_le)
  then have "9 \<le> unat len" by simp
  then have "unat (len - 9) \<le> length (drop 9 t)" using l by (simp add: word_le_sub_unat word_le_nat_alt)
  then show ?thesis using True token_scan_eq [OF l, of 0 "asc ''--target=''"]
    by (auto simp: plain_token_def token_starts_ascii_def parse_uint_token_eq)
next
  case False
  then show ?thesis using token_scan_eq [OF l, of 0 "asc ''--target=''"]
    by (auto simp: plain_token_def token_starts_ascii_def)
qed

lemma ex_if: "\<exists>x. v = Some x \<Longrightarrow> \<exists>x. (if b then Some u else v) = Some x"
  by auto

lemma parse_token_in:
  assumes l: "unat len \<le> length t"
  shows "\<exists>r. parse_token t len s = Some r"
proof -
  obtain n where n: "andM (Some (token_index s = 0)) (token_is_efi_name t len) = Some n"
    using efi_name_in [OF l] by (cases "token_index s = 0") auto
  obtain r where r: "plain_token t len (opts s) = Some r" using plain_token_in [OF l] by blast
  have "\<exists>x. option_token t len (opts s) = Some x"
    unfolding option_token_def token_eq_ascii_eq [OF l] Option.bind.simps r by (intro ex_if) simp
  then show ?thesis using n parse_uint_token_eq [OF l]
    by (auto simp: parse_token_def Let_def split: if_split)
qed

lemma parse_loop_in:
  assumes "len \<le> length cmd" "len < 2 ^ 64"
  shows "\<exists>r. parse_loop cmd len s = Some r"
proof (induction "len - pos s" arbitrary: s rule: less_induct)
  case less
  show ?case
  proof (cases "pos s < len")
    case True
    obtain tok where t: "next_token cmd len (pos s) = Some tok" using next_token_in [OF True assms(1)] by blast
    have "\<exists>r. parse_round cmd len s = Some r"
    proof (cases tok)
      case None
      then show ?thesis using t by (simp add: parse_round_def)
    next
      case (Some x)
      obtain st en q where x: "x = (st, en, q)" by (cases x)
      note m = next_token_mono [of cmd len "pos s" st en q, unfolded t Some x, OF refl]
      have "unat (of_nat k :: u64) = k" if "k < 2 ^ 64" for k
        using that by (simp add: unsigned_of_nat take_bit_nat_eq_self)
      from this [of "en - st"] have "unat (of_nat (en - st) :: u64) \<le> length (drop st cmd)"
        using m assms by (simp del: of_nat_diff)
      then obtain r where "parse_token (drop st cmd) (of_nat (en - st)) (s\<lparr>pos := q\<rparr>) = Some r"
        using parse_token_in by blast
      then show ?thesis using t Some x by (simp add: parse_round_def)
    qed
    then obtain r where r: "parse_round cmd len s = Some r" by blast
    show ?thesis
    proof (cases r)
      case (Inl a)
      then show ?thesis using True r by (simp add: parse_loop.simps)
    next
      case (Inr s')
      then have "pos s < pos s'" using parse_round_progress [of cmd len s s'] r by simp
      then have "len - pos s' < len - pos s" using True by (intro diff_less_mono2)
      from less.hyps [OF this] show ?thesis using True r Inr by (simp add: parse_loop.simps [of cmd len s])
    qed
  qed (simp add: parse_loop.simps)
qed

text \<open>Parsing the load options is total if they are as long as the protocol says.\<close>

lemma parse_options_in:
  assumes "\<And>img cmd. loaded = Some img \<Longrightarrow> LoadOptions img = Some cmd \<Longrightarrow> unat (LoadOptionsSize img) div 2 \<le> length cmd"
    and bs: "uefi_bs E"
  shows "\<exists>st o' w'. parse_options E loaded w = Some (st, o', w') \<and> w' = emit (HandleProtocol gEfiLoadedImageProtocolGuid) w"
proof -
  have "\<exists>r. parse_loop cmd (unat (LoadOptionsSize img) div 2) start_parse = Some r"
    if "loaded = Some img" "LoadOptions img = Some cmd" for img cmd
    using assms(1) [OF that] unat_u32_lt [of "LoadOptionsSize img"] by (intro parse_loop_in) simp_all
  then show ?thesis using bs
    by (fastforce simp: parse_options_def Let_def split: option.splits sum.splits)
qed

end
