(* ===== verification/Usb_Transport.thy ===== *)
theory Usb_Transport
  imports Console
begin

text \<open>
  The USB function transport of \<open>src/usb_transport.c\<close>: the answers to control
  requests on endpoint 0, opening and closing, and the event pump that carries one message
  in either direction over the bulk endpoint. The firmware's event handler is polled; the
  messages it is going to deliver are \<open>polls\<close> of the world. A pump that has used them all up
  is still polling, which is a result of its own (\<open>Waiting\<close>); undefined behaviour is \<open>None\<close>.
\<close>

section \<open>State\<close>

text \<open>\<open>io\<close> says whether the protocol pointer is set. The two last fields are the file's static
  variables, which survive \<open>memset\<close> of the transport.\<close>

record USB_TRANSPORT =
  io :: bool
  speed :: u32
  configured :: u32
  max_transfer :: u64
  rx :: "bytes option"
  tx :: "bytes option"
  g_ms_ext_props :: bytes
  g_ms_ext_props_ready :: bool

datatype 'a run = Waiting world | Returns 'a

text \<open>Going on after a call that may still be waiting.\<close>

definition after :: "'a run option \<Rightarrow> ('a \<Rightarrow> 'b run option) \<Rightarrow> 'b run option" where
  "after r f = (case r of None \<Rightarrow> None | Some (Waiting w) \<Rightarrow> Some (Waiting w) | Some (Returns x) \<Rightarrow> f x)"

lemma after_simps [simp]:
  "after None f = None" "after (Some (Waiting w)) f = Some (Waiting w)"
  "after (Some (Returns x)) f = f x"
  by (simp_all add: after_def)

definition USBFN_MAX_XFER :: u64 where "USBFN_MAX_XFER = 0x241000"
definition USBFN_BULK_ENDPOINT_INDEX :: u8 where "USBFN_BULK_ENDPOINT_INDEX = 1"
definition UsbTransferStatusComplete :: u32 where "UsbTransferStatusComplete = 1"

section \<open>Requests and built descriptors\<close>


definition USB_REQ_GET_STATUS :: u8 where "USB_REQ_GET_STATUS = 0"
definition USB_REQ_CLEAR_FEATURE :: u8 where "USB_REQ_CLEAR_FEATURE = 1"
definition USB_REQ_SET_FEATURE :: u8 where "USB_REQ_SET_FEATURE = 3"
definition USB_REQ_SET_ADDRESS :: u8 where "USB_REQ_SET_ADDRESS = 5"
definition USB_REQ_GET_DESCRIPTOR :: u8 where "USB_REQ_GET_DESCRIPTOR = 6"
definition USB_REQ_GET_CONFIGURATION :: u8 where "USB_REQ_GET_CONFIGURATION = 8"
definition USB_REQ_SET_CONFIGURATION :: u8 where "USB_REQ_SET_CONFIGURATION = 9"
definition USB_REQ_GET_INTERFACE :: u8 where "USB_REQ_GET_INTERFACE = 10"
definition USB_REQ_SET_INTERFACE :: u8 where "USB_REQ_SET_INTERFACE = 11"

lemmas usb_code_defs = USB_DESC_TYPE_DEVICE_def USB_DESC_TYPE_CONFIG_def USB_DESC_TYPE_STRING_def
  USB_DESC_TYPE_BOS_def USB_REQ_GET_STATUS_def USB_REQ_CLEAR_FEATURE_def USB_REQ_SET_FEATURE_def
  USB_REQ_SET_ADDRESS_def USB_REQ_GET_DESCRIPTOR_def USB_REQ_GET_CONFIGURATION_def
  USB_REQ_SET_CONFIGURATION_def USB_REQ_GET_INTERFACE_def USB_REQ_SET_INTERFACE_def
  USB_VENDOR_CODE_MS_def

text \<open>\<open>put_utf16_ascii\<close>: the characters of a C string, each with a zero byte, then zeros. The
  two loops: \<open>n\<close> characters are left, the next one has index \<open>i\<close>.\<close>

fun put_utf16_zeros :: "bytes \<Rightarrow> nat \<Rightarrow> nat \<Rightarrow> nat \<Rightarrow> bytes option" where
  "put_utf16_zeros buf p 0 i = Some buf"
| "put_utf16_zeros buf p (Suc n) i = do {
     buf \<leftarrow> poke buf (p + 2 * i) [0];
     buf \<leftarrow> poke buf (p + 2 * i + 1) [0];
     put_utf16_zeros buf p n (Suc i) }"

fun put_utf16_loop :: "bytes \<Rightarrow> nat \<Rightarrow> bytes \<Rightarrow> nat \<Rightarrow> nat \<Rightarrow> bytes option" where
  "put_utf16_loop buf p s 0 i = Some buf"
| "put_utf16_loop buf p s (Suc n) i = do {
     ch \<leftarrow> peek s i;
     buf \<leftarrow> poke buf (p + 2 * i) [ch];
     buf \<leftarrow> poke buf (p + 2 * i + 1) [0];
     if ch = 0 then put_utf16_zeros buf p n (Suc i)
     else put_utf16_loop buf p s n (Suc i) }"

definition put_utf16_ascii :: "bytes \<Rightarrow> nat \<Rightarrow> bytes \<Rightarrow> nat \<Rightarrow> bytes option" where
  "put_utf16_ascii buf p s chars_with_nul = put_utf16_loop buf p s chars_with_nul 0"

definition build_ms_ext_props :: "bytes \<Rightarrow> bytes option" where
  "build_ms_ext_props buf = do {
     buf \<leftarrow> memset buf 0 0 142;
     buf \<leftarrow> put_le32 buf 0 142;
     buf \<leftarrow> put_le16 buf 4 0x0100;
     buf \<leftarrow> put_le16 buf 6 0x0005;
     buf \<leftarrow> put_le16 buf 8 1;
     buf \<leftarrow> put_le32 buf 10 132;
     buf \<leftarrow> put_le32 buf 14 1;
     buf \<leftarrow> put_le16 buf 18 40;
     buf \<leftarrow> put_utf16_ascii buf 20 (asc ''DeviceInterfaceGUID'' @ [0]) 20;
     buf \<leftarrow> put_le32 buf 60 78;
     put_utf16_ascii buf 64 (asc ''{8FE6D4D7-49DD-41E7-9486-49AFC6BFE475}'' @ [0]) 39 }"

definition ms_ext_props :: "USB_TRANSPORT \<Rightarrow> (bytes \<times> u64 \<times> USB_TRANSPORT) option" where
  "ms_ext_props usb =
     (if \<not> g_ms_ext_props_ready usb then do {
        b \<leftarrow> build_ms_ext_props (g_ms_ext_props usb);
        Some (b, 142, usb\<lparr>g_ms_ext_props := b, g_ms_ext_props_ready := True\<rparr>) }
      else Some (g_ms_ext_props usb, 142, usb))"

text \<open>\<open>make_string_desc\<close> writes a string descriptor for a C string into \<open>out\<close>.\<close>

fun str_count :: "bytes \<Rightarrow> nat \<Rightarrow> nat \<Rightarrow> nat option" where
  "str_count s 0 n = Some n"
| "str_count s (Suc k) n = do { c \<leftarrow> peek s n; if c \<noteq> 0 then str_count s k (Suc n) else Some n }"

fun string_desc_loop :: "bytes \<Rightarrow> bytes \<Rightarrow> nat \<Rightarrow> nat \<Rightarrow> bytes option" where
  "string_desc_loop out s 0 i = Some out"
| "string_desc_loop out s (Suc n) i = do {
     c \<leftarrow> peek s i;
     out \<leftarrow> poke out (2 + i * 2) [c];
     out \<leftarrow> poke out (3 + i * 2) [0];
     string_desc_loop out s n (Suc i) }"

definition make_string_desc :: "bytes \<Rightarrow> bytes \<Rightarrow> (u64 \<times> bytes) option" where
  "make_string_desc out s = do {
     n \<leftarrow> str_count s 60 0;
     out \<leftarrow> poke out 0 [of_nat (2 + n * 2)];
     out \<leftarrow> poke out 1 [USB_DESC_TYPE_STRING];
     out \<leftarrow> string_desc_loop out s n 0;
     len \<leftarrow> peek out 0;
     Some (ucast len, out) }"

definition make_config_desc :: "bytes \<Rightarrow> (u64 \<times> bytes) option" where
  "make_config_desc out = do {
     out \<leftarrow> memcpy out 0 (config_image g_config) 0 9;
     out \<leftarrow> memcpy out 9 (interface_image g_interface) 0 9;
     out \<leftarrow> memcpy out 18 (endpoint_image g_ep_out) 0 7;
     out \<leftarrow> memcpy out 25 (endpoint_image g_ep_in) 0 7;
     Some (32, out) }"

section \<open>Control requests\<close>

definition Transfer_call :: "env \<Rightarrow> event \<Rightarrow> world \<Rightarrow> EFI_STATUS \<times> world" where
  "Transfer_call E ev w = (let w = emit ev w in (usb_transfer E (trace w), w))"

definition usb_send_control :: "env \<Rightarrow> bytes \<Rightarrow> u64 \<Rightarrow> u64 \<Rightarrow> world \<Rightarrow> (EFI_STATUS \<times> world) option" where
  "usb_send_control E data len req_len w = do {
     let send_len = (if len < req_len then len else req_len);
     d \<leftarrow> load data 0 (unat send_len);
     Some (Transfer_call E (TransferIn 0 d) w) }"

definition usb_status_in :: "env \<Rightarrow> world \<Rightarrow> EFI_STATUS \<times> world" where
  "usb_status_in E w = Transfer_call E (TransferIn 0 []) w"

definition usb_status_out :: "env \<Rightarrow> world \<Rightarrow> EFI_STATUS \<times> world" where
  "usb_status_out E w = Transfer_call E (TransferOut 0 0) w"

definition usb_stall_ep0 :: "env \<Rightarrow> USB_SETUP_PACKET \<Rightarrow> world \<Rightarrow> EFI_STATUS \<times> world" where
  "usb_stall_ep0 E setup w =
     (let w = emit (SetEndpointStallState 0 (RequestType setup AND 0x80 \<noteq> 0)) w
      in (usb_stall E (trace w), w))"

text \<open>\<open>handle_setup\<close>: the local buffer \<open>tmp\<close> is only sent as far as it has been written, so its
  initial contents do not matter; they are zero here.\<close>

type_synonym setup_result = "(EFI_STATUS \<times> USB_TRANSPORT \<times> world) option"

definition control_reply :: "USB_TRANSPORT \<Rightarrow> (EFI_STATUS \<times> world) option \<Rightarrow> setup_result" where
  "control_reply usb r = map_option (\<lambda>(st, w). (st, usb, w)) r"

definition setup_string :: "env \<Rightarrow> USB_TRANSPORT \<Rightarrow> USB_SETUP_PACKET \<Rightarrow> world \<Rightarrow> setup_result" where
  "setup_string E usb setup w =
     (let dindex = ucast (Value setup) :: u8; tmp = replicate 128 0;
          string_desc = (\<lambda>s. do {
            (len, out) \<leftarrow> make_string_desc tmp (asc s @ [0]);
            control_reply usb (usb_send_control E out len (ucast (Length setup)) w) })
      in if dindex = 0 then control_reply usb (usb_send_control E [4, 3, 0x09, 0x04] 4 (ucast (Length setup)) w)
         else if dindex = 1 then string_desc ''Microsoft''
         else if dindex = 2 then string_desc ''UFP FFU Flash''
         else if dindex = 3 then string_desc ''0001''
         else if dindex = 0xee then control_reply usb (usb_send_control E g_ms_os_string 18 (ucast (Length setup)) w)
         else control_reply usb (Some (usb_stall_ep0 E setup w)))"

definition setup_descriptor :: "env \<Rightarrow> USB_TRANSPORT \<Rightarrow> USB_SETUP_PACKET \<Rightarrow> world \<Rightarrow> setup_result" where
  "setup_descriptor E usb setup w =
     (let dtype = ucast (drop_bit 8 (Value setup)) :: u8
      in if dtype = USB_DESC_TYPE_DEVICE
         then control_reply usb (usb_send_control E (device_image g_device) 18 (ucast (Length setup)) w)
         else if dtype = USB_DESC_TYPE_CONFIG then do {
           (len, out) \<leftarrow> make_config_desc (replicate 128 0);
           control_reply usb (usb_send_control E out len (ucast (Length setup)) w) }
         else if dtype = USB_DESC_TYPE_BOS
         then control_reply usb (usb_send_control E g_bos_desc 22 (ucast (Length setup)) w)
         else if dtype = USB_DESC_TYPE_STRING then setup_string E usb setup w
         else control_reply usb (Some (usb_stall_ep0 E setup w)))"

definition setup_vendor :: "env \<Rightarrow> USB_TRANSPORT \<Rightarrow> USB_SETUP_PACKET \<Rightarrow> world \<Rightarrow> setup_result" where
  "setup_vendor E usb setup w =
     (if Index setup = 4
      then control_reply usb (usb_send_control E g_ms_compat_id 40 (ucast (Length setup)) w)
      else if Index setup = 5 then do {
        (props, len, usb) \<leftarrow> ms_ext_props usb;
        control_reply usb (usb_send_control E props len (ucast (Length setup)) w) }
      else control_reply usb (Some (usb_stall_ep0 E setup w)))"

definition setup_other :: "env \<Rightarrow> USB_TRANSPORT \<Rightarrow> USB_SETUP_PACKET \<Rightarrow> world \<Rightarrow> setup_result" where
  "setup_other E usb setup w =
     (if RequestType setup AND 0x80 = 0 then control_reply usb (Some (usb_status_out E w))
      else control_reply usb (Some (usb_stall_ep0 E setup w)))"

definition setup_standard :: "env \<Rightarrow> USB_TRANSPORT \<Rightarrow> USB_SETUP_PACKET \<Rightarrow> world \<Rightarrow> setup_result" where
  "setup_standard E usb setup w =
     (let req = Request setup; len = ucast (Length setup)
      in if req = USB_REQ_SET_CONFIGURATION
         then let usb = usb\<lparr>configured := (if Value setup \<noteq> 0 then 1 else 0)\<rparr>
              in control_reply usb (Some (usb_status_in E w))
         else if req = USB_REQ_GET_CONFIGURATION
         then control_reply usb (usb_send_control E [if configured usb \<noteq> 0 then 1 else 0] 1 len w)
         else if req = USB_REQ_GET_STATUS then control_reply usb (usb_send_control E [0, 0] 2 len w)
         else if req \<in> {USB_REQ_SET_ADDRESS, USB_REQ_CLEAR_FEATURE, USB_REQ_SET_FEATURE, USB_REQ_SET_INTERFACE}
         then control_reply usb (Some (usb_status_in E w))
         else if req = USB_REQ_GET_INTERFACE then control_reply usb (usb_send_control E [0] 1 len w)
         else setup_other E usb setup w)"

definition handle_setup :: "env \<Rightarrow> USB_TRANSPORT \<Rightarrow> USB_SETUP_PACKET \<Rightarrow> world \<Rightarrow> setup_result" where
  "handle_setup E usb setup w =
     (if RequestType setup AND 0x60 = 0 \<and> Request setup = USB_REQ_GET_DESCRIPTOR
      then setup_descriptor E usb setup w
      else if RequestType setup AND 0x60 = 0x40 \<and> Request setup = USB_VENDOR_CODE_MS
      then setup_vendor E usb setup w
      else if RequestType setup AND 0x60 = 0 then setup_standard E usb setup w
      else setup_other E usb setup w)"

section \<open>The event pump\<close>

text \<open>What the controller stored at the start of the receive buffer.\<close>

definition received :: "bytes \<Rightarrow> bytes \<Rightarrow> bytes" where
  "received b buf = take (length buf) b @ drop (length b) buf"

fun pump_loop :: "env \<Rightarrow> bool \<Rightarrow> bool \<Rightarrow> usbfn_poll list \<Rightarrow> USB_TRANSPORT \<Rightarrow> world
    \<Rightarrow> (EFI_STATUS \<times> u64 \<times> USB_TRANSPORT \<times> world) run option" where
  "pump_loop E want_rx want_tx [] usb w = Some (Waiting (w\<lparr>polls := []\<rparr>))"
| "pump_loop E want_rx want_tx (p # ps) usb w =
     (case p of
        Poll_Error st \<Rightarrow> if EFI_ERROR st then Some (Returns (st, 0, usb, w\<lparr>polls := ps\<rparr>))
          else pump_loop E want_rx want_tx ps usb w
      | Poll_Setup setup \<Rightarrow> do {
          (st, usb, w) \<leftarrow> handle_setup E usb setup w;
          pump_loop E want_rx want_tx ps usb w }
      | Poll_Rx r b \<Rightarrow>
          if want_rx \<and> EndpointIndex r = USBFN_BULK_ENDPOINT_INDEX
          then let usb = usb\<lparr>rx := map_option (received b) (rx usb)\<rparr>
               in if TransferStatus r = UsbTransferStatusComplete
                  then Some (Returns (EFI_SUCCESS, BytesTransferred r, usb, w\<lparr>polls := ps\<rparr>))
                  else Some (Returns (EFI_ABORTED, 0, usb, w\<lparr>polls := ps\<rparr>))
          else pump_loop E want_rx want_tx ps usb w
      | Poll_Tx r \<Rightarrow>
          if want_tx \<and> EndpointIndex r = USBFN_BULK_ENDPOINT_INDEX
          then if TransferStatus r = UsbTransferStatusComplete
               then Some (Returns (EFI_SUCCESS, 0, usb, w\<lparr>polls := ps\<rparr>))
               else Some (Returns (EFI_ABORTED, 0, usb, w\<lparr>polls := ps\<rparr>))
          else pump_loop E want_rx want_tx ps usb w
      | Poll_Speed n \<Rightarrow> pump_loop E want_rx want_tx ps (usb\<lparr>speed := ucast n\<rparr>) w
      | Poll_Detach \<Rightarrow> pump_loop E want_rx want_tx ps (usb\<lparr>configured := 0\<rparr>) w
      | Poll_Reset \<Rightarrow> pump_loop E want_rx want_tx ps (usb\<lparr>configured := 0\<rparr>) w
      | Poll_Other m \<Rightarrow> pump_loop E want_rx want_tx ps usb w)"

definition pump_until :: "env \<Rightarrow> bool \<Rightarrow> bool \<Rightarrow> USB_TRANSPORT \<Rightarrow> world
    \<Rightarrow> (EFI_STATUS \<times> u64 \<times> USB_TRANSPORT \<times> world) run option" where
  "pump_until E want_rx want_tx usb w =
     (if \<not> io usb then None
      else let (st, w) = (if want_rx then Transfer_call E (TransferOut USBFN_BULK_ENDPOINT_INDEX (max_transfer usb)) w
                          else (EFI_SUCCESS, w))
           in if EFI_ERROR st then Some (Returns (st, 0, usb, w))
              else pump_loop E want_rx want_tx (polls w) usb w)"

text \<open>A received message is the number of bytes that the controller reported; they are at the
  start of the receive buffer.\<close>

definition usb_transport_recv :: "env \<Rightarrow> USB_TRANSPORT \<Rightarrow> world
    \<Rightarrow> (EFI_STATUS \<times> u64 \<times> USB_TRANSPORT \<times> world) run option" where
  "usb_transport_recv E usb w = pump_until E True False usb w"

definition usb_transport_send :: "env \<Rightarrow> USB_TRANSPORT \<Rightarrow> bytes option \<Rightarrow> u64 \<Rightarrow> world
    \<Rightarrow> (EFI_STATUS \<times> USB_TRANSPORT \<times> world) run option" where
  "usb_transport_send E usb data len w =
     (case data of None \<Rightarrow> Some (Returns (EFI_INVALID_PARAMETER, usb, w))
      | Some data \<Rightarrow>
          if max_transfer usb < len then Some (Returns (EFI_INVALID_PARAMETER, usb, w))
          else do {
            buf \<leftarrow> tx usb;
            buf \<leftarrow> memcpy buf 0 data 0 (unat len);
            let usb = usb\<lparr>tx := Some buf\<rparr>;
            if \<not> io usb then None
            else do {
              d \<leftarrow> load buf 0 (unat len);
              let (st, w) = Transfer_call E (TransferIn USBFN_BULK_ENDPOINT_INDEX d) w;
              if EFI_ERROR st then Some (Returns (st, usb, w))
              else after (pump_until E False True usb w)
                     (\<lambda>(st, n, usb, w). Some (Returns (st, usb, w))) } })"

section \<open>Opening and closing\<close>

definition zero_usb :: "USB_TRANSPORT \<Rightarrow> USB_TRANSPORT" where
  "zero_usb usb = usb\<lparr>io := False, speed := 0, configured := 0, max_transfer := 0, rx := None, tx := None\<rparr>"

definition usb_transport_close :: "env \<Rightarrow> USB_TRANSPORT \<Rightarrow> world \<Rightarrow> USB_TRANSPORT \<times> world" where
  "usb_transport_close E usb w =
     (let w = (if \<not> io usb then w
        else let w = (if has_abort_transfer E
               then emit (AbortTransfer USBFN_BULK_ENDPOINT_INDEX True)
                      (emit (AbortTransfer USBFN_BULK_ENDPOINT_INDEX False) w) else w);
                 w = (if has_stop_controller E then emit StopController w else w)
             in if has_free_buffer E
                then let w = (if rx usb \<noteq> None then emit FreeTransferBuffer w else w)
                     in if tx usb \<noteq> None then emit FreeTransferBuffer w else w
                else uefi_free E (tx usb \<noteq> None) (uefi_free E (rx usb \<noteq> None) w))
      in (zero_usb usb, w))"

definition open_buffers :: "env \<Rightarrow> USB_TRANSPORT \<Rightarrow> world \<Rightarrow> EFI_STATUS \<times> USB_TRANSPORT \<times> world" where
  "open_buffers E usb w =
     (if has_alloc_buffer E
      then let w = emit (AllocateTransferBuffer (max_transfer usb)) w;
               (st, b) = alloc_buffer E (trace w)
           in if EFI_ERROR st then (st, usb, w)
              else let usb = usb\<lparr>rx := b\<rparr>;
                       w = emit (AllocateTransferBuffer (max_transfer usb)) w;
                       (st, b) = alloc_buffer E (trace w)
                   in if EFI_ERROR st then let (usb, w) = usb_transport_close E usb w in (st, usb, w)
                      else (EFI_SUCCESS, usb\<lparr>tx := b\<rparr>, w)
      else let (b, w) = uefi_alloc E (max_transfer usb) w;
               (c, w) = uefi_alloc E (max_transfer usb) w;
               usb = usb\<lparr>rx := b, tx := c\<rparr>
           in if b = None \<or> c = None
              then let (usb, w) = usb_transport_close E usb w in (EFI_OUT_OF_RESOURCES, usb, w)
              else (EFI_SUCCESS, usb, w))"

definition open_start :: "env \<Rightarrow> USB_TRANSPORT \<Rightarrow> world \<Rightarrow> EFI_STATUS \<times> USB_TRANSPORT \<times> world" where
  "open_start E usb w =
     (let (st, w) = (if has_start_controller E
            then let w = emit StartController w in (start_controller E (trace w), w) else (EFI_SUCCESS, w))
      in if EFI_ERROR st then let (usb, w) = usb_transport_close E usb w in (st, usb, w)
         else let w = emit (ConfigureEnableEndpoints g_dev_info) w;
                  st = configure_endpoints E (trace w)
              in if EFI_ERROR st then let (usb, w) = usb_transport_close E usb w in (st, usb, w)
                 else (EFI_SUCCESS, usb,
                   con_crlf E (con_puta E (asc ''USB function transport active. Waiting for host enumeration.'') w)))"

definition usb_transport_open :: "env \<Rightarrow> USB_TRANSPORT \<Rightarrow> world \<Rightarrow> (EFI_STATUS \<times> USB_TRANSPORT \<times> world) option" where
  "usb_transport_open E usb w =
     (let usb = zero_usb usb
      in if \<not> uefi_bs E then None
         else if \<not> has_locate_protocol E then Some (EFI_UNSUPPORTED, usb, w)
         else let w = emit (LocateProtocol gEfiUsbFnIoProtocolGuid) w;
                  (st, found) = locate_protocol E (trace w);
                  usb = usb\<lparr>io := found\<rparr>
              in if EFI_ERROR st \<or> \<not> found then Some (st, usb, w)
              else let w = (if has_detect_port E then emit DetectPort w else w);
                       usb = usb\<lparr>max_transfer := USBFN_MAX_XFER\<rparr>;
                       (usb, w) = (if has_get_max_transfer E
                         then let w = emit GetMaxTransferSize w;
                                  (st, reported) = get_max_transfer E (trace w)
                              in if \<not> EFI_ERROR st \<and> reported \<noteq> 0 \<and> reported < max_transfer usb
                                 then (usb\<lparr>max_transfer := reported\<rparr>, w) else (usb, w)
                         else (usb, w));
                       (st, usb, w) = open_buffers E usb w
                   in if EFI_ERROR st then Some (st, usb, w) else Some (open_start E usb w))"

end
