(* ===== verification/Usb_Spec.thy ===== *)
theory Usb_Spec
  imports Usb_Transport "HOL-Library.Sublist"
begin

text \<open>
  What the transport promises its client, the message handlers: a message that fits is handed
  to the bulk endpoint exactly once and unchanged, one that does not fit is refused, nothing
  else is sent on that endpoint, the disk is not touched, and the transport stays usable. The
  promise is the locale \<open>message_channel\<close>; the transport of the code is an instance of it.
\<close>

section \<open>Messages on the bulk endpoint\<close>

fun sent_of :: "event list \<Rightarrow> bytes list" where
  "sent_of [] = []"
| "sent_of (TransferIn i d # es) = (if i = USBFN_BULK_ENDPOINT_INDEX then d # sent_of es else sent_of es)"
| "sent_of (e # es) = sent_of es"

lemma sent_of_append [simp]: "sent_of (xs @ ys) = sent_of xs @ sent_of ys"
  by (induction xs rule: sent_of.induct) auto

definition sent :: "world \<Rightarrow> bytes list" where
  "sent w = sent_of (trace w)"

lemma sent_emit [simp]:
  "sent (emit (TransferIn i d) w) = sent w @ (if i = USBFN_BULK_ENDPOINT_INDEX then [d] else [])"
  "sent (emit (TransferOut i n) w) = sent w"
  "sent (emit (SetEndpointStallState i b) w) = sent w"
  "sent (emit (OutputString s) w) = sent w"
  "sent (emit (AllocatePool n) w) = sent w"
  "sent (emit FreePool w) = sent w"
  "sent (emit (WriteBlocks m lba n d) w) = sent w"
  "sent (emit (ReadBlocks m lba n) w) = sent w"
  "sent (emit DoFlushBlocks w) = sent w"
  "sent (emit (GetVariable x y n) w) = sent w"
  "sent (emit (SetVariable x y k z) w) = sent w"
  "sent (emit (LocateProtocol g) w) = sent w"
  "sent (emit DetectPort w) = sent w"
  "sent (emit GetMaxTransferSize w) = sent w"
  "sent (emit (AllocateTransferBuffer n) w) = sent w"
  "sent (emit StartController w) = sent w"
  "sent (emit (ConfigureEnableEndpoints di) w) = sent w"
  by (simp_all add: sent_def)

lemma sent_polls [simp]: "sent (w\<lparr>polls := ps\<rparr>) = sent w" "disk_writes (w\<lparr>polls := ps\<rparr>) = disk_writes w"
  by (simp_all add: sent_def disk_writes_def)

text \<open>A step that leaves the disk alone and only consumes messages of the event handler.\<close>

definition quiet :: "world \<Rightarrow> world \<Rightarrow> bool" where
  "quiet w w' \<longleftrightarrow> disk_writes w' = disk_writes w \<and> (\<exists>k. polls w' = drop k (polls w)) \<and> grew w w'"

lemma quiet_refl [simp]: "quiet w w"
  by (auto simp: quiet_def intro: exI [of _ 0])

lemma quiet_trans [trans]: "quiet a b \<Longrightarrow> quiet b c \<Longrightarrow> quiet a c"
  by (auto simp: quiet_def add.commute intro: grew_trans)

lemma quiet_emit:
  "quiet a b \<Longrightarrow> disk_writes (emit e b) = disk_writes b \<Longrightarrow> quiet a (emit e b)"
  by (auto simp: quiet_def)

section \<open>The contract\<close>

text \<open>\<open>delivers ok keep u ms w r\<close>: the run \<open>r\<close>, started with the transport \<open>u\<close> in the world \<open>w\<close>,
  has no undefined behaviour, sends the messages \<open>ms\<close> and nothing else, is quiet, and, if it
  returns, leaves a transport that is still usable and agrees with \<open>u\<close> on \<open>keep\<close>.\<close>

definition delivers ::
    "('u \<Rightarrow> bool) \<Rightarrow> ('u \<Rightarrow> 'k) \<Rightarrow> 'u \<Rightarrow> bytes list \<Rightarrow> world \<Rightarrow> (EFI_STATUS \<times> 'u \<times> world) run option \<Rightarrow> bool" where
  "delivers ok keep u ms w r \<longleftrightarrow>
     (case r of None \<Rightarrow> False
      | Some (Waiting w') \<Rightarrow> (\<exists>ks. prefix ks ms \<and> sent w' = sent w @ ks) \<and> quiet w w'
      | Some (Returns (st, u', w')) \<Rightarrow>
          sent w' = sent w @ ms \<and> quiet w w' \<and> ok u' \<and> keep u' = keep u)"

lemma delivers_Returns [simp]:
  "delivers ok keep u ms w (Some (Returns (st, u', w'))) \<longleftrightarrow>
     sent w' = sent w @ ms \<and> quiet w w' \<and> ok u' \<and> keep u' = keep u"
  by (simp add: delivers_def)

lemma delivers_Waiting [simp]:
  "delivers ok keep u ms w (Some (Waiting w')) \<longleftrightarrow>
     (\<exists>ks. prefix ks ms \<and> sent w' = sent w @ ks) \<and> quiet w w'"
  by (simp add: delivers_def)

lemma delivers_None [simp]: "\<not> delivers ok keep u ms w None"
  by (simp add: delivers_def)

lemma delivers_from:
  assumes "delivers ok keep u ms w r" "sent w = sent v" "quiet v w"
  shows "delivers ok keep u ms v r"
  using assms by (auto simp: delivers_def intro: quiet_trans split: option.splits run.splits)

locale message_channel =
  fixes send :: "'u \<Rightarrow> bytes option \<Rightarrow> u64 \<Rightarrow> world \<Rightarrow> (EFI_STATUS \<times> 'u \<times> world) run option"
    and ok :: "'u \<Rightarrow> bool" and limit :: "'u \<Rightarrow> u64" and keep :: "'u \<Rightarrow> 'k"
  assumes send_fits: "ok u \<Longrightarrow> unat n \<le> length d \<Longrightarrow> n \<le> limit u
      \<Longrightarrow> delivers ok keep u [take (unat n) d] w (send u (Some d) n w)"
    and send_long: "limit u < n \<Longrightarrow> send u (Some d) n w = Some (Returns (EFI_INVALID_PARAMETER, u, w))"
    and send_null: "send u None n w = Some (Returns (EFI_INVALID_PARAMETER, u, w))"
    and keep_limit: "keep u' = keep u \<Longrightarrow> limit u' = limit u"
begin

text \<open>The messages that sending \<open>n\<close> bytes of \<open>d\<close> delivers.\<close>

definition message :: "'u \<Rightarrow> bytes \<Rightarrow> u64 \<Rightarrow> bytes list" where
  "message u d n = (if n \<le> limit u then [take (unat n) d] else [])"

lemma send_delivers:
  assumes "ok u" "unat n \<le> length d"
  shows "delivers ok keep u (message u d n) w (send u (Some d) n w)"
  using send_fits [OF assms] send_long [of u n d w] assms(1) by (auto simp: message_def not_le)

lemma send_defined: "ok u \<Longrightarrow> unat n \<le> length d \<Longrightarrow> send u (Some d) n w \<noteq> None"
  using send_delivers [of u n d w] by (cases "send u (Some d) n w") auto

text \<open>Two runs in a row.\<close>

lemma delivers_after:
  assumes "delivers ok keep u ms w r"
    and "\<And>st u' w'. ok u' \<Longrightarrow> keep u' = keep u \<Longrightarrow> delivers ok keep u' ms' w' (f (st, u', w'))"
  shows "delivers ok keep u (ms @ ms') w (after r f)"
proof -
  consider (wait) w' where "r = Some (Waiting w')" | (ret) st u' w' where "r = Some (Returns (st, u', w'))"
    using assms(1) by (auto simp: delivers_def split: option.splits run.splits)
  then show ?thesis
  proof cases
    case wait
    then obtain ks where "prefix ks ms" "sent w' = sent w @ ks" "quiet w w'" using assms(1) by auto
    then show ?thesis using wait by (auto intro: prefix_prefix)
  next
    case ret
    then have 1: "sent w' = sent w @ ms" "quiet w w'" "ok u'" "keep u' = keep u"
      using assms(1) by simp_all
    have d: "delivers ok keep u' ms' w' (f (st, u', w'))" using assms(2) 1(3,4) .
    then consider (wait') v where "f (st, u', w') = Some (Waiting v)"
      | (ret') st2 u2 v where "f (st, u', w') = Some (Returns (st2, u2, v))"
      by (auto simp: delivers_def split: option.splits run.splits)
    then show ?thesis
    proof cases
      case wait'
      then obtain ks where "prefix ks ms'" "sent v = sent w' @ ks" "quiet w' v" using d by auto
      then show ?thesis using ret wait' 1 by (auto intro: quiet_trans intro!: exI [of _ "ms @ ks"])
    next
      case ret'
      then show ?thesis using d ret 1 by (auto intro: quiet_trans)
    qed
  qed
qed

text \<open>Cleaning up after a send.\<close>

lemma delivers_cleanup:
  assumes "delivers ok keep u ms w r" "\<And>v. sent (g v) = sent v \<and> quiet v (g v)"
  shows "delivers ok keep u ms w (after r (\<lambda>(st, u, w). Some (Returns (st, u, g w))))"
  using delivers_after [OF assms(1), of "[]" "\<lambda>(st, u, w). Some (Returns (st, u, g w))"] assms(2) by simp

end

section \<open>Control requests\<close>

text \<open>The answer to a setup packet: one event on endpoint 0, with at most \<open>wLength\<close> bytes.\<close>

definition control_event :: "u16 \<Rightarrow> event \<Rightarrow> bool" where
  "control_event n ev \<longleftrightarrow>
     (case ev of TransferIn i d \<Rightarrow> i = 0 \<and> length d \<le> unat n
      | TransferOut i m \<Rightarrow> i = 0 \<and> m = 0
      | SetEndpointStallState i b \<Rightarrow> i = 0
      | _ \<Rightarrow> False)"

definition usb_ok :: "USB_TRANSPORT \<Rightarrow> bool" where
  "usb_ok usb \<longleftrightarrow> io usb \<and> (\<exists>b. rx usb = Some b \<and> length b = unat (max_transfer usb))
     \<and> (\<exists>b. tx usb = Some b \<and> length b = unat (max_transfer usb)) \<and> length (g_ms_ext_props usb) = 142"

definition setup_post :: "USB_TRANSPORT \<Rightarrow> u16 \<Rightarrow> world \<Rightarrow> setup_result \<Rightarrow> bool" where
  "setup_post usb n w r \<longleftrightarrow> (\<exists>st usb' ev. r = Some (st, usb', emit ev w) \<and> control_event n ev
     \<and> length (g_ms_ext_props usb') = 142 \<and> io usb' = io usb \<and> max_transfer usb' = max_transfer usb
     \<and> rx usb' = rx usb \<and> tx usb' = tx usb)"

lemma control_event_frame [simp]:
  assumes "control_event n ev"
  shows "sent (emit ev w) = sent w" "disk_writes (emit ev w) = disk_writes w"
  using assms by (auto simp: control_event_def USBFN_BULK_ENDPOINT_INDEX_def split: event.splits)

lemma setup_postI:
  "control_event n ev \<Longrightarrow> length (g_ms_ext_props usb) = 142 \<Longrightarrow> setup_post usb n w (Some (st, usb, emit ev w))"
  unfolding setup_post_def by blast

lemma send_control_post:
  assumes "length (g_ms_ext_props usb) = 142" "unat len \<le> length data"
  shows "setup_post usb n w (control_reply usb (usb_send_control E data len (ucast n) w))"
proof -
  define k where "k = (if len < ucast n then len else ucast n :: u64)"
  have k: "unat k \<le> unat n" "unat k \<le> length data"
    using assms(2) by (auto simp: k_def word_less_nat_alt)
  then have "usb_send_control E data len (ucast n) w
      = Some (usb_transfer E (trace (emit (TransferIn 0 (take (unat k) data)) w)), emit (TransferIn 0 (take (unat k) data)) w)"
    by (simp add: usb_send_control_def k_def [symmetric] load_def Transfer_call_def Let_def)
  then show ?thesis using assms(1) k
    by (simp add: control_reply_def) (rule setup_postI, simp_all add: control_event_def)
qed

lemma stall_post:
  assumes "length (g_ms_ext_props usb) = 142"
  shows "setup_post usb n w (control_reply usb (Some (usb_stall_ep0 E setup w)))"
    "setup_post usb n w (control_reply usb (Some (usb_status_in E w)))"
    "setup_post usb n w (control_reply usb (Some (usb_status_out E w)))"
  by (auto intro!: setup_postI simp: control_reply_def usb_stall_ep0_def usb_status_in_def
      usb_status_out_def Transfer_call_def Let_def control_event_def assms)

lemma string_descs:
  "\<exists>out. make_string_desc (replicate 128 0) (asc ''Microsoft'' @ [0]) = Some (20, out) \<and> length out = 128"
  "\<exists>out. make_string_desc (replicate 128 0) (asc ''UFP FFU Flash'' @ [0]) = Some (28, out) \<and> length out = 128"
  "\<exists>out. make_string_desc (replicate 128 0) (asc ''0001'' @ [0]) = Some (10, out) \<and> length out = 128"
proof -
  have e: "\<exists>out. r = Some (n, out) \<and> length out = 128"
    if "map_option (\<lambda>(a, b). (a, length b)) r = Some (n, 128)" for r :: "(u64 \<times> bytes) option" and n
    using that by (cases r) auto
  show "\<exists>out. make_string_desc (replicate 128 0) (asc ''Microsoft'' @ [0]) = Some (20, out) \<and> length out = 128"
    by (rule e) code_simp
  show "\<exists>out. make_string_desc (replicate 128 0) (asc ''UFP FFU Flash'' @ [0]) = Some (28, out) \<and> length out = 128"
    by (rule e) code_simp
  show "\<exists>out. make_string_desc (replicate 128 0) (asc ''0001'' @ [0]) = Some (10, out) \<and> length out = 128"
    by (rule e) code_simp
qed

lemma config_desc:
  "make_config_desc (replicate 128 0)
    = Some (32, take 9 (config_image g_config) @ interface_image g_interface @ take 7 (endpoint_image g_ep_out)
        @ take 7 (endpoint_image g_ep_in) @ replicate 96 0)"
  by code_simp

lemma ms_props_length: "map_option length (build_ms_ext_props (replicate 142 0)) = Some 142"
  by code_simp

lemma build_from_any: "length buf = 142 \<Longrightarrow> build_ms_ext_props buf = build_ms_ext_props (replicate 142 0)"
  by (simp add: build_ms_ext_props_def memset_in)

lemma ms_ext_props_post:
  assumes "length (g_ms_ext_props usb) = 142"
  shows "\<exists>b usb'. ms_ext_props usb = Some (b, 142, usb') \<and> length b = 142 \<and> length (g_ms_ext_props usb') = 142
    \<and> io usb' = io usb \<and> max_transfer usb' = max_transfer usb \<and> rx usb' = rx usb \<and> tx usb' = tx usb"
proof -
  obtain b where "build_ms_ext_props (replicate 142 0) = Some b" "length b = 142"
    using ms_props_length by auto
  then show ?thesis using assms build_from_any [OF assms] by (simp add: ms_ext_props_def)
qed

lemma setup_string_post:
  assumes ok: "length (g_ms_ext_props usb) = 142"
  shows "setup_post usb (Length s) w (setup_string E usb s w)"
proof -
  have d: "setup_post usb (Length s) w (do {
            (len, out) \<leftarrow> make_string_desc (replicate 128 0) t;
            control_reply usb (usb_send_control E out len (ucast (Length s)) w) })"
    if "\<exists>out. make_string_desc (replicate 128 0) t = Some (n, out) \<and> length out = 128" "unat n \<le> 128" for t n
    using that send_control_post [OF ok, of n] by auto
  show ?thesis unfolding setup_string_def Let_def
    using d [OF string_descs(1)] d [OF string_descs(2)] d [OF string_descs(3)]
    by (auto intro!: send_control_post [OF ok] stall_post [OF ok] simp: g_ms_os_string_def)
qed

lemma setup_descriptor_post:
  assumes ok: "length (g_ms_ext_props usb) = 142"
  shows "setup_post usb (Length s) w (setup_descriptor E usb s w)"
  unfolding setup_descriptor_def Let_def config_desc
  by (auto intro!: send_control_post [OF ok] stall_post [OF ok] setup_string_post [OF ok]
      simp: g_bos_desc_def)

lemma setup_vendor_post:
  assumes ok: "length (g_ms_ext_props usb) = 142"
  shows "setup_post usb (Length s) w (setup_vendor E usb s w)"
proof -
  obtain b usb' where m: "ms_ext_props usb = Some (b, 142, usb')" "length b = 142" "length (g_ms_ext_props usb') = 142"
     "io usb' = io usb" "max_transfer usb' = max_transfer usb" "rx usb' = rx usb" "tx usb' = tx usb"
    using ms_ext_props_post [OF ok] by blast
  have "setup_post usb' (Length s) w (control_reply usb' (usb_send_control E b 142 (ucast (Length s)) w))"
    using m(2,3) by (intro send_control_post) simp_all
  then have "setup_post usb (Length s) w (control_reply usb' (usb_send_control E b 142 (ucast (Length s)) w))"
    using m(4-7) by (auto simp: setup_post_def)
  then show ?thesis unfolding setup_vendor_def using m(1)
    by (auto intro!: send_control_post [OF ok] stall_post [OF ok] simp: g_ms_compat_id_def)
qed

lemma setup_standard_post:
  assumes ok: "length (g_ms_ext_props usb) = 142"
  shows "setup_post usb (Length s) w (setup_standard E usb s w)"
proof -
  let ?u = "usb\<lparr>configured := (if Value s \<noteq> 0 then 1 else 0)\<rparr>"
  have "setup_post ?u (Length s) w (control_reply ?u (Some (usb_status_in E w)))"
    using ok by (intro stall_post) simp
  then have "setup_post usb (Length s) w (control_reply ?u (Some (usb_status_in E w)))"
    by (simp add: setup_post_def)
  then show ?thesis unfolding setup_standard_def setup_other_def Let_def
    by (auto intro!: send_control_post [OF ok] stall_post [OF ok])
qed

lemma handle_setup_post:
  assumes ok: "length (g_ms_ext_props usb) = 142"
  shows "setup_post usb (Length s) w (handle_setup E usb s w)"
  unfolding handle_setup_def setup_other_def
  by (auto intro!: setup_descriptor_post setup_vendor_post setup_standard_post stall_post simp: ok)

text \<open>What a request for the configuration is answered with.\<close>

definition config_bytes :: bytes where
  "config_bytes = take 9 (config_image g_config) @ interface_image g_interface @ take 7 (endpoint_image g_ep_out)
     @ take 7 (endpoint_image g_ep_in)"

lemma config_bytes_read: "length config_bytes = 32" "rd_configuration config_bytes = Some g_cfg_info"
  by code_simp+

lemma config_request:
  assumes "RequestType s AND 0x60 = 0" "Request s = 6" "drop_bit 8 (Value s) = 2"
  shows "\<exists>st. handle_setup E usb s w = Some (st, usb, emit (TransferIn 0 (take (unat (Length s)) config_bytes)) w)"
proof -
  have l: "unat (if (32 :: u64) < ucast (Length s) then 32 else ucast (Length s) :: u64) = min 32 (unat (Length s))"
    by (auto simp: word_less_nat_alt)
  have "load (config_bytes @ replicate 96 0) 0 (min 32 (unat (Length s))) = Some (take (unat (Length s)) config_bytes)"
    using config_bytes_read(1) by (simp add: load_def min_def)
  then show ?thesis
    using assms config_desc l
    by (simp add: handle_setup_def setup_descriptor_def usb_code_defs control_reply_def usb_send_control_def Transfer_call_def
        config_bytes_def Let_def)
qed

section \<open>The pump\<close>

text \<open>What the transport keeps while it waits for the end of a send: everything the handlers
  look at. Control requests in between may change the configuration and the bus speed.\<close>

definition usb_keep :: "USB_TRANSPORT \<Rightarrow> u64 \<times> bytes option" where
  "usb_keep usb = (max_transfer usb, rx usb)"

definition pump_post ::
    "bool \<Rightarrow> USB_TRANSPORT \<Rightarrow> usbfn_poll list \<Rightarrow> world \<Rightarrow> (EFI_STATUS \<times> u64 \<times> USB_TRANSPORT \<times> world) run option \<Rightarrow> bool" where
  "pump_post want_rx usb ps w r \<longleftrightarrow>
     (case r of None \<Rightarrow> False
      | Some (Waiting w') \<Rightarrow> sent w' = sent w \<and> disk_writes w' = disk_writes w \<and> grew w w' \<and> polls w' = []
      | Some (Returns (st, n, usb', w')) \<Rightarrow> sent w' = sent w \<and> disk_writes w' = disk_writes w \<and> grew w w'
          \<and> (\<exists>k < length ps. polls w' = drop (Suc k) ps
               \<and> (EFI_ERROR st \<or> st = EFI_SUCCESS \<and> (want_rx \<longrightarrow> (\<exists>r b. ps ! k = Poll_Rx r b \<and> BytesTransferred r = n
                   \<and> rx usb' = map_option (received b) (rx usb)))))
          \<and> usb_ok usb' \<and> max_transfer usb' = max_transfer usb \<and> (\<not> want_rx \<longrightarrow> rx usb' = rx usb))"

lemma pump_post_next:
  assumes "pump_post want_rx usb1 ps w1 r" "sent w1 = sent w" "disk_writes w1 = disk_writes w" "grew w w1"
    and "max_transfer usb1 = max_transfer usb" "rx usb1 = rx usb"
  shows "pump_post want_rx usb (p # ps) w r"
proof (cases r)
  case None
  then show ?thesis using assms(1) by (simp add: pump_post_def)
next
  case (Some x)
  show ?thesis
  proof (cases x)
    case (Waiting w')
    then show ?thesis using assms Some grew_trans [OF assms(4)] by (simp add: pump_post_def)
  next
    case (Returns y)
    obtain st n usb' w' where y: "y = (st, n, usb', w')" by (cases y)
    obtain k where "k < length ps" "polls w' = drop (Suc k) ps"
      "EFI_ERROR st \<or> st = EFI_SUCCESS \<and> (want_rx \<longrightarrow> (\<exists>r b. ps ! k = Poll_Rx r b \<and> BytesTransferred r = n
                   \<and> rx usb' = map_option (received b) (rx usb)))"
      using assms(1,6) Some Returns y by (auto simp: pump_post_def)
    then have "\<exists>k < length (p # ps). polls w' = drop (Suc k) (p # ps)
        \<and> (EFI_ERROR st \<or> st = EFI_SUCCESS \<and> (want_rx \<longrightarrow> (\<exists>r b. (p # ps) ! k = Poll_Rx r b \<and> BytesTransferred r = n
          \<and> rx usb' = map_option (received b) (rx usb))))"
      by (intro exI [of _ "Suc k"]) simp
    then show ?thesis using assms Some Returns y grew_trans [OF assms(4)] by (simp add: pump_post_def)
  qed
qed

lemma pump_post_here:
  assumes "usb_ok usb'" "max_transfer usb' = max_transfer usb" "\<not> want_rx \<longrightarrow> rx usb' = rx usb"
    and "EFI_ERROR st \<or> st = EFI_SUCCESS \<and> (want_rx \<longrightarrow> (\<exists>r b. p = Poll_Rx r b \<and> BytesTransferred r = n
      \<and> rx usb' = map_option (received b) (rx usb)))"
  shows "pump_post want_rx usb (p # ps) w (Some (Returns (st, n, usb', w\<lparr>polls := ps\<rparr>)))"
  using assms by (simp add: pump_post_def) (intro exI [of _ 0], simp)

lemma usb_ok_simps [simp]:
  "usb_ok (usb\<lparr>speed := x\<rparr>) = usb_ok usb" "usb_ok (usb\<lparr>configured := y\<rparr>) = usb_ok usb"
  by (simp_all add: usb_ok_def)

lemma usb_ok_received: "usb_ok usb \<Longrightarrow> usb_ok (usb\<lparr>rx := map_option (received b) (rx usb)\<rparr>)"
  by (auto simp: usb_ok_def received_def)

lemma pump_loop_post:
  "usb_ok usb \<Longrightarrow> \<not> (want_rx \<and> want_tx) \<Longrightarrow> pump_post want_rx usb ps w (pump_loop E want_rx want_tx ps usb w)"
proof (induction ps arbitrary: usb w)
  case Nil
  then show ?case by (simp add: pump_post_def)
next
  case (Cons p ps)
  have step: "pump_post want_rx usb (p # ps) w (pump_loop E want_rx want_tx ps usb1 w)"
    if "usb_ok usb1" "max_transfer usb1 = max_transfer usb" "rx usb1 = rx usb" for usb1
    by (rule pump_post_next [OF Cons.IH [OF that(1) Cons.prems(2)]]) (simp_all add: that)
  show ?case
  proof (cases p)
    case (Poll_Error st)
    then show ?thesis using Cons.prems step [of usb] by (simp add: pump_post_here)
  next
    case (Poll_Setup s)
    obtain st usb' ev where h: "handle_setup E usb s w = Some (st, usb', emit ev w)" "control_event (Length s) ev"
        "length (g_ms_ext_props usb') = 142" "io usb' = io usb" "max_transfer usb' = max_transfer usb"
        "rx usb' = rx usb" "tx usb' = tx usb"
      using handle_setup_post [of usb s w E] Cons.prems by (auto simp: usb_ok_def setup_post_def)
    have "usb_ok usb'" using Cons.prems h by (simp add: usb_ok_def)
    from pump_post_next [OF Cons.IH [OF this Cons.prems(2), of "emit ev w"]] show ?thesis
      using Poll_Setup h by simp
  next
    case (Poll_Rx r b)
    have "usb_ok (usb\<lparr>rx := map_option (received b) (rx usb)\<rparr>)" using usb_ok_received Cons.prems(1) .
    then show ?thesis using Poll_Rx Cons.prems step [of usb] by (simp add: pump_post_here Let_def)
  next
    case (Poll_Tx r)
    then show ?thesis using Cons.prems step [of usb] by (cases want_rx) (simp_all add: pump_post_here)
  next
    case (Poll_Speed n)
    then show ?thesis using Cons.prems step by simp
  next
    case Poll_Detach
    then show ?thesis using Cons.prems step by simp
  next
    case Poll_Reset
    then show ?thesis using Cons.prems step by simp
  next
    case (Poll_Other m)
    then show ?thesis using Cons.prems step by simp
  qed
qed

section \<open>Sending and receiving\<close>

lemma send_fits_post:
  assumes ok: "usb_ok usb" and d: "unat n \<le> length d" and n: "n \<le> max_transfer usb"
  shows "delivers usb_ok usb_keep usb [take (unat n) d] w (usb_transport_send E usb (Some d) n w)"
proof -
  obtain t where t: "tx usb = Some t" "length t = unat (max_transfer usb)" using ok by (auto simp: usb_ok_def)
  have nt: "unat n \<le> length t" using n t(2) by (simp add: word_le_nat_alt)
  define buf where "buf = take (unat n) d @ drop (unat n) t"
  have cp: "memcpy t 0 d 0 (unat n) = Some buf" using d nt by (simp add: memcpy_in buf_def)
  have ld: "load buf 0 (unat n) = Some (take (unat n) d)" using d nt by (simp add: buf_def load_def)
  let ?u = "usb\<lparr>tx := Some buf\<rparr>"
  let ?w = "emit (TransferIn USBFN_BULK_ENDPOINT_INDEX (take (unat n) d)) w"
  have ok': "usb_ok ?u" using ok d nt t by (auto simp: usb_ok_def buf_def)
  have io: "io usb" using ok by (simp add: usb_ok_def)
  define st where "st = usb_transfer E (trace ?w)"
  have eq: "usb_transport_send E usb (Some d) n w =
     (if EFI_ERROR st then Some (Returns (st, ?u, ?w))
      else after (pump_loop E False True (polls ?w) ?u ?w) (\<lambda>(st, n, usb, w). Some (Returns (st, usb, w))))"
  proof -
    have tc: "Transfer_call E (TransferIn USBFN_BULK_ENDPOINT_INDEX (take (unat n) d)) w = (st, ?w)"
      by (simp only: Transfer_call_def Let_def st_def)
    have lim: "\<not> max_transfer usb < n" using n by simp
    have pu: "pump_until E False True ?u ?w = pump_loop E False True (polls ?w) ?u ?w"
      using io unfolding pump_until_def by simp
    show ?thesis
      unfolding usb_transport_send_def option.case t(1) Option.bind.simps cp ld Let_def tc if_not_P [OF lim]
      using io by (simp add: pu)
  qed
  have keep: "usb_keep ?u = usb_keep usb" by (simp add: usb_keep_def)
  show ?thesis
  proof (cases "EFI_ERROR st")
    case True
    then show ?thesis using eq ok' keep by (simp add: quiet_emit)
  next
    case False
    have p: "pump_post False ?u (polls ?w) ?w (pump_loop E False True (polls ?w) ?u ?w)"
      using pump_loop_post [OF ok'] by simp
    show ?thesis
    proof (cases "pump_loop E False True (polls ?w) ?u ?w")
      case None
      then show ?thesis using p by (simp add: pump_post_def)
    next
      case (Some r)
      show ?thesis
      proof (cases r)
        case (Waiting w')
        then have "sent w' = sent ?w" "disk_writes w' = disk_writes w" "polls w' = []" "grew w w'"
          using p Some by (auto simp: pump_post_def intro: grew_later)
        then show ?thesis using Waiting Some False eq
          by (auto simp: quiet_def intro: exI [of _ "length (polls w)"])
      next
        case (Returns y)
        obtain s1 k usb1 w1 where y: "y = (s1, k, usb1, w1)" by (cases y)
        then have "sent w1 = sent ?w" "disk_writes w1 = disk_writes w" "grew w w1" "usb_ok usb1"
          "max_transfer usb1 = max_transfer usb" "rx usb1 = rx usb" "\<exists>k. polls w1 = drop k (polls w)"
          using p Some Returns by (auto simp: pump_post_def intro: grew_later)
        then show ?thesis using Returns Some False eq y by (auto simp: quiet_def usb_keep_def)
      qed
    qed
  qed
qed

interpretation usb: message_channel "usb_transport_send E" usb_ok max_transfer usb_keep for E
proof
  fix u n w and d :: bytes
  assume "usb_ok u" "unat n \<le> length d" "n \<le> max_transfer u"
  then show "delivers usb_ok usb_keep u [take (unat n) d] w (usb_transport_send E u (Some d) n w)"
    by (rule send_fits_post)
qed (simp_all add: usb_transport_send_def usb_keep_def)

text \<open>The firmware's promise on reception: it never reports more bytes than the buffer it was
  given.\<close>

definition rx_bounded :: "u64 \<Rightarrow> usbfn_poll list \<Rightarrow> bool" where
  "rx_bounded n ps \<longleftrightarrow> (\<forall>r b. Poll_Rx r b \<in> set ps \<longrightarrow> BytesTransferred r \<le> n)"

lemma rx_bounded_drop: "rx_bounded n ps \<Longrightarrow> rx_bounded n (drop k ps)"
  by (auto simp: rx_bounded_def dest: in_set_dropD)

text \<open>Reception ends with an error of the event handler or with the result of a transfer on the
  bulk endpoint: it \<open>waits\<close> over all other events. A setup packet before that is answered on endpoint 0, each once, in order.\<close>

definition waits :: "usbfn_poll \<Rightarrow> bool" where
  "waits p \<longleftrightarrow> (case p of Poll_Error st \<Rightarrow> \<not> EFI_ERROR st
     | Poll_Rx r b \<Rightarrow> EndpointIndex r \<noteq> USBFN_BULK_ENDPOINT_INDEX | _ \<Rightarrow> True)"

fun setups :: "usbfn_poll list \<Rightarrow> USB_SETUP_PACKET list" where
  "setups [] = []"
| "setups (Poll_Setup s # ps) = s # setups ps"
| "setups (p # ps) = setups ps"

definition answered :: "usbfn_poll list \<Rightarrow> world \<Rightarrow> world \<Rightarrow> bool" where
  "answered ps w w' \<longleftrightarrow> (\<exists>es. trace w' = trace w @ es \<and> list_all2 (\<lambda>s. control_event (Length s)) (setups ps) es)"

definition recv_ended ::
    "USB_TRANSPORT \<Rightarrow> usbfn_poll \<Rightarrow> EFI_STATUS \<Rightarrow> u64 \<Rightarrow> USB_TRANSPORT \<Rightarrow> bool" where
  "recv_ended usb p st n usb' \<longleftrightarrow>
     (case p of Poll_Error e \<Rightarrow> st = e \<and> n = 0 \<and> rx usb' = rx usb
      | Poll_Rx r b \<Rightarrow> rx usb' = map_option (received b) (rx usb)
          \<and> (if TransferStatus r = UsbTransferStatusComplete then st = EFI_SUCCESS \<and> n = BytesTransferred r
             else st = EFI_ABORTED \<and> n = 0)
      | _ \<Rightarrow> False)"

lemma control_events_silent:
  "list_all2 (\<lambda>s. control_event (Length s)) ss es \<Longrightarrow> sent_of es = [] \<and> writes_of es = []"
proof (induction rule: list_all2_induct)
  case (Cons s ss e es)
  then show ?case by (cases e) (simp_all add: control_event_def USBFN_BULK_ENDPOINT_INDEX_def)
qed simp

lemma answered_silent:
  assumes "answered ps w w'"
  shows "sent w' = sent w \<and> disk_writes w' = disk_writes w \<and> grew w w'"
  using assms control_events_silent by (fastforce simp: answered_def sent_def disk_writes_def grew_def)

lemma answered_polls [simp]: "answered ps w (w'\<lparr>polls := qs\<rparr>) = answered ps w w'"
  by (simp add: answered_def)

lemma answered_nil [simp]: "answered [] w w"
  by (simp add: answered_def)

lemma answered_skip: "\<forall>qs. setups (p # qs) = setups qs \<Longrightarrow> answered (p # ps) = answered ps"
  by (simp add: answered_def fun_eq_iff)

lemma recv_ended_rx: "rx usb1 = rx usb \<Longrightarrow> recv_ended usb1 = recv_ended usb"
  by (simp add: recv_ended_def fun_eq_iff split: usbfn_poll.split)

lemma answered_setup:
  assumes "control_event (Length s) ev" "answered ps (emit ev w) w'"
  shows "answered (Poll_Setup s # ps) w w'"
  using assms by (auto simp: answered_def)

lemma pump_recv:
  "usb_ok usb \<Longrightarrow> case dropWhile waits ps of
     [] \<Rightarrow> \<exists>w'. pump_loop E True False ps usb w = Some (Waiting w') \<and> polls w' = [] \<and> answered ps w w'
   | p # qs \<Rightarrow> \<exists>st n usb' w'. pump_loop E True False ps usb w = Some (Returns (st, n, usb', w'))
       \<and> recv_ended usb p st n usb' \<and> polls w' = qs \<and> answered (takeWhile waits ps) w w'
       \<and> usb_ok usb' \<and> max_transfer usb' = max_transfer usb"
proof (induction ps arbitrary: usb w)
  case Nil
  then show ?case by simp
next
  case (Cons p ps)
  let ?Q = "\<lambda>w r p ps'. case dropWhile waits ps of
     [] \<Rightarrow> \<exists>w'. r = Some (Waiting w') \<and> polls w' = [] \<and> answered (p # ps') w w'
   | p' # qs \<Rightarrow> \<exists>st n usb' w'. r = Some (Returns (st, n, usb', w'))
       \<and> recv_ended usb p' st n usb' \<and> polls w' = qs \<and> answered (p # takeWhile waits ps') w w'
       \<and> usb_ok usb' \<and> max_transfer usb' = max_transfer usb"
  have skip: "?Q w (pump_loop E True False ps usb1 w) p ps"
    if "usb_ok usb1" "max_transfer usb1 = max_transfer usb" "rx usb1 = rx usb" "\<forall>qs. setups (p # qs) = setups qs" for usb1
    using Cons.IH [OF that(1), of w] unfolding answered_skip [OF that(4)] recv_ended_rx [OF that(3)] that(2)
    by (simp split: list.split)
  show ?case
  proof (cases "waits p")
    case False
    then show ?thesis using Cons.prems usb_ok_received
      by (auto simp: waits_def recv_ended_def Let_def split: usbfn_poll.splits if_splits)
  next
    case True
    show ?thesis
    proof (cases "\<exists>s. p = Poll_Setup s")
      case ex: True
      then obtain s where p: "p = Poll_Setup s" by blast
      obtain st usb' ev where h: "handle_setup E usb s w = Some (st, usb', emit ev w)" "control_event (Length s) ev"
          "length (g_ms_ext_props usb') = 142" "io usb' = io usb" "max_transfer usb' = max_transfer usb"
          "rx usb' = rx usb" "tx usb' = tx usb"
        using handle_setup_post [of usb s w E] Cons.prems by (auto simp: usb_ok_def setup_post_def)
      have "usb_ok usb'" using Cons.prems h by (simp add: usb_ok_def)
      note IH = Cons.IH [OF this, of "emit ev w", unfolded recv_ended_rx [OF h(6)] h(5)]
      have eq: "pump_loop E True False (p # ps) usb w = pump_loop E True False ps usb' (emit ev w)" using p h(1) by simp
      show ?thesis
      proof (cases "dropWhile waits ps")
        case Nil
        have d: "dropWhile waits (p # ps) = []" using Nil True by (simp only: dropWhile.simps if_True)
        show ?thesis unfolding d eq using IH [unfolded Nil] p by (auto intro: answered_setup [OF h(2)])
      next
        case (Cons q qs)
        have d: "dropWhile waits (p # ps) = q # qs" "takeWhile waits (p # ps) = p # takeWhile waits ps"
          using Cons True by simp_all
        show ?thesis unfolding d eq list.case using IH [unfolded Cons list.case] unfolding p
          using answered_setup [OF h(2)] by blast
      qed
    next
      case no: False
      have "\<exists>u. pump_loop E True False (p # ps) usb w = pump_loop E True False ps u w \<and> usb_ok u
        \<and> max_transfer u = max_transfer usb \<and> rx u = rx usb \<and> (\<forall>qs. setups (p # qs) = setups qs)"
        using True no Cons.prems by (cases p) (auto simp: waits_def)
      then obtain u where u: "pump_loop E True False (p # ps) usb w = pump_loop E True False ps u w" "usb_ok u"
        "max_transfer u = max_transfer usb" "rx u = rx usb" "\<forall>qs. setups (p # qs) = setups qs" by blast
      have d: "dropWhile waits (p # ps) = dropWhile waits ps" "takeWhile waits (p # ps) = p # takeWhile waits ps"
        using True by simp_all
      show ?thesis unfolding u(1) d by (rule skip [OF u(2-5)])
    qed
  qed
qed

text \<open>The whole reception: the request is refused, or the events are taken up to and including the
  one that ends it.\<close>

lemma recv_exactly:
  assumes ok: "usb_ok usb"
  shows "let w1 = emit (TransferOut USBFN_BULK_ENDPOINT_INDEX (max_transfer usb)) w; e = usb_transfer E (trace w1)
    in if EFI_ERROR e then usb_transport_recv E usb w = Some (Returns (e, 0, usb, w1))
       else case dropWhile waits (polls w) of
         [] \<Rightarrow> \<exists>w'. usb_transport_recv E usb w = Some (Waiting w') \<and> polls w' = [] \<and> answered (polls w) w1 w'
       | p # ps \<Rightarrow> \<exists>st n usb' w'. usb_transport_recv E usb w = Some (Returns (st, n, usb', w'))
           \<and> recv_ended usb p st n usb' \<and> polls w' = ps \<and> answered (takeWhile waits (polls w)) w1 w'
           \<and> usb_ok usb' \<and> max_transfer usb' = max_transfer usb"
proof -
  let ?w = "emit (TransferOut USBFN_BULK_ENDPOINT_INDEX (max_transfer usb)) w"
  define e where "e = usb_transfer E (trace ?w)"
  have io: "io usb" using ok by (simp add: usb_ok_def)
  have eq: "usb_transport_recv E usb w = (if EFI_ERROR e then Some (Returns (e, 0, usb, ?w))
      else pump_loop E True False (polls w) usb ?w)"
    using io by (simp add: usb_transport_recv_def pump_until_def Transfer_call_def Let_def e_def)
  show ?thesis unfolding Let_def e_def [symmetric] eq
    using pump_recv [OF ok, where ps = "polls w" and E = E and w = ?w] by (cases "EFI_ERROR e") simp_all
qed

text \<open>The messages that a list of events brings: the completed transfers on the bulk endpoint.\<close>

definition completed_rx :: "USBFN_TRANSFER_RESULT \<Rightarrow> bool" where
  "completed_rx r \<longleftrightarrow> EndpointIndex r = USBFN_BULK_ENDPOINT_INDEX \<and> TransferStatus r = UsbTransferStatusComplete"

lemma recv_post:
  assumes ok: "usb_ok usb"
  shows "case usb_transport_recv E usb w of None \<Rightarrow> False
    | Some (Waiting w') \<Rightarrow> sent w' = sent w \<and> quiet w w'
    | Some (Returns (st, n, usb', w')) \<Rightarrow> sent w' = sent w \<and> quiet w w' \<and> usb_ok usb'
        \<and> max_transfer usb' = max_transfer usb
        \<and> (EFI_ERROR st \<or> st = EFI_SUCCESS
             \<and> (\<exists>r b ps. polls w = ps @ Poll_Rx r b # polls w' \<and> completed_rx r \<and> BytesTransferred r = n
                   \<and> rx usb' = map_option (received b) (rx usb)))"
proof -
  let ?w = "emit (TransferOut USBFN_BULK_ENDPOINT_INDEX (max_transfer usb)) w"
  define e where "e = usb_transfer E (trace ?w)"
  note x = recv_exactly [OF ok, of w E, unfolded Let_def, folded e_def]
  have q: "sent v = sent w \<and> disk_writes v = disk_writes w \<and> grew w v" if "answered ps ?w v" for ps v
    using answered_silent [OF that] by (auto intro: grew_later)
  have split: "polls w = takeWhile waits (polls w) @ dropWhile waits (polls w)" by simp
  show ?thesis
  proof (cases "EFI_ERROR e")
    case True
    then show ?thesis using x ok by (simp add: quiet_emit)
  next
    case False
    show ?thesis
    proof (cases "dropWhile waits (polls w)")
      case Nil
      then obtain w' where "usb_transport_recv E usb w = Some (Waiting w')" "polls w' = []" "answered (polls w) ?w w'"
        using x [unfolded Nil] False by auto
      then show ?thesis using q by (auto simp: quiet_def intro: exI [of _ "length (polls w)"])
    next
      case (Cons p ps)
      then obtain st n usb' w' where r: "usb_transport_recv E usb w = Some (Returns (st, n, usb', w'))"
          "recv_ended usb p st n usb'" "polls w' = ps" "answered (takeWhile waits (polls w)) ?w w'"
          "usb_ok usb'" "max_transfer usb' = max_transfer usb"
        using x [unfolded Cons] False by auto
      let ?pre = "takeWhile waits (polls w)"
      have pw: "polls w = ?pre @ p # polls w'" using split Cons r(3) by simp
      then have "polls w' = drop (length ?pre + 1) (polls w)" by (metis Suc_eq_plus1 append_Cons append_eq_conv_conj append_assoc
            append.simps(1) drop_drop drop_Suc_Cons drop0 add.commute)
      then have d: "\<exists>k. polls w' = drop k (polls w)" by blast
      have ab: "EFI_ERROR EFI_ABORTED" by simp
      have "\<not> waits p" using hd_dropWhile [of waits "polls w"] Cons by simp
      then have "EFI_ERROR st \<or> st = EFI_SUCCESS
             \<and> (\<exists>r b. p = Poll_Rx r b \<and> completed_rx r \<and> BytesTransferred r = n \<and> rx usb' = map_option (received b) (rx usb))"
        using r(2) ab by (auto simp: recv_ended_def waits_def completed_rx_def
            split: usbfn_poll.splits if_splits)
      then show ?thesis using r(1,5,6) q [OF r(4)] pw d by (auto simp: quiet_def)
    qed
  qed
qed

section \<open>Opening\<close>

text \<open>What the code relies on of the firmware: transfer buffers have the size asked for, and a
  protocol that was found is there.\<close>

definition usb_contract :: "env \<Rightarrow> bool" where
  "usb_contract E \<longleftrightarrow>
     (\<forall>t n. EFI_ERROR (fst (alloc_buffer E (t @ [AllocateTransferBuffer n])))
        \<or> map_option length (snd (alloc_buffer E (t @ [AllocateTransferBuffer n]))) = Some (unat n)) \<and>
     (\<forall>t. EFI_ERROR (fst (locate_protocol E (t @ [LocateProtocol gEfiUsbFnIoProtocolGuid]))) \<or> snd (locate_protocol E (t @ [LocateProtocol gEfiUsbFnIoProtocolGuid])))"

lemma quiet_misc [simp]:
  "quiet a b \<Longrightarrow> quiet a (emit (LocateProtocol g) b)" "quiet a b \<Longrightarrow> quiet a (emit DetectPort b)"
  "quiet a b \<Longrightarrow> quiet a (emit GetMaxTransferSize b)" "quiet a b \<Longrightarrow> quiet a (emit (AllocateTransferBuffer n) b)"
  "quiet a b \<Longrightarrow> quiet a (emit StartController b)" "quiet a b \<Longrightarrow> quiet a (emit (ConfigureEnableEndpoints di) b)"
  "quiet a b \<Longrightarrow> quiet a (emit (OutputString s) b)" "quiet a b \<Longrightarrow> quiet a (emit (AllocatePool n) b)"
  "quiet a b \<Longrightarrow> quiet a (emit FreePool b)"
  by (simp_all add: quiet_def disk_writes_def)

lemma con_puts_quiet [simp]:
  "sent (con_puts E s w) = sent w" "quiet a w \<Longrightarrow> quiet a (con_puts E s w)"
  by (simp_all add: con_puts_def)

lemma con_puta_quiet [simp]:
  "sent (con_puta E s w) = sent w \<and> (quiet a w \<longrightarrow> quiet a (con_puta E s w))"
  by (induction E s w rule: con_puta.induct) (subst con_puta.simps, simp add: Let_def)+

lemma con_quiet [simp]:
  "sent (con_crlf E w) = sent w" "quiet a w \<Longrightarrow> quiet a (con_crlf E w)"
  "sent (con_put_dec E n w) = sent w" "quiet a w \<Longrightarrow> quiet a (con_put_dec E n w)"
  "sent (con_put_hex E n k w) = sent w" "quiet a w \<Longrightarrow> quiet a (con_put_hex E n k w)"
  "sent (con_put_status E st w) = sent w" "quiet a w \<Longrightarrow> quiet a (con_put_status E st w)"
  by (simp_all add: con_crlf_def con_put_dec_def con_put_hex_def con_put_status_def)

lemma uefi_alloc_quiet:
  "uefi_alloc E n w = (p, w') \<Longrightarrow> sent w' = sent w \<and> (quiet a w \<longrightarrow> quiet a w')"
  by (auto simp: uefi_alloc_def Let_def split: if_splits)

lemma uefi_free_quiet [simp]: "sent (uefi_free E b w) = sent w" "quiet a w \<Longrightarrow> quiet a (uefi_free E b w)"
  by (simp_all add: uefi_free_def)

lemma open_buffers_post:
  assumes "usb_contract E" "max_transfer usb \<noteq> 0" "io usb" "length (g_ms_ext_props usb) = 142"
    and "open_buffers E usb w = (st, usb', w')" "\<not> EFI_ERROR st"
  shows "usb_ok usb' \<and> max_transfer usb' = max_transfer usb \<and> sent w' = sent w \<and> quiet w w'"
proof (cases "has_alloc_buffer E")
  case True
  let ?w1 = "emit (AllocateTransferBuffer (max_transfer usb)) w"
  let ?w2 = "emit (AllocateTransferBuffer (max_transfer usb)) ?w1"
  obtain s1 b1 where a1: "alloc_buffer E (trace ?w1) = (s1, b1)" by (cases "alloc_buffer E (trace ?w1)")
  obtain s2 b2 where a2: "alloc_buffer E (trace ?w2) = (s2, b2)" by (cases "alloc_buffer E (trace ?w2)")
  have ok: "\<not> EFI_ERROR s1" "\<not> EFI_ERROR s2" "usb' = usb\<lparr>rx := b1, tx := b2\<rparr>" "w' = ?w2"
    using assms(5,6) True a1 a2 by (auto simp: open_buffers_def Let_def split: if_splits prod.splits)
  have "EFI_ERROR (fst (alloc_buffer E (t @ [AllocateTransferBuffer n])))
        \<or> map_option length (snd (alloc_buffer E (t @ [AllocateTransferBuffer n]))) = Some (unat n)" for t n
    using assms(1) by (simp add: usb_contract_def)
  from this [of "trace w" "max_transfer usb"] this [of "trace ?w1" "max_transfer usb"]
  have "\<exists>b. b1 = Some b \<and> length b = unat (max_transfer usb)" "\<exists>b. b2 = Some b \<and> length b = unat (max_transfer usb)"
    using a1 a2 ok(1,2) by simp_all
  then show ?thesis using ok assms(3,4) by (auto simp: usb_ok_def)
next
  case False
  obtain b1 w1 where a1: "uefi_alloc E (max_transfer usb) w = (b1, w1)" by fastforce
  obtain b2 w2 where a2: "uefi_alloc E (max_transfer usb) w1 = (b2, w2)" by fastforce
  have ok: "b1 \<noteq> None" "b2 \<noteq> None" "usb' = usb\<lparr>rx := b1, tx := b2\<rparr>" "w' = w2"
    using assms(5,6) False a1 a2 by (auto simp: open_buffers_def Let_def split: if_splits prod.splits)
  then show ?thesis
    using uefi_alloc_length [of E "max_transfer usb"] a1 a2 assms(2-4) uefi_alloc_quiet [OF a1] uefi_alloc_quiet [OF a2]
    by (auto simp: usb_ok_def)
qed

lemma open_start_post:
  assumes "usb_ok usb" "open_start E usb w = (st, usb', w')" "\<not> EFI_ERROR st"
  shows "st = EFI_SUCCESS \<and> usb' = usb \<and> sent w' = sent w \<and> quiet w w'"
  using assms by (auto simp: open_start_def Let_def split: if_splits prod.splits)

lemma open_post:
  assumes "usb_contract E" "length (g_ms_ext_props usb) = 142"
    and "usb_transport_open E usb w = Some (st, usb', w')" "\<not> EFI_ERROR st"
  shows "usb_ok usb' \<and> max_transfer usb' \<noteq> 0 \<and> max_transfer usb' \<le> USBFN_MAX_XFER
    \<and> sent w' = sent w \<and> quiet w w'"
proof -
  let ?w1 = "emit (LocateProtocol gEfiUsbFnIoProtocolGuid) w"
  obtain s found where l: "locate_protocol E (trace ?w1) = (s, found)" by (cases "locate_protocol E (trace ?w1)")
  have bs: "uefi_bs E" "has_locate_protocol E"
    using assms(3,4) by (auto simp: usb_transport_open_def Let_def split: if_splits)
  have err: "EFI_ERROR s \<or> found"
    using assms(1) l by (auto simp: usb_contract_def dest: spec [of _ "trace w"])
  have ok: "\<not> EFI_ERROR s" "found"
    using assms(3,4) bs l err by (auto simp: usb_transport_open_def Let_def split: if_splits)
  define w2 where "w2 = (if has_detect_port E then emit DetectPort ?w1 else ?w1)"
  define u1 where "u1 = zero_usb usb\<lparr>io := True, max_transfer := USBFN_MAX_XFER\<rparr>"
  define p where "p = (if has_get_max_transfer E
       then let w = emit GetMaxTransferSize w2; (st, reported) = get_max_transfer E (trace w)
            in if \<not> EFI_ERROR st \<and> reported \<noteq> 0 \<and> reported < max_transfer u1
               then (u1\<lparr>max_transfer := reported\<rparr>, w) else (u1, w)
       else (u1, w2))"
  obtain u2 w3 where p2: "p = (u2, w3)" by (cases p)
  have u2: "io u2" "length (g_ms_ext_props u2) = 142" "max_transfer u2 \<noteq> 0" "max_transfer u2 \<le> USBFN_MAX_XFER"
      "sent w3 = sent w" "quiet w w3"
    using p2 assms(2) by (auto simp: p_def u1_def w2_def zero_usb_def USBFN_MAX_XFER_def Let_def
        split: if_splits prod.splits)
  obtain s3 u3 w4 where b: "open_buffers E u2 w3 = (s3, u3, w4)" by (cases "open_buffers E u2 w3")
  have eq: "usb_transport_open E usb w = (if EFI_ERROR s3 then Some (s3, u3, w4) else Some (open_start E u3 w4))"
    using bs l ok p2 b unfolding usb_transport_open_def p_def u1_def w2_def by simp
  then have s3: "\<not> EFI_ERROR s3" "open_start E u3 w4 = (st, usb', w')" using assms(3,4) by (auto split: if_splits)
  note B = open_buffers_post [OF assms(1) u2(3,1,2) b s3(1)]
  note S = open_start_post [OF _ s3(2) assms(4)]
  show ?thesis using B S u2 by (auto intro: quiet_trans)
qed

end
