(* ===== verification/Ufp_Proto.thy ===== *)
theory Ufp_Proto
  imports Console
begin

text \<open>
  The packet builders and response parsers of \<open>src/ufp_proto.c\<close>. An output buffer is a
  nullable pointer to memory of any size together with the capacity the caller claims; a
  builder returns the number of bytes of the packet (0 when it refuses) and the buffer.
  A response parser returns its 16-bit status and the filled \<open>UFP_RESPONSE\<close>.
\<close>

definition UFP_STATUS_OK :: u16 where "UFP_STATUS_OK = 0"
definition UFP_STATUS_INVALID_MSG :: u16 where "UFP_STATUS_INVALID_MSG = 33540"
definition UFP_STATUS_RESP_INVALID_SIZE :: u16 where "UFP_STATUS_RESP_INVALID_SIZE = 34054"
definition UFP_STATUS_RESP_NO_SUBBLOCKS :: u16 where "UFP_STATUS_RESP_NO_SUBBLOCKS = 34055"
definition UFP_STATUS_RESP_BAD_STATUS_LEN :: u16 where "UFP_STATUS_RESP_BAD_STATUS_LEN = 34056"

lemmas ufp_status_defs = UFP_STATUS_OK_def UFP_STATUS_INVALID_MSG_def
  UFP_STATUS_RESP_INVALID_SIZE_def UFP_STATUS_RESP_NO_SUBBLOCKS_def
  UFP_STATUS_RESP_BAD_STATUS_LEN_def

definition UFP_MAX_HEADER_DATA :: u32 where "UFP_MAX_HEADER_DATA = 0x1FFBDC"
definition UFP_MAX_PAYLOAD_DATA :: u32 where "UFP_MAX_PAYLOAD_DATA = 0x1FFC18"

definition UFP_SEC_MSG_HEADER :: u8 where "UFP_SEC_MSG_HEADER = 2"
definition UFP_SEC_MSG_PAYLOAD :: u8 where "UFP_SEC_MSG_PAYLOAD = 4"
definition UFP_SEC_SUBBLOCK_HEADER_V1 :: u32 where "UFP_SEC_SUBBLOCK_HEADER_V1 = 0x0b"
definition UFP_SEC_SUBBLOCK_PAYLOAD_V1 :: u32 where "UFP_SEC_SUBBLOCK_PAYLOAD_V1 = 0x0c"
definition UFP_SEC_SUBBLOCK_PAYLOAD_V2 :: u32 where "UFP_SEC_SUBBLOCK_PAYLOAD_V2 = 0x1b"
definition UFP_SEC_SUBBLOCK_PAYLOAD_V3 :: u32 where "UFP_SEC_SUBBLOCK_PAYLOAD_V3 = 0x1d"
definition UFP_SEC_SUBBLOCK_HEADER_V2 :: u32 where "UFP_SEC_SUBBLOCK_HEADER_V2 = 0x21"

lemmas ufp_const_defs = UFP_MAX_HEADER_DATA_def UFP_MAX_PAYLOAD_DATA_def
  UFP_SEC_MSG_HEADER_def UFP_SEC_MSG_PAYLOAD_def
  UFP_SEC_SUBBLOCK_HEADER_V1_def UFP_SEC_SUBBLOCK_HEADER_V2_def
  UFP_SEC_SUBBLOCK_PAYLOAD_V1_def UFP_SEC_SUBBLOCK_PAYLOAD_V2_def UFP_SEC_SUBBLOCK_PAYLOAD_V3_def

record UFP_RESPONSE =
  resp_status :: u16
  resp_specifier :: u32
  resp_last_sector :: u32
  resp_final_state :: u8

definition UFP_RESPONSE_zero :: UFP_RESPONSE where
  "UFP_RESPONSE_zero =
     \<lparr>resp_status = 0, resp_specifier = 0, resp_last_sector = 0, resp_final_state = 0\<rparr>"

section \<open>Message magic\<close>

definition byte_is :: "bytes \<Rightarrow> nat \<Rightarrow> u8 \<Rightarrow> bool option" where
  "byte_is msg i v = do { b \<leftarrow> peek msg i; Some (b = v) }"

definition has_magic :: "bytes \<Rightarrow> u64 \<Rightarrow> u8 \<Rightarrow> u8 \<Rightarrow> bool option" where
  "has_magic msg len app ext =
     andM (Some (6 \<le> len))
       (andM (byte_is msg 0 0x4e) (andM (byte_is msg 1 0x4f) (andM (byte_is msg 2 0x4b)
         (andM (byte_is msg 3 0x58) (andM (byte_is msg 4 app) (byte_is msg 5 ext))))))"

section \<open>Requests\<close>

definition ufp_build_switch_reboot :: "bytes option \<Rightarrow> u64 \<Rightarrow> (u64 \<times> bytes option) option" where
  "ufp_build_switch_reboot out cap =
     (case out of None \<Rightarrow> Some (0, None)
      | Some out \<Rightarrow>
          if cap < 7 then Some (0, Some out)
          else do {
            out \<leftarrow> poke out 0 (asc ''NOKXCBR'');
            Some (7, Some out) })"

definition ufp_build_secure_header_request ::
    "bytes option \<Rightarrow> u64 \<Rightarrow> u32 \<Rightarrow> u32 \<Rightarrow> u32 \<Rightarrow> (u64 \<times> bytes option) option" where
  "ufp_build_secure_header_request out cap absolute_header_offset file_offset chunk_len =
     (case out of None \<Rightarrow> Some (0, None)
      | Some out \<Rightarrow>
          if cap < ucast chunk_len + 60 \<or> UFP_MAX_HEADER_DATA < chunk_len then Some (0, Some out)
          else do {
            out \<leftarrow> memset out 0 0 60;
            out \<leftarrow> poke out 0 (asc ''NOKXFS'');
            out \<leftarrow> poke out 6 [0];
            out \<leftarrow> poke out 7 [UFP_SEC_MSG_HEADER];
            out \<leftarrow> poke out 11 [1];
            out \<leftarrow> poke out 15 [ucast UFP_SEC_SUBBLOCK_HEADER_V2];
            out \<leftarrow> wr_be32 out 16 (chunk_len + 40);
            out \<leftarrow> wr_be32 out 20 absolute_header_offset;
            out \<leftarrow> wr_be32 out 24 (file_offset + chunk_len);
            out \<leftarrow> poke out 28 [0];
            out \<leftarrow> wr_be32 out 29 file_offset;
            out \<leftarrow> wr_be32 out 33 chunk_len;
            out \<leftarrow> poke out 37 [0];
            Some (ucast chunk_len + 60, Some out) })"

definition ufp_build_secure_payload_request ::
    "bytes option \<Rightarrow> u64 \<Rightarrow> u8 \<Rightarrow> u32 \<Rightarrow> bool \<Rightarrow> (u64 \<times> bytes option) option" where
  "ufp_build_secure_payload_request out cap progress data_len final_packet =
     (case out of None \<Rightarrow> Some (0, None)
      | Some out \<Rightarrow>
          if cap < ucast data_len + 32 \<or> UFP_MAX_PAYLOAD_DATA < data_len then Some (0, Some out)
          else do {
            out \<leftarrow> memset out 0 0 32;
            out \<leftarrow> poke out 0 (asc ''NOKXFS'');
            out \<leftarrow> poke out 6 [0];
            out \<leftarrow> poke out 7 [UFP_SEC_MSG_PAYLOAD];
            out \<leftarrow> poke out 8 [if final_packet then 100 else progress];
            out \<leftarrow> poke out 11 [1];
            out \<leftarrow> poke out 15 [ucast UFP_SEC_SUBBLOCK_PAYLOAD_V2];
            out \<leftarrow> wr_be32 out 16 (data_len + 12);
            out \<leftarrow> wr_be32 out 20 data_len;
            out \<leftarrow> poke out 24 [0];
            Some (ucast data_len + 32, Some out) })"

section \<open>Responses\<close>

definition ufp_build_async_start_response ::
    "bytes option \<Rightarrow> u64 \<Rightarrow> u16 \<Rightarrow> (u64 \<times> bytes option) option" where
  "ufp_build_async_start_response out cap status =
     (case out of None \<Rightarrow> Some (0, None)
      | Some out \<Rightarrow>
          if cap < 9 then Some (0, Some out)
          else do {
            out \<leftarrow> poke out 0 (asc ''NOKXFFS'');
            out \<leftarrow> wr_be16 out 7 status;
            Some (9, Some out) })"

definition ufp_build_async_write_status ::
    "bytes option \<Rightarrow> u64 \<Rightarrow> u32 \<Rightarrow> u32 \<Rightarrow> u32 \<Rightarrow> u32 \<Rightarrow> u16 \<Rightarrow> (u64 \<times> bytes option) option" where
  "ufp_build_async_write_status out cap count start_sector write_status last_sector ufp_status =
     (case out of None \<Rightarrow> Some (0, None)
      | Some out \<Rightarrow>
          if cap < 27 then Some (0, Some out)
          else do {
            out \<leftarrow> poke out 0 (asc ''NOKXFFW'');
            out \<leftarrow> wr_be16 out 7 0;
            out \<leftarrow> wr_be32 out 9 count;
            out \<leftarrow> wr_be32 out 13 start_sector;
            out \<leftarrow> wr_be32 out 17 write_status;
            out \<leftarrow> wr_be32 out 21 last_sector;
            out \<leftarrow> wr_be16 out 25 ufp_status;
            Some (27, Some out) })"

definition ufp_build_async_end_response ::
    "bytes option \<Rightarrow> u64 \<Rightarrow> u32 \<Rightarrow> u32 \<Rightarrow> u32 \<Rightarrow> (u64 \<times> bytes option) option" where
  "ufp_build_async_end_response out cap write_status last_sector ufp_status =
     (case out of None \<Rightarrow> Some (0, None)
      | Some out \<Rightarrow>
          if cap < 21 then Some (0, Some out)
          else do {
            out \<leftarrow> poke out 0 (asc ''NOKXFFE'');
            out \<leftarrow> wr_be16 out 7 0;
            out \<leftarrow> wr_be32 out 9 write_status;
            out \<leftarrow> wr_be32 out 13 last_sector;
            out \<leftarrow> wr_be32 out 17 ufp_status;
            Some (21, Some out) })"

definition ufp_build_secure_status_response ::
    "bytes option \<Rightarrow> u64 \<Rightarrow> u16 \<Rightarrow> u32 \<Rightarrow> u32 \<Rightarrow> u32 \<Rightarrow> u8 \<Rightarrow> (u64 \<times> bytes option) option" where
  "ufp_build_secure_status_response out cap status specifier first_bad_sector last_sector final_state =
     (case out of None \<Rightarrow> Some (0, None)
      | Some out \<Rightarrow>
          if cap < 36 then Some (0, Some out)
          else do {
            out \<leftarrow> memset out 0 0 36;
            out \<leftarrow> poke out 0 (asc ''NOKXFS'');
            out \<leftarrow> wr_be16 out 6 status;
            out \<leftarrow> wr_be32 out 8 specifier;
            out \<leftarrow> poke out 15 [1];
            out \<leftarrow> wr_be32 out 16 14;
            out \<leftarrow> poke out 23 [20];
            out \<leftarrow> wr_be32 out 24 first_bad_sector;
            out \<leftarrow> wr_be32 out 28 last_sector;
            out \<leftarrow> poke out 32 [final_state];
            Some (36, Some out) })"

section \<open>Response parsers\<close>

definition ufp_parse_switch_response :: "bytes \<Rightarrow> u64 \<Rightarrow> (u16 \<times> UFP_RESPONSE) option" where
  "ufp_parse_switch_response msg len = do {
     m \<leftarrow> has_magic msg len 0x43 0x42;
     if \<not> m \<or> len < 12 then Some (UFP_STATUS_INVALID_MSG, UFP_RESPONSE_zero)
     else do {
       status \<leftarrow> rd_be16 (drop 6 msg);
       specifier \<leftarrow> rd_be32 (drop 8 msg);
       Some (status, UFP_RESPONSE_zero\<lparr>resp_status := status, resp_specifier := specifier\<rparr>) } }"

definition ufp_parse_secure_header_response :: "bytes \<Rightarrow> u64 \<Rightarrow> (u16 \<times> UFP_RESPONSE) option" where
  "ufp_parse_secure_header_response msg len = do {
     m \<leftarrow> has_magic msg len 0x46 0x53;
     if \<not> m \<or> len < 16 then Some (UFP_STATUS_INVALID_MSG, UFP_RESPONSE_zero)
     else do {
       status \<leftarrow> rd_be16 (drop 6 msg);
       specifier \<leftarrow> rd_be32 (drop 8 msg);
       Some (status, UFP_RESPONSE_zero\<lparr>resp_status := status, resp_specifier := specifier\<rparr>) } }"

definition ufp_parse_secure_payload_response ::
    "bytes \<Rightarrow> u64 \<Rightarrow> bool \<Rightarrow> (u16 \<times> UFP_RESPONSE) option" where
  "ufp_parse_secure_payload_response msg len expected_final =
     (if len < 16 then Some (UFP_STATUS_RESP_INVALID_SIZE, UFP_RESPONSE_zero)
      else do {
        m \<leftarrow> has_magic msg len 0x46 0x53;
        if \<not> m then Some (UFP_STATUS_INVALID_MSG, UFP_RESPONSE_zero)
        else do {
          status \<leftarrow> rd_be16 (drop 6 msg);
          specifier \<leftarrow> (if 12 \<le> len then rd_be32 (drop 8 msg) else Some 0);
          let resp = UFP_RESPONSE_zero\<lparr>resp_status := status, resp_specifier := specifier\<rparr>;
          if status \<noteq> 0 then Some (status, resp)
          else do {
            subblocks \<leftarrow> peek msg 15;
            if subblocks = 0 then Some (UFP_STATUS_RESP_NO_SUBBLOCKS, resp)
            else if len < 0x24 then Some (UFP_STATUS_RESP_BAD_STATUS_LEN, resp)
            else do {
              sb_len \<leftarrow> rd_be32 (drop 16 msg);
              if sb_len \<noteq> 14 then Some (UFP_STATUS_RESP_BAD_STATUS_LEN, resp)
              else do {
                last \<leftarrow> rd_be32 (drop 28 msg);
                final \<leftarrow> (if 32 < len then peek msg 32 else Some 0);
                let resp = resp\<lparr>resp_last_sector := last, resp_final_state := final\<rparr>;
                bad \<leftarrow> andM (Some (expected_final \<and> 32 < len)) (do { f \<leftarrow> peek msg 32; Some (f \<noteq> 1) });
                if bad then do { f \<leftarrow> peek msg 32; Some (ucast f, resp) }
                else Some (UFP_STATUS_OK, resp) } } } } })"

section \<open>Packet layouts\<close>

text \<open>The bytes of each packet, field by field, in the order of the wire.\<close>

definition switch_frame :: bytes where
  "switch_frame = asc ''NOKXCBR''"

definition header_frame :: "u32 \<Rightarrow> u32 \<Rightarrow> u32 \<Rightarrow> bytes" where
  "header_frame abs_off file_off n =
     asc ''NOKXFS'' @ [0, 2] @ [0, 0, 0, 1] @ be32_bytes 0x21 @ be32_bytes (n + 40)
     @ be32_bytes abs_off @ be32_bytes (file_off + n) @ [0] @ be32_bytes file_off @ be32_bytes n
     @ [0] @ replicate 22 0"

definition payload_frame :: "u8 \<Rightarrow> u32 \<Rightarrow> bool \<Rightarrow> bytes" where
  "payload_frame progress n final =
     asc ''NOKXFS'' @ [0, 4] @ [if final then 100 else progress, 0, 0, 1] @ be32_bytes 0x1b
     @ be32_bytes (n + 12) @ be32_bytes n @ [0] @ replicate 7 0"

definition async_start_frame :: "u16 \<Rightarrow> bytes" where
  "async_start_frame status = asc ''NOKXFFS'' @ be16_bytes status"

definition async_write_frame :: "u32 \<Rightarrow> u32 \<Rightarrow> u32 \<Rightarrow> u32 \<Rightarrow> u16 \<Rightarrow> bytes" where
  "async_write_frame count start wst lst ust =
     asc ''NOKXFFW'' @ be16_bytes 0 @ be32_bytes count @ be32_bytes start @ be32_bytes wst
     @ be32_bytes lst @ be16_bytes ust"

definition async_end_frame :: "u32 \<Rightarrow> u32 \<Rightarrow> u32 \<Rightarrow> bytes" where
  "async_end_frame wst lst ust =
     asc ''NOKXFFE'' @ be16_bytes 0 @ be32_bytes wst @ be32_bytes lst @ be32_bytes ust"

definition status_frame :: "u16 \<Rightarrow> u32 \<Rightarrow> u32 \<Rightarrow> u32 \<Rightarrow> u8 \<Rightarrow> bytes" where
  "status_frame status spec bad lst final =
     asc ''NOKXFS'' @ be16_bytes status @ be32_bytes spec @ [0, 0, 0, 1] @ be32_bytes 14
     @ [0, 0, 0, 20] @ be32_bytes bad @ be32_bytes lst @ [final, 0, 0, 0]"

lemmas frame_defs = switch_frame_def header_frame_def payload_frame_def async_start_frame_def
  async_write_frame_def async_end_frame_def status_frame_def

lemma replicate_numeral_unfold: "replicate (numeral n) x = x # replicate (pred_numeral n) x"
  by (simp add: numeral_eq_Suc)

lemmas frame_eval = wr_be16_def wr_be32_def be16_bytes_def be32_bytes_def poke_def
  replicate_numeral_unfold ufp_const_defs

lemma length_frames [simp]:
  "length switch_frame = 7" "length (header_frame a f n) = 60" "length (payload_frame p n fp) = 32"
  "length (async_start_frame s) = 9" "length (async_write_frame c st w l u) = 27"
  "length (async_end_frame w l v) = 21" "length (status_frame s sp bd l fs) = 36"
  by (simp_all add: frame_defs)

text \<open>
  The contract of a packet builder: it refuses a null buffer and a capacity below the packet
  size without touching the buffer, and otherwise writes its frame at the start of the
  buffer, leaves every other byte alone and returns the packet size.
\<close>

locale packet_builder =
  fixes build :: "bytes option \<Rightarrow> u64 \<Rightarrow> (u64 \<times> bytes option) option"
    and psize :: u64 and frame :: bytes
  assumes refuses_null: "build None cap = Some (0, None)"
    and refuses_small: "cap < psize \<Longrightarrow> build (Some out) cap = Some (0, Some out)"
    and frame_fits: "length frame \<le> unat psize"
    and builds: "psize \<le> cap \<Longrightarrow> unat cap \<le> length out
      \<Longrightarrow> build (Some out) cap = Some (psize, Some (frame @ drop (length frame) out))"
begin

lemma no_overrun:
  assumes "unat cap \<le> length out"
  shows "\<exists>n out'. build (Some out) cap = Some (n, Some out') \<and> n \<le> cap
     \<and> length out' = length out \<and> drop (unat n) out' = drop (unat n) out"
proof (cases "cap < psize")
  case True
  then show ?thesis using refuses_small by simp
next
  case False
  then have c: "psize \<le> cap" by simp
  then have "unat psize \<le> length out" using assms by (simp add: word_le_nat_alt)
  then show ?thesis using builds [OF c assms] frame_fits c by simp
qed

lemma sent_bytes:
  assumes "psize \<le> cap" "unat cap \<le> length out" "length frame = unat psize"
  shows "\<exists>out'. build (Some out) cap = Some (psize, Some out') \<and> take (unat psize) out' = frame"
  using builds [OF assms(1,2)] assms(3) by simp

end

lemma cap_length:
  fixes cap n :: u64
  assumes "n \<le> cap" "unat cap \<le> length out"
  shows "unat n \<le> length out" "\<not> cap < n"
  using assms by (auto simp: word_le_nat_alt word_less_nat_alt)

lemma numeral_cap_length:
  fixes cap :: u64
  assumes "numeral k \<le> cap" "unat cap \<le> length out" "unat (numeral k :: u64) = numeral k"
  shows "numeral k \<le> length out"
  using cap_length(1) [OF assms(1,2)] assms(3) by simp

interpretation switch: packet_builder ufp_build_switch_reboot 7 switch_frame
proof
  fix cap out assume c: "(7 :: u64) \<le> cap" "unat cap \<le> length (out :: bytes)"
  show "ufp_build_switch_reboot (Some out) cap = Some (7, Some (switch_frame @ drop (length switch_frame) out))"
    using numeral_cap_length [OF c] cap_length(2) [OF c]
    by (simp add: ufp_build_switch_reboot_def frame_defs frame_eval)
qed (simp_all add: ufp_build_switch_reboot_def)

interpretation async_start: packet_builder
  "\<lambda>out cap. ufp_build_async_start_response out cap s" 9 "async_start_frame s" for s
proof
  fix cap out assume c: "(9 :: u64) \<le> cap" "unat cap \<le> length (out :: bytes)"
  show "ufp_build_async_start_response (Some out) cap s
      = Some (9, Some (async_start_frame s @ drop (length (async_start_frame s)) out))"
    using numeral_cap_length [OF c] cap_length(2) [OF c]
    by (simp add: ufp_build_async_start_response_def frame_defs frame_eval) (simp add: numeral_eq_Suc)
qed (simp_all add: ufp_build_async_start_response_def)

interpretation async_write: packet_builder
  "\<lambda>out cap. ufp_build_async_write_status out cap c st w l u" 27 "async_write_frame c st w l u"
  for c st w l u
proof
  fix cap out assume c: "(27 :: u64) \<le> cap" "unat cap \<le> length (out :: bytes)"
  show "ufp_build_async_write_status (Some out) cap c st w l u
      = Some (27, Some (async_write_frame c st w l u @ drop (length (async_write_frame c st w l u)) out))"
    using numeral_cap_length [OF c] cap_length(2) [OF c]
    by (simp add: ufp_build_async_write_status_def frame_defs frame_eval) (auto simp: numeral_eq_Suc)
qed (simp_all add: ufp_build_async_write_status_def)

interpretation async_end: packet_builder
  "\<lambda>out cap. ufp_build_async_end_response out cap w l u" 21 "async_end_frame w l u" for w l u
proof
  fix cap out assume c: "(21 :: u64) \<le> cap" "unat cap \<le> length (out :: bytes)"
  show "ufp_build_async_end_response (Some out) cap w l u
      = Some (21, Some (async_end_frame w l u @ drop (length (async_end_frame w l u)) out))"
    using numeral_cap_length [OF c] cap_length(2) [OF c]
    by (simp add: ufp_build_async_end_response_def frame_defs frame_eval) (auto simp: numeral_eq_Suc)
qed (simp_all add: ufp_build_async_end_response_def)

interpretation secure_status: packet_builder
  "\<lambda>out cap. ufp_build_secure_status_response out cap s sp bad l fs" 36 "status_frame s sp bad l fs"
  for s sp bad l fs
proof
  fix cap out assume c: "(36 :: u64) \<le> cap" "unat cap \<le> length (out :: bytes)"
  show "ufp_build_secure_status_response (Some out) cap s sp bad l fs
      = Some (36, Some (status_frame s sp bad l fs @ drop (length (status_frame s sp bad l fs)) out))"
    using numeral_cap_length [OF c] cap_length(2) [OF c]
    by (simp add: ufp_build_secure_status_response_def frame_defs frame_eval memset_in)
      (simp add: numeral_eq_Suc)
qed (simp_all add: ufp_build_secure_status_response_def)

text \<open>The two requests that announce data: their capacity check covers the data, and a length
  above the protocol maximum is refused.\<close>

lemma header_request_eq:
  assumes "unat cap \<le> length out"
  shows "ufp_build_secure_header_request (Some out) cap ao fo n =
    (if cap < ucast n + 60 \<or> UFP_MAX_HEADER_DATA < n then Some (0, Some out)
     else Some (ucast n + 60, Some (header_frame ao fo n @ drop 60 out)))"
proof (cases "cap < ucast n + 60 \<or> UFP_MAX_HEADER_DATA < n")
  case True
  then show ?thesis by (simp add: ufp_build_secure_header_request_def)
next
  case False
  have "unat (ucast n + 60 :: u64) = unat n + 60"
    by (simp add: unat_add_le less_le_trans [OF add_strict_right_mono [OF unat_u32_lt]])
  then have "60 \<le> length out"
    using False cap_length(1) [of "ucast n + 60" cap out] assms by (simp add: not_less)
  then show ?thesis using False
    by (simp add: ufp_build_secure_header_request_def frame_defs frame_eval memset_in)
qed

lemma payload_request_eq:
  assumes "unat cap \<le> length out"
  shows "ufp_build_secure_payload_request (Some out) cap p n fp =
    (if cap < ucast n + 32 \<or> UFP_MAX_PAYLOAD_DATA < n then Some (0, Some out)
     else Some (ucast n + 32, Some (payload_frame p n fp @ drop 32 out)))"
proof (cases "cap < ucast n + 32 \<or> UFP_MAX_PAYLOAD_DATA < n")
  case True
  then show ?thesis by (simp add: ufp_build_secure_payload_request_def)
next
  case False
  have "unat (ucast n + 32 :: u64) = unat n + 32"
    by (simp add: unat_add_le less_le_trans [OF add_strict_right_mono [OF unat_u32_lt]])
  then have "32 \<le> length out"
    using False cap_length(1) [of "ucast n + 32" cap out] assms by (simp add: not_less)
  then show ?thesis using False
    by (simp add: ufp_build_secure_payload_request_def frame_defs frame_eval memset_in)
qed

section \<open>Parsing\<close>

lemma byte_is_in [mem_simps]: "i < length msg \<Longrightarrow> byte_is msg i v = Some (msg ! i = v)"
  by (simp add: byte_is_def peek_in)

lemma has_magic_in:
  assumes "unat len \<le> length msg"
  shows "has_magic msg len a b =
    Some (6 \<le> len \<and> take 6 msg = [0x4e, 0x4f, 0x4b, 0x58, a, b])"
proof (cases "6 \<le> len")
  case True
  have "6 \<le> length msg" using numeral_cap_length [OF True assms] by simp
  then obtain m0 m1 m2 m3 m4 m5 r where "msg = m0 # m1 # m2 # m3 # m4 # m5 # r"
    by (auto simp: numeral_eq_Suc Suc_le_length_iff)
  then show ?thesis using True by (simp add: has_magic_def andM_def byte_is_def peek_def)
next
  case False
  then show ?thesis by (simp add: has_magic_def)
qed

text \<open>The device's payload status answer, read back by the host's parser.\<close>

lemma parse_status_frame:
  assumes "36 \<le> len" "unat len = 36 + length r"
  shows "ufp_parse_secure_payload_response (status_frame s sp bad lst fs @ r) len ef =
    Some (if s \<noteq> 0 then (s, UFP_RESPONSE_zero\<lparr>resp_status := s, resp_specifier := sp\<rparr>)
          else (if ef \<and> fs \<noteq> 1 then ucast fs else UFP_STATUS_OK,
                UFP_RESPONSE_zero\<lparr>resp_status := 0, resp_specifier := sp,
                  resp_last_sector := lst, resp_final_state := fs\<rparr>))"
proof -
  define m where "m = status_frame s sp bad lst fs @ r"
  have l: "\<not> len < 16" "6 \<le> len" "12 \<le> len" "\<not> len < 36" "32 < len" "unat len \<le> length m"
    using assms by (auto simp: m_def word_le_nat_alt word_less_nat_alt)
  have magic: "has_magic m len 0x46 0x53 = Some True"
    unfolding has_magic_in [OF l(6)] using l(2) by (simp add: m_def status_frame_def)
  have "drop 6 m = be16_bytes s @ drop 8 m" "drop 8 m = be32_bytes sp @ drop 12 m"
    "drop 16 m = be32_bytes 14 @ drop 20 m" "drop 28 m = be32_bytes lst @ drop 32 m"
    by (simp_all add: m_def status_frame_def be16_bytes_def be32_bytes_def)
  then have rd: "rd_be16 (drop 6 m) = Some s" "rd_be32 (drop 8 m) = Some sp"
    "rd_be32 (drop 16 m) = Some 14" "rd_be32 (drop 28 m) = Some lst"
    by (metis be16.dec_enc be32.dec_enc)+
  have pk: "peek m 15 = Some 1" "peek m 32 = Some fs"
    by (simp_all add: m_def status_frame_def be16_bytes_def be32_bytes_def peek_def)
  show ?thesis
    unfolding ufp_parse_secure_payload_response_def m_def [symmetric]
    using l(1,3,4,5) by (simp add: magic rd pk UFP_RESPONSE_zero_def ufp_status_defs andM_def)
qed

text \<open>The parsers make no out-of-range access on a message of the announced length, and
  classify it completely.\<close>

lemma parse_payload_cases:
  assumes "unat len \<le> length msg"
  shows "ufp_parse_secure_payload_response msg len ef =
    (if len < 16 then Some (UFP_STATUS_RESP_INVALID_SIZE, UFP_RESPONSE_zero)
     else if take 6 msg \<noteq> asc ''NOKXFS'' then Some (UFP_STATUS_INVALID_MSG, UFP_RESPONSE_zero)
     else do {
       s \<leftarrow> rd_be16 (drop 6 msg);
       sp \<leftarrow> rd_be32 (drop 8 msg);
       let resp = UFP_RESPONSE_zero\<lparr>resp_status := s, resp_specifier := sp\<rparr>;
       if s \<noteq> 0 then Some (s, resp)
       else if msg ! 15 = 0 then Some (UFP_STATUS_RESP_NO_SUBBLOCKS, resp)
       else if len < 36 \<or> take 4 (drop 16 msg) \<noteq> be32_bytes 14
         then Some (UFP_STATUS_RESP_BAD_STATUS_LEN, resp)
       else do {
         lst \<leftarrow> rd_be32 (drop 28 msg);
         Some (if ef \<and> msg ! 32 \<noteq> 1 then ucast (msg ! 32) else UFP_STATUS_OK,
               resp\<lparr>resp_last_sector := lst, resp_final_state := msg ! 32\<rparr>) } })"
proof (cases "len < 16")
  case True
  then show ?thesis by (simp add: ufp_parse_secure_payload_response_def)
next
  case False
  then have l: "16 \<le> length msg" "6 \<le> len" "12 \<le> len"
    using assms by (auto simp: word_le_nat_alt word_less_nat_alt)
  obtain s sp where rd: "rd_be16 (drop 6 msg) = Some s" "rd_be32 (drop 8 msg) = Some sp"
    using l(1) be16.dec_drop_total [of 6 msg] be32.dec_drop_total [of 8 msg] by auto
  have p15: "peek msg 15 = Some (msg ! 15)" using l(1) by (simp add: peek_in)
  show ?thesis
  proof (cases "len < 36")
    case True
    then show ?thesis using False l
      by (simp add: ufp_parse_secure_payload_response_def has_magic_in [OF assms] rd p15 Let_def)
  next
    case big: False
    then have l36: "36 \<le> length msg" "32 < len" using assms
      by (auto simp: word_le_nat_alt word_less_nat_alt)
    obtain n lst where rd2: "rd_be32 (drop 16 msg) = Some n" "rd_be32 (drop 28 msg) = Some lst"
      using l36(1) be32.dec_drop_total [of 16 msg] be32.dec_drop_total [of 28 msg] by auto
    have "take 4 (drop 16 msg) = be32_bytes 14 \<longleftrightarrow> n = 14"
      using be32.enc_dec [OF rd2(1)] by (simp add: be32.enc_inject)
    then show ?thesis using False big l l36
      by (simp add: ufp_parse_secure_payload_response_def has_magic_in [OF assms] rd rd2 p15
          peek_in andM_def Let_def)
  qed
qed

lemma short_responses_defined:
  assumes "unat len \<le> length msg"
  shows "\<exists>r. ufp_parse_switch_response msg len = Some r"
    and "\<exists>r. ufp_parse_secure_header_response msg len = Some r"
proof -
  have "\<exists>s. rd_be16 (drop 6 msg) = Some s" "\<exists>s. rd_be32 (drop 8 msg) = Some s" if "12 \<le> len"
    using numeral_cap_length [OF that assms] be16.dec_drop_total [of 6 msg]
      be32.dec_drop_total [of 8 msg] by auto
  moreover have "12 \<le> len" if "16 \<le> len" using that by (auto simp: word_le_nat_alt)
  ultimately show "\<exists>r. ufp_parse_switch_response msg len = Some r"
    and "\<exists>r. ufp_parse_secure_header_response msg len = Some r"
    by (auto simp: ufp_parse_switch_response_def ufp_parse_secure_header_response_def
        has_magic_in [OF assms] not_less)
qed

end
