(* ===== verification/Responses.thy ===== *)
theory Responses
  imports Usb_Spec Ufp_Proto
begin

text \<open>
  The response builders of \<open>src/main.c\<close> (lines 233-338, 825-833, 905-911, 948-963). Each fills
  a local buffer, or an allocated one when the response is long, and hands it to the
  transport. A local buffer is not initialised by C; every byte that is sent is written
  first, so its initial contents (\<open>stack\<close>) do not matter.
\<close>

section \<open>Definitions\<close>

type_synonym send_result = "(EFI_STATUS \<times> USB_TRANSPORT \<times> world) run option"

definition stack :: "nat \<Rightarrow> bytes" where "stack n = replicate n 0"

definition status_from_efi :: "EFI_STATUS \<Rightarrow> u16" where
  "status_from_efi st = (if \<not> EFI_ERROR st then 0 else ucast (st AND 0xffff))"

definition efi_status_to_wire32 :: "EFI_STATUS \<Rightarrow> u32" where
  "efi_status_to_wire32 st =
     (let low = ucast (st AND 0xffffffff) in if EFI_ERROR st then 0x80000000 OR low else low)"

definition send_fs_short :: "env \<Rightarrow> USB_TRANSPORT \<Rightarrow> u16 \<Rightarrow> u32 \<Rightarrow> world \<Rightarrow> send_result" where
  "send_fs_short E usb status specifier w = do {
     resp \<leftarrow> memset (stack 16) 0 0 16;
     resp \<leftarrow> poke resp 0 (asc ''NOKXFS'');
     resp \<leftarrow> wr_be16 resp 6 status;
     resp \<leftarrow> wr_be32 resp 8 specifier;
     usb_transport_send E usb (Some resp) 16 w }"

definition send_unknown_response :: "env \<Rightarrow> USB_TRANSPORT \<Rightarrow> world \<Rightarrow> send_result" where
  "send_unknown_response E usb w = usb_transport_send E usb (Some (asc ''NOKU'')) 4 w"

definition send_cb_response :: "env \<Rightarrow> USB_TRANSPORT \<Rightarrow> u16 \<Rightarrow> u32 \<Rightarrow> world \<Rightarrow> send_result" where
  "send_cb_response E usb status specifier w = do {
     resp \<leftarrow> poke (stack 12) 0 (asc ''NOKXCB'');
     resp \<leftarrow> wr_be16 resp 6 status;
     resp \<leftarrow> wr_be32 resp 8 specifier;
     usb_transport_send E usb (Some resp) 12 w }"

definition send_ext_status8 :: "env \<Rightarrow> USB_TRANSPORT \<Rightarrow> u8 \<Rightarrow> u8 \<Rightarrow> u16 \<Rightarrow> world \<Rightarrow> send_result" where
  "send_ext_status8 E usb app ext status w = do {
     resp \<leftarrow> poke (stack 8) 0 (asc ''NOKX'' @ [app, ext]);
     resp \<leftarrow> wr_be16 resp 6 status;
     usb_transport_send E usb (Some resp) 8 w }"

text \<open>A response buffer of \<open>tot\<close> bytes: the 64-byte local one or, if that is too small, an
  allocated one, which is freed after the send.\<close>

definition response_buffer :: "env \<Rightarrow> u64 \<Rightarrow> world \<Rightarrow> bytes option \<times> bool \<times> world" where
  "response_buffer E tot w =
     (if 64 < tot then let (p, w) = uefi_alloc E tot w in (p, True, w)
      else (Some (stack 64), False, w))"

definition send_and_free ::
    "env \<Rightarrow> USB_TRANSPORT \<Rightarrow> bytes \<Rightarrow> u64 \<Rightarrow> bool \<Rightarrow> world \<Rightarrow> send_result" where
  "send_and_free E usb resp tot allocated w =
     after (usb_transport_send E usb (Some resp) tot w)
       (\<lambda>(st, usb, w). Some (Returns (st, usb, if allocated then uefi_free E True w else w)))"

definition send_ext_blob_response ::
    "env \<Rightarrow> USB_TRANSPORT \<Rightarrow> u8 \<Rightarrow> u8 \<Rightarrow> u16 \<Rightarrow> bytes \<Rightarrow> u64 \<Rightarrow> world \<Rightarrow> send_result" where
  "send_ext_blob_response E usb app ext status data data_len w =
     (let tot = 12 + data_len
      in case response_buffer E tot w of
        (None, al, w) \<Rightarrow> Some (Returns (EFI_OUT_OF_RESOURCES, usb, w))
      | (Some resp, al, w) \<Rightarrow> do {
          resp \<leftarrow> memset resp 0 0 (unat tot);
          resp \<leftarrow> poke resp 0 (asc ''NOKX'' @ [app, ext]);
          resp \<leftarrow> wr_be16 resp 6 status;
          resp \<leftarrow> wr_be32 resp 8 (ucast data_len);
          resp \<leftarrow> memcpy resp 12 data 0 (unat data_len);
          send_and_free E usb resp tot al w })"

definition send_fr_response ::
    "env \<Rightarrow> USB_TRANSPORT \<Rightarrow> u32 \<Rightarrow> u16 \<Rightarrow> bytes \<Rightarrow> u64 \<Rightarrow> world \<Rightarrow> send_result" where
  "send_fr_response E usb param status data data_len w =
     (let tot = 17 + data_len
      in case response_buffer E tot w of
        (None, al, w) \<Rightarrow> Some (Returns (EFI_OUT_OF_RESOURCES, usb, w))
      | (Some resp, al, w) \<Rightarrow> do {
          resp \<leftarrow> memset resp 0 0 (unat tot);
          resp \<leftarrow> poke resp 0 (asc ''NOKXFR'');
          resp \<leftarrow> wr_be16 resp 6 status;
          resp \<leftarrow> poke resp 8 [0];
          resp \<leftarrow> wr_be32 resp 9 param;
          resp \<leftarrow> wr_be32 resp 13 (ucast data_len);
          resp \<leftarrow> memcpy resp 17 data 0 (unat data_len);
          send_and_free E usb resp tot al w })"

definition send_fw_response :: "env \<Rightarrow> USB_TRANSPORT \<Rightarrow> u32 \<Rightarrow> u16 \<Rightarrow> world \<Rightarrow> send_result" where
  "send_fw_response E usb param status w = do {
     resp \<leftarrow> memset (stack 17) 0 0 17;
     resp \<leftarrow> poke resp 0 (asc ''NOKXFW'');
     resp \<leftarrow> wr_be16 resp 6 status;
     resp \<leftarrow> poke resp 8 [0];
     resp \<leftarrow> wr_be32 resp 9 param;
     usb_transport_send E usb (Some resp) 17 w }"

definition send_legacy_flash_response ::
    "env \<Rightarrow> USB_TRANSPORT \<Rightarrow> u16 \<Rightarrow> u32 \<Rightarrow> u32 \<Rightarrow> world \<Rightarrow> send_result" where
  "send_legacy_flash_response E usb status count specifier w = do {
     resp \<leftarrow> memset (stack 18) 0 0 18;
     resp \<leftarrow> poke resp 0 (asc ''NOKF'');
     resp \<leftarrow> wr_be16 resp 5 status;
     resp \<leftarrow> wr_be32 resp 10 count;
     resp \<leftarrow> wr_be32 resp 14 specifier;
     usb_transport_send E usb (Some resp) 18 w }"

definition send_ext_declared_len_response ::
    "env \<Rightarrow> USB_TRANSPORT \<Rightarrow> u8 \<Rightarrow> u8 \<Rightarrow> u16 \<Rightarrow> u32 \<Rightarrow> world \<Rightarrow> send_result" where
  "send_ext_declared_len_response E usb app ext status declared_len w = do {
     resp \<leftarrow> memset (stack 12) 0 0 12;
     resp \<leftarrow> poke resp 0 (asc ''NOKX'' @ [app, ext]);
     resp \<leftarrow> wr_be16 resp 6 status;
     resp \<leftarrow> wr_be32 resp 8 declared_len;
     usb_transport_send E usb (Some resp) 12 w }"

definition handle_read_empty_log :: "env \<Rightarrow> USB_TRANSPORT \<Rightarrow> u8 \<Rightarrow> u32 \<Rightarrow> world \<Rightarrow> send_result" where
  "handle_read_empty_log E usb ext requested_size w =
     (let status = (if 0xffe3 < requested_size \<or> max_transfer usb < ucast requested_size then 48 else 0)
      in send_ext_blob_response E usb 0x46 ext status [] 0 w)"

section \<open>The frames\<close>

definition fs_frame :: "u16 \<Rightarrow> u32 \<Rightarrow> bytes" where
  "fs_frame s sp = asc ''NOKXFS'' @ be16_bytes s @ be32_bytes sp @ replicate 4 0"

definition cb_frame :: "u16 \<Rightarrow> u32 \<Rightarrow> bytes" where
  "cb_frame s sp = asc ''NOKXCB'' @ be16_bytes s @ be32_bytes sp"

definition ext8_frame :: "u8 \<Rightarrow> u8 \<Rightarrow> u16 \<Rightarrow> bytes" where
  "ext8_frame app ext s = asc ''NOKX'' @ [app, ext] @ be16_bytes s"

definition blob_frame :: "u8 \<Rightarrow> u8 \<Rightarrow> u16 \<Rightarrow> u32 \<Rightarrow> bytes \<Rightarrow> bytes" where
  "blob_frame app ext s n d = asc ''NOKX'' @ [app, ext] @ be16_bytes s @ be32_bytes n @ d"

definition fr_frame :: "u32 \<Rightarrow> u16 \<Rightarrow> u32 \<Rightarrow> bytes \<Rightarrow> bytes" where
  "fr_frame param s n d = asc ''NOKXFR'' @ be16_bytes s @ [0] @ be32_bytes param @ be32_bytes n @ d"

definition fw_frame :: "u32 \<Rightarrow> u16 \<Rightarrow> bytes" where
  "fw_frame param s = asc ''NOKXFW'' @ be16_bytes s @ [0] @ be32_bytes param @ replicate 4 0"

definition legacy_frame :: "u16 \<Rightarrow> u32 \<Rightarrow> u32 \<Rightarrow> bytes" where
  "legacy_frame s n sp = asc ''NOKF'' @ [0] @ be16_bytes s @ replicate 3 0 @ be32_bytes n @ be32_bytes sp"

lemmas resp_frames = fs_frame_def cb_frame_def ext8_frame_def blob_frame_def fr_frame_def
  fw_frame_def legacy_frame_def

text \<open>A handler's answer: at most one message, and if there is one it is \<open>m\<close>.\<close>

definition answers :: "USB_TRANSPORT \<Rightarrow> bytes \<Rightarrow> world \<Rightarrow> send_result \<Rightarrow> bool" where
  "answers usb m w r \<longleftrightarrow> (\<exists>ms. delivers usb_ok usb_keep usb ms w r \<and> (ms = [] \<or> ms = [m]))"

text \<open>An answer that is certain to be sent, as it fits the transport.\<close>

definition replies :: "USB_TRANSPORT \<Rightarrow> bytes \<Rightarrow> world \<Rightarrow> send_result \<Rightarrow> bool" where
  "replies usb m w r \<longleftrightarrow> delivers usb_ok usb_keep usb
     (if of_nat (length m) \<le> max_transfer usb then [m] else []) w r"

lemma replies_answers: "replies usb m w r \<Longrightarrow> answers usb m w r"
  by (auto simp: replies_def answers_def split: if_splits)

lemma send_replies:
  assumes "usb_ok usb" "unat n = length d"
  shows "replies usb d w (usb_transport_send E usb (Some d) n w)"
proof -
  have "of_nat (length d) = n" by (simp flip: assms(2))
  then show ?thesis using usb.send_delivers [OF assms(1), of n d w E] assms(2)
    by (auto simp: replies_def usb.message_def)
qed

lemma delivers_send:
  assumes "delivers usb_ok usb_keep usb ms v r" "sent v = sent w" "quiet w v"
  shows "delivers usb_ok usb_keep usb ms w r"
  using assms by (rule delivers_from)

lemma answers_from: "answers usb m v r \<Longrightarrow> sent v = sent w \<Longrightarrow> quiet w v \<Longrightarrow> answers usb m w r"
  unfolding answers_def by (blast intro: delivers_send)

lemma replies_from: "replies usb m v r \<Longrightarrow> sent v = sent w \<Longrightarrow> quiet w v \<Longrightarrow> replies usb m w r"
  unfolding replies_def by (rule delivers_send)

lemma answers_silent:
  "usb_ok usb \<Longrightarrow> sent v = sent w \<Longrightarrow> quiet w v \<Longrightarrow> answers usb m w (Some (Returns (st, usb, v)))"
  by (auto simp: answers_def intro: exI [of _ "[]"])

section \<open>The short responses\<close>

lemmas resp_eval = stack_def frame_eval resp_frames memset_in

lemma short_frames:
  "send_fs_short E usb s sp w = usb_transport_send E usb (Some (fs_frame s sp)) 16 w"
  "send_cb_response E usb s sp w = usb_transport_send E usb (Some (cb_frame s sp)) 12 w"
  "send_ext_status8 E usb app ext s w = usb_transport_send E usb (Some (ext8_frame app ext s)) 8 w"
  "send_fw_response E usb param s w = usb_transport_send E usb (Some (fw_frame param s)) 17 w"
  "send_legacy_flash_response E usb s n sp w = usb_transport_send E usb (Some (legacy_frame s n sp)) 18 w"
  "send_ext_declared_len_response E usb app ext s k w
     = usb_transport_send E usb (Some (blob_frame app ext s k [])) 12 w"
  by (simp_all add: send_fs_short_def send_cb_response_def send_ext_status8_def send_fw_response_def
      send_legacy_flash_response_def send_ext_declared_len_response_def resp_eval)

lemma short_replies:
  assumes "usb_ok usb"
  shows "replies usb (fs_frame s sp) w (send_fs_short E usb s sp w)"
    "replies usb (cb_frame s sp) w (send_cb_response E usb s sp w)"
    "replies usb (ext8_frame app ext s) w (send_ext_status8 E usb app ext s w)"
    "replies usb (fw_frame param s) w (send_fw_response E usb param s w)"
    "replies usb (legacy_frame s n sp) w (send_legacy_flash_response E usb s n sp w)"
    "replies usb (blob_frame app ext s k []) w (send_ext_declared_len_response E usb app ext s k w)"
    "replies usb (asc ''NOKU'') w (send_unknown_response E usb w)"
  unfolding short_frames send_unknown_response_def
  by (rule send_replies [OF assms], simp add: resp_frames)+

lemmas short_answers = short_replies [THEN replies_answers]

section \<open>The long responses\<close>

lemma free_delivers:
  assumes "usb_ok usb" "unat n \<le> length d"
  shows "delivers usb_ok usb_keep usb (usb.message usb d n) w (send_and_free E usb d n al w)"
  using usb.delivers_cleanup [OF usb.send_delivers [OF assms, of w E], of "if al then uefi_free E True else id"]
  by (simp add: send_and_free_def if_distrib if_distribR cong: if_cong)

lemma response_buffer_post:
  assumes "response_buffer E n w = (p, al, v)" "n \<noteq> 0"
  shows "sent v = sent w" "quiet w v" "p = None \<or> (\<exists>b. p = Some b \<and> unat n \<le> length b)"
    "n \<le> 64 \<Longrightarrow> p \<noteq> None \<and> v = w"
  using assms uefi_alloc_quiet [of E n w] uefi_alloc_length [of E n w]
  by (auto simp: response_buffer_def stack_def word_le_nat_alt word_less_nat_alt split: if_splits prod.splits)

lemma memcpy_mid:
  "i = length xs \<Longrightarrow> length ys = n \<Longrightarrow> n \<le> length d
    \<Longrightarrow> memcpy (xs @ ys @ zs) i d 0 n = Some (xs @ take n d @ zs)"
  by (simp add: memcpy_in)

lemma memset_split:
  "m + n \<le> length p \<Longrightarrow> memset p 0 0 (m + n) = Some (replicate m 0 @ replicate n 0 @ drop (m + n) p)"
  by (simp add: memset_in replicate_add)

lemma blob_bytes:
  assumes "12 + n \<le> length p" "n \<le> length d"
  shows "do { p \<leftarrow> memset p 0 0 (12 + n);
      p \<leftarrow> poke p 0 (asc ''NOKX'' @ [app, ext]);
      p \<leftarrow> wr_be16 p 6 s;
      p \<leftarrow> wr_be32 p 8 k;
      memcpy p 12 d 0 n } = Some (blob_frame app ext s k (take n d) @ drop (12 + n) p)"
proof -
  define z where "z = drop (12 + n) p"
  have "memcpy (blob_frame app ext s k [] @ replicate n 0 @ z) 12 d 0 n
      = Some (blob_frame app ext s k [] @ take n d @ z)"
    by (rule memcpy_mid) (simp_all add: blob_frame_def assms)
  then show ?thesis unfolding memset_split [OF assms(1)] z_def [symmetric]
    by (simp add: resp_eval)
qed

lemma fr_bytes:
  assumes "17 + n \<le> length p" "n \<le> length d"
  shows "do { p \<leftarrow> memset p 0 0 (17 + n);
      p \<leftarrow> poke p 0 (asc ''NOKXFR'');
      p \<leftarrow> wr_be16 p 6 s;
      p \<leftarrow> poke p 8 [0];
      p \<leftarrow> wr_be32 p 9 param;
      p \<leftarrow> wr_be32 p 13 k;
      memcpy p 17 d 0 n } = Some (fr_frame param s k (take n d) @ drop (17 + n) p)"
proof -
  define z where "z = drop (17 + n) p"
  have "memcpy (fr_frame param s k [] @ replicate n 0 @ z) 17 d 0 n
      = Some (fr_frame param s k [] @ take n d @ z)"
    by (rule memcpy_mid) (simp_all add: fr_frame_def assms)
  then show ?thesis unfolding memset_split [OF assms(1)] z_def [symmetric]
    by (simp add: resp_eval)
qed

text \<open>Filling a response buffer and sending it, whichever buffer it is.\<close>

lemma buffered_send:
  fixes usb :: USB_TRANSPORT and E :: env and p :: "bytes option"
  assumes ok: "usb_ok usb" and rb: "response_buffer E n w = (p, al, v)" and m: "length m = unat n" "n \<noteq> 0"
    and fill: "\<And>b. unat n \<le> length b \<Longrightarrow> fill b = Some (m @ drop (unat n) b)"
  defines "r \<equiv> (case (p, al, v) of (None, al, w) \<Rightarrow> Some (Returns (EFI_OUT_OF_RESOURCES, usb, w))
      | (Some resp, al, w) \<Rightarrow> fill resp \<bind> (\<lambda>resp. send_and_free E usb resp n al w))"
  shows "answers usb m w r" "n \<le> 64 \<Longrightarrow> replies usb m w r" "memory_ok E \<Longrightarrow> replies usb m w r"
proof -
  note P = response_buffer_post [OF rb m(2)]
  have n: "of_nat (length m) = n" by (simp add: m(1))
  have sendp: "replies usb m w r" if "p = Some b" for b
  proof -
    have b: "unat n \<le> length b" using P(3) that by simp
    have "delivers usb_ok usb_keep usb (usb.message usb (m @ drop (unat n) b) n) v
        (send_and_free E usb (m @ drop (unat n) b) n al v)"
      by (rule free_delivers [OF ok]) (simp add: m)
    then have "delivers usb_ok usb_keep usb (if n \<le> max_transfer usb then [m] else []) v r"
      using that fill [OF b] m(1) by (auto simp: r_def usb.message_def)
    then have "delivers usb_ok usb_keep usb (if n \<le> max_transfer usb then [m] else []) w r"
      using P(1,2) by (rule delivers_send)
    then show ?thesis by (simp only: replies_def n)
  qed
  show "answers usb m w r"
  proof (cases p)
    case None
    then show ?thesis using P(1,2) by (simp add: r_def answers_silent ok)
  qed (use sendp replies_answers in blast)
  show "n \<le> 64 \<Longrightarrow> replies usb m w r" using P(4) sendp by auto
  show "replies usb m w r" if "memory_ok E"
  proof -
    have "p \<noteq> None" using rb alloc_zeros [OF that m(2), of w] by (auto simp: response_buffer_def split: if_splits)
    then show ?thesis using sendp by blast
  qed
qed

lemma unat_add_const:
  assumes "unat (n :: u64) < 2 ^ 63" "unat c \<le> 64"
  shows "unat (c + n) = unat c + unat n"
  using assms by (intro unat_add_le) simp

lemma blob_post:
  fixes app ext :: u8 and s :: u16 and n :: u64 and d :: bytes
  assumes ok: "usb_ok usb" and d: "unat n \<le> length d" "unat n < 2 ^ 63"
  defines "m \<equiv> blob_frame app ext s (ucast n) (take (unat n) d)"
  shows "answers usb m w (send_ext_blob_response E usb app ext s d n w)"
    "n \<le> 52 \<Longrightarrow> replies usb m w (send_ext_blob_response E usb app ext s d n w)"
proof -
  have t: "unat (12 + n) = 12 + unat n" using unat_add_const [OF d(2), of 12] by simp
  obtain p al v where rb: "response_buffer E (12 + n) w = (p, al, v)" by (cases "response_buffer E (12 + n) w")
  have m: "length m = unat (12 + n)" using d by (simp add: m_def blob_frame_def t)
  have nz: "12 + n \<noteq> 0" using t by auto
  have eq: "send_ext_blob_response E usb app ext s d n w
    = (case (p, al, v) of (None, al, w) \<Rightarrow> Some (Returns (EFI_OUT_OF_RESOURCES, usb, w))
      | (Some resp, al, w) \<Rightarrow> (do { p \<leftarrow> memset resp 0 0 (12 + unat n);
            p \<leftarrow> poke p 0 (asc ''NOKX'' @ [app, ext]);
            p \<leftarrow> wr_be16 p 6 s;
            p \<leftarrow> wr_be32 p 8 (ucast n);
            memcpy p 12 d 0 (unat n) }) \<bind> (\<lambda>resp. send_and_free E usb resp (12 + n) al w))"
    unfolding send_ext_blob_response_def Let_def rb t by (simp split: option.split)
  note B = buffered_send [OF ok rb m nz, where fill = "\<lambda>resp. do { p \<leftarrow> memset resp 0 0 (12 + unat n);
            p \<leftarrow> poke p 0 (asc ''NOKX'' @ [app, ext]);
            p \<leftarrow> wr_be16 p 6 s;
            p \<leftarrow> wr_be32 p 8 (ucast n);
            memcpy p 12 d 0 (unat n) }"]
  show "answers usb m w (send_ext_blob_response E usb app ext s d n w)" unfolding eq
    by (rule B(1)) (unfold t m_def, rule blob_bytes, simp_all add: d)
  show "replies usb m w (send_ext_blob_response E usb app ext s d n w)" if "n \<le> 52" unfolding eq
  proof (rule B(2))
    show "12 + n \<le> 64" using that t by (simp add: word_le_nat_alt)
  qed (unfold t m_def, rule blob_bytes, simp_all add: d)
qed

lemma fr_post:
  fixes param :: u32 and s :: u16 and n :: u64 and d :: bytes
  assumes ok: "usb_ok usb" and d: "unat n \<le> length d" "unat n < 2 ^ 63"
  defines "m \<equiv> fr_frame param s (ucast n) (take (unat n) d)"
  shows "answers usb m w (send_fr_response E usb param s d n w)"
    "n \<le> 47 \<Longrightarrow> replies usb m w (send_fr_response E usb param s d n w)"
    "memory_ok E \<Longrightarrow> replies usb m w (send_fr_response E usb param s d n w)"
proof -
  have t: "unat (17 + n) = 17 + unat n" using unat_add_const [OF d(2), of 17] by simp
  obtain p al v where rb: "response_buffer E (17 + n) w = (p, al, v)" by (cases "response_buffer E (17 + n) w")
  have m: "length m = unat (17 + n)" using d by (simp add: m_def fr_frame_def t)
  have nz: "17 + n \<noteq> 0" using t by auto
  have eq: "send_fr_response E usb param s d n w
    = (case (p, al, v) of (None, al, w) \<Rightarrow> Some (Returns (EFI_OUT_OF_RESOURCES, usb, w))
      | (Some resp, al, w) \<Rightarrow> (do { p \<leftarrow> memset resp 0 0 (17 + unat n);
            p \<leftarrow> poke p 0 (asc ''NOKXFR'');
            p \<leftarrow> wr_be16 p 6 s;
            p \<leftarrow> poke p 8 [0];
            p \<leftarrow> wr_be32 p 9 param;
            p \<leftarrow> wr_be32 p 13 (ucast n);
            memcpy p 17 d 0 (unat n) }) \<bind> (\<lambda>resp. send_and_free E usb resp (17 + n) al w))"
    unfolding send_fr_response_def Let_def rb t by (simp split: option.split)
  note B = buffered_send [OF ok rb m nz, where fill = "\<lambda>resp. do { p \<leftarrow> memset resp 0 0 (17 + unat n);
            p \<leftarrow> poke p 0 (asc ''NOKXFR'');
            p \<leftarrow> wr_be16 p 6 s;
            p \<leftarrow> poke p 8 [0];
            p \<leftarrow> wr_be32 p 9 param;
            p \<leftarrow> wr_be32 p 13 (ucast n);
            memcpy p 17 d 0 (unat n) }"]
  show "answers usb m w (send_fr_response E usb param s d n w)" unfolding eq
    by (rule B(1)) (unfold t m_def, rule fr_bytes, simp_all add: d)
  show "replies usb m w (send_fr_response E usb param s d n w)" if "n \<le> 47" unfolding eq
  proof (rule B(2))
    show "17 + n \<le> 64" using that t by (simp add: word_le_nat_alt)
  qed (unfold t m_def, rule fr_bytes, simp_all add: d)
  show "replies usb m w (send_fr_response E usb param s d n w)" if "memory_ok E" unfolding eq
    by (rule B(3) [OF _ that]) (unfold t m_def, rule fr_bytes, simp_all add: d)
qed

lemma empty_log_replies:
  assumes "usb_ok usb"
  shows "replies usb (blob_frame 0x46 ext (if 0xffe3 < k \<or> max_transfer usb < ucast k then 48 else 0) 0 [])
    w (handle_read_empty_log E usb ext k w)"
  using blob_post(2) [OF assms, of 0 "[]"] by (simp add: handle_read_empty_log_def)

end
