(* ===== verification/Variables.thy ===== *)
theory Variables
  imports Responses
begin

text \<open>
  The handlers of \<open>src/main.c\<close> (lines 340-467) that read and write UEFI variables for the
  host. A message is the transport's receive buffer together with the length received.
\<close>

section \<open>Definitions\<close>

text \<open>The variable name, copied behind its length check and terminated by two zero bytes:
  0 and no name if the length is bad, -1 if there is no memory.\<close>

definition alloc_uefi_var_name ::
    "env \<Rightarrow> bytes \<Rightarrow> u64 \<Rightarrow> world \<Rightarrow> (int \<times> bytes option \<times> world) option" where
  "alloc_uefi_var_name E src src_len w =
     (if src_len = 0 \<or> src_len AND 1 \<noteq> 0 \<or> 1024 < src_len then Some (0, None, w)
      else case uefi_alloc E (src_len + 2) w of
        (None, w) \<Rightarrow> Some (-1, None, w)
      | (Some name, w) \<Rightarrow> do {
          name \<leftarrow> memcpy name 0 src 0 (unat src_len);
          Some (1, Some name, w) })"

definition read_var_status :: "EFI_STATUS \<Rightarrow> u16" where
  "read_var_status st = (if st = EFI_NOT_FOUND then 10 else if EFI_ERROR st then 2 else 0)"

definition GetVariable_call ::
    "env \<Rightarrow> bytes \<Rightarrow> bytes \<Rightarrow> u64 \<Rightarrow> world \<Rightarrow> (EFI_STATUS \<times> u32 \<times> u64 \<times> bytes) \<times> world" where
  "GetVariable_call E name guid n w = (let w = emit (GetVariable name guid n) w in (get_variable E (trace w), w))"

definition SetVariable_call ::
    "env \<Rightarrow> bytes \<Rightarrow> bytes \<Rightarrow> u32 \<Rightarrow> bytes \<Rightarrow> world \<Rightarrow> EFI_STATUS \<times> world" where
  "SetVariable_call E name guid attributes value w =
     (let w = emit (SetVariable name guid attributes value) w in (set_variable E (trace w), w))"

definition handle_read_uefi_var_size ::
    "env \<Rightarrow> USB_TRANSPORT \<Rightarrow> u32 \<Rightarrow> bytes \<Rightarrow> u64 \<Rightarrow> world \<Rightarrow> send_result" where
  "handle_read_uefi_var_size E usb param msg len w =
     (if \<not> uefi_rs E \<or> \<not> has_get_variable E \<or> len < 39 then send_fr_response E usb param 8 [] 0 w
      else do {
        name_len \<leftarrow> rd_be32 (drop 35 msg);
        if len < 39 + ucast name_len then send_fr_response E usb param 8 [] 0 w
        else do {
          (name_status, name, w) \<leftarrow> alloc_uefi_var_name E (drop 39 msg) (ucast name_len) w;
          case name of
            None \<Rightarrow> send_fr_response E usb param (if name_status \<noteq> 0 then 1 else 8) [] 0 w
          | Some name \<Rightarrow> do {
              guid \<leftarrow> load msg 15 16;
              let ((st, _, sz, _), w) = GetVariable_call E name guid 0 w;
              let st = (if st = EFI_BUFFER_TOO_SMALL then EFI_SUCCESS else st);
              let status = read_var_status st;
              data \<leftarrow> wr_be32 (stack 4) 0 (ucast sz);
              let w = uefi_free E True w;
              send_fr_response E usb param status (if status \<noteq> 0 then [] else data)
                (if status \<noteq> 0 then 0 else 4) w }}})"

text \<open>The firmware stores the value behind the 8-byte header of \<open>data\<close>, if it is given a
  buffer at all.\<close>

definition handle_read_uefi_var_value ::
    "env \<Rightarrow> USB_TRANSPORT \<Rightarrow> u32 \<Rightarrow> bytes \<Rightarrow> u64 \<Rightarrow> world \<Rightarrow> send_result" where
  "handle_read_uefi_var_value E usb param msg len w =
     (if \<not> uefi_rs E \<or> \<not> has_get_variable E \<or> len < 39 then send_fr_response E usb param 8 [] 0 w
      else do {
        requested_size \<leftarrow> rd_be32 (drop 31 msg);
        name_len \<leftarrow> rd_be32 (drop 35 msg);
        if len < 39 + ucast name_len \<or> 0x10000 < requested_size then send_fr_response E usb param 8 [] 0 w
        else if max_transfer usb \<le> 25 \<or> ucast (max_transfer usb - 25) < requested_size
        then send_fr_response E usb param 48 [] 0 w
        else do {
          (name_status, name, w) \<leftarrow> alloc_uefi_var_name E (drop 39 msg) (ucast name_len) w;
          case name of
            None \<Rightarrow> send_fr_response E usb param (if name_status \<noteq> 0 then 1 else 8) [] 0 w
          | Some name \<Rightarrow> (case uefi_alloc E (ucast requested_size + 8) w of
              (None, w) \<Rightarrow> let w = uefi_free E True w in send_fr_response E usb param 1 [] 0 w
            | (Some data, w) \<Rightarrow> do {
                guid \<leftarrow> load msg 15 16;
                let ((st, attributes, sz, value), w) = GetVariable_call E name guid (ucast requested_size) w;
                data \<leftarrow> (if requested_size \<noteq> 0 then poke data 8 value else Some data);
                let status = read_var_status st;
                data \<leftarrow> (if status = 0 then do {
                    data \<leftarrow> wr_be32 data 0 attributes;
                    wr_be32 data 4 (ucast sz) } else Some data);
                let w = uefi_free E True w;
                after (send_fr_response E usb param status (if status \<noteq> 0 then [] else data)
                    (if status \<noteq> 0 then 0 else sz + 8) w)
                  (\<lambda>(st, usb, w). Some (Returns (st, usb, uefi_free E True w))) })}})"

definition handle_write_uefi_var ::
    "env \<Rightarrow> USB_TRANSPORT \<Rightarrow> u32 \<Rightarrow> bytes \<Rightarrow> u64 \<Rightarrow> world \<Rightarrow> send_result" where
  "handle_write_uefi_var E usb param msg len w =
     (if \<not> uefi_rs E \<or> \<not> has_set_variable E \<or> len < 555 then send_fw_response E usb param 8 w
      else do {
        name_len \<leftarrow> rd_be32 (drop 31 msg);
        attributes \<leftarrow> rd_be32 (drop 547 msg);
        value_len \<leftarrow> rd_be32 (drop 551 msg);
        if 512 < name_len \<or> 0x10000 < value_len \<or> len < 555 + ucast value_len
        then send_fw_response E usb param 8 w
        else do {
          (name_status, name, w) \<leftarrow> alloc_uefi_var_name E (drop 35 msg) (ucast name_len) w;
          case name of
            None \<Rightarrow> send_fw_response E usb param (if name_status \<noteq> 0 then 1 else 8) w
          | Some name \<Rightarrow> do {
              guid \<leftarrow> load msg 15 16;
              value \<leftarrow> load msg 555 (unat value_len);
              let (st, w) = SetVariable_call E name guid attributes value w;
              let w = uefi_free E True w;
              send_fw_response E usb param (if EFI_ERROR st then 4 else 0) w }}})"

section \<open>The firmware's contract\<close>

text \<open>\<open>GetVariable\<close> stores no more bytes than it was told the buffer has, and on success it
  reports the size of what it stored.\<close>

definition variable_contract :: "env \<Rightarrow> bool" where
  "variable_contract E \<longleftrightarrow> (\<forall>t name guid n st attributes sz value.
     get_variable E (t @ [GetVariable name guid n]) = (st, attributes, sz, value) \<longrightarrow>
       length value \<le> unat n \<and> (\<not> EFI_ERROR st \<longrightarrow> unat sz = length value))"

lemma variable_contractD:
  assumes "variable_contract E" "get_variable E (t @ [GetVariable name guid n]) = (st, attributes, sz, value)"
  shows "length value \<le> unat n" "\<not> EFI_ERROR st \<Longrightarrow> unat sz = length value"
  using assms unfolding variable_contract_def by blast+

section \<open>Names\<close>

lemma uefi_alloc_prefix: "uefi_alloc E n w = (p, v) \<Longrightarrow> prefix (trace w) (trace v)"
  by (auto simp: uefi_alloc_def Let_def split: if_splits)

lemma variable_events_quiet [simp]:
  "quiet a b \<Longrightarrow> quiet a (emit (GetVariable x y n) b)" "quiet a b \<Longrightarrow> quiet a (emit (SetVariable x y k z) b)"
  by (simp_all add: quiet_def disk_writes_def)

lemma alloc_name_cases:
  assumes "unat n \<le> length src"
  obtains st v where "alloc_uefi_var_name E src n w = Some (st, None, v)" "sent v = sent w" "quiet w v"
      "prefix (trace w) (trace v)" "st = 0 \<or> st = -1" "st = 0 \<longleftrightarrow> n = 0 \<or> odd n \<or> 1024 < n"
  | v where "alloc_uefi_var_name E src n w = Some (1, Some (take (unat n) src @ [0, 0]), v)"
      "sent v = sent w" "quiet w v" "prefix (trace w) (trace v)" "n \<noteq> 0" "even n" "n \<le> 1024"
proof (cases "n = 0 \<or> odd n \<or> 1024 < n")
  case True
  then show ?thesis by (intro that(1) [of 0 w]) (auto simp: alloc_uefi_var_name_def and_one_eq mod_2_eq_odd)
next
  case False
  then have ok: "n \<noteq> 0" "even n" "n \<le> 1024" by auto
  then have u: "unat (n + 2) = unat n + 2"
    by (subst unat_add_le) (auto simp: word_le_nat_alt)
  obtain p v where a: "uefi_alloc E (n + 2) w = (p, v)" by fastforce
  have q: "sent v = sent w" "quiet w v" "prefix (trace w) (trace v)"
    using uefi_alloc_quiet [OF a] uefi_alloc_prefix [OF a] by simp_all
  have eq: "alloc_uefi_var_name E src n w = (case (p, v) of (None, w) \<Rightarrow> Some (-1, None, w)
      | (Some name, w) \<Rightarrow> memcpy name 0 src 0 (unat n) \<bind> (\<lambda>name. Some (1, Some name, w)))"
    using ok a by (auto simp: alloc_uefi_var_name_def and_one_eq mod_2_eq_odd)
  show ?thesis
  proof (cases p)
    case None
    then show ?thesis using eq q ok by (intro that(1) [of "-1" v]) auto
  next
    case (Some b)
    have "b = replicate (unat n + 2) 0"
      using a Some u by (auto simp: uefi_alloc_def Let_def split: if_splits)
    then have "b = replicate (unat n) 0 @ [0, 0]" by (simp only: replicate_add) (simp add: numeral_2_eq_2)
    then show ?thesis using eq q ok Some assms by (intro that(2) [of v]) (simp_all add: memcpy_in)
  qed
qed

section \<open>Reading\<close>

text \<open>A read answer: an error status without data, or the status 0 with the data described.\<close>

definition var_answer :: "u32 \<Rightarrow> (bytes \<Rightarrow> bool) \<Rightarrow> USB_TRANSPORT \<Rightarrow> world \<Rightarrow> send_result \<Rightarrow> bool" where
  "var_answer param ok usb w r \<longleftrightarrow> (\<exists>s d. answers usb (fr_frame param s (of_nat (length d)) d) w r
     \<and> (if s = 0 then ok d else d = []))"

lemma var_answer_error:
  "usb_ok usb \<Longrightarrow> s \<noteq> 0 \<Longrightarrow> var_answer param ok usb w (send_fr_response E usb param s [] 0 w)"
  using fr_post(1) [of usb 0 "[]" param s w E] unfolding var_answer_def
  by (intro exI [of _ s] exI [of _ "[]"]) simp

lemma var_answer_ok:
  assumes "usb_ok usb" "unat n \<le> length d" "unat n < 2 ^ 63" "ok (take (unat n) d)"
  shows "var_answer param ok usb w (send_fr_response E usb param 0 d n w)"
proof -
  have "word_of_nat (unat n) = (ucast n :: u32)" by simp
  then show ?thesis using fr_post(1) [OF assms(1-3), of param 0 w E] assms(2,4)
    unfolding var_answer_def by (intro exI [of _ 0] exI [of _ "take (unat n) d"]) simp
qed

lemma var_answer_from:
  "var_answer param ok usb v r \<Longrightarrow> sent v = sent w \<Longrightarrow> quiet w v \<Longrightarrow> var_answer param ok usb w r"
  unfolding var_answer_def by (meson answers_from)

text \<open>The name that a read request carries, with its two terminating bytes.\<close>

definition wire_name :: "bytes \<Rightarrow> bytes" where
  "wire_name msg = (case rd_be32 (drop 35 msg) of None \<Rightarrow> [] | Some k \<Rightarrow> take (unat k) (drop 39 msg) @ [0, 0])"

text \<open>The size of a variable, as the firmware reported it when asked after the history \<open>h\<close>.\<close>

definition size_answer :: "env \<Rightarrow> bytes \<Rightarrow> event list \<Rightarrow> bytes \<Rightarrow> bool" where
  "size_answer E msg h d \<longleftrightarrow> (\<exists>t st attributes sz value. prefix h t \<and>
     get_variable E (t @ [GetVariable (wire_name msg) (take 16 (drop 15 msg)) 0]) = (st, attributes, sz, value)
     \<and> (st = EFI_BUFFER_TOO_SMALL \<or> \<not> EFI_ERROR st) \<and> d = be32_bytes (ucast sz))"

text \<open>The attributes, the size and the value, as the firmware delivered them.\<close>

definition value_answer :: "env \<Rightarrow> bytes \<Rightarrow> event list \<Rightarrow> bytes \<Rightarrow> bool" where
  "value_answer E msg h d \<longleftrightarrow> (\<exists>t k n st attributes sz value. prefix h t \<and> rd_be32 (drop 31 msg) = Some k \<and> n = ucast k \<and>
     get_variable E (t @ [GetVariable (wire_name msg) (take 16 (drop 15 msg)) n]) = (st, attributes, sz, value)
     \<and> \<not> EFI_ERROR st \<and> length value \<le> unat n
     \<and> d = be32_bytes attributes @ be32_bytes (of_nat (length value)) @ value)"

lemma read_var_status_0 [simp]: "read_var_status st = 0 \<longleftrightarrow> \<not> EFI_ERROR st"
  by (auto simp: read_var_status_def)

lemma read_uefi_var_size_post:
  assumes ok: "usb_ok usb" and len: "unat len \<le> length msg"
  shows "var_answer param (size_answer E msg (trace w)) usb w (handle_read_uefi_var_size E usb param msg len w)"
proof (cases "\<not> uefi_rs E \<or> \<not> has_get_variable E \<or> len < 39")
  case True
  then show ?thesis by (simp add: handle_read_uefi_var_size_def var_answer_error ok)
next
  case g: False
  then have l39: "39 \<le> unat len" by (simp add: word_less_nat_alt)
  obtain k where k: "rd_be32 (drop 35 msg) = Some k" using be32.dec_drop_total [of 35 msg] l39 len by auto
  show ?thesis
  proof (cases "len < 39 + ucast k")
    case True
    then show ?thesis using g k by (simp add: handle_read_uefi_var_size_def var_answer_error ok)
  next
    case g2: False
    have "unat (39 + ucast k :: u64) = 39 + unat k"
      by (subst unat_add_le) (use unat_u32_lt [of k] in auto)
    then have n: "unat (ucast k :: u64) \<le> length (drop 39 msg)" using g2 len by (simp add: word_less_nat_alt)
    show ?thesis
    proof (rule alloc_name_cases [OF n, of E w])
      fix st v assume a: "alloc_uefi_var_name E (drop 39 msg) (ucast k) w = Some (st, None, v)" "sent v = sent w" "quiet w v" "prefix (trace w) (trace v)"
      have "var_answer param (size_answer E msg (trace w)) usb v (send_fr_response E usb param (if st \<noteq> 0 then 1 else 8) [] 0 v)"
        by (simp add: var_answer_error ok)
      then show ?thesis using g g2 k a by (auto simp: handle_read_uefi_var_size_def intro: var_answer_from)
    next
      fix v let ?name = "take (unat (ucast k :: u64)) (drop 39 msg) @ [0, 0]"
      assume a: "alloc_uefi_var_name E (drop 39 msg) (ucast k) w = Some (1, Some ?name, v)" "sent v = sent w" "quiet w v"
         "prefix (trace w) (trace v)"
      let ?guid = "take 16 (drop 15 msg)" let ?v = "emit (GetVariable ?name ?guid 0) v"
      obtain st at sz val where gv: "get_variable E (trace v @ [GetVariable ?name ?guid 0]) = (st, at, sz, val)"
        by (cases "get_variable E (trace v @ [GetVariable ?name ?guid 0])")
      let ?st = "if st = EFI_BUFFER_TOO_SMALL then EFI_SUCCESS else st"
      let ?s = "read_var_status ?st"
      have "handle_read_uefi_var_size E usb param msg len w
          = send_fr_response E usb param ?s (if ?s \<noteq> 0 then [] else be32_bytes (ucast sz)) (if ?s \<noteq> 0 then 0 else 4)
              (uefi_free E True ?v)"
        using g g2 k a l39 len gv
        by (simp add: handle_read_uefi_var_size_def GetVariable_call_def load_in wr_be32_def poke_in stack_def Let_def
            del: read_var_status_0)
      moreover have "var_answer param (size_answer E msg (trace w)) usb (uefi_free E True ?v)
          (send_fr_response E usb param ?s (if ?s \<noteq> 0 then [] else be32_bytes (ucast sz)) (if ?s \<noteq> 0 then 0 else 4)
              (uefi_free E True ?v))"
      proof (cases "?s = 0")
        case True
        have "wire_name msg = ?name" using k by (simp add: wire_name_def)
        then have "size_answer E msg (trace w) (be32_bytes (ucast sz))"
          unfolding size_answer_def using gv True a(4)
          by (intro exI [of _ "trace v"] exI [of _ st] exI [of _ at] exI [of _ sz] exI [of _ val]) (auto split: if_splits)
        then show ?thesis unfolding True if_not_P [OF not_not [THEN iffD2, OF refl]]
          using var_answer_ok [OF ok, of 4 "be32_bytes (ucast sz)" "size_answer E msg (trace w)" param "uefi_free E True ?v" E]
          by simp
      next
        case False
        then show ?thesis using var_answer_error [OF ok False] by simp
      qed
      ultimately show ?thesis using a by (auto intro: var_answer_from)
    qed
  qed
qed

text \<open>The value read: the answer is the firmware's, behind the attributes and the size.\<close>

lemma value_frame:
  assumes "length p = 8 + n" "length value \<le> n"
  shows "poke p 8 value \<bind> (\<lambda>p. wr_be32 p 0 a \<bind> (\<lambda>p. wr_be32 p 4 b))
    = Some (be32_bytes a @ be32_bytes b @ value @ drop (8 + length value) p)"
proof -
  have "p = take 4 p @ take 4 (drop 4 p) @ drop 8 p" by (metis append_assoc append_take_drop_id take_8_split)
  moreover obtain x y z where "x = take 4 p" "y = take 4 (drop 4 p)" "z = drop 8 p" by simp
  ultimately have "p = x @ y @ z" "length x = 4" "length y = 4" "length z = n" using assms(1) by auto
  then show ?thesis using assms(2) by (simp add: poke_def wr_be32_def)
qed

lemma read_uefi_var_value_post:
  assumes ok: "usb_ok usb" and len: "unat len \<le> length msg" and con: "variable_contract E"
  shows "var_answer param (value_answer E msg (trace w)) usb w (handle_read_uefi_var_value E usb param msg len w)"
proof (cases "\<not> uefi_rs E \<or> \<not> has_get_variable E \<or> len < 39")
  case True
  then show ?thesis by (simp add: handle_read_uefi_var_value_def var_answer_error ok)
next
  case g: False
  then have l39: "39 \<le> unat len" by (simp add: word_less_nat_alt)
  obtain q where q: "rd_be32 (drop 31 msg) = Some q" using be32.dec_drop_total [of 31 msg] l39 len by auto
  obtain k where k: "rd_be32 (drop 35 msg) = Some k" using be32.dec_drop_total [of 35 msg] l39 len by auto
  let ?bad = "len < 39 + ucast k \<or> 0x10000 < q"
  let ?big = "max_transfer usb \<le> 25 \<or> ucast (max_transfer usb - 25) < q"
  show ?thesis
  proof (cases "?bad \<or> ?big")
    case True
    then show ?thesis using g k q by (auto simp: handle_read_uefi_var_value_def var_answer_error ok)
  next
    case g2: False
    have "unat (39 + ucast k :: u64) = 39 + unat k"
      by (subst unat_add_le) (use unat_u32_lt [of k] in auto)
    then have n: "unat (ucast k :: u64) \<le> length (drop 39 msg)" using g2 len by (auto simp: word_less_nat_alt)
    have q8: "unat (ucast q + 8 :: u64) = 8 + unat q"
      by (subst unat_add_le) (use unat_u32_lt [of q] in auto)
    have nb: "\<not> ?bad" and nB: "\<not> ?big" using g2 by blast+
    note head = handle_read_uefi_var_value_def if_not_P [OF g] q k Option.bind.simps if_not_P [OF nb] if_not_P [OF nB]
    show ?thesis
    proof (rule alloc_name_cases [OF n, of E w])
      fix st v assume a: "alloc_uefi_var_name E (drop 39 msg) (ucast k) w = Some (st, None, v)" "sent v = sent w" "quiet w v"
         "prefix (trace w) (trace v)"
      have "var_answer param (value_answer E msg (trace w)) usb v
          (send_fr_response E usb param (if st \<noteq> 0 then 1 else 8) [] 0 v)"
        by (simp add: var_answer_error ok)
      then show ?thesis unfolding head using a by (auto intro: var_answer_from)
    next
      fix v let ?name = "take (unat (ucast k :: u64)) (drop 39 msg) @ [0, 0]"
      assume a: "alloc_uefi_var_name E (drop 39 msg) (ucast k) w = Some (1, Some ?name, v)" "sent v = sent w" "quiet w v"
         "prefix (trace w) (trace v)"
      obtain p u where al: "uefi_alloc E (ucast q + 8) v = (p, u)" by fastforce
      have u: "sent u = sent w" "quiet w u" "prefix (trace w) (trace u)"
        using uefi_alloc_quiet [OF al] uefi_alloc_prefix [OF al] a(2-4) by (auto intro: prefix_order.trans)
      show ?thesis
      proof (cases p)
        case None
        have "var_answer param (value_answer E msg (trace w)) usb (uefi_free E True u)
            (send_fr_response E usb param 1 [] 0 (uefi_free E True u))"
          by (simp add: var_answer_error ok)
        then show ?thesis unfolding head using a al None u by (auto intro: var_answer_from)
      next
        case (Some data)
        have ld: "length data = 8 + unat q" using uefi_alloc_length [of E _ v data u] al Some q8 by fastforce
        let ?guid = "take 16 (drop 15 msg)" let ?u = "emit (GetVariable ?name ?guid (ucast q)) u"
        obtain st at sz val where gv: "get_variable E (trace u @ [GetVariable ?name ?guid (ucast q)]) = (st, at, sz, val)"
          by (cases "get_variable E (trace u @ [GetVariable ?name ?guid (ucast q)])")
        have lv: "length val \<le> unat q" using variable_contractD(1) [OF con gv] by simp
        have guid: "load msg 15 16 = Some ?guid" using l39 len by (simp add: load_in)
        have call: "GetVariable_call E ?name ?guid (ucast q) u = ((st, at, sz, val), ?u)"
          using gv by (simp add: GetVariable_call_def)
        have stored: "(if q \<noteq> 0 then poke data 8 val else Some data) = poke data 8 val"
          using lv ld by (auto simp: poke_def)
        obtain data1 where d1: "poke data 8 val = Some data1" using lv ld by (simp add: poke_def)
        let ?f = "\<lambda>r. after r (\<lambda>(st, usb, w). Some (Returns (st, usb, uefi_free E True w)))"
        have fr: "var_answer param P usb w (?f r)" if "var_answer param P usb w r" for P r
          using that usb.delivers_cleanup [of usb _ w r "uefi_free E True"]
          unfolding var_answer_def answers_def by (fastforce split: if_splits)
        show ?thesis
        proof (cases "EFI_ERROR st")
          case True
          then have s: "read_var_status st \<noteq> 0" by simp
          have eq: "handle_read_uefi_var_value E usb param msg len w
              = ?f (send_fr_response E usb param (read_var_status st) [] 0 (uefi_free E True ?u))"
            unfolding head a(1) using al Some guid call stored d1 True s by (simp add: Let_def)
          show ?thesis unfolding eq by (rule fr, rule var_answer_from [OF var_answer_error [OF ok s]]) (use u in simp_all)
        next
          case False
          then have s: "read_var_status st = 0" by simp
          have sz: "unat sz = length val" using variable_contractD(2) [OF con gv False] .
          have sz8: "unat (sz + 8) = 8 + length val"
            by (subst unat_add_le) (use sz lv unat_u32_lt [of q] in auto)
          let ?m = "be32_bytes at @ be32_bytes (ucast sz) @ val @ drop (8 + length val) data"
          have wr: "wr_be32 data1 0 at \<bind> (\<lambda>p. wr_be32 p 4 (ucast sz)) = Some ?m"
            using value_frame [OF ld lv, of at "ucast sz"] d1 by simp
          then obtain data2 where data2: "wr_be32 data1 0 at = Some data2" "wr_be32 data2 4 (ucast sz) = Some ?m"
            by (auto simp: bind_eq_Some_conv)
          have eq: "handle_read_uefi_var_value E usb param msg len w
              = ?f (send_fr_response E usb param 0 ?m (sz + 8) (uefi_free E True ?u))"
            unfolding head a(1) using al Some guid call stored d1 data2 by (simp add: Let_def s del: read_var_status_0)
          have usz: "(ucast sz :: u32) = of_nat (length val)" by (simp flip: sz)
          have "value_answer E msg (trace w) (take (unat (sz + 8)) ?m)"
            unfolding value_answer_def using gv k q lv False u(3)
            by (intro exI [of _ "trace u"] exI [of _ q] exI [of _ "ucast q"] exI [of _ st] exI [of _ at] exI [of _ sz] exI [of _ val])
              (simp add: wire_name_def sz8 usz)
          then have va: "var_answer param (value_answer E msg (trace w)) usb (uefi_free E True ?u)
              (send_fr_response E usb param 0 ?m (sz + 8) (uefi_free E True ?u))"
            using ld lv sz8 unat_u32_lt [of q] by (intro var_answer_ok [OF ok]) auto
          show ?thesis unfolding eq by (rule fr, rule var_answer_from [OF va]) (use u in simp_all)
        qed
      qed
    qed
  qed
qed

text \<open>What a request to read a value asks for: a refusal, or the name, the vendor and the size of
  the buffer. Name and buffer are checked before memory is asked for.\<close>

definition read_request :: "env \<Rightarrow> bytes \<Rightarrow> nat \<Rightarrow> u64 \<Rightarrow> u16 + bytes \<times> bytes \<times> u32" where
  "read_request E msg n mt =
     (if \<not> uefi_rs E \<or> \<not> has_get_variable E \<or> n < 39 then Inl 8
      else case (rd_be32 (drop 31 msg), rd_be32 (drop 35 msg)) of
        (Some q, Some k) \<Rightarrow>
          if n < 39 + unat k \<or> 0x10000 < q then Inl 8
          else if mt \<le> 25 \<or> ucast (mt - 25) < q then Inl 48
          else if k = 0 \<or> odd k \<or> 1024 < k then Inl 8
          else Inr (take (unat k) (drop 39 msg) @ [0, 0], take 16 (drop 15 msg), q)
      | _ \<Rightarrow> Inl 8)"

text \<open>The status and the data of the reply, when the request comes after the history \<open>h\<close> and memory
  does not run out.\<close>

definition read_reply :: "env \<Rightarrow> event list \<Rightarrow> u16 + bytes \<times> bytes \<times> u32 \<Rightarrow> u16 \<times> bytes" where
  "read_reply E h r =
     (case r of Inl s \<Rightarrow> (s, [])
      | Inr (name, guid, q) \<Rightarrow>
          (case get_variable E (h @ [AllocatePool (of_nat (length name)), AllocatePool (ucast q + 8), GetVariable name guid (ucast q)]) of
             (st, attributes, sz, value) \<Rightarrow>
               if st = EFI_NOT_FOUND then (10, []) else if EFI_ERROR st then (2, [])
               else (0, be32_bytes attributes @ be32_bytes (of_nat (length value)) @ value)))"

definition reply_frame :: "u32 \<Rightarrow> u16 \<times> bytes \<Rightarrow> bytes" where
  "reply_frame param a = (case a of (s, d) \<Rightarrow> fr_frame param s (of_nat (length d)) d)"

lemma error_frame:
  "usb_ok usb \<Longrightarrow> replies usb (reply_frame param (s, [])) w (send_fr_response E usb param s [] 0 w)"
  using fr_post(2) [of usb 0 "[]" param s w E] by (simp add: reply_frame_def)

lemma alloc_name_exact:
  assumes "memory_ok E" "unat n \<le> length src"
  shows "alloc_uefi_var_name E src n w = (if n = 0 \<or> odd n \<or> 1024 < n then Some (0, None, w)
    else Some (1, Some (take (unat n) src @ [0, 0]), emit (AllocatePool (n + 2)) w))"
proof (cases "n = 0 \<or> odd n \<or> 1024 < n")
  case True
  then show ?thesis by (auto simp: alloc_uefi_var_name_def and_one_eq mod_2_eq_odd)
next
  case False
  then have u: "unat (n + 2) = unat n + 2" by (subst unat_add_le) (auto simp: word_le_nat_alt word_less_nat_alt)
  then have "n + 2 \<noteq> 0" by auto
  have "replicate (unat n + 2) 0 = replicate (unat n) (0 :: u8) @ [0, 0]"
    by (simp only: replicate_add) (simp add: numeral_2_eq_2)
  then have a: "uefi_alloc E (n + 2) w = (Some (replicate (unat n) 0 @ [0, 0]), emit (AllocatePool (n + 2)) w)"
    using alloc_zeros [OF assms(1) \<open>n + 2 \<noteq> 0\<close>, of w] by (simp only: u)
  then show ?thesis using False assms(2)
    by (auto simp: alloc_uefi_var_name_def and_one_eq mod_2_eq_odd memcpy_in)
qed

lemma read_uefi_var_value_exact:
  assumes ok: "usb_ok usb" and len: "unat len \<le> length msg" and con: "variable_contract E" and mem: "memory_ok E"
  shows "replies usb (reply_frame param (read_reply E (trace w) (read_request E msg (unat len) (max_transfer usb)))) w
    (handle_read_uefi_var_value E usb param msg len w)"
proof (cases "\<not> uefi_rs E \<or> \<not> has_get_variable E \<or> len < 39")
  case True
  then have "read_request E msg (unat len) (max_transfer usb) = Inl 8" by (auto simp: read_request_def word_less_nat_alt)
  then show ?thesis using True by (simp add: handle_read_uefi_var_value_def error_frame ok read_reply_def)
next
  case g: False
  then have l39: "39 \<le> unat len" by (simp add: word_less_nat_alt)
  obtain q where q: "rd_be32 (drop 31 msg) = Some q" using be32.dec_drop_total [of 31 msg] l39 len by auto
  obtain k where k: "rd_be32 (drop 35 msg) = Some k" using be32.dec_drop_total [of 35 msg] l39 len by auto
  let ?bad = "len < 39 + ucast k \<or> 0x10000 < q"
  let ?big = "max_transfer usb \<le> 25 \<or> ucast (max_transfer usb - 25) < q"
  let ?name = "take (unat k) (drop 39 msg) @ [0, 0]" let ?guid = "take 16 (drop 15 msg)"
  have kn: "unat (39 + ucast k :: u64) = 39 + unat k"
    by (subst unat_add_le) (use unat_u32_lt [of k] in auto)
  have "odd (ucast k :: u64) = odd k" by transfer (simp add: even_take_bit_eq)
  then have odd: "odd (ucast k :: u64) = odd k" "1024 < (ucast k :: u64) \<longleftrightarrow> 1024 < k" "(ucast k :: u64) = 0 \<longleftrightarrow> k = 0"
    by (simp_all add: word_less_nat_alt unat_eq_0 [symmetric])
  have rq: "read_request E msg (unat len) (max_transfer usb)
      = (if ?bad then Inl 8 else if ?big then Inl 48 else if k = 0 \<or> odd k \<or> 1024 < k then Inl 8 else Inr (?name, ?guid, q))"
    using g l39 q k kn by (simp add: read_request_def word_less_nat_alt)
  show ?thesis
  proof (cases "?bad \<or> ?big")
    case True
    then show ?thesis unfolding rq using g k q
      by (auto simp: handle_read_uefi_var_value_def error_frame ok read_reply_def)
  next
    case False
    then have nb: "\<not> ?bad" and nB: "\<not> ?big" by blast+
    have n: "unat (ucast k :: u64) \<le> length (drop 39 msg)" using nb len kn by (auto simp: word_less_nat_alt)
    have q8: "unat (ucast q + 8 :: u64) = 8 + unat q"
      by (subst unat_add_le) (use unat_u32_lt [of q] in auto)
    note head = handle_read_uefi_var_value_def if_not_P [OF g] q k Option.bind.simps if_not_P [OF nb] if_not_P [OF nB]
    show ?thesis
    proof (cases "k = 0 \<or> odd k \<or> 1024 < k")
      case True
      then have r: "read_request E msg (unat len) (max_transfer usb) = Inl 8" unfolding rq if_not_P [OF nb] if_not_P [OF nB] by (simp only: if_True)
      have "alloc_uefi_var_name E (drop 39 msg) (ucast k) w = Some (0, None, w)"
        unfolding alloc_name_exact [OF mem n] odd if_P [OF True] ..
      then show ?thesis unfolding r head by (simp add: error_frame ok read_reply_def)
    next
      case name: False
      have r: "read_request E msg (unat len) (max_transfer usb) = Inr (?name, ?guid, q)"
        unfolding rq if_not_P [OF nb] if_not_P [OF nB] if_not_P [OF name] by (rule refl)
      have k2: "(ucast k + 2 :: u64) = of_nat (length ?name)"
      proof -
        have "length ?name = unat k + 2" using n by simp
        then show ?thesis by (simp add: add.commute)
      qed
      let ?v = "emit (AllocatePool (ucast k + 2)) w" let ?u = "emit (AllocatePool (ucast q + 8)) ?v"
      let ?w = "emit (GetVariable ?name ?guid (ucast q)) ?u"
      have nz: "(ucast q + 8 :: u64) \<noteq> 0" using q8 by (metis add_is_0 unat_0 zero_neq_numeral)
      let ?data = "replicate (8 + unat q) (0 :: u8)"
      have al: "uefi_alloc E (ucast q + 8) ?v = (Some ?data, ?u)" using alloc_zeros [OF mem nz, of ?v] by (simp only: q8)
      obtain st at sz val where gv: "get_variable E (trace ?w) = (st, at, sz, val)"
        by (cases "get_variable E (trace ?w)")
      then have gv': "get_variable E (trace ?u @ [GetVariable ?name ?guid (ucast q)]) = (st, at, sz, val)" by simp
      have rr: "read_reply E (trace w) (Inr (?name, ?guid, q)) = (if st = EFI_NOT_FOUND then (10, []) else if EFI_ERROR st then (2, [])
               else (0, be32_bytes at @ be32_bytes (of_nat (length val)) @ val))"
        using gv by (simp add: read_reply_def k2 del: length_append)
      have lv: "length val \<le> unat q" using variable_contractD(1) [OF con gv'] by simp
      have guid: "load msg 15 16 = Some ?guid" using l39 len by (simp add: load_in)
      have call: "GetVariable_call E ?name ?guid (ucast q) ?u = ((st, at, sz, val), ?w)"
        using gv by (simp add: GetVariable_call_def)
      have stored: "(if q \<noteq> 0 then poke ?data 8 val else Some ?data) = poke ?data 8 val"
        using lv by (auto simp: poke_def)
      obtain data1 where d1: "poke ?data 8 val = Some data1" using lv by (simp add: poke_def)
      let ?f = "\<lambda>r. after r (\<lambda>(st, usb, w). Some (Returns (st, usb, uefi_free E True w)))"
      have fr: "replies usb m w (?f r)" if "replies usb m (uefi_free E True ?w) r" for m r
      proof -
        have "replies usb m w r" by (rule replies_from [OF that]) simp_all
        then show ?thesis unfolding replies_def using usb.delivers_cleanup [of usb _ w r "uefi_free E True"] by simp
      qed
      have an: "alloc_uefi_var_name E (drop 39 msg) (ucast k) w = Some (1, Some ?name, ?v)"
        unfolding alloc_name_exact [OF mem n] odd if_not_P [OF name] by simp
      show ?thesis
      proof (cases "EFI_ERROR st")
        case True
        then have "handle_read_uefi_var_value E usb param msg len w
            = ?f (send_fr_response E usb param (read_var_status st) [] 0 (uefi_free E True ?w))"
          unfolding head an using al guid call stored d1 by (simp add: Let_def)
        moreover have "(if st = EFI_NOT_FOUND then (10, []) else if EFI_ERROR st then (2, [])
               else (0, be32_bytes at @ be32_bytes (of_nat (length val)) @ val)) = (read_var_status st, [])"
          using True by (simp add: read_var_status_def)
        ultimately show ?thesis unfolding r rr using fr [OF error_frame [OF ok]] by simp
      next
        case False
        have sz: "unat sz = length val" using variable_contractD(2) [OF con gv' False] .
        have sz8: "unat (sz + 8) = 8 + length val"
          by (subst unat_add_le) (use sz lv unat_u32_lt [of q] in auto)
        let ?m = "be32_bytes at @ be32_bytes (ucast sz) @ val @ drop (8 + length val) ?data"
        have "wr_be32 data1 0 at \<bind> (\<lambda>p. wr_be32 p 4 (ucast sz)) = Some ?m"
          using value_frame [of ?data "unat q" val at "ucast sz"] lv d1 by simp
        then obtain data2 where data2: "wr_be32 data1 0 at = Some data2" "wr_be32 data2 4 (ucast sz) = Some ?m"
          by (auto simp: bind_eq_Some_conv)
        have usz: "(ucast sz :: u32) = of_nat (length val)" by (simp flip: sz)
        let ?d = "be32_bytes at @ be32_bytes (of_nat (length val)) @ val"
        have nf: "st \<noteq> EFI_NOT_FOUND" using False by auto
        have eq: "handle_read_uefi_var_value E usb param msg len w
            = ?f (send_fr_response E usb param 0 ?m (sz + 8) (uefi_free E True ?w))"
          unfolding head an using al guid call stored d1 data2 False nf by (simp add: Let_def read_var_status_def)
        have tk: "take (unat (sz + 8)) ?m = ?d" using sz8 usz by simp
        have lm: "unat (sz + 8) \<le> length ?m" "unat (sz + 8) < 2 ^ 63" using sz8 lv unat_u32_lt [of q] by auto
        have "(ucast (sz + 8) :: u32) = of_nat (length ?d)"
        proof -
          have "(ucast (sz + 8) :: u32) = of_nat (unat (sz + 8))" by simp
          then show ?thesis by (simp only: sz8) simp
        qed
        then have "replies usb (reply_frame param (0, ?d)) (uefi_free E True ?w) (send_fr_response E usb param 0 ?m (sz + 8) (uefi_free E True ?w))"
          using fr_post(3) [OF ok lm mem, of param 0 "uefi_free E True ?w"] tk by (simp add: reply_frame_def)
        then show ?thesis unfolding r rr eq using fr False nf by simp
      qed
    qed
  qed
qed

section \<open>Writing\<close>

text \<open>The variables set in a trace, in order: name, vendor, attributes, value.\<close>

fun vars_set :: "event list \<Rightarrow> (bytes \<times> bytes \<times> u32 \<times> bytes) list" where
  "vars_set [] = []"
| "vars_set (SetVariable x y k z # es) = (x, y, k, z) # vars_set es"
| "vars_set (e # es) = vars_set es"

lemma vars_set_append [simp]: "vars_set (xs @ ys) = vars_set xs @ vars_set ys"
  by (induction xs rule: vars_set.induct) auto

lemma uefi_alloc_vars: "uefi_alloc E n w = (p, v) \<Longrightarrow> vars_set (trace v) = vars_set (trace w)"
  by (auto simp: uefi_alloc_def Let_def split: if_splits)

text \<open>What a write request asks for, if it is well formed: the reference the handler is
  compared with.\<close>

definition write_request :: "bytes \<Rightarrow> nat \<Rightarrow> (bytes \<times> bytes \<times> u32 \<times> bytes) option" where
  "write_request msg n = (if n < 555 then None else do {
     k \<leftarrow> rd_be32 (drop 31 msg);
     a \<leftarrow> rd_be32 (drop 547 msg);
     v \<leftarrow> rd_be32 (drop 551 msg);
     if k = 0 \<or> odd k \<or> 512 < k \<or> 0x10000 < v \<or> n < 555 + unat v then None
     else Some (take (unat k) (drop 35 msg) @ [0, 0], take 16 (drop 15 msg), a, take (unat v) (drop 555 msg)) })"

text \<open>The status reported and the state of the variables after the request.\<close>

definition write_outcome :: "env \<Rightarrow> (bytes \<times> bytes \<times> u32 \<times> bytes) option \<Rightarrow> world \<Rightarrow> u16 \<Rightarrow> world \<Rightarrow> bool" where
  "write_outcome E req w s v \<longleftrightarrow>
     (case req of None \<Rightarrow> s = 8 \<and> vars_set (trace v) = vars_set (trace w)
      | Some r \<Rightarrow> s = 8 \<and> \<not> (uefi_rs E \<and> has_set_variable E) \<and> vars_set (trace v) = vars_set (trace w)
          \<or> s = 1 \<and> vars_set (trace v) = vars_set (trace w)
          \<or> (s = 0 \<or> s = 4) \<and> vars_set (trace v) = vars_set (trace w) @ [r])"

lemma word_32_64_cmp: "(512 < (ucast (k :: u32) :: u64)) = (512 < k)" "(ucast k :: u64) = 0 \<longleftrightarrow> k = 0"
  by (simp_all add: word_less_nat_alt unat_eq_0 flip: unat_eq_zero)

lemma uefi_free_vars [simp]: "vars_set (trace (uefi_free E b w)) = vars_set (trace w)"
  by (simp add: uefi_free_def)

lemma alloc_name_vars:
  assumes "alloc_uefi_var_name E src n w = Some (st, p, v)"
  shows "vars_set (trace v) = vars_set (trace w)"
  using assms uefi_alloc_vars [of E "n + 2" w]
  by (auto simp: alloc_uefi_var_name_def bind_eq_Some_conv split: if_splits prod.splits option.splits)

lemma write_uefi_var_post:
  assumes ok: "usb_ok usb" and len: "unat len \<le> length msg"
  shows "\<exists>s v. handle_write_uefi_var E usb param msg len w = send_fw_response E usb param s v
    \<and> sent v = sent w \<and> quiet w v \<and> write_outcome E (write_request msg (unat len)) w s v"
    (is "\<exists>s v. ?r = _ \<and> _ \<and> _ \<and> write_outcome E ?q w s v")
proof -
  have early: ?thesis if "?r = send_fw_response E usb param 8 w"
    "?q = None \<or> \<not> (uefi_rs E \<and> has_set_variable E)"
    using that by (intro exI [of _ 8] exI [of _ w]) (auto simp: write_outcome_def split: option.split)
  show ?thesis
  proof (cases "\<not> uefi_rs E \<or> \<not> has_set_variable E \<or> len < 555")
    case True
    then have "?q = None \<or> \<not> (uefi_rs E \<and> has_set_variable E)"
      by (auto simp: write_request_def word_less_nat_alt)
    then show ?thesis using True by (intro early) (simp_all add: handle_write_uefi_var_def)
  next
    case g: False
    then have l: "555 \<le> unat len" by (simp add: word_less_nat_alt)
    obtain k where k: "rd_be32 (drop 31 msg) = Some k" using be32.dec_drop_total [of 31 msg] l len by auto
    obtain a where a: "rd_be32 (drop 547 msg) = Some a" using be32.dec_drop_total [of 547 msg] l len by auto
    obtain x where x: "rd_be32 (drop 551 msg) = Some x" using be32.dec_drop_total [of 551 msg] l len by auto
    have x5: "unat (555 + ucast x :: u64) = 555 + unat x"
      by (subst unat_add_le) (use unat_u32_lt [of x] in auto)
    let ?bad = "512 < k \<or> 0x10000 < x \<or> len < 555 + ucast x"
    have bad: "?bad \<longleftrightarrow> 512 < k \<or> 0x10000 < x \<or> unat len < 555 + unat x" by (simp add: word_less_nat_alt x5)
    have q: "?q = (if k = 0 \<or> odd k \<or> ?bad then None
       else Some (take (unat k) (drop 35 msg) @ [0, 0], take 16 (drop 15 msg), a, take (unat x) (drop 555 msg)))"
      using l k a x bad by (auto simp: write_request_def)
    show ?thesis
    proof (cases ?bad)
      case True
      then show ?thesis using g k a x q by (intro early) (simp_all add: handle_write_uefi_var_def)
    next
      case nb: False
      note head = handle_write_uefi_var_def if_not_P [OF g] k a x Option.bind.simps if_not_P [OF nb]
      have n: "unat (ucast k :: u64) \<le> length (drop 35 msg)" using nb l len by (auto simp: word_less_nat_alt)
      have odd: "odd (ucast k :: u64) = odd k" unfolding bit_0 [symmetric] by (simp only: bit_ucast_iff) simp
      have k1: "\<not> 1024 < (ucast k :: u64)" using nb by (auto simp: word_less_nat_alt)
      show ?thesis
      proof (rule alloc_name_cases [OF n, of E w])
        fix st v assume A: "alloc_uefi_var_name E (drop 35 msg) (ucast k) w = Some (st, None, v)" "sent v = sent w" "quiet w v"
          "st = 0 \<or> st = -1" "st = 0 \<longleftrightarrow> (ucast k :: u64) = 0 \<or> odd (ucast k :: u64) \<or> 1024 < (ucast k :: u64)"
        have "write_outcome E ?q w (if st \<noteq> 0 then 1 else 8) v"
          using A(4,5) odd k1 q alloc_name_vars [OF A(1)] nb
          by (auto simp: write_outcome_def word_32_64_cmp split: option.split)
        then show ?thesis unfolding head A(1) using A(2,3)
          by (intro exI [of _ "if st \<noteq> 0 then 1 else 8"] exI [of _ v]) simp
      next
        fix v let ?name = "take (unat (ucast k :: u64)) (drop 35 msg) @ [0, 0]"
        assume A: "alloc_uefi_var_name E (drop 35 msg) (ucast k) w = Some (1, Some ?name, v)" "sent v = sent w" "quiet w v"
          "(ucast k :: u64) \<noteq> 0" "even (ucast k :: u64)"
        let ?v = "emit (SetVariable ?name (take 16 (drop 15 msg)) a (take (unat x) (drop 555 msg))) v"
        define st where "st = set_variable E (trace ?v)"
        have ld: "load msg 15 16 = Some (take 16 (drop 15 msg))" "load msg 555 (unat x) = Some (take (unat x) (drop 555 msg))"
          using l len nb bad by (auto simp: load_in)
        have eq: "?r = send_fw_response E usb param (if EFI_ERROR st then 4 else 0) (uefi_free E True ?v)"
          unfolding head A(1) using ld by (simp add: SetVariable_call_def st_def Let_def)
        have "write_outcome E ?q w (if EFI_ERROR st then 4 else 0) (uefi_free E True ?v)"
          using A(4,5) odd q nb alloc_name_vars [OF A(1)] by (auto simp: write_outcome_def word_32_64_cmp)
        moreover have "sent (uefi_free E True ?v) = sent w" "quiet w (uefi_free E True ?v)" using A by simp_all
        ultimately show ?thesis using eq by blast
      qed
    qed
  qed
qed

end
