(* ===== verification/Params.thy ===== *)
theory Params
  imports Variables
begin

text \<open>
  The information and parameter handlers of \<open>src/main.c\<close> (lines 19-20 and 469-823). The two
  static variables of the file are the record \<open>app\<close>. A switch over a 32-bit parameter name
  is a chain of conditionals; it is cut into three parts, each continuing with the next.
\<close>

section \<open>State\<close>

record app =
  g_ffu_options :: bytes
  g_mode_data :: u32

definition EfiUsbBusSpeedHigh :: u32 where "EfiUsbBusSpeedHigh = 3"

section \<open>The version and capability message\<close>

definition info_add_block :: "bytes \<Rightarrow> nat \<Rightarrow> u8 \<Rightarrow> bytes \<Rightarrow> nat \<Rightarrow> (nat \<times> bytes) option" where
  "info_add_block resp off ident data data_len = do {
     resp \<leftarrow> poke resp off [ident];
     resp \<leftarrow> poke resp (off + 1) [of_nat (data_len div 256)];
     resp \<leftarrow> poke resp (off + 2) [of_nat data_len];
     resp \<leftarrow> memcpy resp (off + 3) data 0 data_len;
     count \<leftarrow> peek resp 10;
     resp \<leftarrow> poke resp 10 [count + 1];
     Some (off + 3 + data_len, resp) }"

definition info_add_u32 :: "bytes \<Rightarrow> nat \<Rightarrow> u8 \<Rightarrow> u32 \<Rightarrow> (nat \<times> bytes) option" where
  "info_add_u32 resp off ident v = do {
     data \<leftarrow> wr_be32 (stack 4) 0 v;
     info_add_block resp off ident data 4 }"

definition clamp_u32 :: "u64 \<Rightarrow> u32" where
  "clamp_u32 sectors = (if 0xffffffff < sectors then 0xffffffff else ucast sectors)"

definition bus_speed :: "USB_TRANSPORT \<Rightarrow> u8" where
  "bus_speed usb = ucast (if speed usb \<noteq> 0 then speed usb else EfiUsbBusSpeedHigh)"

definition write_limit :: "USB_TRANSPORT \<Rightarrow> u32" where
  "write_limit usb = (if 32 < max_transfer usb \<and> max_transfer usb - 32 < ucast UFP_MAX_PAYLOAD_DATA
     then ucast (max_transfer usb - 32) else UFP_MAX_PAYLOAD_DATA)"

definition send_v_info_response ::
    "env \<Rightarrow> USB_TRANSPORT \<Rightarrow> EFI_BLOCK_IO_PROTOCOL option \<Rightarrow> world \<Rightarrow> send_result" where
  "send_v_info_response E usb bio w = do {
     let off = 11;
     let write_size = write_limit usb;
     resp \<leftarrow> memset (stack 160) 0 0 160;
     resp \<leftarrow> poke resp 0 (asc ''NOKV'');
     resp \<leftarrow> poke resp 4 [0, 2, 3, 3, 5, 4, 0];
     (off, resp) \<leftarrow> info_add_u32 resp off 1 (ucast (max_transfer usb));
     (off, resp) \<leftarrow> info_add_u32 resp off 2 write_size;
     (off, resp) \<leftarrow> (case bio of
         Some bio \<Rightarrow> (case Media bio of
             Some media \<Rightarrow> info_add_u32 resp off 3 (clamp_u32 (LastBlock media + 1))
           | None \<Rightarrow> Some (off, resp))
       | None \<Rightarrow> Some (off, resp));
     (off, resp) \<leftarrow> info_add_block resp off 13 [0, 1] 2;
     (off, resp) \<leftarrow> info_add_block resp off 15 [3, 0xff, 0xff, 0, 0, 0, bus_speed usb, 0, 0xff] 9;
     (off, resp) \<leftarrow> info_add_block resp off 16 [1, 0, 0x1f, 0, 0] 5;
     (off, resp) \<leftarrow> info_add_block resp off 32 [1, 0, 0, 0, 1, 0, 0, 0, 4] 9;
     (off, resp) \<leftarrow> info_add_block resp off 37 [1] 1;
     usb_transport_send E usb (Some resp) (of_nat off) w }"

section \<open>Reading parameters\<close>

text \<open>An answer of the switch: the status, the bytes stored at the start of the zeroed
  512-byte buffer, and \<open>data_len\<close>.\<close>

type_synonym param_data = "u16 \<times> bytes \<times> u64"

definition read_param_1 :: "EFI_BLOCK_IO_PROTOCOL option \<Rightarrow> u32 \<Rightarrow> param_data option \<Rightarrow> param_data option" where
  "read_param_1 bio param other =
     (if param = 0x41545250 then Some (0, [0, 0, 0, 0, 1, 0, 0, 0, 1], 9)
      else if param = 0x46414900 then Some (0, [2, 3, 3, 5, 4, 0], 6)
      else if param = 0x44415300 then Some (0, [0, 1], 2)
      else if param = 0x41505054 then Some (0, [1], 1)
      else if param = 0x4249544C then Some (2, [0], 1)
      else if param = 0x424E464F then Some (0, asc ''Date:- Time:- Info:-'' @ [0], 21)
      else if param = 0x4355464F then Some (2, [0, 0], 2)
      else if param = 0x44455300 then Some (38, be64_bytes 0, 8)
      else if param = 0x44504900 \<or> param = 0x44505200 \<or> param = 0x44544900 then Some (2, [], 0)
      else if param = 0x44545350 then Some (0, be32_bytes 0, 4)
      else if param = 0x44554900 then Some (2, [], 16)
      else if param = 0x454D4D54 then Some (9, [], 0)
      else if param = 0x454D5300 then
        (case bio of
           Some bio \<Rightarrow> (case Media bio of
               Some media \<Rightarrow> Some (0, be32_bytes (clamp_u32 (LastBlock media + 1)), 4)
             | None \<Rightarrow> Some (2, [], 4))
         | None \<Rightarrow> Some (2, [], 4))
      else other)"

definition read_param_2 :: "app \<Rightarrow> bytes \<Rightarrow> u64 \<Rightarrow> u32 \<Rightarrow> param_data option \<Rightarrow> param_data option" where
  "read_param_2 app msg len param other =
     (if param = 0x42460000 then Some (0, [0], 1)
      else if param = 0x464F0000 then Some (0, g_ffu_options app, 500)
      else if param = 0x46530000 then Some (0, be32_bytes 3, 4)
      else if param = 0x465A0000 then Some (38, be64_bytes 0, 8)
      else if param = 0x47534253 then Some (0, [0], 1)
      else if param = 0x4C474D52 then Some (2, be64_bytes 0, 8)
      else if param = 0x4C5A0000 then do {
        bad \<leftarrow> (if 16 \<le> len then do { b \<leftarrow> peek msg 15; Some (b \<noteq> 1 \<and> b \<noteq> 2) } else Some False);
        Some (if bad then 8 else 0, be64_bytes 0, 8) }
      else if param = 0x4D414300 then Some (8, [], 1)
      else if param = 0x4D4F4445 then do {
        bad \<leftarrow> (if 16 \<le> len then do { b \<leftarrow> peek msg 15; Some (b \<noteq> 0) } else Some False);
        Some (if bad then 11 else 0, be32_bytes (if bad then 0 else g_mode_data app), 4) }
      else other)"

definition read_param_3 :: "USB_TRANSPORT \<Rightarrow> u32 \<Rightarrow> param_data option" where
  "read_param_3 usb param =
     (if param = 0x53445300 then Some (10, be32_bytes 0, 4)
      else if param = 0x53465049 then Some (0, [1, 0, 0x1f], 6)
      else if param = 0x534D4244 then Some (2, be32_bytes 0, 4)
      else if param = 0x534E0000 then Some (2, [], 16)
      else if param = 0x534F534D then Some (9, be64_bytes 0, 8)
      else if param = 0x53530000 then Some (0, [3, 0xff, 0xff, 0, 0, 0, bus_speed usb, 0], 8)
      else if param = 0x54454C53 then Some (0, be32_bytes 0, 4)
      else if param = 0x54530000 then Some (0, be32_bytes (ucast (max_transfer usb)), 4)
      else if param = 0x55424600 \<or> param = 0x5545424F then Some (2, be32_bytes 0 @ be32_bytes 0, 8)
      else if param = 0x554B4944 \<or> param = 0x554B5446 then Some (10, [], 0)
      else if param = 0x55534253 then
        (let speed = bus_speed usb;
             max_speed = (if EfiUsbBusSpeedHigh < ucast speed then speed else ucast EfiUsbBusSpeedHigh)
         in Some (0, [speed, max_speed], 2))
      else if param = 0x706D0000 then Some (2, [], 1)
      else if param = 0x57425300 then Some (0, be32_bytes (write_limit usb), 4)
      else Some (11, [], 0))"

definition handle_read_param ::
    "env \<Rightarrow> app \<Rightarrow> USB_TRANSPORT \<Rightarrow> EFI_BLOCK_IO_PROTOCOL option \<Rightarrow> bytes \<Rightarrow> u64 \<Rightarrow> world \<Rightarrow> send_result" where
  "handle_read_param E app usb bio msg len w =
     (if len < 11 then send_fr_response E usb 0 8 [] 0 w
      else do {
        param \<leftarrow> rd_be32 (drop 7 msg);
        if param = 0x47554656 then handle_read_uefi_var_value E usb param msg len w
        else if param = 0x47555653 then handle_read_uefi_var_size E usb param msg len w
        else do {
          (status, stored, data_len) \<leftarrow>
            read_param_1 bio param (read_param_2 app msg len param (read_param_3 usb param));
          data \<leftarrow> memset (stack 512) 0 0 512;
          data \<leftarrow> poke data 0 stored;
          send_fr_response E usb param status data data_len w }})"

section \<open>Writing parameters\<close>

definition write_FO ::
    "env \<Rightarrow> app \<Rightarrow> USB_TRANSPORT \<Rightarrow> u32 \<Rightarrow> u32 \<Rightarrow> bytes \<Rightarrow> u64 \<Rightarrow> world \<Rightarrow>
     (app \<times> (EFI_STATUS \<times> USB_TRANSPORT \<times> world) run) option" where
  "write_FO E app usb param data_len msg len w =
     (if len < 515 \<or> data_len \<noteq> 500 then map_option (Pair app) (send_fw_response E usb param 8 w)
      else do {
        options \<leftarrow> memcpy (g_ffu_options app) 0 msg 15 500;
        map_option (Pair (app\<lparr>g_ffu_options := options\<rparr>)) (send_fw_response E usb param 0 w) })"

text \<open>The scan of the log identifier for its terminator.\<close>

fun log_id_scan :: "bytes \<Rightarrow> nat \<Rightarrow> nat \<Rightarrow> nat option" where
  "log_id_scan p actual 0 = Some actual"
| "log_id_scan p actual (Suc left) = do {
     b \<leftarrow> peek p (15 + actual);
     if b \<noteq> 0 then log_id_scan p (Suc actual) left else Some actual }"

definition write_LI :: "env \<Rightarrow> USB_TRANSPORT \<Rightarrow> u32 \<Rightarrow> u32 \<Rightarrow> bytes \<Rightarrow> u64 \<Rightarrow> world \<Rightarrow> send_result" where
  "write_LI E usb param data_len msg len w =
     (if len < 15 \<or> 200 < data_len \<or> len < ucast (15 + data_len) then send_fw_response E usb param 8 w
      else do {
        actual \<leftarrow> log_id_scan msg 0 (unat data_len);
        if actual = unat data_len \<or> actual + 1 \<noteq> unat data_len then send_fw_response E usb param 8 w
        else send_fw_response E usb param 0 w })"

definition write_MODE ::
    "env \<Rightarrow> app \<Rightarrow> USB_TRANSPORT \<Rightarrow> u32 \<Rightarrow> bytes \<Rightarrow> u64 \<Rightarrow> world \<Rightarrow>
     (app \<times> (EFI_STATUS \<times> USB_TRANSPORT \<times> world) run) option" where
  "write_MODE E app usb param msg len w = do {
     bad \<leftarrow> (if len < 20 then Some True else do { b \<leftarrow> peek msg 15; Some (b \<noteq> 0) });
     if bad then map_option (Pair app) (send_fw_response E usb param 11 w)
     else do {
       v \<leftarrow> rd_be32 (drop 16 msg);
       map_option (Pair (app\<lparr>g_mode_data := (if v \<noteq> 0 then 1 else 0)\<rparr>)) (send_fw_response E usb param 0 w) }}"

definition handle_write_param ::
    "env \<Rightarrow> app \<Rightarrow> USB_TRANSPORT \<Rightarrow> bytes \<Rightarrow> u64 \<Rightarrow> world \<Rightarrow>
     (app \<times> (EFI_STATUS \<times> USB_TRANSPORT \<times> world) run) option" where
  "handle_write_param E app usb msg len w =
     (if len < 11 then map_option (Pair app) (send_fw_response E usb 0 8 w)
      else do {
        param \<leftarrow> rd_be32 (drop 7 msg);
        data_len \<leftarrow> (if 15 \<le> len then rd_be32 (drop 11 msg) else Some 0);
        if param = 0x424F434C \<or> param = 0x424F4600 \<or> param = 0x424F4C00 \<or> param = 0x4F425500
        then map_option (Pair app) (send_fw_response E usb param 4 w)
        else if param = 0x464F0000 then write_FO E app usb param data_len msg len w
        else if param = 0x53554656 then map_option (Pair app) (handle_write_uefi_var E usb param msg len w)
        else if param = 0x4C490000 then map_option (Pair app) (write_LI E usb param data_len msg len w)
        else if param = 0x4D4F4445 then write_MODE E app usb param msg len w
        else map_option (Pair app) (send_fw_response E usb param 11 w) })"

section \<open>The capability message is a well-formed block list\<close>

definition tlv :: "u8 \<times> bytes \<Rightarrow> bytes" where
  "tlv b = [fst b, of_nat (length (snd b) div 256), of_nat (length (snd b))] @ snd b"

definition v_frame :: "(u8 \<times> bytes) list \<Rightarrow> bytes" where
  "v_frame bs = asc ''NOKV'' @ [0, 2, 3, 3, 5, 4, of_nat (length bs)] @ concat (map tlv bs)"

definition v_blocks :: "USB_TRANSPORT \<Rightarrow> EFI_BLOCK_IO_PROTOCOL option \<Rightarrow> (u8 \<times> bytes) list" where
  "v_blocks usb bio =
     [(1, be32_bytes (ucast (max_transfer usb))), (2, be32_bytes (write_limit usb))]
     @ (case Option.bind bio Media of Some media \<Rightarrow> [(3, be32_bytes (clamp_u32 (LastBlock media + 1)))] | None \<Rightarrow> [])
     @ [(13, [0, 1]), (15, [3, 0xff, 0xff, 0, 0, 0, bus_speed usb, 0, 0xff]), (16, [1, 0, 0x1f, 0, 0]),
        (32, [1, 0, 0, 0, 1, 0, 0, 0, 4]), (37, [1])]"

text \<open>The receiver's side: \<open>n\<close> blocks are read from the front of a buffer.\<close>

fun read_blocks_tlv :: "nat \<Rightarrow> bytes \<Rightarrow> (u8 \<times> bytes) list option" where
  "read_blocks_tlv 0 p = Some []"
| "read_blocks_tlv (Suc n) (i # hi # lo # p) =
     (let k = 256 * unat hi + unat lo
      in if length p < k then None else map_option (Cons (i, take k p)) (read_blocks_tlv n (drop k p)))"
| "read_blocks_tlv (Suc n) _ = None"

lemma tlv_length_bytes:
  "n < 65536 \<Longrightarrow> 256 * unat (of_nat (n div 256) :: u8) + unat (of_nat n :: u8) = n"
  by (simp add: unsigned_of_nat take_bit_eq_mod)

lemma read_blocks_tlv:
  "\<forall>b\<in>set bs. length (snd b) < 65536 \<Longrightarrow> read_blocks_tlv (length bs) (concat (map tlv bs) @ r) = Some bs"
proof (induction bs)
  case (Cons b bs)
  then show ?case using tlv_length_bytes [of "length (snd b)"] by (simp add: tlv_def Let_def)
qed simp

lemma info_block:
  assumes "3 + length d \<le> k" "n = length d" "off = length (v_frame bs)"
  shows "info_add_block (v_frame bs @ replicate k 0) off i d n
    = Some (length (v_frame (bs @ [(i, d)])), v_frame (bs @ [(i, d)]) @ replicate (k - 3 - n) 0)"
proof -
  obtain m where k: "k = Suc (Suc (Suc (n + m)))" using assms by (metis add.assoc add_Suc add_Suc_shift le_Suc_ex numeral_3_eq_3 plus_nat.simps(1))
  have z: "replicate k (0 :: u8) = 0 # 0 # 0 # replicate n 0 @ replicate m 0"
    by (simp add: k replicate_add)
  let ?f = "v_frame bs" let ?h = "[i, of_nat (n div 256), of_nat n] :: bytes"
  have p1: "poke (?f @ 0 # 0 # 0 # r) (length ?f) [a] = Some (?f @ a # 0 # 0 # r)"
    and p2: "poke (?f @ a # 0 # 0 # r) (length ?f + 1) [b] = Some (?f @ a # b # 0 # r)"
    and p3: "poke (?f @ a # b # 0 # r) (length ?f + 2) [c] = Some (?f @ a # b # c # r)" for a b c :: u8 and r
    by (simp_all add: poke_def)
  have m: "memcpy (?f @ i # of_nat (n div 256) # of_nat n # replicate n 0 @ replicate m 0) (length ?f + 3) d 0 n
      = Some (?f @ i # of_nat (n div 256) # of_nat n # d @ replicate m 0)"
    using memcpy_mid [of "length ?f + 3" "?f @ ?h" "replicate n 0" n d "replicate m 0"] assms(2) by simp
  have c: "peek (?f @ r) 10 = Some (of_nat (length bs))"
    "poke (?f @ r) 10 [of_nat (length bs) + 1] = Some (v_frame (bs @ [(i, d)]) @ q)"
    if "r = tlv (i, d) @ q" for r q
    using that by (simp_all add: v_frame_def peek_def poke_def add.commute)
  show ?thesis unfolding info_add_block_def assms(3) z p1 p2 p3 m Option.bind.simps
    using c [of "i # of_nat (n div 256) # of_nat n # d @ replicate m 0" "replicate m 0"] assms(2)
    by (simp add: tlv_def k) (simp add: v_frame_def tlv_def)
qed

lemma info_u32:
  assumes "7 \<le> k" "off = length (v_frame bs)"
  shows "info_add_u32 (v_frame bs @ replicate k 0) off i v
    = Some (length (v_frame (bs @ [(i, be32_bytes v)])), v_frame (bs @ [(i, be32_bytes v)]) @ replicate (k - 7) 0)"
proof -
  have "wr_be32 (stack 4) 0 v = Some (be32_bytes v)" by (simp add: wr_be32_def poke_def stack_def)
  moreover have "info_add_block (v_frame bs @ replicate k 0) off i (be32_bytes v) 4
    = Some (length (v_frame (bs @ [(i, be32_bytes v)])), v_frame (bs @ [(i, be32_bytes v)]) @ replicate (k - 3 - 4) 0)"
    using assms by (intro info_block) simp_all
  ultimately show ?thesis by (simp add: info_add_u32_def)
qed

lemma v_length: "length (v_frame bs) = 11 + length (concat (map tlv bs))"
  by (simp add: v_frame_def)

lemma v_start:
  "poke (replicate 160 0) 0 (asc ''NOKV'') \<bind> (\<lambda>p. poke p 4 [0, 2, 3, 3, 5, 4, 0])
     = Some (v_frame [] @ replicate 149 0)" "length (v_frame []) = 11"
proof -
  have "replicate 160 (0 :: u8) = replicate 11 0 @ replicate 149 0" by (simp flip: replicate_add)
  then show "poke (replicate 160 0) 0 (asc ''NOKV'') \<bind> (\<lambda>p. poke p 4 [0, 2, 3, 3, 5, 4, 0])
     = Some (v_frame [] @ replicate 149 0)"
    by (simp only:) (simp add: poke_def v_frame_def replicate_numeral_unfold)
qed (simp add: v_frame_def)

lemma v_frame_length: "length (v_frame (v_blocks usb bio)) \<le> 81"
  by (simp add: v_frame_def v_blocks_def tlv_def split: option.split)

lemma v_info_eq:
  "send_v_info_response E usb bio w
     = usb_transport_send E usb (Some (v_frame (v_blocks usb bio)
           @ replicate (160 - length (v_frame (v_blocks usb bio))) 0))
         (of_nat (length (v_frame (v_blocks usb bio)))) w"
proof -
  have start: "memset (stack 160) 0 0 160 = Some (replicate 160 0)" by (simp add: stack_def memset_in)
  obtain p where p: "poke (replicate 160 0) 0 (asc ''NOKV'') = Some p"
      "poke p 4 [0, 2, 3, 3, 5, 4, 0] = Some (v_frame [] @ replicate 149 0)"
    using v_start(1) by (auto simp: bind_eq_Some_conv)
  show ?thesis
    unfolding send_v_info_response_def Let_def start p Option.bind.simps
    by (auto simp: info_u32 info_block v_length v_blocks_def tlv_def split: option.split)
qed

lemma v_info_replies:
  assumes "usb_ok usb"
  shows "replies usb (v_frame (v_blocks usb bio)) w (send_v_info_response E usb bio w)"
proof -
  let ?m = "v_frame (v_blocks usb bio)"
  have u: "unat (of_nat (length ?m) :: u64) = length ?m"
    using v_frame_length [of usb bio] by (simp add: unsigned_of_nat take_bit_nat_eq_self)
  show ?thesis unfolding v_info_eq
    using usb.send_delivers [OF assms, of "of_nat (length ?m)" "?m @ replicate (160 - length ?m) 0" w E] u
    by (auto simp: replies_def usb.message_def)
qed

lemma v_blocks_small: "\<forall>b\<in>set (v_blocks usb bio). length (snd b) < 65536"
  by (auto simp: v_blocks_def split: option.split)

lemma v_frame_parse:
  "read_blocks_tlv (unat (v_frame (v_blocks usb bio) ! 10)) (drop 11 (v_frame (v_blocks usb bio)))
     = Some (v_blocks usb bio)"
proof -
  have "unat (of_nat (length (v_blocks usb bio)) :: u8) = length (v_blocks usb bio)"
    by (simp add: v_blocks_def split: option.split)
  then show ?thesis
    using read_blocks_tlv [OF v_blocks_small [of usb bio], of "[]"] by (simp add: v_frame_def)
qed

section \<open>Reading a parameter\<close>

definition app_ok :: "app \<Rightarrow> bool" where
  "app_ok app \<longleftrightarrow> length (g_ffu_options app) = 500"

text \<open>The bytes stored fit \<open>data_len\<close>, and \<open>data_len\<close> the 512-byte buffer.\<close>

definition data_fits :: "param_data option \<Rightarrow> bool" where
  "data_fits r \<longleftrightarrow> (\<exists>s d n. r = Some (s, d, n) \<and> length d \<le> unat n \<and> n \<le> 512)"

lemma data_fits_Some [simp]: "data_fits (Some (s, d, n)) \<longleftrightarrow> length d \<le> unat n \<and> n \<le> 512"
  by (simp add: data_fits_def)

lemma read_param_3_fits: "data_fits (read_param_3 usb param)"
  unfolding read_param_3_def Let_def by (simp split: if_split)

lemma read_param_2_fits:
  assumes "app_ok app" "unat len \<le> length msg" "data_fits other"
  shows "data_fits (read_param_2 app msg len param other)"
proof -
  have "\<exists>b. (if 16 \<le> len then do { b \<leftarrow> peek msg 15; Some (P b) } else Some False) = Some b" for P
  proof (cases "16 \<le> len")
    case True
    then have "15 < length msg" using assms(2) by (simp add: word_le_nat_alt)
    then show ?thesis using True by (simp add: peek_def)
  qed auto
  from this [of "\<lambda>b. b \<noteq> 1 \<and> b \<noteq> 2"] this [of "\<lambda>b. b \<noteq> 0"] show ?thesis
    using assms(1,3) unfolding read_param_2_def app_ok_def
    by (elim exE) (simp only: Option.bind.simps, simp split: if_split)
qed

lemma read_param_1_fits: "data_fits other \<Longrightarrow> data_fits (read_param_1 bio param other)"
  unfolding read_param_1_def by (simp split: if_split option.split)

text \<open>What the answer to a parameter query carries.\<close>

lemma read_param_post:
  assumes ok: "usb_ok usb" "app_ok app" "unat len \<le> length msg" "variable_contract E"
  shows "\<exists>p s d. answers usb (fr_frame p s (of_nat (length d)) d) w (handle_read_param E app usb bio msg len w)
    \<and> (11 \<le> len \<longrightarrow> rd_be32 (drop 7 msg) = Some p)"
proof (cases "len < 11")
  case True
  then show ?thesis using fr_post(1) [OF ok(1), of 0 "[]" 0 8 w E]
    by (intro exI [of _ 0] exI [of _ 8] exI [of _ "[]"]) (simp add: handle_read_param_def)
next
  case False
  then have "11 \<le> unat len" by (simp add: word_less_nat_alt)
  then obtain p where p: "rd_be32 (drop 7 msg) = Some p" using be32.dec_drop_total [of 7 msg] ok(3) by auto
  have var: ?thesis if "var_answer p P usb w (handle_read_param E app usb bio msg len w)" for P
    using that p unfolding var_answer_def by (auto split: if_splits)
  consider "p = 0x47554656" | "p = 0x47555653" | "p \<noteq> 0x47554656" "p \<noteq> 0x47555653" by blast
  then show ?thesis
  proof cases
    case 1
    show ?thesis using read_uefi_var_value_post [OF ok(1,3,4), of p w] False p 1
      by (intro var) (simp add: handle_read_param_def)
  next
    case 2
    show ?thesis using read_uefi_var_size_post [OF ok(1,3), of p E w] False p 2
      by (intro var) (simp add: handle_read_param_def)
  next
    case 3
    let ?r = "read_param_1 bio p (read_param_2 app msg len p (read_param_3 usb p))"
    obtain s d n where r: "?r = Some (s, d, n)" "length d \<le> unat n" "n \<le> 512"
      using read_param_1_fits [OF read_param_2_fits [OF ok(2,3) read_param_3_fits], of bio p p usb]
      unfolding data_fits_def by blast
    have n: "unat n \<le> 512" using r(3) by (simp add: word_le_nat_alt)
    have dat: "poke (replicate 512 0) 0 d = Some (d @ replicate (512 - length d) 0)"
      using r(2) n by (simp add: poke_def)
    have z: "memset (stack 512) 0 0 512 = Some (replicate 512 0)" by (simp add: memset_in stack_def)
    have eq: "handle_read_param E app usb bio msg len w
        = send_fr_response E usb p s (d @ replicate (512 - length d) 0) n w"
      using False p 3 r(1) dat z by (simp add: handle_read_param_def)
    have "word_of_nat (unat n) = (ucast n :: u32)" by simp
    then show ?thesis unfolding eq p using fr_post(1) [OF ok(1), of n "d @ replicate (512 - length d) 0" p s w E] n r(2)
      by (intro exI [of _ p] exI [of _ s] exI [of _ "take (unat n) (d @ replicate (512 - length d) 0)"]) simp
  qed
qed

section \<open>Writing a parameter\<close>

type_synonym app_result = "(app \<times> (EFI_STATUS \<times> USB_TRANSPORT \<times> world) run) option"

text \<open>The outcome of a write: a status frame is the reply, and unless the status is 0 the
  parameters keep their values.\<close>

definition write_post :: "app \<Rightarrow> USB_TRANSPORT \<Rightarrow> u32 \<Rightarrow> world \<Rightarrow> app_result \<Rightarrow> bool" where
  "write_post app usb param w r \<longleftrightarrow> (\<exists>s app' r'. r = Some (app', r') \<and> app_ok app'
     \<and> (s \<noteq> 0 \<longrightarrow> app' = app) \<and> replies usb (fw_frame param s) w (Some r'))"

lemma write_postI:
  assumes "app_ok app'" "s \<noteq> 0 \<longrightarrow> app' = app" "replies usb (fw_frame param s) w r"
  shows "write_post app usb param w (map_option (Pair app') r)"
proof (cases r)
  case None
  then show ?thesis using assms(3) by (simp add: replies_def split: if_splits)
next
  case (Some x)
  then show ?thesis using assms unfolding write_post_def
    by (intro exI [of _ s] exI [of _ app'] exI [of _ x]) simp
qed

lemma write_send:
  assumes "usb_ok usb" "app_ok app'" "s \<noteq> 0 \<longrightarrow> app' = app"
  shows "write_post app usb param w (map_option (Pair app') (send_fw_response E usb param s w))"
  using assms by (intro write_postI [of _ s]) (auto intro: short_replies)

lemma log_id_scan_bounds:
  "15 + i + n \<le> length p \<Longrightarrow> \<exists>k\<ge>i. log_id_scan p i n = Some k \<and> k \<le> i + n
     \<and> (\<forall>j. i \<le> j \<longrightarrow> j < k \<longrightarrow> p ! (15 + j) \<noteq> 0) \<and> (k < i + n \<longrightarrow> p ! (15 + k) = 0)"
proof (induction n arbitrary: i)
  case (Suc n)
  show ?case
  proof (cases "p ! (15 + i) = 0")
    case True
    then show ?thesis using Suc.prems by (intro exI [of _ i]) (simp add: peek_def)
  next
    case False
    have "15 + Suc i + n \<le> length p" using Suc.prems by simp
    from Suc.IH [OF this] obtain k where k: "Suc i \<le> k" "log_id_scan p (Suc i) n = Some k" "k \<le> Suc i + n"
        "\<forall>j. Suc i \<le> j \<longrightarrow> j < k \<longrightarrow> p ! (15 + j) \<noteq> 0" "k < Suc i + n \<longrightarrow> p ! (15 + k) = 0" by blast
    have "\<forall>j. i \<le> j \<longrightarrow> j < k \<longrightarrow> p ! (15 + j) \<noteq> 0"
      using k(4) False by (metis Suc_leI le_neq_implies_less)
    then show ?thesis using k Suc.prems False by (intro exI [of _ k]) (simp add: peek_def)
  qed
qed (auto intro: exI [of _ "_ :: nat"])

text \<open>A log identifier is accepted exactly if its first zero byte is its last byte.\<close>

definition log_id_ok :: "bytes \<Rightarrow> nat \<Rightarrow> bool" where
  "log_id_ok d n \<longleftrightarrow> 0 < n \<and> n \<le> 200 \<and> length d = n \<and> (\<forall>j < n. d ! j = 0 \<longleftrightarrow> j = n - 1)"

lemma write_LI_eq:
  assumes len: "unat len \<le> length msg"
  shows "write_LI E usb param k msg len w
    = send_fw_response E usb param
        (if unat len < 15 + unat k \<or> \<not> log_id_ok (take (unat k) (drop 15 msg)) (unat k) then 8 else 0) w"
proof (cases "len < 15 \<or> 200 < k \<or> len < ucast (15 + k)")
  case True
  have "unat (15 + k) = 15 + unat k" if "\<not> 200 < k"
    using that by (subst unat_add_le) (auto simp: word_less_nat_alt)
  then have "unat len < 15 + unat k \<or> 200 < unat k"
    using True by (auto simp: word_less_nat_alt)
  then have "unat len < 15 + unat k \<or> \<not> log_id_ok (take (unat k) (drop 15 msg)) (unat k)"
    by (auto simp: log_id_ok_def)
  then show ?thesis using True by (simp add: write_LI_def)
next
  case False
  then have k: "unat k \<le> 200" by (simp add: word_less_nat_alt)
  then have "unat (15 + k) = 15 + unat k" by (subst unat_add_le) auto
  then have l: "15 + unat k \<le> unat len" using False by (simp add: word_less_nat_alt)
  then have "15 + 0 + unat k \<le> length msg" using len by simp
  from log_id_scan_bounds [OF this] obtain a where a: "log_id_scan msg 0 (unat k) = Some a" "a \<le> unat k"
      "\<forall>j<a. msg ! (15 + j) \<noteq> 0" "a < unat k \<longrightarrow> msg ! (15 + a) = 0" by auto
  have "log_id_ok (take (unat k) (drop 15 msg)) (unat k) \<longleftrightarrow> a \<noteq> unat k \<and> a + 1 = unat k"
  proof
    assume "log_id_ok (take (unat k) (drop 15 msg)) (unat k)"
    then have h: "0 < unat k" "\<And>j. j < unat k \<Longrightarrow> msg ! (15 + j) = 0 \<longleftrightarrow> j = unat k - 1"
      using l len by (auto simp: log_id_ok_def)
    have "msg ! (15 + (unat k - 1)) = 0" by (subst h(2)) (use h(1) in simp_all)
    then have "\<not> unat k - 1 < a" using a(3) by blast
    then show "a \<noteq> unat k \<and> a + 1 = unat k" using a(2,4) h by (cases "a = unat k") auto
  next
    assume "a \<noteq> unat k \<and> a + 1 = unat k"
    then have e: "unat k = Suc a" by simp
    then show "log_id_ok (take (unat k) (drop 15 msg)) (unat k)"
      using a(3,4) k l len unfolding e by (auto simp: log_id_ok_def less_Suc_eq)
  qed
  then show ?thesis using False a(1) l by (auto simp: write_LI_def)
qed

lemma write_post_if:
  "write_post app usb p w r \<Longrightarrow> write_post app usb p w r' \<Longrightarrow> write_post app usb p w (if c then r else r')"
  by simp

lemma write_FO_post:
  assumes "usb_ok usb" "app_ok app" "unat len \<le> length msg"
  shows "write_post app usb param w (write_FO E app usb param k msg len w)"
proof (cases "len < 515 \<or> k \<noteq> 500")
  case False
  then have "15 + 500 \<le> length msg" using assms(3) by (simp add: word_less_nat_alt)
  moreover have "length (g_ffu_options app) = 500" using assms(2) by (simp add: app_ok_def)
  ultimately have m: "memcpy (g_ffu_options app) 0 msg 15 500 = Some (take 500 (drop 15 msg))"
    and l: "length (take 500 (drop 15 msg)) = 500" by (simp_all add: memcpy_in)
  show ?thesis unfolding write_FO_def if_not_P [OF False] m Option.bind.simps
    by (rule write_send [OF assms(1)]) (simp_all add: app_ok_def l del: length_take length_drop)
qed (simp add: write_FO_def write_send assms)

lemma write_MODE_post:
  assumes "usb_ok usb" "app_ok app" "unat len \<le> length msg"
  shows "write_post app usb param w (write_MODE E app usb param msg len w)"
proof (cases "len < 20")
  case False
  then have l: "20 \<le> length msg" using assms(3) by (simp add: word_less_nat_alt)
  then obtain v where "rd_be32 (drop 16 msg) = Some v" using be32.dec_drop_total [of 16 msg] by auto
  then show ?thesis using False l assms(1,2)
    by (auto simp: write_MODE_def peek_def write_send app_ok_def)
qed (simp add: write_MODE_def write_send assms)

lemma write_param_post:
  assumes ok: "usb_ok usb" "app_ok app" "unat len \<le> length msg"
  shows "\<exists>p. write_post app usb p w (handle_write_param E app usb msg len w)
    \<and> (11 \<le> len \<longrightarrow> rd_be32 (drop 7 msg) = Some p)"
proof (cases "len < 11")
  case True
  then show ?thesis using ok by (intro exI [of _ 0]) (simp add: handle_write_param_def write_send)
next
  case False
  then have "11 \<le> unat len" by (simp add: word_less_nat_alt)
  then obtain p where p: "rd_be32 (drop 7 msg) = Some p" using be32.dec_drop_total [of 7 msg] ok(3) by auto
  have "\<exists>k. (if 15 \<le> len then rd_be32 (drop 11 msg) else Some 0) = Some k"
  proof (cases "15 \<le> len")
    case True
    then show ?thesis using be32.dec_drop_total [of 11 msg] ok(3) by (simp add: word_le_nat_alt)
  qed simp
  then obtain k where k: "(if 15 \<le> len then rd_be32 (drop 11 msg) else Some 0) = Some k" by blast
  have LI: "write_post app usb p w (map_option (Pair app) (write_LI E usb p k msg len w))"
    unfolding write_LI_eq [OF ok(3)] using ok by (simp add: write_send)
  have SUFV: "write_post app usb p w (map_option (Pair app) (handle_write_uefi_var E usb p msg len w))"
  proof -
    obtain s v where s: "handle_write_uefi_var E usb p msg len w = send_fw_response E usb p s v"
        "sent v = sent w" "quiet w v"
      using write_uefi_var_post [OF ok(1,3), of E p w] by blast
    show ?thesis unfolding s(1)
      by (rule write_postI [of _ s]) (use ok replies_from [OF short_replies(4) [OF ok(1)] s(2,3)] in simp_all)
  qed
  have other: "write_post app usb p w (map_option (Pair app) (send_fw_response E usb p s w))" for s
    using ok by (simp add: write_send)
  have "write_post app usb p w (handle_write_param E app usb msg len w)"
    unfolding handle_write_param_def if_not_P [OF False] p k Option.bind.simps
    by (intro write_post_if LI SUFV other write_FO_post [OF ok] write_MODE_post [OF ok])
  then show ?thesis using p by blast
qed

section \<open>Round trips\<close>

text \<open>A well-formed option write makes exactly its 500 bytes the options, and the option query
  then answers with them.\<close>

lemma FO_write:
  assumes ok: "usb_ok usb" "app_ok app" "unat len \<le> length msg" "515 \<le> len"
    and req: "rd_be32 (drop 7 msg) = Some 0x464F0000" "rd_be32 (drop 11 msg) = Some 500"
  shows "\<exists>r. handle_write_param E app usb msg len w = Some (app\<lparr>g_ffu_options := take 500 (drop 15 msg)\<rparr>, r)
    \<and> replies usb (fw_frame 0x464F0000 0) w (Some r)"
proof -
  have l: "15 + 500 \<le> length msg" "\<not> len < 515" "\<not> len < 11" "15 \<le> len"
    using ok(3,4) by (auto simp: word_le_nat_alt word_less_nat_alt)
  have "memcpy (g_ffu_options app) 0 msg 15 500 = Some (take 500 (drop 15 msg))"
    using l ok(2) by (simp add: memcpy_in app_ok_def)
  then have "handle_write_param E app usb msg len w = map_option (Pair (app\<lparr>g_ffu_options := take 500 (drop 15 msg)\<rparr>))
      (send_fw_response E usb 0x464F0000 0 w)"
    using req l by (simp add: handle_write_param_def write_FO_def)
  moreover obtain r where "send_fw_response E usb 0x464F0000 0 w = Some r"
    "replies usb (fw_frame 0x464F0000 0) w (Some r)"
    using short_replies(4) [OF ok(1), of "0x464F0000" 0 w E]
    by (cases "send_fw_response E usb 0x464F0000 0 w") (auto simp: replies_def split: if_splits)
  ultimately show ?thesis by simp
qed

lemma fixed_param_eq:
  assumes "11 \<le> len" "rd_be32 (drop 7 msg) = Some p" "p \<noteq> 0x47554656" "p \<noteq> 0x47555653"
    "read_param_1 bio p (read_param_2 app msg len p (read_param_3 usb p)) = Some (s, d, n)" "length d \<le> 512"
  shows "handle_read_param E app usb bio msg len w
    = send_fr_response E usb p s (d @ replicate (512 - length d) 0) n w"
proof -
  have "memset (stack 512) 0 0 512 = Some (replicate 512 0)" by (simp add: memset_in stack_def)
  moreover have "poke (replicate 512 0) 0 d = Some (d @ replicate (512 - length d) 0)"
    using assms(6) by (simp add: poke_def)
  ultimately show ?thesis using assms(1-5) by (simp add: handle_read_param_def not_le [symmetric])
qed

lemma FO_read:
  assumes "usb_ok usb" "length d = 500" "g_ffu_options app = d" "11 \<le> len" "rd_be32 (drop 7 msg) = Some 0x464F0000"
  shows "answers usb (fr_frame 0x464F0000 0 500 d) w (handle_read_param E app usb bio msg len w)"
proof -
  have "handle_read_param E app usb bio msg len w
      = send_fr_response E usb 0x464F0000 0 (d @ replicate (512 - length d) 0) 500 w"
    by (rule fixed_param_eq [OF assms(4,5)]) (simp_all add: read_param_1_def read_param_2_def assms(2,3))
  then show ?thesis using fr_post(1) [OF assms(1), of 500 "d @ replicate 12 0" "0x464F0000" 0 w E] assms(2) by simp
qed

lemma MODE_write:
  assumes ok: "usb_ok usb" "app_ok app" "unat len \<le> length msg" "20 \<le> len"
    and req: "rd_be32 (drop 7 msg) = Some 0x4D4F4445" "msg ! 15 = 0" "rd_be32 (drop 16 msg) = Some v"
  shows "\<exists>r. handle_write_param E app usb msg len w = Some (app\<lparr>g_mode_data := (if v \<noteq> 0 then 1 else 0)\<rparr>, r)
    \<and> replies usb (fw_frame 0x4D4F4445 0) w (Some r)"
proof -
  have l: "15 < length msg" "\<not> len < 20" "\<not> len < 11" "15 \<le> len" "11 + 4 \<le> length msg"
    using ok(3,4) by (auto simp: word_le_nat_alt word_less_nat_alt)
  obtain k where "rd_be32 (drop 11 msg) = Some k" using be32.dec_drop_total [OF l(5)] by blast
  then have "handle_write_param E app usb msg len w = map_option (Pair (app\<lparr>g_mode_data := (if v \<noteq> 0 then 1 else 0)\<rparr>))
      (send_fw_response E usb 0x4D4F4445 0 w)"
    using req l by (simp add: handle_write_param_def write_MODE_def peek_def)
  moreover obtain r where "send_fw_response E usb 0x4D4F4445 0 w = Some r"
    "replies usb (fw_frame 0x4D4F4445 0) w (Some r)"
    using short_replies(4) [OF ok(1), of "0x4D4F4445" 0 w E]
    by (cases "send_fw_response E usb 0x4D4F4445 0 w") (auto simp: replies_def split: if_splits)
  ultimately show ?thesis by simp
qed

lemma MODE_read:
  assumes "usb_ok usb" "11 \<le> len" "len < 16" "rd_be32 (drop 7 msg) = Some 0x4D4F4445"
  shows "replies usb (fr_frame 0x4D4F4445 0 4 (be32_bytes (g_mode_data app))) w (handle_read_param E app usb bio msg len w)"
proof -
  let ?d = "be32_bytes (g_mode_data app)"
  have "handle_read_param E app usb bio msg len w
      = send_fr_response E usb 0x4D4F4445 0 (?d @ replicate (512 - length ?d) 0) 4 w"
    by (rule fixed_param_eq [OF assms(2,4)])
      (use assms(3) in \<open>simp_all add: read_param_1_def read_param_2_def not_le [symmetric]\<close>)
  then show ?thesis using fr_post(2) [OF assms(1), of 4 "?d @ replicate 508 0" "0x4D4F4445" 0 w E] by simp
qed

end
