(* ===== verification/Handlers.thy ===== *)
theory Handlers
  imports Params
begin

text \<open>
  The remaining message handlers of \<open>src/main.c\<close>: writing blocks the old way (lines 835-870),
  reading the partition table (872-903), the unlock and relock answers (913-946) and the
  common extension messages (965-1064).
\<close>

section \<open>Definitions\<close>

text \<open>The handlers dereference \<open>bio->Media\<close>; \<open>None\<close> is the null pointer.\<close>

definition handle_legacy_flash ::
    "env \<Rightarrow> USB_TRANSPORT \<Rightarrow> EFI_BLOCK_IO_PROTOCOL \<Rightarrow> bytes \<Rightarrow> u64 \<Rightarrow> bool \<Rightarrow> world \<Rightarrow> send_result" where
  "handle_legacy_flash E usb bio msg len commit w =
     (if len < 26 then send_legacy_flash_response E usb 8 0 0 w
      else do {
        start \<leftarrow> rd_be32 (drop 11 msg);
        count \<leftarrow> rd_be32 (drop 15 msg);
        media \<leftarrow> Media bio;
        let byte_count = (ucast count * ucast (BlockSize media) :: u64);
        check \<leftarrow> peek msg 25;
        if count \<noteq> 0 \<and> byte_count div ucast count \<noteq> ucast (BlockSize media)
        then send_legacy_flash_response E usb 8 count count w
        else if check \<noteq> 1 then
          (if len < 64 \<or> len - 64 < byte_count
           then send_legacy_flash_response E usb 8 count (ucast byte_count) w
           else if count \<noteq> 0 \<and> LastBlock media < ucast start + ucast count - 1
           then send_legacy_flash_response E usb 8 count count w
           else if commit \<and> byte_count \<noteq> 0 then do {
             data \<leftarrow> load msg 64 (unat byte_count);
             let (st, w) = WriteBlocks_call E (MediaId media) (ucast start) byte_count data w;
             (if EFI_ERROR st then send_legacy_flash_response E usb (status_from_efi st) count (ucast st) w
              else send_legacy_flash_response E usb 0 count 0 w) }
           else send_legacy_flash_response E usb 0 count 0 w)
        else send_legacy_flash_response E usb 0 count 0 w })"

definition ReadBlocks_call :: "env \<Rightarrow> u32 \<Rightarrow> u64 \<Rightarrow> u64 \<Rightarrow> world \<Rightarrow> (EFI_STATUS \<times> bytes) \<times> world" where
  "ReadBlocks_call E m lba n w = (let w = emit (ReadBlocks m lba n) w in (read_blocks E (trace w), w))"

text \<open>The blocks go straight into the response, behind its 8-byte header.\<close>

definition handle_get_gpt ::
    "env \<Rightarrow> USB_TRANSPORT \<Rightarrow> EFI_BLOCK_IO_PROTOCOL \<Rightarrow> world \<Rightarrow> send_result" where
  "handle_get_gpt E usb bio w = do {
     media \<leftarrow> Media bio;
     let block_size = BlockSize media;
     let block_count = (if block_size = 512 then 34 else if block_size = 4096 then 6 else 0);
     let status = (if block_size = 512 \<or> block_size = 4096 then 0 else 8);
     let payload_len = block_count * block_size;
     let total_len = (ucast payload_len + 8 :: u64);
     (case uefi_alloc E total_len w of
        (None, w) \<Rightarrow> Some (Returns (EFI_OUT_OF_RESOURCES, usb, w))
      | (Some resp, w) \<Rightarrow> do {
          resp \<leftarrow> memset resp 0 0 (unat total_len);
          resp \<leftarrow> poke resp 0 (asc ''NOKT'');
          (status, resp, w) \<leftarrow>
            (if status = 0 \<and> payload_len \<noteq> 0 then do {
               let ((st, got), w) = ReadBlocks_call E (MediaId media) 0 (ucast payload_len) w;
               resp \<leftarrow> poke resp 8 got;
               if EFI_ERROR st then do {
                 resp \<leftarrow> memset resp 8 0 (unat payload_len);
                 Some (2, resp, w) }
               else Some (status, resp, w) }
             else Some (status, resp, w));
          resp \<leftarrow> wr_be16 resp 6 status;
          send_and_free E usb resp total_len True w }) }"

definition handle_unlock :: "env \<Rightarrow> USB_TRANSPORT \<Rightarrow> bytes \<Rightarrow> u64 \<Rightarrow> world \<Rightarrow> send_result" where
  "handle_unlock E usb msg len w = do {
     request_version \<leftarrow> (if 10 \<le> len then rd_be32 (drop 6 msg) else Some 0);
     token_len \<leftarrow> (if 18 \<le> len then rd_be32 (drop 14 msg) else Some 0);
     let (status, op_status) =
       (if len < 18 \<or> request_version \<noteq> 2 then (5121, EFI_UNSUPPORTED)
        else if len < ucast token_len + 18 then (5122, EFI_INVALID_PARAMETER)
        else (0, EFI_SUCCESS));
     resp \<leftarrow> memset (stack 14) 0 0 14;
     resp \<leftarrow> poke resp 0 (asc ''NOKXFI'');
     resp \<leftarrow> wr_be16 resp 8 status;
     resp \<leftarrow> wr_be32 resp 10 (efi_status_to_wire32 op_status);
     usb_transport_send E usb (Some resp) 14 w }"

definition handle_relock :: "env \<Rightarrow> USB_TRANSPORT \<Rightarrow> world \<Rightarrow> send_result" where
  "handle_relock E usb w = do {
     resp \<leftarrow> memset (stack 10) 0 0 10;
     resp \<leftarrow> poke resp 0 (asc ''NOKXFO'');
     resp \<leftarrow> wr_be32 resp 6 0;
     usb_transport_send E usb (Some resp) 10 w }"

text \<open>The file messages: \<open>ext\<close> is \<open>D\<close>, \<open>F\<close> or \<open>P\<close> (0x44, 0x46, 0x50).\<close>

definition handle_common_ext_file_stub ::
    "env \<Rightarrow> USB_TRANSPORT \<Rightarrow> bytes \<Rightarrow> u64 \<Rightarrow> u8 \<Rightarrow> world \<Rightarrow> send_result" where
  "handle_common_ext_file_stub E usb msg len ext w =
     (if len < 1114 \<or> ext = 0x50 \<and> len < 1115 then send_ext_blob_response E usb 0x43 ext 8 [] 0 w
      else do {
        requested \<leftarrow> rd_be32 (drop 1102 msg);
        offset \<leftarrow> rd_be64_local (drop 1106 msg);
        let max_payload = (if ext = 0x50 then 0xfb94 else 0xffe3);
        if ucast (max_transfer usb) < requested \<or> max_payload < requested
        then send_ext_blob_response E usb 0x43 ext 48 [] 0 w
        else if ext = 0x46 \<and> requested = 0 \<and> offset \<noteq> 0 then send_ext_blob_response E usb 0x43 ext 8 [] 0 w
        else if ext = 0x50 then
          (if requested = 0 \<or> len < 1115 + ucast requested
           then send_ext_declared_len_response E usb 0x43 0x50 8 0 w
           else send_ext_declared_len_response E usb 0x43 0x50 38 requested w)
        else if requested = 0 then send_ext_blob_response E usb 0x43 ext 38 [] 0 w
        else case uefi_alloc E (ucast requested) w of
          (None, w) \<Rightarrow> Some (Returns (EFI_OUT_OF_RESOURCES, usb, w))
        | (Some zeros, w) \<Rightarrow> do {
            zeros \<leftarrow> memset zeros 0 0 (unat requested);
            after (send_ext_blob_response E usb 0x43 ext 38 zeros (ucast requested) w)
              (\<lambda>(st, usb, w). Some (Returns (st, usb, uefi_free E True w))) }})"

definition common_ext_echo :: "env \<Rightarrow> USB_TRANSPORT \<Rightarrow> bytes \<Rightarrow> u64 \<Rightarrow> world \<Rightarrow> send_result" where
  "common_ext_echo E usb msg len w = do {
     echo_len \<leftarrow> (if 10 \<le> len then do {
         n \<leftarrow> rd_be32 (drop 6 msg);
         Some (if len - 10 < ucast n then ucast (len - 10) else n) }
       else Some 0);
     let out_len = (ucast (6 + echo_len) :: u64);
     (case response_buffer E out_len w of
        (None, al, w) \<Rightarrow> Some (Returns (EFI_OUT_OF_RESOURCES, usb, w))
      | (Some resp, al, w) \<Rightarrow> do {
          resp \<leftarrow> poke resp 0 (asc ''NOKXCE'');
          resp \<leftarrow> (if echo_len \<noteq> 0 then memcpy resp 6 msg 10 (unat echo_len) else Some resp);
          send_and_free E usb resp out_len al w }) }"

definition handle_common_ext :: "env \<Rightarrow> USB_TRANSPORT \<Rightarrow> bytes \<Rightarrow> u64 \<Rightarrow> world \<Rightarrow> send_result" where
  "handle_common_ext E usb msg len w = do {
     ext \<leftarrow> (if 5 < len then peek msg 5 else Some 0);
     if ext = 0x42 then do {
       mode \<leftarrow> (if 6 < len then peek msg 6 else Some 0);
       (if mode \<in> {0x52, 0x54, 0x55, 0x57, 0x5a} then send_cb_response E usb 0 0 w
        else send_cb_response E usb 8 (ucast mode) w) }
     else if ext = 0x43 then send_ext_status8 E usb 0x43 0x43 0 w
     else if ext = 0x45 then common_ext_echo E usb msg len w
     else if ext = 0x4d then do {
       display_id \<leftarrow> (if 8 \<le> len then rd_be16 (drop 6 msg) else Some 0xffff);
       send_ext_status8 E usb 0x43 0x4d (if display_id < 5 then 0 else 11) w }
     else if ext = 0x44 \<or> ext = 0x46 \<or> ext = 0x50 then handle_common_ext_file_stub E usb msg len ext w
     else send_unknown_response E usb w }"

section \<open>Unlock, relock\<close>

definition unlock_frame :: "u16 \<Rightarrow> u32 \<Rightarrow> bytes" where
  "unlock_frame s st = asc ''NOKXFI'' @ [0, 0] @ be16_bytes s @ be32_bytes st"

text \<open>The verdict on an unlock request, over the numbers it carries: version 2 and a token
  that lies inside the message.\<close>

definition unlock_verdict :: "bytes \<Rightarrow> nat \<Rightarrow> u16 \<times> EFI_STATUS" where
  "unlock_verdict msg n =
     (if n < 18 \<or> rd_be32 (drop 6 msg) \<noteq> Some 2 then (5121, EFI_UNSUPPORTED)
      else case rd_be32 (drop 14 msg) of
        None \<Rightarrow> (5121, EFI_UNSUPPORTED)
      | Some k \<Rightarrow> if n < 18 + unat k then (5122, EFI_INVALID_PARAMETER) else (0, EFI_SUCCESS))"

lemma unlock_replies:
  assumes ok: "usb_ok usb" "unat len \<le> length msg"
  shows "replies usb (unlock_frame (fst (unlock_verdict msg (unat len)))
      (efi_status_to_wire32 (snd (unlock_verdict msg (unat len))))) w (handle_unlock E usb msg len w)"
proof -
  have v: "\<exists>v. (if 10 \<le> len then rd_be32 (drop 6 msg) else Some 0) = Some v \<and> (18 \<le> len \<longrightarrow> rd_be32 (drop 6 msg) = Some v)"
  proof (cases "10 \<le> len")
    case True
    then show ?thesis using be32.dec_drop_total [of 6 msg] ok(2) by (auto simp: word_le_nat_alt)
  qed (auto simp: word_le_nat_alt)
  then obtain v where v: "(if 10 \<le> len then rd_be32 (drop 6 msg) else Some 0) = Some v"
    "18 \<le> len \<longrightarrow> rd_be32 (drop 6 msg) = Some v" by blast
  have k: "\<exists>k. (if 18 \<le> len then rd_be32 (drop 14 msg) else Some 0) = Some k \<and> (18 \<le> len \<longrightarrow> rd_be32 (drop 14 msg) = Some k)"
  proof (cases "18 \<le> len")
    case True
    then show ?thesis using be32.dec_drop_total [of 14 msg] ok(2) by (auto simp: word_le_nat_alt)
  qed simp
  then obtain k where k: "(if 18 \<le> len then rd_be32 (drop 14 msg) else Some 0) = Some k"
    "18 \<le> len \<longrightarrow> rd_be32 (drop 14 msg) = Some k" by blast
  have u: "unat (ucast k + 18 :: u64) = 18 + unat k"
    by (subst unat_add_le) (use unat_u32_lt [of k] in auto)
  have verdict: "(if len < 18 \<or> v \<noteq> 2 then (5121, EFI_UNSUPPORTED)
        else if len < ucast k + 18 then (5122, EFI_INVALID_PARAMETER)
        else (0, EFI_SUCCESS)) = unlock_verdict msg (unat len)"
    using v(2) k(2) by (auto simp: unlock_verdict_def word_less_nat_alt word_le_nat_alt u)
  have frame: "do { resp \<leftarrow> memset (stack 14) 0 0 14;
     resp \<leftarrow> poke resp 0 (asc ''NOKXFI'');
     resp \<leftarrow> wr_be16 resp 8 s;
     resp \<leftarrow> wr_be32 resp 10 st;
     f resp } = f (unlock_frame s st)" for s st and f :: "bytes \<Rightarrow> send_result"
    by (simp add: resp_eval unlock_frame_def)
  have "handle_unlock E usb msg len w = (case unlock_verdict msg (unat len) of (s, st) \<Rightarrow>
      usb_transport_send E usb (Some (unlock_frame s (efi_status_to_wire32 st))) 14 w)"
    unfolding handle_unlock_def v(1) k(1) Option.bind.simps verdict frame Let_def by (rule refl)
  then show ?thesis using send_replies [OF ok(1), of 14 "unlock_frame s st" w E for s st]
    by (simp add: case_prod_unfold unlock_frame_def)
qed

lemma relock_replies:
  assumes "usb_ok usb"
  shows "replies usb (asc ''NOKXFO'' @ replicate 4 0) w (handle_relock E usb w)"
proof -
  have "handle_relock E usb w = usb_transport_send E usb (Some (asc ''NOKXFO'' @ replicate 4 0)) 10 w"
    by (simp add: handle_relock_def resp_eval)
  then show ?thesis using send_replies [OF assms, of 10 "asc ''NOKXFO'' @ replicate 4 0" w E] by simp
qed

section \<open>Common extension messages\<close>

lemma poke_front: "length xs = n \<Longrightarrow> n \<le> length b \<Longrightarrow> poke b 0 xs = Some (xs @ drop n b)"
  by (auto simp: poke_def)

text \<open>The echoed bytes: as many as the message asks for and has.\<close>

definition echo_bytes :: "bytes \<Rightarrow> nat \<Rightarrow> bytes" where
  "echo_bytes msg n = (if n < 10 then [] else
     case rd_be32 (drop 6 msg) of None \<Rightarrow> [] | Some k \<Rightarrow> take (min (unat k) (n - 10)) (drop 10 msg))"

lemma echo_post:
  assumes ok: "usb_ok usb" "unat len \<le> length msg" and short: "unat len < 2 ^ 32"
  shows "answers usb (asc ''NOKXCE'' @ echo_bytes msg (unat len)) w (common_ext_echo E usb msg len w)"
proof -
  have "\<exists>k. (if 10 \<le> len then do { n \<leftarrow> rd_be32 (drop 6 msg);
         Some (if len - 10 < ucast n then ucast (len - 10) else n) } else Some 0) = Some k
     \<and> unat k \<le> unat len - 10 \<and> echo_bytes msg (unat len) = take (unat k) (drop 10 msg)"
  proof (cases "10 \<le> len")
    case True
    then have "10 \<le> unat len" by (simp add: word_le_nat_alt)
    then obtain n where n: "rd_be32 (drop 6 msg) = Some n" using be32.dec_drop_total [of 6 msg] ok(2) by auto
    have l: "unat (len - 10) = unat len - 10" using True by (simp add: unat_sub)
    then have "unat (ucast (len - 10) :: u32) = unat len - 10" using short by (subst unat_ucast_small) simp_all
    then show ?thesis using True n \<open>10 \<le> unat len\<close>
      by (auto simp: echo_bytes_def word_less_nat_alt l min_def)
  next
    case False
    then have "unat len < 10" by (simp add: word_le_nat_alt)
    then show ?thesis using False by (simp add: echo_bytes_def)
  qed
  then obtain k where k: "(if 10 \<le> len then do { n \<leftarrow> rd_be32 (drop 6 msg);
         Some (if len - 10 < ucast n then ucast (len - 10) else n) } else Some 0) = Some k"
     "unat k \<le> unat len - 10" "echo_bytes msg (unat len) = take (unat k) (drop 10 msg)" by blast
  have k6: "unat (ucast (6 + k) :: u64) = 6 + unat k" using k(2) short
    by (simp only: unat_ucast_32_64) (subst unat_add_le; simp)
  then have k6': "unat (6 + k) = 6 + unat k" by simp
  let ?n = "ucast (6 + k) :: u64" let ?m = "asc ''NOKXCE'' @ echo_bytes msg (unat len)"
  obtain p al v where rb: "response_buffer E ?n w = (p, al, v)" by (cases "response_buffer E ?n w")
  have len_m: "length ?m = unat ?n" using k ok(2) by (simp only: k6) auto
  have nz: "?n \<noteq> 0" using k6 by (metis add_is_0 unat_0 zero_neq_numeral)
  let ?fill = "\<lambda>resp. do { resp \<leftarrow> poke resp 0 (asc ''NOKXCE'');
          if k \<noteq> 0 then memcpy resp 6 msg 10 (unat k) else Some resp }"
  have fill: "?fill b = Some (?m @ drop (unat ?n) b)" if "unat ?n \<le> length b" for b
  proof -
    have b: "6 + unat k \<le> length b" using that by (simp only: k6)
    have d6: "drop 6 b = take (unat k) (drop 6 b) @ drop (6 + unat k) b" by (metis append_take_drop_id drop_drop add.commute)
    have "poke b 0 (asc ''NOKXCE'') = Some (asc ''NOKXCE'' @ drop 6 b)"
      using b by (intro poke_front) simp_all
    moreover have "memcpy (asc ''NOKXCE'' @ drop 6 b) 6 (drop 10 msg) 0 (unat k)
        = Some (asc ''NOKXCE'' @ take (unat k) (drop 10 msg) @ drop (6 + unat k) b)"
      using b k ok(2) by (subst d6, intro memcpy_mid) simp_all
    moreover have "memcpy d 6 msg 10 n = memcpy d 6 (drop 10 msg) 0 n" if "10 + n \<le> length msg" "6 + n \<le> length d" for d n
      using that by (simp add: memcpy_in)
    moreover have "10 + unat k \<le> length msg \<or> k = 0" using k(2) ok(2) unat_gt_0 [of k] by linarith
    ultimately show ?thesis using b k(3) by (cases "k = 0") (simp_all add: k6')
  qed
  have "common_ext_echo E usb msg len w = (case (p, al, v) of (None, al, w) \<Rightarrow> Some (Returns (EFI_OUT_OF_RESOURCES, usb, w))
      | (Some resp, al, w) \<Rightarrow> ?fill resp \<bind> (\<lambda>resp. send_and_free E usb resp ?n al w))"
    unfolding common_ext_echo_def k(1) Option.bind.simps Let_def rb by (simp split: option.split)
  then show ?thesis using buffered_send(1) [OF ok(1) rb len_m nz fill] by simp
qed

text \<open>A handler answers with at most one message, whatever it is.\<close>

definition answers_once :: "USB_TRANSPORT \<Rightarrow> world \<Rightarrow> send_result \<Rightarrow> bool" where
  "answers_once usb w r \<longleftrightarrow> (\<exists>m. answers usb m w r)"

lemma answers_onceI: "answers usb m w r \<Longrightarrow> answers_once usb w r"
  by (auto simp: answers_once_def)

lemma blob_once:
  assumes "usb_ok usb"
  shows "answers_once usb w (send_ext_blob_response E usb app ext s [] 0 w)"
    "answers_once usb w (send_ext_declared_len_response E usb app ext s n w)"
    "answers_once usb w (send_cb_response E usb s n w)"
    "answers_once usb w (send_ext_status8 E usb app ext s w)"
    "answers_once usb w (send_unknown_response E usb w)"
  by (rule answers_onceI, rule blob_post(1) [OF assms], simp, simp)
    (rule answers_onceI, rule short_answers [OF assms])+

lemma file_stub_post:
  assumes ok: "usb_ok usb" "unat len \<le> length msg"
  shows "answers_once usb w (handle_common_ext_file_stub E usb msg len ext w)"
proof (cases "len < 1114 \<or> ext = 0x50 \<and> len < 1115")
  case True
  then show ?thesis by (simp add: handle_common_ext_file_stub_def blob_once ok)
next
  case False
  then have l: "1114 \<le> length msg" using ok(2) by (simp add: word_less_nat_alt)
  obtain r where r: "rd_be32 (drop 1102 msg) = Some r" using be32.dec_drop_total [of 1102 msg] l by auto
  obtain q where q: "rd_be64_local (drop 1106 msg) = Some q" using be64.dec_drop_total [of 1106 msg] l by auto
  obtain p v where a: "uefi_alloc E (ucast r) w = (p, v)" by fastforce
  have qv: "sent v = sent w" "quiet w v" using uefi_alloc_quiet [OF a] by simp_all
  have alloc: "answers_once usb w (case (p, v) of (None, w) \<Rightarrow> Some (Returns (EFI_OUT_OF_RESOURCES, usb, w))
        | (Some zeros, w) \<Rightarrow> do {
            zeros \<leftarrow> memset zeros 0 0 (unat r);
            after (send_ext_blob_response E usb 0x43 ext 38 zeros (ucast r) w)
              (\<lambda>(st, usb, w). Some (Returns (st, usb, uefi_free E True w))) })" if "r \<noteq> 0"
  proof (cases p)
    case None
    then show ?thesis using qv ok by (auto intro: answers_onceI [of _ "[]"] answers_silent)
  next
    case (Some b)
    have "(ucast r :: u64) \<noteq> 0" using that by (metis unat_ucast_32_64 unat_eq_zero)
    then have b: "length b = unat r" using uefi_alloc_length [of E "ucast r" w b v] a Some by simp
    then have z: "memset b 0 0 (unat r) = Some (replicate (unat r) 0)" by (simp add: memset_in)
    let ?z = "replicate (unat r) 0" let ?m = "blob_frame 0x43 ext 38 (ucast (ucast r :: u64)) (take (unat (ucast r :: u64)) ?z)"
    have "answers usb ?m v (send_ext_blob_response E usb 0x43 ext 38 ?z (ucast r) v)"
      using unat_u32_lt [of r] by (intro blob_post(1) [OF ok(1)]) auto
    then have "answers usb ?m w (send_ext_blob_response E usb 0x43 ext 38 ?z (ucast r) v)"
      using qv by (rule answers_from)
    then have "answers usb ?m w (after (send_ext_blob_response E usb 0x43 ext 38 ?z (ucast r) v)
        (\<lambda>(st, usb, w). Some (Returns (st, usb, uefi_free E True w))))"
      using usb.delivers_cleanup [of usb _ w _ "uefi_free E True"] unfolding answers_def by fastforce
    then show ?thesis using Some z by (auto intro: answers_onceI)
  qed
  show ?thesis unfolding handle_common_ext_file_stub_def if_not_P [OF False] r q Option.bind.simps Let_def a
    using alloc by (simp add: blob_once ok)
qed

lemma common_ext_post:
  assumes ok: "usb_ok usb" "unat len \<le> length msg" and short: "unat len < 2 ^ 32"
  shows "answers_once usb w (handle_common_ext E usb msg len w)"
proof -
  have "\<exists>e. (if 5 < len then peek msg 5 else Some 0) = Some e" "\<exists>m. (if 6 < len then peek msg 6 else Some 0) = Some m"
    using ok(2) by (auto simp: peek_def word_less_nat_alt)
  then obtain e m where e: "(if 5 < len then peek msg 5 else Some 0) = Some e"
    and m: "(if 6 < len then peek msg 6 else Some 0) = Some m" by blast
  have "\<exists>d. (if 8 \<le> len then rd_be16 (drop 6 msg) else Some 0xffff) = Some d"
    using be16.dec_drop_total [of 6 msg] ok(2) by (auto simp: word_le_nat_alt)
  then obtain d where d: "(if 8 \<le> len then rd_be16 (drop 6 msg) else Some 0xffff) = Some d" by blast
  show ?thesis unfolding handle_common_ext_def e m d Option.bind.simps
    using file_stub_post [OF ok, of w E e] answers_onceI [OF echo_post [OF ok short, of w E]]
    by (simp add: blob_once ok)
qed

section \<open>The partition table\<close>

lemma poke_mid: "i = length xs \<Longrightarrow> length ys = length d \<Longrightarrow> poke (xs @ ys @ zs) i d = Some (xs @ d @ zs)"
  by (simp add: poke_def)

definition gpt_frame :: "u16 \<Rightarrow> bytes \<Rightarrow> bytes" where
  "gpt_frame s d = asc ''NOKT'' @ [0, 0] @ be16_bytes s @ d"

text \<open>\<open>ReadBlocks\<close> stores as many bytes as it was asked for, or fewer if it fails.\<close>

definition read_contract :: "env \<Rightarrow> bool" where
  "read_contract E \<longleftrightarrow> (\<forall>t m lba n st got. read_blocks E (t @ [ReadBlocks m lba n]) = (st, got) \<longrightarrow>
     length got \<le> unat n \<and> (\<not> EFI_ERROR st \<longrightarrow> length got = unat n))"

definition gpt_bytes :: "u32 \<Rightarrow> nat" where
  "gpt_bytes bs = (if bs = 512 then 34 * 512 else if bs = 4096 then 6 * 4096 else 0)"

lemma quiet_read [simp]: "quiet a b \<Longrightarrow> quiet a (emit (ReadBlocks m lba n) b)"
  by (simp add: quiet_def disk_writes_def)

lemma gpt_payload:
  fixes bs :: u32
  defines "c \<equiv> (if bs = 512 then 34 else if bs = 4096 then 6 else 0) * bs"
  shows "unat c = gpt_bytes bs" "unat (ucast c + 8 :: u64) = 8 + gpt_bytes bs" "ucast c = (of_nat (gpt_bytes bs) :: u64)"
  by (auto simp: c_def gpt_bytes_def)

lemma gpt_header:
  assumes "length p = 8 + n"
  shows "do { p \<leftarrow> memset p 0 0 (8 + n); poke p 0 (asc ''NOKT'') } = Some (gpt_frame 0 (replicate n 0))"
    "length d = n \<Longrightarrow> wr_be16 (gpt_frame 0 d) 6 s = Some (gpt_frame s d)"
    "length got \<le> n \<Longrightarrow> poke (gpt_frame 0 (replicate n 0)) 8 got = Some (gpt_frame 0 (got @ replicate (n - length got) 0))"
    "length d = n \<Longrightarrow> memset (gpt_frame 0 d) 8 0 n = Some (gpt_frame 0 (replicate n 0))"
proof -
  have "memset p 0 0 (8 + n) = Some (replicate 8 0 @ replicate n 0)"
    using assms memset_split [of 8 n p] by simp
  then show "do { p \<leftarrow> memset p 0 0 (8 + n); poke p 0 (asc ''NOKT'') } = Some (gpt_frame 0 (replicate n 0))"
    by (simp add: resp_eval gpt_frame_def)
  show "poke (gpt_frame 0 (replicate n 0)) 8 got = Some (gpt_frame 0 (got @ replicate (n - length got) 0))" if "length got \<le> n"
  proof -
    have "replicate n (0 :: u8) = replicate (length got) 0 @ replicate (n - length got) 0"
      using that by (simp flip: replicate_add)
    then show ?thesis using poke_mid [of 8 "gpt_frame 0 []" "replicate (length got) 0" got "replicate (n - length got) 0"]
      by (simp add: gpt_frame_def be16_bytes_def)
  qed
qed (simp_all add: gpt_frame_def wr_be16_def be16_bytes_def poke_def memset_in)

lemma get_gpt_sends:
  assumes bio: "Media bio = Some media" and con: "read_contract E"
    and n_def: "n = gpt_bytes (BlockSize media)"
    and c_def: "c = (if BlockSize media = 512 then 34 else if BlockSize media = 4096 then 6 else 0) * BlockSize media"
    and al: "uefi_alloc E (ucast c + 8) w = (Some b, u)"
  shows "\<exists>s d v. handle_get_gpt E usb bio w = send_and_free E usb (gpt_frame s d) (ucast c + 8) True v
    \<and> sent v = sent w \<and> quiet w v \<and> length d = n
    \<and> (s, d) = (if n = 0 then (8, []) else case read_blocks E (trace u @ [ReadBlocks (MediaId media) 0 (ucast c)]) of
        (st, got) \<Rightarrow> if EFI_ERROR st then (2, replicate n 0) else (0, got))"
proof -
  let ?s = "if BlockSize media = 512 \<or> BlockSize media = 4096 then 0 else 8 :: u16"
  note cc = gpt_payload [of "BlockSize media", folded c_def n_def]
  have cs: "?s = 0 \<and> c \<noteq> 0 \<longleftrightarrow> n \<noteq> 0" "n = 0 \<longrightarrow> ?s = 8" by (simp_all add: n_def c_def gpt_bytes_def)
  have u: "sent u = sent w" "quiet w u" using uefi_alloc_quiet [OF al] by simp_all
  note head = handle_get_gpt_def bio Option.bind.simps Let_def c_def [symmetric] al
  have nz: "ucast c + 8 \<noteq> (0 :: u64)" using cc(2) by (metis add_is_0 unat_0 zero_neq_numeral)
  have lb: "length b = 8 + n" using uefi_alloc_length [OF al nz] cc(2) by simp
  note H = gpt_header [OF lb]
  obtain b1 where b1: "memset b 0 0 (8 + n) = Some b1" "poke b1 0 (asc ''NOKT'') = Some (gpt_frame 0 (replicate n 0))"
    using H(1) by (auto simp: bind_eq_Some_conv)
  let ?v = "emit (ReadBlocks (MediaId media) 0 (ucast c)) u"
  obtain st got where g: "read_blocks E (trace u @ [ReadBlocks (MediaId media) 0 (ucast c)]) = (st, got)"
    by (cases "read_blocks E (trace u @ [ReadBlocks (MediaId media) 0 (ucast c)])")
  have unc: "unat (ucast c :: u64) = n" using cc(1) by (simp only: unat_ucast_32_64)
  have got: "length got \<le> n" "\<not> EFI_ERROR st \<Longrightarrow> length got = n"
    using con g unc unfolding read_contract_def by metis+
  define x where "x = (if n = 0 then (?s, replicate n 0, u)
     else if EFI_ERROR st then (2, replicate n 0, ?v) else (0, got, ?v))"
  have x: "(if ?s = 0 \<and> c \<noteq> 0 then do {
             let ((st, got), w) = ReadBlocks_call E (MediaId media) 0 (ucast c) u;
             resp \<leftarrow> poke (gpt_frame 0 (replicate n 0)) 8 got;
             if EFI_ERROR st then do {
               resp \<leftarrow> memset resp 8 0 (unat c);
               Some (2, resp, w) }
             else Some (?s, resp, w) }
           else Some (?s, gpt_frame 0 (replicate n 0), u)) = Some (case x of (s, d, v) \<Rightarrow> (s, gpt_frame 0 d, v))"
  proof (cases "n = 0")
    case True
    then show ?thesis using cs(1) by (simp only: x_def if_True if_False simp_thms prod.case)
  next
    case False
    have call: "ReadBlocks_call E (MediaId media) 0 (ucast c) u = ((st, got), ?v)"
      using g by (simp only: ReadBlocks_call_def Let_def emit_simps)
    have "?s = 0" using cs(1) False by blast
    then show ?thesis unfolding call cc(1) using False cs(1) H(3) [OF got(1)] H(4) got
      by (simp add: x_def)
  qed
  obtain s d v where sdv: "x = (s, d, v)" by (cases x)
  have v: "sent v = sent w" "quiet w v" using sdv u by (auto simp: x_def split: if_splits)
  have d: "length d = n" using sdv got by (auto simp: x_def split: if_splits)
  have sd: "(s, d) = (if n = 0 then (8, []) else case read_blocks E (trace u @ [ReadBlocks (MediaId media) 0 (ucast c)]) of
        (st, got) \<Rightarrow> if EFI_ERROR st then (2, replicate n 0) else (0, got))"
    using sdv cs(2) g by (auto simp: x_def split: if_splits)
  have "handle_get_gpt E usb bio w = send_and_free E usb (gpt_frame s d) (ucast c + 8) True v"
    unfolding head option.case prod.case cc(2) b1 Option.bind.simps x [unfolded Let_def] sdv H(2) [OF d]
    by (rule refl)
  then show ?thesis using v d sd by blast
qed

lemma get_gpt_post:
  assumes ok: "usb_ok usb" and bio: "Media bio = Some media" and con: "read_contract E"
  shows "\<exists>m. answers usb m w (handle_get_gpt E usb bio w)"
proof -
  let ?c = "(if BlockSize media = 512 then 34 else if BlockSize media = 4096 then 6 else 0) * BlockSize media"
  obtain p u where a: "uefi_alloc E (ucast ?c + 8) w = (p, u)" by fastforce
  have u: "sent u = sent w" "quiet w u" using uefi_alloc_quiet [OF a] by simp_all
  show ?thesis
  proof (cases p)
    case None
    then have "handle_get_gpt E usb bio w = Some (Returns (EFI_OUT_OF_RESOURCES, usb, u))"
      unfolding handle_get_gpt_def bio Option.bind.simps Let_def a by simp
    then show ?thesis using answers_silent [OF ok u] by metis
  next
    case (Some b)
    obtain s d v where r: "handle_get_gpt E usb bio w = send_and_free E usb (gpt_frame s d) (ucast ?c + 8) True v"
        "sent v = sent w" "quiet w v" "length d = gpt_bytes (BlockSize media)"
      using get_gpt_sends [OF bio con refl refl a [unfolded Some], of usb] by blast
    note c = gpt_payload [of "BlockSize media"]
    have "delivers usb_ok usb_keep usb (usb.message usb (gpt_frame s d) (ucast ?c + 8)) v (handle_get_gpt E usb bio w)"
      unfolding r(1) by (rule free_delivers [OF ok]) (simp add: c(2) gpt_frame_def r(4))
    then have "delivers usb_ok usb_keep usb (usb.message usb (gpt_frame s d) (ucast ?c + 8)) w (handle_get_gpt E usb bio w)"
      using r(2,3) by (rule delivers_send)
    then show ?thesis unfolding answers_def by (metis usb.message_def)
  qed
qed

text \<open>The status and the data, when the request comes after the history \<open>h\<close> and memory does not run
  out.\<close>

definition gpt_reply :: "env \<Rightarrow> EFI_BLOCK_IO_MEDIA \<Rightarrow> event list \<Rightarrow> u16 \<times> bytes" where
  "gpt_reply E media h = (let n = gpt_bytes (BlockSize media) in
     if n = 0 then (8, [])
     else case read_blocks E (h @ [AllocatePool (of_nat n + 8), ReadBlocks (MediaId media) 0 (of_nat n)]) of
       (st, d) \<Rightarrow> if EFI_ERROR st then (2, replicate n 0) else (0, d))"

lemma get_gpt_exact:
  assumes ok: "usb_ok usb" and bio: "Media bio = Some media" and con: "read_contract E" and mem: "memory_ok E"
  shows "replies usb (gpt_frame (fst (gpt_reply E media (trace w))) (snd (gpt_reply E media (trace w)))) w
    (handle_get_gpt E usb bio w)"
proof -
  define n where "n = gpt_bytes (BlockSize media)"
  define c where "c = (if BlockSize media = 512 then 34 else if BlockSize media = 4096 then 6 else 0) * BlockSize media"
  note cc = gpt_payload [of "BlockSize media", folded c_def n_def]
  have "ucast c + 8 \<noteq> (0 :: u64)" using cc(2) by (metis add_is_0 unat_0 zero_neq_numeral)
  from alloc_zeros [OF mem this, of w]
  have a: "uefi_alloc E (ucast c + 8) w = (Some (replicate (8 + n) 0), emit (AllocatePool (ucast c + 8)) w)"
    unfolding cc(2) .
  obtain s d v where r: "handle_get_gpt E usb bio w = send_and_free E usb (gpt_frame s d) (ucast c + 8) True v"
      "sent v = sent w" "quiet w v" "length d = n" "(s, d) = gpt_reply E media (trace w)"
  using get_gpt_sends [OF bio con n_def c_def a, of usb] by (auto simp: gpt_reply_def cc(3) Let_def n_def [symmetric])
  have n: "of_nat (length (gpt_frame s d)) = (ucast c + 8 :: u64)"
  proof -
    have "length (gpt_frame s d) = unat (ucast c + 8 :: u64)" by (simp add: cc(2) gpt_frame_def r(4))
    then show ?thesis by simp
  qed
  have "delivers usb_ok usb_keep usb (usb.message usb (gpt_frame s d) (ucast c + 8)) v (handle_get_gpt E usb bio w)"
    unfolding r(1) by (rule free_delivers [OF ok]) (simp add: cc(2) gpt_frame_def r(4))
  moreover have "take (unat (ucast c + 8 :: u64)) (gpt_frame s d) = gpt_frame s d"
    by (simp add: cc(2) gpt_frame_def r(4))
  ultimately have "replies usb (gpt_frame s d) v (handle_get_gpt E usb bio w)"
    by (simp only: replies_def n usb.message_def)
  then show ?thesis using replies_from [OF _ r(2,3)] by (simp add: r(5) [symmetric])
qed

section \<open>Legacy flashing\<close>

text \<open>The write that a legacy flash message asks for: the reference the handler is compared
  with. Nothing is written unless the data is in the message and the blocks on the device.\<close>

definition legacy_write :: "EFI_BLOCK_IO_MEDIA \<Rightarrow> bytes \<Rightarrow> nat \<Rightarrow> (u64 \<times> bytes) option" where
  "legacy_write media msg n = (if n < 64 \<or> msg ! 25 = 1 then None else do {
     start \<leftarrow> rd_be32 (drop 11 msg);
     count \<leftarrow> rd_be32 (drop 15 msg);
     let len = unat count * unat (BlockSize media);
     if len = 0 \<or> n - 64 < len \<or> unat (LastBlock media) < unat start + unat count - 1 then None
     else Some (ucast start, take len (drop 64 msg)) })"

text \<open>The handler finishes with a response in a world whose disk differs by that write.\<close>

definition legacy_outcome ::
    "env \<Rightarrow> USB_TRANSPORT \<Rightarrow> (u64 \<times> bytes) list \<Rightarrow> world \<Rightarrow> send_result \<Rightarrow> bool" where
  "legacy_outcome E usb ws w r \<longleftrightarrow> (\<exists>s n sp v. r = send_legacy_flash_response E usb s n sp v
     \<and> sent v = sent w \<and> polls v = polls w \<and> disk_writes v = disk_writes w @ ws \<and> grew w v)"

lemma legacy_outcomeI: "legacy_outcome E usb [] w (send_legacy_flash_response E usb s n sp w)"
  unfolding legacy_outcome_def by (intro exI [of _ s] exI [of _ n] exI [of _ sp] exI [of _ w]) simp

lemma byte_count_unat:
  fixes c b :: u32
  shows "unat (ucast c * ucast b :: u64) = unat c * unat b"
proof -
  have "unat c * unat b < 4294967296 * 4294967296"
    using unat_u32_lt [of c] unat_u32_lt [of b] by (intro mult_strict_mono) simp_all
  then show ?thesis by (simp add: unat_mult_le)
qed

lemma legacy_flash_post:
  assumes len: "unat len \<le> length msg" and bio: "Media bio = Some media"
  shows "legacy_outcome E usb
    (if commit then (case legacy_write media msg (unat len) of None \<Rightarrow> [] | Some x \<Rightarrow> [x]) else []) w
    (handle_legacy_flash E usb bio msg len commit w)"
proof (cases "len < 26")
  case True
  then have "legacy_write media msg (unat len) = None" by (simp add: legacy_write_def word_less_nat_alt)
  then show ?thesis using True by (simp add: handle_legacy_flash_def legacy_outcomeI)
next
  case False
  then have l: "26 \<le> unat len" by (simp add: word_less_nat_alt)
  obtain a where a: "rd_be32 (drop 11 msg) = Some a" using be32.dec_drop_total [of 11 msg] l len by auto
  obtain c where c: "rd_be32 (drop 15 msg) = Some c" using be32.dec_drop_total [of 15 msg] l len by auto
  have p: "peek msg 25 = Some (msg ! 25)" using l len by (simp add: peek_def)
  let ?b = "ucast c * ucast (BlockSize media) :: u64"
  note b = byte_count_unat [of c "BlockSize media"]
  have "unat (?b div ucast c) = unat (BlockSize media)" if "c \<noteq> 0"
    using that b by (simp add: unat_div_distrib unat_eq_0 flip: unat_gt_0)
  then have no_ovf: "\<not> (c \<noteq> 0 \<and> ?b div ucast c \<noteq> ucast (BlockSize media))"
    by (metis unat_ucast_32_64 word_unat_eq_iff)
  have sum: "unat (ucast a + ucast c - 1 :: u64) = unat a + unat c - 1" if "c \<noteq> 0"
  proof -
    have s: "unat (ucast a + ucast c :: u64) = unat a + unat c"
      by (subst unat_add_le) (use unat_u32_lt [of a] unat_u32_lt [of c] in auto)
    have "0 < unat c" using that by (simp add: unat_gt_0)
    then have "1 \<le> (ucast a + ucast c :: u64)" using s by (simp add: word_le_nat_alt)
    then show ?thesis using s by (simp add: word_le_sub_unat)
  qed
  have out: "LastBlock media < ucast a + ucast c - 1 \<longleftrightarrow> unat (LastBlock media) < unat a + unat c - 1" if "c \<noteq> 0"
    using sum [OF that] by (simp add: word_less_nat_alt)
  have len64: "len < 64 \<or> len - 64 < ?b \<longleftrightarrow> unat len < 64 \<or> unat len - 64 < unat c * unat (BlockSize media)"
    by (cases "len < 64") (auto simp: word_less_nat_alt b word_le_sub_unat word_le_nat_alt)
  have zero: "?b = 0 \<longleftrightarrow> unat c * unat (BlockSize media) = 0" by (simp only: b [symmetric] unat_eq_zero)
  let ?lw = "legacy_write media msg (unat len)"
  have lw: "?lw = (if unat len < 64 \<or> msg ! 25 = 1 \<or> unat c * unat (BlockSize media) = 0
      \<or> unat len - 64 < unat c * unat (BlockSize media) \<or> unat (LastBlock media) < unat a + unat c - 1 then None
      else Some (ucast a, take (unat c * unat (BlockSize media)) (drop 64 msg)))"
    by (simp add: legacy_write_def a c Let_def)
  note head = handle_legacy_flash_def if_not_P [OF False] a c p bio Option.bind.simps Let_def if_not_P [OF no_ovf]
  consider (no) "?lw = None \<or> \<not> commit" | (yes) d where "?lw = Some (ucast a, d)" commit
    using lw by (cases ?lw) (auto split: if_splits)
  then show ?thesis
  proof cases
    case no
    have "\<not> (commit \<and> ?b \<noteq> 0)" if "msg ! 25 \<noteq> 1" "\<not> (len < 64 \<or> len - 64 < ?b)"
        "\<not> (c \<noteq> 0 \<and> LastBlock media < ucast a + ucast c - 1)"
    proof
      assume h: "commit \<and> ?b \<noteq> 0"
      then have "c \<noteq> 0" by auto
      then have "\<not> unat (LastBlock media) < unat a + unat c - 1" using that(3) out by blast
      then show False using no that(1,2) h lw len64 zero by auto
    qed
    then show ?thesis unfolding head using no by (auto simp: legacy_outcomeI)
  next
    case yes
    then have y: "msg ! 25 \<noteq> 1" "\<not> (len < 64 \<or> len - 64 < ?b)"
        "\<not> (c \<noteq> 0 \<and> LastBlock media < ucast a + ucast c - 1)" "commit \<and> ?b \<noteq> 0"
        "d = take (unat c * unat (BlockSize media)) (drop 64 msg)" "unat len - 64 \<ge> unat c * unat (BlockSize media)" "64 \<le> unat len"
      using lw out len64 zero by (auto split: if_splits)
    have ld: "load msg 64 (unat ?b) = Some d" using y(5-7) len by (simp add: load_in b)
    let ?w = "emit (WriteBlocks (MediaId media) (ucast a) ?b d) w"
    let ?st = "write_blocks E (trace ?w)"
    have eq: "handle_legacy_flash E usb bio msg len commit w
       = (if EFI_ERROR ?st then send_legacy_flash_response E usb (status_from_efi ?st) c (ucast ?st) ?w
          else send_legacy_flash_response E usb 0 c 0 ?w)"
      unfolding head if_P [OF y(1)] if_not_P [OF y(2)] if_not_P [OF y(3)] if_P [OF y(4)] ld Option.bind.simps
        WriteBlocks_call_def prod.case by (rule refl)
    have "legacy_outcome E usb [(ucast a, d)] w (send_legacy_flash_response E usb s n sp ?w)" for s n sp
      unfolding legacy_outcome_def
      by (intro exI [of _ s] exI [of _ n] exI [of _ sp] exI [of _ ?w]) (simp add: disk_writes_def)
    then show ?thesis unfolding eq using yes by simp
  qed
qed

lemma legacy_outcome_replies:
  assumes "usb_ok usb" "legacy_outcome E usb ws w r"
  shows "\<exists>s n sp v. replies usb (legacy_frame s n sp) v r \<and> sent v = sent w \<and> disk_writes v = disk_writes w @ ws"
  using assms short_replies(5) unfolding legacy_outcome_def by blast

end
