(* ===== verification/Ffu_Plan.thy ===== *)
theory Ffu_Plan
  imports Ufp_Proto
begin

text \<open>
  The flashing plan of \<open>include/ffu.h\<close> and the growing arrays that hold its stores and write
  entries (\<open>append_store\<close>, \<open>append_entry\<close> of \<open>src/ffu.c\<close>). The lists \<open>stores\<close> and
  \<open>entries\<close> are the used parts of the two arrays; the capacities live in the parser, as in
  the C code, and a store past the capacity is undefined. The locale \<open>growable\<close> is what the
  parser needs of an append.
\<close>

section \<open>Data\<close>

record FFU_WRITE_ENTRY =
  payload_offset :: u64
  descriptor_offset :: u64
  byte_count :: u32
  block_count :: u32
  location_count :: u32
  store_index :: u32

record FFU_STORE =
  header_offset :: u64
  store_payload_base :: u64
  payload_size :: u64
  descriptor_base :: u64
  block_size :: u32
  descriptor_count :: u32
  entry_start :: u32
  store_entry_count :: u32

record FFU_PLAN =
  file_size :: u64
  header_size :: u64
  payload_base :: u64
  chunk_size :: u32
  security_catalog_size :: u32
  security_hash_size :: u32
  image_header_size :: u32
  manifest_length :: u32
  validation_descriptor_count :: u32
  store_count :: u32
  entry_count :: u32
  total_payload_bytes :: u64
  stores :: "FFU_STORE list"
  entries :: "FFU_WRITE_ENTRY list"

text \<open>\<open>memset(plan, 0, sizeof(*plan))\<close>.\<close>

definition zero_plan :: FFU_PLAN where
  "zero_plan = \<lparr>file_size = 0, header_size = 0, payload_base = 0, chunk_size = 0,
     security_catalog_size = 0, security_hash_size = 0, image_header_size = 0,
     manifest_length = 0, validation_descriptor_count = 0, store_count = 0, entry_count = 0,
     total_payload_bytes = 0, stores = [], entries = []\<rparr>"

text \<open>\<open>ffu_plan_free\<close>: both arrays are released (each only when it was allocated) and the plan
  is cleared.\<close>

definition ffu_plan_free :: "env \<Rightarrow> FFU_PLAN \<Rightarrow> world \<Rightarrow> FFU_PLAN \<times> world" where
  "ffu_plan_free E plan w =
     (let w = uefi_free E (stores plan \<noteq> []) w;
          w = uefi_free E (entries plan \<noteq> []) w
      in (zero_plan, w))"

section \<open>Growing arrays\<close>

definition push_store :: "FFU_STORE \<Rightarrow> FFU_PLAN \<Rightarrow> FFU_PLAN" where
  "push_store s plan = plan\<lparr>stores := stores plan @ [s], store_count := store_count plan + 1\<rparr>"

definition push_entry :: "FFU_WRITE_ENTRY \<Rightarrow> FFU_PLAN \<Rightarrow> FFU_PLAN" where
  "push_entry e plan = plan\<lparr>entries := entries plan @ [e], entry_count := entry_count plan + 1\<rparr>"

definition append_store ::
    "env \<Rightarrow> FFU_PLAN \<Rightarrow> u32 \<Rightarrow> FFU_STORE \<Rightarrow> world \<Rightarrow> (EFI_STATUS \<times> FFU_PLAN \<times> u32 \<times> world) option" where
  "append_store E plan cap store w =
     (if cap \<le> store_count plan then
        let new_cap = (if cap \<noteq> 0 then cap * 2 else 2)
        in case uefi_alloc E (ucast new_cap * 48) w of
             (None, w) \<Rightarrow> Some (EFI_OUT_OF_RESOURCES, plan, cap, w)
           | (Some next, w) \<Rightarrow>
               if store_count plan < new_cap
               then Some (EFI_SUCCESS, push_store store plan, new_cap, uefi_free E (cap \<noteq> 0) w)
               else None
      else Some (EFI_SUCCESS, push_store store plan, cap, w))"

definition append_entry ::
    "env \<Rightarrow> FFU_PLAN \<Rightarrow> u32 \<Rightarrow> FFU_WRITE_ENTRY \<Rightarrow> world \<Rightarrow> (EFI_STATUS \<times> FFU_PLAN \<times> u32 \<times> world) option" where
  "append_entry E plan cap entry w =
     (if cap \<le> entry_count plan then
        let new_cap = (if cap \<noteq> 0 then cap * 2 else 64)
        in case uefi_alloc E (ucast new_cap * 32) w of
             (None, w) \<Rightarrow> Some (EFI_OUT_OF_RESOURCES, plan, cap, w)
           | (Some next, w) \<Rightarrow>
               if entry_count plan < new_cap
               then Some (EFI_SUCCESS, push_entry entry plan, new_cap, uefi_free E (cap \<noteq> 0) w)
               else None
      else Some (EFI_SUCCESS, push_entry entry plan, cap, w))"

text \<open>
  The contract of a growing array: as long as fewer than \<open>2\<^sup>31\<close> elements are in use, an append
  never stores outside the array; it either appends the element, keeping the array within its
  capacity, or reports that memory is exhausted and changes nothing.
\<close>

locale growable =
  fixes append :: "'p \<Rightarrow> u32 \<Rightarrow> 'x \<Rightarrow> world \<Rightarrow> (EFI_STATUS \<times> 'p \<times> u32 \<times> world) option"
    and push :: "'x \<Rightarrow> 'p \<Rightarrow> 'p"
    and count :: "'p \<Rightarrow> u32" and elems :: "'p \<Rightarrow> 'x list"
  assumes elems_push: "elems (push x p) = elems p @ [x]"
    and count_push: "count (push x p) = count p + 1"
    and append_cases: "count p \<le> cap \<Longrightarrow> unat (count p) < 2 ^ 31 \<Longrightarrow>
      (\<exists>cap' w'. append p cap x w = Some (EFI_SUCCESS, push x p, cap', w')
         \<and> count p < cap' \<and> disk_writes w' = disk_writes w \<and> polls w' = polls w \<and> grew w w')
      \<or> (\<exists>w'. append p cap x w = Some (EFI_OUT_OF_RESOURCES, p, cap, w')
         \<and> disk_writes w' = disk_writes w \<and> polls w' = polls w \<and> grew w w')"
begin

definition fits :: "'p \<Rightarrow> u32 \<Rightarrow> bool" where
  "fits p cap \<longleftrightarrow> length (elems p) = unat (count p) \<and> count p \<le> cap"

lemma fits_count: "fits p cap \<Longrightarrow> length (elems p) = unat (count p)"
  by (simp add: fits_def)

lemma append_fits:
  assumes f: "fits p cap" and n: "unat (count p) < 2 ^ 31"
  shows "(\<exists>cap' w'. append p cap x w = Some (EFI_SUCCESS, push x p, cap', w')
            \<and> fits (push x p) cap' \<and> disk_writes w' = disk_writes w \<and> polls w' = polls w \<and> grew w w')
       \<or> (\<exists>w'. append p cap x w = Some (EFI_OUT_OF_RESOURCES, p, cap, w')
            \<and> disk_writes w' = disk_writes w \<and> polls w' = polls w \<and> grew w w')"
proof -
  have "unat (count p + 1) = unat (count p) + 1"
    using n by (simp add: unat_add_le)
  then have "fits (push x p) cap'" if "count p < cap'" for cap'
    using f that by (simp add: fits_def elems_push count_push word_le_nat_alt word_less_nat_alt)
  then show ?thesis
    using append_cases [of p cap x w] f n by (auto simp: fits_def)
qed

lemma append_defined:
  assumes "fits p cap" "unat (count p) < 2 ^ 31"
  shows "append p cap x w \<noteq> None"
  using append_fits [OF assms, of x w] by auto

end

lemma double_cap:
  fixes cap c :: u32
  assumes "c \<le> cap" "cap \<le> c" "unat c < 2 ^ 31" "cap \<noteq> 0"
  shows "c < cap * 2"
proof -
  have "cap = c" using assms by simp
  moreover have "unat (c * 2) = unat c * 2" using assms(3) by (simp add: unat_mult_le)
  moreover have "0 < unat c" using \<open>cap = c\<close> assms(4) by (simp add: unat_gt_0)
  ultimately show ?thesis by (simp add: word_less_nat_alt)
qed

lemma small_cap: "(c :: u32) \<le> 0 \<Longrightarrow> 0 < (n :: u32) \<Longrightarrow> c < n"
  by simp

interpretation store_array: growable "append_store E" push_store store_count stores for E
proof
  fix p :: FFU_PLAN and cap x w
  assume c: "store_count p \<le> cap" "unat (store_count p) < 2 ^ 31"
  obtain b w' where a: "uefi_alloc E (ucast (if cap \<noteq> 0 then cap * 2 else 2) * 48) w = (b, w')"
    by force
  have "store_count p < (if cap \<noteq> 0 then cap * 2 else 2)" if "cap \<le> store_count p"
    using double_cap [OF c(1) that c(2)] c by auto
  then show "(\<exists>cap' w'. append_store E p cap x w = Some (EFI_SUCCESS, push_store x p, cap', w')
         \<and> store_count p < cap' \<and> disk_writes w' = disk_writes w \<and> polls w' = polls w \<and> grew w w')
      \<or> (\<exists>w'. append_store E p cap x w = Some (EFI_OUT_OF_RESOURCES, p, cap, w')
         \<and> disk_writes w' = disk_writes w \<and> polls w' = polls w \<and> grew w w')"
    using a by (cases b) (auto simp: append_store_def Let_def not_le uefi_free_def
        disk_writes_alloc [OF a] uefi_alloc_polls [OF a] grew_alloc [OF a grew_refl])
qed (simp_all add: push_store_def)

interpretation entry_array: growable "append_entry E" push_entry entry_count entries for E
proof
  fix p :: FFU_PLAN and cap x w
  assume c: "entry_count p \<le> cap" "unat (entry_count p) < 2 ^ 31"
  obtain b w' where a: "uefi_alloc E (ucast (if cap \<noteq> 0 then cap * 2 else 64) * 32) w = (b, w')"
    by force
  have "entry_count p < (if cap \<noteq> 0 then cap * 2 else 64)" if "cap \<le> entry_count p"
    using double_cap [OF c(1) that c(2)] c by auto
  then show "(\<exists>cap' w'. append_entry E p cap x w = Some (EFI_SUCCESS, push_entry x p, cap', w')
         \<and> entry_count p < cap' \<and> disk_writes w' = disk_writes w \<and> polls w' = polls w \<and> grew w w')
      \<or> (\<exists>w'. append_entry E p cap x w = Some (EFI_OUT_OF_RESOURCES, p, cap, w')
         \<and> disk_writes w' = disk_writes w \<and> polls w' = polls w \<and> grew w w')"
    using a by (cases b) (auto simp: append_entry_def Let_def not_le uefi_free_def
        disk_writes_alloc [OF a] uefi_alloc_polls [OF a] grew_alloc [OF a grew_refl])
qed (simp_all add: push_entry_def)

end
