(* ===== verification/Ffu_Read.thy ===== *)
theory Ffu_Read
  imports Ffu_Plan
begin

text \<open>
  How \<open>src/ffu.c\<close> reads an image: \<open>mem_read_exact\<close> from a header held in memory, and
  \<open>file_seek\<close>, \<open>file_read_current\<close> and \<open>file_read_exact\<close> from an open file through the
  firmware. The locale \<open>exact_reader\<close> is the contract both meet: a read that lies inside
  the image delivers exactly its bytes, any other read reports an error.
\<close>

section \<open>Signatures\<close>

fun sig_eq :: "bytes \<Rightarrow> bytes \<Rightarrow> nat \<Rightarrow> bool option" where
  "sig_eq p s 0 = Some True"
| "sig_eq p s (Suc len) = do {
     a \<leftarrow> peek p 0;
     b \<leftarrow> peek s 0;
     if a \<noteq> b then Some False else sig_eq (drop 1 p) (drop 1 s) len }"

lemma sig_eq_in [mem_simps]:
  "n \<le> length p \<Longrightarrow> n \<le> length s \<Longrightarrow> sig_eq p s n = Some (take n p = take n s)"
proof (induction p s n rule: sig_eq.induct)
  case (1 p s)
  then show ?case by simp
next
  case (2 p s n)
  then obtain a p' b s' where "p = a # p'" "s = b # s'"
    by (cases p; cases s) auto
  with 2 show ?case by (simp add: peek_def)
qed

section \<open>Memory\<close>

definition mem_read_exact ::
    "bytes option \<Rightarrow> u64 \<Rightarrow> u64 \<Rightarrow> u64 \<Rightarrow> (EFI_STATUS \<times> bytes) option" where
  "mem_read_exact data sz offset len =
     (case data of None \<Rightarrow> Some (EFI_END_OF_FILE, [])
      | Some p \<Rightarrow>
          if sz < offset \<or> sz - offset < len then Some (EFI_END_OF_FILE, [])
          else do {
            b \<leftarrow> load p (unat offset) (unat len);
            Some (EFI_SUCCESS, b) })"

section \<open>Files\<close>

record UEFI_FILE_VIEW =
  file_open :: bool
  view_size :: u64

definition file_close :: "UEFI_FILE_VIEW \<Rightarrow> world \<Rightarrow> UEFI_FILE_VIEW \<times> world" where
  "file_close view w =
     (if file_open view then (view\<lparr>file_open := False, view_size := 0\<rparr>, emit FileClose w) else (view, w))"

definition file_seek :: "env \<Rightarrow> UEFI_FILE_VIEW \<Rightarrow> u64 \<Rightarrow> world \<Rightarrow> EFI_STATUS \<times> world" where
  "file_seek E view offset w =
     (if \<not> file_open view then (EFI_INVALID_PARAMETER, w)
      else let w = emit (FileSetPosition offset) w in (set_position E (trace w), w))"

definition file_read_current :: "env \<Rightarrow> UEFI_FILE_VIEW \<Rightarrow> u64 \<Rightarrow> world \<Rightarrow> EFI_STATUS \<times> bytes \<times> world" where
  "file_read_current E view len w =
     (if \<not> file_open view then (EFI_INVALID_PARAMETER, [], w)
      else let w = emit (FileRead len) w;
               (st, got) = file_read E (trace w)
           in if EFI_ERROR st then (st, got, w)
              else (if length got = unat len then EFI_SUCCESS else EFI_END_OF_FILE, got, w))"

definition file_read_exact ::
    "env \<Rightarrow> UEFI_FILE_VIEW \<Rightarrow> u64 \<Rightarrow> u64 \<Rightarrow> world \<Rightarrow> EFI_STATUS \<times> bytes \<times> world" where
  "file_read_exact E view offset len w =
     (let (st, w) = file_seek E view offset w
      in if EFI_ERROR st then (st, [], w) else file_read_current E view len w)"

text \<open>A delivered buffer always has the size that was asked for.\<close>

lemma file_read_exact_length:
  "file_read_exact E view off n w = (st, b, w') \<Longrightarrow> \<not> EFI_ERROR st \<Longrightarrow> length b = unat n"
  by (auto simp: file_read_exact_def file_read_current_def file_seek_def Let_def
      split: if_splits prod.splits)

lemma file_read_exact_frame:
  "file_read_exact E view off n w = (st, b, w')
    \<Longrightarrow> disk_writes w' = disk_writes w \<and> polls w' = polls w \<and> grew w w'"
  by (auto simp: file_read_exact_def file_read_current_def file_seek_def Let_def
      split: if_splits prod.splits)

text \<open>
  The UEFI contract of a file whose contents are \<open>d\<close>: \<open>SetPosition\<close> succeeds, and a
  \<open>Read\<close> after it delivers the bytes from that position on, at most up to the end of the
  file; a read that starts beyond the end fails.
\<close>

definition file_backed :: "env \<Rightarrow> bytes \<Rightarrow> bool" where
  "file_backed E d \<longleftrightarrow>
     (\<forall>t off. set_position E (t @ [FileSetPosition off]) = EFI_SUCCESS) \<and>
     (\<forall>t off n. file_read E (t @ [FileSetPosition off, FileRead n]) =
        (if unat off \<le> length d then (EFI_SUCCESS, take (unat n) (drop (unat off) d))
         else (EFIERR 7, [])))"

section \<open>The contract of an exact reader\<close>

locale exact_reader =
  fixes read :: "'s \<Rightarrow> u64 \<Rightarrow> u64 \<Rightarrow> (EFI_STATUS \<times> bytes \<times> 's) option"
    and contents :: "'s \<Rightarrow> bytes" and ok :: "'s \<Rightarrow> bool"
  assumes read_in: "ok s \<Longrightarrow> unat off + unat n \<le> length (contents s) \<Longrightarrow>
      \<exists>s'. read s off n = Some (EFI_SUCCESS, take (unat n) (drop (unat off) (contents s)), s')
         \<and> ok s' \<and> contents s' = contents s"
    and read_out: "ok s \<Longrightarrow> \<not> unat off + unat n \<le> length (contents s) \<Longrightarrow>
      \<exists>st b s'. read s off n = Some (st, b, s') \<and> EFI_ERROR st \<and> ok s' \<and> contents s' = contents s"
begin

lemma read_defined: "ok s \<Longrightarrow> read s off n \<noteq> None"
  by (cases "unat off + unat n \<le> length (contents s)") (auto dest: read_in read_out)

lemma read_success_iff:
  assumes "ok s" "read s off n = Some (st, b, s')"
  shows "\<not> EFI_ERROR st \<longleftrightarrow> unat off + unat n \<le> length (contents s)"
    and "\<not> EFI_ERROR st \<Longrightarrow> b = take (unat n) (drop (unat off) (contents s))"
    and "ok s'" "contents s' = contents s"
  using read_in [OF assms(1), of off n] read_out [OF assms(1), of off n] assms(2)
  by (cases "unat off + unat n \<le> length (contents s)"; auto)+

text \<open>Successive reads are independent: the bytes that an earlier read delivered do not
  depend on the reads in between.\<close>

lemma read_stable:
  assumes "ok s" "read s off n = Some (st, b, s1)" "read s1 off' n' = Some (st', b', s2)"
    and "\<not> EFI_ERROR st"
  shows "\<exists>s3. read s2 off n = Some (EFI_SUCCESS, b, s3)"
proof -
  note r1 = read_success_iff [OF assms(1,2)]
  note r2 = read_success_iff [OF r1(3) assms(3)]
  have "unat off + unat n \<le> length (contents s2)" "b = take (unat n) (drop (unat off) (contents s2))"
    using r1 r2 assms(4) by simp_all
  then show ?thesis using read_in [OF r2(3), of off n] by auto
qed

end

definition mem_read :: "bytes \<times> u64 \<Rightarrow> u64 \<Rightarrow> u64 \<Rightarrow> (EFI_STATUS \<times> bytes \<times> bytes \<times> u64) option" where
  "mem_read h off n =
     map_option (\<lambda>(st, b). (st, b, h)) (mem_read_exact (Some (fst h)) (snd h) off n)"

lemma mem_in_range:
  fixes sz off n :: u64
  shows "sz < off \<or> sz - off < n \<longleftrightarrow> \<not> unat off + unat n \<le> unat sz"
proof (cases "sz < off")
  case True
  then show ?thesis by (simp add: word_less_nat_alt)
next
  case False
  then have "unat (sz - off) = unat sz - unat off" by (simp add: word_le_sub_unat)
  then show ?thesis using False by (auto simp: word_less_nat_alt)
qed

lemma mem_read_exact_in:
  assumes "unat sz \<le> length p"
  shows "mem_read_exact (Some p) sz off n =
    (if unat off + unat n \<le> unat sz then Some (EFI_SUCCESS, take (unat n) (drop (unat off) p))
     else Some (EFI_END_OF_FILE, []))"
  using assms mem_in_range [of sz off n] by (auto simp: mem_read_exact_def load_def)

interpretation mem: exact_reader mem_read "\<lambda>h. take (unat (snd h)) (fst h)"
  "\<lambda>h. unat (snd h) \<le> length (fst h)"
  by unfold_locales
    (auto simp: mem_read_def mem_read_exact_in drop_take min_absorb1 split: if_splits)

lemma file_backed_read:
  assumes "file_backed E d" "file_open view"
  shows "file_read_exact E view off n w =
    (if unat off + unat n \<le> length d
     then (EFI_SUCCESS, take (unat n) (drop (unat off) d), emit (FileRead n) (emit (FileSetPosition off) w))
     else (if unat off \<le> length d then EFI_END_OF_FILE else EFIERR 7,
           if unat off \<le> length d then drop (unat off) d else [],
           emit (FileRead n) (emit (FileSetPosition off) w)))"
  using assms
  by (auto simp: file_read_exact_def file_seek_def file_read_current_def file_backed_def Let_def
      EFI_ERROR_def EFIERR_def EFI_ERROR_BIT_def efi_codes)

interpretation file_rd: exact_reader
  "\<lambda>s off n. case file_read_exact E (fst s) off n (snd s) of (st, b, w) \<Rightarrow> Some (st, b, (fst s, w))"
  "\<lambda>s. d" "\<lambda>s. file_open (fst s) \<and> file_backed E d" for E d
  by unfold_locales (auto simp: file_backed_read EFI_ERROR_iff_bit EFIERR_def EFI_ERROR_BIT_def
      EFI_END_OF_FILE_def)

end
