(* ===== verification/Ffu_Parse.thy ===== *)
theory Ffu_Parse
  imports Ffu_Read
begin

text \<open>
  The two image parsers of \<open>src/ffu.c\<close>: \<open>ffu_parse_header_bytes\<close> on a header in memory and
  \<open>ffu_parse\<close> on a file. The local variables that live across the sections of the C
  functions are the record \<open>pstate\<close>; a section returns \<open>Inl\<close> for an early return of the C
  function (with the status) and \<open>Inr\<close> to go on. The text that both C functions share word
  for word (the checks on a header that has been read, and the placement of the payload) is
  one definition here.
\<close>

section \<open>Parser state\<close>

record pstate =
  ps_plan :: FFU_PLAN
  ps_store_cap :: u32
  ps_entry_cap :: u32
  ps_cursor :: u64
  ps_desired :: u32
  ps_world :: world

type_synonym presult = "((EFI_STATUS \<times> pstate) + pstate) option"

definition FFU_SECURITY_HEADER_SIZE :: u64 where "FFU_SECURITY_HEADER_SIZE = 32"
definition FFU_IMAGE_HEADER_V1_SIZE :: u64 where "FFU_IMAGE_HEADER_V1_SIZE = 24"
definition FFU_IMAGE_HEADER_V2_SIZE :: u64 where "FFU_IMAGE_HEADER_V2_SIZE = 28"
definition FFU_STORE_HEADER_V1_SIZE :: u64 where "FFU_STORE_HEADER_V1_SIZE = 248"
definition FFU_STORE_HEADER_V2_BASE_SIZE :: u64 where "FFU_STORE_HEADER_V2_BASE_SIZE = 262"

lemmas ffu_size_defs = FFU_SECURITY_HEADER_SIZE_def FFU_IMAGE_HEADER_V1_SIZE_def
  FFU_IMAGE_HEADER_V2_SIZE_def FFU_STORE_HEADER_V1_SIZE_def FFU_STORE_HEADER_V2_BASE_SIZE_def

section \<open>Checks on headers that have been read\<close>

text \<open>The security header: signature, algorithm, sizes, and the cursor behind the hash table.\<close>

definition check_security :: "bytes \<Rightarrow> pstate \<Rightarrow> presult" where
  "check_security sec ps = do {
     n \<leftarrow> rd_le32 sec;
     sig \<leftarrow> andM (Some (n = 32)) (sig_eq (drop 4 sec) (asc ''SignedImage '') 12);
     if \<not> sig then Some (Inl (EFI_VOLUME_CORRUPTED, ps))
     else do {
       alg \<leftarrow> rd_le32 (drop 20 sec);
       if alg \<noteq> 0x800c then Some (Inl (EFI_UNSUPPORTED, ps))
       else do {
         kb \<leftarrow> rd_le32 (drop 16 sec);
         cat \<leftarrow> rd_le32 (drop 24 sec);
         hash \<leftarrow> rd_le32 (drop 28 sec);
         let chunk = push_bit 10 kb;
         let plan = (ps_plan ps)\<lparr>chunk_size := chunk, security_catalog_size := cat,
                                  security_hash_size := hash\<rparr>;
         if chunk = 0 \<or> cat = 0 \<or> hash = 0 \<or> hash AND 31 \<noteq> 0
         then Some (Inl (EFI_VOLUME_CORRUPTED, ps\<lparr>ps_plan := plan\<rparr>))
         else Some (Inr (ps\<lparr>ps_plan := plan,
                ps_cursor := align_up_u64 (FFU_SECURITY_HEADER_SIZE + ucast cat + ucast hash) (ucast chunk)\<rparr>))
       } } }"

text \<open>The image header: its size and signature, then (with the version-2 tail, if any) the
  manifest length and the number of validation descriptors. The two 32-bit lengths are added
  in 32 bits before they move the cursor.\<close>

definition check_image_sig :: "bytes \<Rightarrow> pstate \<Rightarrow> presult" where
  "check_image_sig img ps = do {
     n \<leftarrow> rd_le32 img;
     let ps = ps\<lparr>ps_plan := (ps_plan ps)\<lparr>image_header_size := n\<rparr>\<rparr>;
     sig \<leftarrow> andM (Some (n = 24 \<or> n = 28)) (sig_eq (drop 4 img) (asc ''ImageFlash  '') 12);
     if \<not> sig then Some (Inl (EFI_VOLUME_CORRUPTED, ps)) else Some (Inr ps) }"

definition check_image_body :: "bytes \<Rightarrow> pstate \<Rightarrow> presult" where
  "check_image_body img ps = do {
     m \<leftarrow> rd_le32 (drop 16 img);
     let plan = (ps_plan ps)\<lparr>manifest_length := m\<rparr>;
     t \<leftarrow> rd_le32 (drop 20 img);
     if m = 0 \<or> t = 0 then Some (Inl (EFI_VOLUME_CORRUPTED, ps\<lparr>ps_plan := plan\<rparr>))
     else do {
       v \<leftarrow> (if image_header_size plan = 28 then rd_le32 (drop 24 img) else Some 0);
       let plan = plan\<lparr>validation_descriptor_count := v\<rparr>;
       Some (Inr (ps\<lparr>ps_plan := plan,
         ps_cursor := ps_cursor ps + ucast (image_header_size plan + manifest_length plan)\<rparr>)) } }"

text \<open>The seven lengths of a validation descriptor.\<close>

fun vd_skip :: "bytes \<Rightarrow> nat \<Rightarrow> u64 \<Rightarrow> u64 option" where
  "vd_skip vd 0 skip = Some skip"
| "vd_skip vd (Suc n) skip = do { x \<leftarrow> rd_le32 vd; vd_skip (drop 4 vd) n (skip + ucast x) }"

text \<open>The store header: its constant fields, and the block size and descriptor count.\<close>

definition check_store_header :: "bytes \<Rightarrow> (EFI_STATUS + u32 \<times> u32) option" where
  "check_store_header sh = do {
     a \<leftarrow> rd_le32 sh;
     b \<leftarrow> rd_le16 (drop 8 sh);
     c \<leftarrow> rd_le16 (drop 10 sh);
     if a \<noteq> 0 \<or> b \<noteq> 2 \<or> c \<noteq> 0 then Some (Inl EFI_VOLUME_CORRUPTED)
     else do {
       bs \<leftarrow> rd_le32 (drop 204 sh);
       dc \<leftarrow> rd_le32 (drop 208 sh);
       if bs = 0 \<or> UFP_MAX_PAYLOAD_DATA < bs \<or> dc = 0 then Some (Inl EFI_VOLUME_CORRUPTED)
       else Some (Inr (bs, dc)) } }"

text \<open>One write descriptor: the entry built from the two counts at the descriptor cursor.\<close>

definition make_entry :: "u64 \<Rightarrow> u64 \<Rightarrow> u64 \<Rightarrow> u32 \<Rightarrow> u32 \<Rightarrow> u32 \<Rightarrow> FFU_WRITE_ENTRY" where
  "make_entry rel_payload descriptor_cursor bytes blocks locs index =
     \<lparr>payload_offset = rel_payload, descriptor_offset = descriptor_cursor,
      byte_count = ucast bytes, block_count = blocks, location_count = locs,
      store_index = index\<rparr>"

text \<open>The finished store record, with the payload size taken from the descriptors when the
  header did not give one.\<close>

definition make_store :: "u64 \<Rightarrow> u64 \<Rightarrow> u64 \<Rightarrow> u32 \<Rightarrow> u32 \<Rightarrow> u32 \<Rightarrow> u64 \<Rightarrow> FFU_STORE" where
  "make_store hdr_off desc_base psize bs dc start rel_payload =
     \<lparr>header_offset = hdr_off, store_payload_base = 0,
      payload_size = (if psize = 0 then rel_payload else psize), descriptor_base = desc_base,
      block_size = bs, descriptor_count = dc, entry_start = start, store_entry_count = dc\<rparr>"

section \<open>Placing the payload\<close>

fun place_entries :: "nat \<Rightarrow> u32 \<Rightarrow> u64 \<Rightarrow> FFU_PLAN \<Rightarrow> FFU_PLAN option" where
  "place_entries 0 i payload_cursor plan = Some plan"
| "place_entries (Suc n) i payload_cursor plan = do {
     e \<leftarrow> peek (entries plan) (unat i);
     let plan = plan\<lparr>entries := (entries plan)[unat i := e\<lparr>payload_offset := payload_offset e + payload_cursor\<rparr>],
                     total_payload_bytes := total_payload_bytes plan + ucast (byte_count e)\<rparr>;
     place_entries n (i + 1) payload_cursor plan }"

fun place_stores :: "nat \<Rightarrow> nat \<Rightarrow> u64 \<Rightarrow> FFU_PLAN \<Rightarrow> FFU_PLAN option" where
  "place_stores 0 s payload_cursor plan = Some plan"
| "place_stores (Suc n) s payload_cursor plan = do {
     store \<leftarrow> peek (stores plan) s;
     let pc = align_up_u64 payload_cursor (ucast (block_size store));
     let plan = plan\<lparr>stores := (stores plan)[s := store\<lparr>store_payload_base := pc\<rparr>]\<rparr>;
     let plan = (if payload_base plan = 0 then plan\<lparr>payload_base := pc\<rparr> else plan);
     plan \<leftarrow> place_entries (unat (store_entry_count store)) (entry_start store) pc plan;
     place_stores n (Suc s) (pc + payload_size store) plan }"

text \<open>The end of both parsers; they differ only in the status of an image that is too short.\<close>

definition finish_plan :: "EFI_STATUS \<Rightarrow> u64 \<Rightarrow> pstate \<Rightarrow> (EFI_STATUS \<times> FFU_PLAN \<times> world) option" where
  "finish_plan short sz ps = do {
     plan \<leftarrow> place_stores (unat (store_count (ps_plan ps))) 0 (ps_cursor ps) (ps_plan ps);
     let plan = plan\<lparr>header_size := payload_base plan\<rparr>;
     if header_size plan = 0 \<or> sz < header_size plan then Some (short, plan, ps_world ps)
     else Some (EFI_SUCCESS, plan, ps_world ps) }"

section \<open>A header in memory\<close>

definition hdr_security :: "bytes \<Rightarrow> u64 \<Rightarrow> pstate \<Rightarrow> presult" where
  "hdr_security data sz ps =
     (if sz < FFU_SECURITY_HEADER_SIZE then Some (Inl (EFI_END_OF_FILE, ps))
      else do {
        (st, sec) \<leftarrow> mem_read_exact (Some data) sz 0 FFU_SECURITY_HEADER_SIZE;
        if EFI_ERROR st then Some (Inl (st, ps)) else check_security sec ps })"

definition hdr_image :: "bytes \<Rightarrow> u64 \<Rightarrow> pstate \<Rightarrow> presult" where
  "hdr_image data sz ps =
     (if sz < ps_cursor ps + FFU_IMAGE_HEADER_V1_SIZE then Some (Inl (EFI_END_OF_FILE, ps))
      else do {
        (st, img) \<leftarrow> mem_read_exact (Some data) sz (ps_cursor ps) FFU_IMAGE_HEADER_V1_SIZE;
        if EFI_ERROR st then Some (Inl (st, ps))
        else do {
          r \<leftarrow> check_image_sig img ps;
          case r of Inl e \<Rightarrow> Some (Inl e)
          | Inr ps \<Rightarrow> do {
              (st, tail) \<leftarrow> (if image_header_size (ps_plan ps) = 28
                 then mem_read_exact (Some data) sz (ps_cursor ps + FFU_IMAGE_HEADER_V1_SIZE) 4
                 else Some (EFI_SUCCESS, []));
              if EFI_ERROR st then Some (Inl (st, ps))
              else do {
                r \<leftarrow> check_image_body (img @ tail) ps;
                case r of Inl e \<Rightarrow> Some (Inl e)
                | Inr ps \<Rightarrow> if sz < ps_cursor ps then Some (Inl (EFI_END_OF_FILE, ps))
                            else Some (Inr ps) } } } })"

fun hdr_validation :: "bytes \<Rightarrow> u64 \<Rightarrow> nat \<Rightarrow> pstate \<Rightarrow> presult" where
  "hdr_validation data sz 0 ps = Some (Inr ps)"
| "hdr_validation data sz (Suc n) ps = do {
     (st, vd) \<leftarrow> mem_read_exact (Some data) sz (ps_cursor ps) 28;
     if EFI_ERROR st then Some (Inl (st, ps))
     else do {
       skip \<leftarrow> vd_skip vd 7 0;
       let ps = ps\<lparr>ps_cursor := ps_cursor ps + (28 + skip)\<rparr>;
       if sz < ps_cursor ps then Some (Inl (EFI_END_OF_FILE, ps))
       else hdr_validation data sz n ps } }"

text \<open>The version-2 tail of a store header: number of stores, payload size, device path.\<close>

definition hdr_store_v2 :: "bytes \<Rightarrow> u64 \<Rightarrow> pstate \<Rightarrow> ((EFI_STATUS \<times> pstate) + u64 \<times> pstate) option" where
  "hdr_store_v2 data sz ps = do {
     (st, tail) \<leftarrow> mem_read_exact (Some data) sz (ps_cursor ps)
        (FFU_STORE_HEADER_V2_BASE_SIZE - FFU_STORE_HEADER_V1_SIZE);
     if EFI_ERROR st then Some (Inl (st, ps))
     else do {
       desired \<leftarrow> rd_le16 tail;
       psize \<leftarrow> rd_le64 (drop 4 tail);
       dpl \<leftarrow> rd_le16 (drop 12 tail);
       let ps = ps\<lparr>ps_cursor := ps_cursor ps + (FFU_STORE_HEADER_V2_BASE_SIZE - FFU_STORE_HEADER_V1_SIZE),
                   ps_desired := ucast desired\<rparr>;
       if desired = 0 \<or> dpl = 0 then Some (Inl (EFI_VOLUME_CORRUPTED, ps))
       else let ps = ps\<lparr>ps_cursor := ps_cursor ps + ucast dpl * 2\<rparr>
            in if sz < ps_cursor ps then Some (Inl (EFI_END_OF_FILE, ps))
               else Some (Inr (psize, ps)) } }"

fun hdr_descriptors ::
    "env \<Rightarrow> bytes \<Rightarrow> u64 \<Rightarrow> u32 \<Rightarrow> u32 \<Rightarrow> nat \<Rightarrow> u64 \<Rightarrow> pstate
      \<Rightarrow> ((EFI_STATUS \<times> pstate) + u64 \<times> pstate) option" where
  "hdr_descriptors E data sz bs index 0 rel ps = Some (Inr (rel, ps))"
| "hdr_descriptors E data sz bs index (Suc n) rel ps = do {
     (st, wh) \<leftarrow> mem_read_exact (Some data) sz (ps_cursor ps) 8;
     if EFI_ERROR st then Some (Inl (st, ps))
     else do {
       locs \<leftarrow> rd_le32 wh;
       blocks \<leftarrow> rd_le32 (drop 4 wh);
       if locs = 0 \<or> blocks = 0 then Some (Inl (EFI_VOLUME_CORRUPTED, ps))
       else if sz < ps_cursor ps + 8 + ucast locs * 8 then Some (Inl (EFI_END_OF_FILE, ps))
       else let bytes = ucast bs * ucast blocks
       in if 0xffffffff < (bytes :: u64) then Some (Inl (EFI_UNSUPPORTED, ps))
       else do {
         (st, plan, cap, w) \<leftarrow> append_entry E (ps_plan ps) (ps_entry_cap ps)
            (make_entry rel (ps_cursor ps) bytes blocks locs index) (ps_world ps);
         let ps = ps\<lparr>ps_plan := plan, ps_entry_cap := cap, ps_world := w\<rparr>;
         if EFI_ERROR st then Some (Inl (st, ps))
         else hdr_descriptors E data sz bs index n (rel + bytes)
                (ps\<lparr>ps_cursor := ps_cursor ps + (8 + ucast locs * 8)\<rparr>) } } }"

definition hdr_store :: "env \<Rightarrow> bytes \<Rightarrow> u64 \<Rightarrow> pstate \<Rightarrow> presult" where
  "hdr_store E data sz ps = do {
     let index = store_count (ps_plan ps);
     let ps = ps\<lparr>ps_cursor := align_up_u64 (ps_cursor ps) (ucast (chunk_size (ps_plan ps)))\<rparr>;
     let hdr_off = ps_cursor ps;
     (st, sh) \<leftarrow> mem_read_exact (Some data) sz (ps_cursor ps) FFU_STORE_HEADER_V1_SIZE;
     if EFI_ERROR st then Some (Inl (st, ps))
     else do {
       let ps = ps\<lparr>ps_cursor := ps_cursor ps + FFU_STORE_HEADER_V1_SIZE\<rparr>;
       marker \<leftarrow> rd_le16 (drop 4 sh);
       r \<leftarrow> (if marker = 2 then hdr_store_v2 data sz ps else Some (Inr (0, ps)));
       case r of Inl e \<Rightarrow> Some (Inl e)
       | Inr (psize, ps) \<Rightarrow> do {
           c \<leftarrow> check_store_header sh;
           case c of Inl st \<Rightarrow> Some (Inl (st, ps))
           | Inr (bs, dc) \<Rightarrow> do {
               let start = entry_count (ps_plan ps);
               let base = ps_cursor ps;
               r \<leftarrow> hdr_descriptors E data sz bs index (unat dc) 0 ps;
               case r of Inl e \<Rightarrow> Some (Inl e)
               | Inr (rel, ps) \<Rightarrow> do {
                   (st, plan, cap, w) \<leftarrow> append_store E (ps_plan ps) (ps_store_cap ps)
                      (make_store hdr_off base psize bs dc start rel) (ps_world ps);
                   let ps = ps\<lparr>ps_plan := plan, ps_store_cap := cap, ps_world := w\<rparr>;
                   if EFI_ERROR st then Some (Inl (st, ps)) else Some (Inr ps) } } } } }"


text \<open>Each pass of the store loop adds exactly one store, so the loop ends: the count is below
  the desired count and cannot wrap.\<close>

lemma append_entry_result:
  "append_entry E p cap x w = Some (st, p', cap', w') \<Longrightarrow>
     st = EFI_SUCCESS \<and> p' = push_entry x p \<or> st = EFI_OUT_OF_RESOURCES \<and> p' = p"
  by (auto simp: append_entry_def Let_def split: if_splits prod.splits option.splits)

lemma append_store_result:
  "append_store E p cap x w = Some (st, p', cap', w') \<Longrightarrow>
     st = EFI_SUCCESS \<and> p' = push_store x p \<or> st = EFI_OUT_OF_RESOURCES \<and> p' = p"
  by (auto simp: append_store_def Let_def split: if_splits prod.splits option.splits)

lemma push_entry_stores [simp]:
  "stores (push_entry e p) = stores p" "store_count (push_entry e p) = store_count p"
  by (simp_all add: push_entry_def)

lemmas section_splits = Option.bind_splits if_splits sum.splits prod.splits

lemma hdr_store_v2_plan:
  "hdr_store_v2 data sz ps = Some (Inr (n, ps')) \<Longrightarrow> ps_plan ps' = ps_plan ps"
  by (auto simp: hdr_store_v2_def Let_def split: section_splits)

lemma hdr_descriptors_stores:
  "hdr_descriptors E data sz bs index n rel ps = Some (Inr (rel', ps'))
    \<Longrightarrow> stores (ps_plan ps') = stores (ps_plan ps) \<and> store_count (ps_plan ps') = store_count (ps_plan ps)"
proof (induction n arbitrary: rel ps)
  case 0
  then show ?case by simp
next
  case (Suc n)
  from Suc.prems show ?case
    by (auto simp: Let_def dest!: append_entry_result Suc.IH split: section_splits)
qed

lemma hdr_store_count:
  "hdr_store E data sz ps = Some (Inr ps') \<Longrightarrow> store_count (ps_plan ps') = store_count (ps_plan ps) + 1"
  by (auto simp: hdr_store_def Let_def push_store_def
      dest!: append_store_result hdr_store_v2_plan hdr_descriptors_stores split: section_splits)

lemma count_up:
  fixes c d :: u32
  assumes "c < d"
  shows "unat (c + 1) = unat c + 1" "4294967296 - unat (c + 1) < 4294967296 - unat c"
proof -
  have "unat c < unat d" using assms by (simp add: word_less_nat_alt)
  then have lt: "unat c + 1 < 4294967296" using unat_u32_lt [of d] by linarith
  then show eq: "unat (c + 1) = unat c + 1" using unat_add_le [of c 1] by simp
  show "4294967296 - unat (c + 1) < 4294967296 - unat c" unfolding eq using lt by linarith
qed

function hdr_stores :: "env \<Rightarrow> bytes \<Rightarrow> u64 \<Rightarrow> pstate \<Rightarrow> presult" where
  "hdr_stores E data sz ps =
     (if store_count (ps_plan ps) < ps_desired ps then
        (case hdr_store E data sz ps of
           None \<Rightarrow> None
         | Some (Inl e) \<Rightarrow> Some (Inl e)
         | Some (Inr ps) \<Rightarrow> hdr_stores E data sz ps)
      else Some (Inr ps))"
  by pat_completeness auto
termination
  by (relation "measure (\<lambda>(E, data, sz, ps). 4294967296 - unat (store_count (ps_plan ps)))")
    (simp_all only: in_measure case_prod_conv wf_measure hdr_store_count count_up(2))

declare hdr_stores.simps [simp del]

definition start_pstate :: "u64 \<Rightarrow> world \<Rightarrow> pstate" where
  "start_pstate sz w = \<lparr>ps_plan = zero_plan\<lparr>file_size := sz\<rparr>, ps_store_cap = 0, ps_entry_cap = 0,
     ps_cursor = 0, ps_desired = 1, ps_world = w\<rparr>"

text \<open>Running a section after another one that did not return early.\<close>

definition and_then :: "presult \<Rightarrow> (pstate \<Rightarrow> presult) \<Rightarrow> presult" where
  "and_then r f = (case r of None \<Rightarrow> None | Some (Inl e) \<Rightarrow> Some (Inl e) | Some (Inr ps) \<Rightarrow> f ps)"

definition hdr_sections :: "env \<Rightarrow> bytes \<Rightarrow> u64 \<Rightarrow> world \<Rightarrow> presult" where
  "hdr_sections E data sz w =
     and_then (and_then (and_then (hdr_security data sz (start_pstate sz w))
       (hdr_image data sz))
       (\<lambda>ps. hdr_validation data sz (unat (validation_descriptor_count (ps_plan ps))) ps))
       (hdr_stores E data sz)"

definition ffu_parse_header_bytes ::
    "env \<Rightarrow> bytes option \<Rightarrow> u64 \<Rightarrow> FFU_PLAN \<Rightarrow> world \<Rightarrow> (EFI_STATUS \<times> FFU_PLAN \<times> world) option" where
  "ffu_parse_header_bytes E data sz plan w =
     (case data of None \<Rightarrow> Some (EFI_INVALID_PARAMETER, plan, w)
      | Some data \<Rightarrow> do {
          r \<leftarrow> hdr_sections E data sz w;
          case r of Inl (st, ps) \<Rightarrow> Some (st, ps_plan ps, ps_world ps)
          | Inr ps \<Rightarrow> finish_plan EFI_END_OF_FILE sz ps })"

section \<open>A file\<close>

definition file_security :: "env \<Rightarrow> UEFI_FILE_VIEW \<Rightarrow> pstate \<Rightarrow> presult" where
  "file_security E view ps =
     (if view_size view < FFU_SECURITY_HEADER_SIZE then Some (Inl (EFI_VOLUME_CORRUPTED, ps))
      else let (st, sec, w) = file_read_exact E view 0 FFU_SECURITY_HEADER_SIZE (ps_world ps);
               ps = ps\<lparr>ps_world := w\<rparr>
           in if EFI_ERROR st then Some (Inl (st, ps)) else check_security sec ps)"

definition file_image :: "env \<Rightarrow> UEFI_FILE_VIEW \<Rightarrow> pstate \<Rightarrow> presult" where
  "file_image E view ps =
     (let (st, img, w) = file_read_exact E view (ps_cursor ps) FFU_IMAGE_HEADER_V1_SIZE (ps_world ps);
          ps = ps\<lparr>ps_world := w\<rparr>
      in if EFI_ERROR st then Some (Inl (st, ps))
         else do {
           r \<leftarrow> check_image_sig img ps;
           case r of Inl e \<Rightarrow> Some (Inl e)
           | Inr ps \<Rightarrow>
               let (st, tail, w) = (if image_header_size (ps_plan ps) = 28
                     then file_read_exact E view (ps_cursor ps + FFU_IMAGE_HEADER_V1_SIZE) 4 (ps_world ps)
                     else (EFI_SUCCESS, [], ps_world ps));
                   ps = ps\<lparr>ps_world := w\<rparr>
               in if EFI_ERROR st then Some (Inl (st, ps)) else check_image_body (img @ tail) ps })"

fun file_validation :: "env \<Rightarrow> UEFI_FILE_VIEW \<Rightarrow> nat \<Rightarrow> pstate \<Rightarrow> presult" where
  "file_validation E view 0 ps = Some (Inr ps)"
| "file_validation E view (Suc n) ps =
     (let (st, vd, w) = file_read_exact E view (ps_cursor ps) 28 (ps_world ps);
          ps = ps\<lparr>ps_world := w\<rparr>
      in if EFI_ERROR st then Some (Inl (st, ps))
         else do {
           skip \<leftarrow> vd_skip vd 7 0;
           file_validation E view n (ps\<lparr>ps_cursor := ps_cursor ps + (28 + skip)\<rparr>) })"

definition file_store_v2 :: "env \<Rightarrow> UEFI_FILE_VIEW \<Rightarrow> pstate \<Rightarrow> ((EFI_STATUS \<times> pstate) + u64 \<times> pstate) option" where
  "file_store_v2 E view ps =
     (let (st, tail, w) = file_read_exact E view (ps_cursor ps)
            (FFU_STORE_HEADER_V2_BASE_SIZE - FFU_STORE_HEADER_V1_SIZE) (ps_world ps);
          ps = ps\<lparr>ps_world := w\<rparr>
      in if EFI_ERROR st then Some (Inl (st, ps))
         else do {
           desired \<leftarrow> rd_le16 tail;
           psize \<leftarrow> rd_le64 (drop 4 tail);
           dpl \<leftarrow> rd_le16 (drop 12 tail);
           let ps = ps\<lparr>ps_cursor := ps_cursor ps + (FFU_STORE_HEADER_V2_BASE_SIZE - FFU_STORE_HEADER_V1_SIZE),
                       ps_desired := ucast desired\<rparr>;
           if desired = 0 \<or> dpl = 0 then Some (Inl (EFI_VOLUME_CORRUPTED, ps))
           else Some (Inr (psize, ps\<lparr>ps_cursor := ps_cursor ps + ucast dpl * 2\<rparr>)) })"

fun file_descriptors ::
    "env \<Rightarrow> UEFI_FILE_VIEW \<Rightarrow> u32 \<Rightarrow> u32 \<Rightarrow> nat \<Rightarrow> u64 \<Rightarrow> pstate
      \<Rightarrow> ((EFI_STATUS \<times> pstate) + u64 \<times> pstate) option" where
  "file_descriptors E view bs index 0 rel ps = Some (Inr (rel, ps))"
| "file_descriptors E view bs index (Suc n) rel ps =
     (let (st, wh, w) = file_read_exact E view (ps_cursor ps) 8 (ps_world ps);
          ps = ps\<lparr>ps_world := w\<rparr>
      in if EFI_ERROR st then Some (Inl (st, ps))
         else do {
           locs \<leftarrow> rd_le32 wh;
           blocks \<leftarrow> rd_le32 (drop 4 wh);
           if locs = 0 \<or> blocks = 0 then Some (Inl (EFI_VOLUME_CORRUPTED, ps))
           else let bytes = ucast bs * ucast blocks
           in if 0xffffffff < (bytes :: u64) then Some (Inl (EFI_UNSUPPORTED, ps))
           else do {
             (st, plan, cap, w) \<leftarrow> append_entry E (ps_plan ps) (ps_entry_cap ps)
                (make_entry rel (ps_cursor ps) bytes blocks locs index) (ps_world ps);
             let ps = ps\<lparr>ps_plan := plan, ps_entry_cap := cap, ps_world := w\<rparr>;
             if EFI_ERROR st then Some (Inl (st, ps))
             else file_descriptors E view bs index n (rel + bytes)
                    (ps\<lparr>ps_cursor := ps_cursor ps + (8 + ucast locs * 8)\<rparr>) } })"

definition file_store :: "env \<Rightarrow> UEFI_FILE_VIEW \<Rightarrow> pstate \<Rightarrow> presult" where
  "file_store E view ps =
     (let index = store_count (ps_plan ps);
          ps = ps\<lparr>ps_cursor := align_up_u64 (ps_cursor ps) (ucast (chunk_size (ps_plan ps)))\<rparr>;
          hdr_off = ps_cursor ps;
          (st, sh, w) = file_read_exact E view (ps_cursor ps) FFU_STORE_HEADER_V1_SIZE (ps_world ps);
          ps = ps\<lparr>ps_world := w\<rparr>
      in if EFI_ERROR st then Some (Inl (st, ps))
         else do {
           let ps = ps\<lparr>ps_cursor := ps_cursor ps + FFU_STORE_HEADER_V1_SIZE\<rparr>;
           marker \<leftarrow> rd_le16 (drop 4 sh);
           r \<leftarrow> (if marker = 2 then file_store_v2 E view ps else Some (Inr (0, ps)));
           case r of Inl e \<Rightarrow> Some (Inl e)
           | Inr (psize, ps) \<Rightarrow> do {
               c \<leftarrow> check_store_header sh;
               case c of Inl st \<Rightarrow> Some (Inl (st, ps))
               | Inr (bs, dc) \<Rightarrow> do {
                   let start = entry_count (ps_plan ps);
                   let base = ps_cursor ps;
                   r \<leftarrow> file_descriptors E view bs index (unat dc) 0 ps;
                   case r of Inl e \<Rightarrow> Some (Inl e)
                   | Inr (rel, ps) \<Rightarrow> do {
                       (st, plan, cap, w) \<leftarrow> append_store E (ps_plan ps) (ps_store_cap ps)
                          (make_store hdr_off base psize bs dc start rel) (ps_world ps);
                       let ps = ps\<lparr>ps_plan := plan, ps_store_cap := cap, ps_world := w\<rparr>;
                       if EFI_ERROR st then Some (Inl (st, ps)) else Some (Inr ps) } } } })"

lemma file_store_v2_plan:
  "file_store_v2 E view ps = Some (Inr (n, ps')) \<Longrightarrow> ps_plan ps' = ps_plan ps"
  by (auto simp: file_store_v2_def Let_def split: section_splits)

lemma file_descriptors_stores:
  "file_descriptors E view bs index n rel ps = Some (Inr (rel', ps'))
    \<Longrightarrow> stores (ps_plan ps') = stores (ps_plan ps) \<and> store_count (ps_plan ps') = store_count (ps_plan ps)"
proof (induction n arbitrary: rel ps)
  case 0
  then show ?case by simp
next
  case (Suc n)
  from Suc.prems show ?case
    by (auto simp: Let_def dest!: append_entry_result Suc.IH split: section_splits)
qed

lemma file_store_count:
  "file_store E view ps = Some (Inr ps') \<Longrightarrow> store_count (ps_plan ps') = store_count (ps_plan ps) + 1"
  by (auto simp: file_store_def Let_def push_store_def
      dest!: append_store_result file_store_v2_plan file_descriptors_stores split: section_splits)

function file_stores :: "env \<Rightarrow> UEFI_FILE_VIEW \<Rightarrow> pstate \<Rightarrow> presult" where
  "file_stores E view ps =
     (if store_count (ps_plan ps) < ps_desired ps then
        (case file_store E view ps of
           None \<Rightarrow> None
         | Some (Inl e) \<Rightarrow> Some (Inl e)
         | Some (Inr ps) \<Rightarrow> file_stores E view ps)
      else Some (Inr ps))"
  by pat_completeness auto
termination
  by (relation "measure (\<lambda>(E, view, ps). 4294967296 - unat (store_count (ps_plan ps)))")
    (simp_all only: in_measure case_prod_conv wf_measure file_store_count count_up(2))

declare file_stores.simps [simp del]

definition file_sections :: "env \<Rightarrow> UEFI_FILE_VIEW \<Rightarrow> world \<Rightarrow> presult" where
  "file_sections E view w =
     and_then (and_then (and_then (file_security E view (start_pstate (view_size view) w))
       (file_image E view))
       (\<lambda>ps. file_validation E view (unat (validation_descriptor_count (ps_plan ps))) ps))
       (file_stores E view)"

definition ffu_parse :: "env \<Rightarrow> UEFI_FILE_VIEW \<Rightarrow> world \<Rightarrow> (EFI_STATUS \<times> FFU_PLAN \<times> world) option" where
  "ffu_parse E view w = do {
     r \<leftarrow> file_sections E view w;
     case r of Inl (st, ps) \<Rightarrow> Some (st, ps_plan ps, ps_world ps)
     | Inr ps \<Rightarrow> finish_plan EFI_VOLUME_CORRUPTED (view_size view) ps }"

end
