(* ===== verification/Ffu_Wf.thy ===== *)
theory Ffu_Wf
  imports Ffu_Parse
begin

text \<open>
  What the header parser guarantees: on a header of the announced size it never makes an
  out-of-range access, and a plan it returns with success is well formed. The stores
  partition the entries in order, every entry belongs to its store and has a positive size
  that is its block count times the block size, the payload ranges of a store are adjacent,
  and every location table lies inside the header.
\<close>

section \<open>Well-formed plans\<close>

definition entry_ok :: "u64 \<Rightarrow> u32 \<Rightarrow> nat \<Rightarrow> FFU_WRITE_ENTRY \<Rightarrow> bool" where
  "entry_ok sz bs k e \<longleftrightarrow>
     unat (store_index e) = k \<and> block_count e \<noteq> 0 \<and> location_count e \<noteq> 0 \<and>
     unat (byte_count e) = unat bs * unat (block_count e) \<and>
     unat (descriptor_offset e) + 8 + 8 * unat (location_count e) \<le> unat sz"

fun contiguous :: "u64 \<Rightarrow> FFU_WRITE_ENTRY list \<Rightarrow> bool" where
  "contiguous r [] = True"
| "contiguous r (e # es) = (payload_offset e = r \<and> contiguous (r + ucast (byte_count e)) es)"

definition total_bytes :: "FFU_WRITE_ENTRY list \<Rightarrow> u64" where
  "total_bytes es = sum_list (map (\<lambda>e. ucast (byte_count e)) es)"

definition store_ok :: "FFU_STORE \<Rightarrow> bool" where
  "store_ok s \<longleftrightarrow> block_size s \<noteq> 0 \<and> block_size s \<le> UFP_MAX_PAYLOAD_DATA
     \<and> store_entry_count s \<noteq> 0 \<and> descriptor_count s = store_entry_count s"

text \<open>\<open>layout sz k a ss es\<close>: the stores \<open>ss\<close>, numbered from \<open>k\<close>, own the entries \<open>es\<close>, numbered
  from \<open>a\<close>, one run of entries after the other.\<close>

fun layout :: "u64 \<Rightarrow> nat \<Rightarrow> nat \<Rightarrow> FFU_STORE list \<Rightarrow> FFU_WRITE_ENTRY list \<Rightarrow> bool" where
  "layout sz k a [] es = (es = [])"
| "layout sz k a (s # ss) es =
     (let n = unat (store_entry_count s) in
      n \<le> length es \<and> unat (entry_start s) = a \<and> store_ok s \<and>
      (\<forall>e \<in> set (take n es). entry_ok sz (block_size s) k e) \<and>
      contiguous (store_payload_base s) (take n es) \<and>
      layout sz (Suc k) (a + n) ss (drop n es))"

definition plan_wf :: "u64 \<Rightarrow> FFU_PLAN \<Rightarrow> bool" where
  "plan_wf sz plan \<longleftrightarrow>
     stores plan \<noteq> [] \<and> length (stores plan) = unat (store_count plan) \<and>
     length (entries plan) = unat (entry_count plan) \<and>
     layout sz 0 0 (stores plan) (entries plan) \<and>
     total_payload_bytes plan = total_bytes (entries plan) \<and>
     header_size plan = payload_base plan \<and> header_size plan \<noteq> 0 \<and> header_size plan \<le> sz"

lemma contiguous_append:
  "contiguous r (xs @ ys) \<longleftrightarrow> contiguous r xs \<and> contiguous (r + total_bytes xs) ys"
  by (induction xs arbitrary: r) (auto simp: total_bytes_def add.assoc)

lemma total_bytes_append [simp]: "total_bytes (xs @ ys) = total_bytes xs + total_bytes ys"
  by (simp add: total_bytes_def)

lemma layout_append:
  assumes "layout sz k a ss es" "store_ok s" "unat (store_entry_count s) = length xs"
    and "unat (entry_start s) = a + length es"
    and "\<forall>e \<in> set xs. entry_ok sz (block_size s) (k + length ss) e"
    and "contiguous (store_payload_base s) xs"
  shows "layout sz k a (ss @ [s]) (es @ xs)"
  using assms
proof (induction ss arbitrary: k a es)
  case Nil
  then show ?case by (simp add: Let_def)
next
  case (Cons t ss)
  let ?n = "unat (store_entry_count t)"
  have n: "?n \<le> length es" using Cons.prems(1) by (simp add: Let_def)
  have "layout sz (Suc k) (a + ?n) (ss @ [s]) (drop ?n es @ xs)"
    using Cons.prems n by (intro Cons.IH) (simp_all add: Let_def)
  then show ?case using Cons.prems(1) n by (simp add: Let_def)
qed

lemma layout_entry:
  "layout sz k a ss es \<Longrightarrow> e \<in> set es
    \<Longrightarrow> \<exists>j < length ss. entry_ok sz (block_size (ss ! j)) (k + j) e \<and> store_ok (ss ! j)"
proof (induction ss arbitrary: k a es)
  case Nil
  then show ?case by simp
next
  case (Cons s ss)
  let ?n = "unat (store_entry_count s)"
  have "e \<in> set (take ?n es) \<or> e \<in> set (drop ?n es)"
    using Cons.prems(2) by (metis Un_iff append_take_drop_id set_append)
  then show ?case
  proof
    assume "e \<in> set (take ?n es)"
    then show ?thesis using Cons.prems(1) by (intro exI [of _ 0]) (simp add: Let_def)
  next
    assume "e \<in> set (drop ?n es)"
    then obtain j where "j < length ss" "entry_ok sz (block_size (ss ! j)) (Suc k + j) e"
        "store_ok (ss ! j)"
      using Cons.IH [of "Suc k" "a + ?n" "drop ?n es"] Cons.prems(1) by (auto simp: Let_def)
    then show ?thesis by (intro exI [of _ "Suc j"]) simp
  qed
qed

lemma entry_ok_pos:
  assumes "entry_ok sz bs k e" "bs \<noteq> 0"
  shows "byte_count e \<noteq> 0"
proof -
  have "0 < unat bs" "0 < unat (block_count e)" using assms by (simp_all add: entry_ok_def unat_gt_0)
  then have "0 < unat (byte_count e)" using assms(1) by (simp add: entry_ok_def)
  then show ?thesis by (auto simp: unat_gt_0)
qed

text \<open>What the rest of the program needs of an entry of a well-formed plan.\<close>

lemma plan_wf_entry:
  assumes "plan_wf sz plan" "e \<in> set (entries plan)"
  shows "unat (store_index e) < length (stores plan)"
    and "entry_ok sz (block_size (stores plan ! unat (store_index e))) (unat (store_index e)) e"
    and "block_size (stores plan ! unat (store_index e)) \<noteq> 0"
    and "byte_count e \<noteq> 0"
proof -
  obtain j where j: "j < length (stores plan)"
      "entry_ok sz (block_size (stores plan ! j)) j e" "store_ok (stores plan ! j)"
    using layout_entry [of sz 0 0 "stores plan" "entries plan" e] assms by (auto simp: plan_wf_def)
  have s: "unat (store_index e) = j" using j(2) by (simp add: entry_ok_def)
  show "unat (store_index e) < length (stores plan)"
    and "entry_ok sz (block_size (stores plan ! unat (store_index e))) (unat (store_index e)) e"
    and b: "block_size (stores plan ! unat (store_index e)) \<noteq> 0"
    using j s by (simp_all add: store_ok_def)
  show "byte_count e \<noteq> 0" using entry_ok_pos [OF j(2)] b s by simp
qed

section \<open>Sections\<close>

definition same_io :: "world \<Rightarrow> world \<Rightarrow> bool" where
  "same_io w w' \<longleftrightarrow> disk_writes w' = disk_writes w \<and> polls w' = polls w \<and> grew w w'"

lemma same_io_refl [simp]: "same_io w w"
  by (simp add: same_io_def)

lemma same_io_trans: "same_io a b \<Longrightarrow> same_io b c \<Longrightarrow> same_io a c"
  by (auto simp: same_io_def intro: grew_trans)

definition sec_post :: "world \<Rightarrow> (pstate \<Rightarrow> bool) \<Rightarrow> presult \<Rightarrow> bool" where
  "sec_post w P r \<longleftrightarrow>
     (case r of None \<Rightarrow> False
      | Some (Inl (st, ps)) \<Rightarrow> EFI_ERROR st \<and> same_io w (ps_world ps)
      | Some (Inr ps) \<Rightarrow> P ps \<and> same_io w (ps_world ps))"

lemma sec_post_simps [simp]:
  "sec_post w P (Some (Inl (st, ps))) \<longleftrightarrow> EFI_ERROR st \<and> same_io w (ps_world ps)"
  "sec_post w P (Some (Inr ps)) \<longleftrightarrow> P ps \<and> same_io w (ps_world ps)"
  "\<not> sec_post w P None"
  by (simp_all add: sec_post_def)

lemma sec_post_and_then:
  assumes "sec_post w P r" "\<And>ps. P ps \<Longrightarrow> same_io w (ps_world ps) \<Longrightarrow> sec_post (ps_world ps) Q (f ps)"
  shows "sec_post w Q (and_then r f)"
proof (cases r)
  case None
  then show ?thesis using assms by simp
next
  case (Some x)
  show ?thesis
  proof (cases x)
    case (Inl e)
    then show ?thesis using assms(1) Some by (cases e) (simp add: and_then_def)
  next
    case (Inr ps)
    then have "P ps" "same_io w (ps_world ps)" using assms(1) Some by simp_all
    then have "sec_post (ps_world ps) Q (f ps)" by (rule assms(2))
    then have "sec_post w Q (f ps)" using \<open>same_io w (ps_world ps)\<close>
      by (auto simp: sec_post_def intro: same_io_trans split: option.splits sum.splits)
    then show ?thesis using Some Inr by (simp add: and_then_def)
  qed
qed

definition fresh :: "pstate \<Rightarrow> bool" where
  "fresh ps \<longleftrightarrow> stores (ps_plan ps) = [] \<and> entries (ps_plan ps) = [] \<and>
     store_count (ps_plan ps) = 0 \<and> entry_count (ps_plan ps) = 0 \<and>
     payload_base (ps_plan ps) = 0 \<and> total_payload_bytes (ps_plan ps) = 0 \<and>
     ps_store_cap ps = 0 \<and> ps_entry_cap ps = 0 \<and> ps_desired ps = 1"

lemma fresh_start: "fresh (start_pstate sz w)"
  by (simp add: fresh_def start_pstate_def zero_plan_def)

lemma security_post:
  assumes "unat sz \<le> length data" "fresh ps"
  shows "sec_post (ps_world ps) fresh (hdr_security data sz ps)"
proof (cases "sz < 32")
  case True
  then show ?thesis by (simp add: hdr_security_def ffu_size_defs)
next
  case False
  then have l: "32 \<le> unat sz" by (simp add: word_less_nat_alt)
  define sec where "sec = take 32 data"
  have ls: "length sec = 32" using l assms(1) by (simp add: sec_def)
  obtain n alg kb cat hash where rd: "rd_le32 sec = Some n" "rd_le32 (drop 20 sec) = Some alg"
      "rd_le32 (drop 16 sec) = Some kb" "rd_le32 (drop 24 sec) = Some cat"
      "rd_le32 (drop 28 sec) = Some hash"
    using le32.dec_drop_total [of 0 sec] le32.dec_drop_total [of 20 sec]
      le32.dec_drop_total [of 16 sec] le32.dec_drop_total [of 24 sec]
      le32.dec_drop_total [of 28 sec] ls by auto
  have "mem_read_exact (Some data) sz 0 32 = Some (EFI_SUCCESS, sec)"
    using l assms(1) by (simp add: mem_read_exact_in sec_def)
  then show ?thesis using False assms(2) ls
    by (simp add: hdr_security_def ffu_size_defs check_security_def rd sig_eq_in andM_def
        Let_def fresh_def)
qed


lemma mem_read_cases:
  assumes "unat sz \<le> length data"
  obtains b where "mem_read_exact (Some data) sz off n = Some (EFI_SUCCESS, b)" "length b = unat n"
      "b = take (unat n) (drop (unat off) data)" "unat off + unat n \<le> unat sz"
    | "mem_read_exact (Some data) sz off n = Some (EFI_END_OF_FILE, [])"
  using mem_read_exact_in [OF assms, of off n] assms
  by (cases "unat off + unat n \<le> unat sz") auto

lemma image_sig_post:
  assumes "length img = 24" "fresh ps"
  shows "sec_post (ps_world ps) (\<lambda>ps'. fresh ps') (check_image_sig img ps)"
proof -
  obtain n where rd: "rd_le32 img = Some n" using le32.dec_drop_total [of 0 img] assms by auto
  show ?thesis using assms
    by (simp add: check_image_sig_def rd sig_eq_in andM_def Let_def fresh_def)
qed

lemma image_body_post:
  assumes "24 \<le> length img" "image_header_size (ps_plan ps) = 28 \<Longrightarrow> 28 \<le> length img" "fresh ps"
  shows "sec_post (ps_world ps) fresh (check_image_body img ps)"
proof -
  obtain m t where rd: "rd_le32 (drop 16 img) = Some m" "rd_le32 (drop 20 img) = Some t"
    using le32.dec_drop_total [of 16 img] le32.dec_drop_total [of 20 img] assms(1) by auto
  obtain v where "image_header_size (ps_plan ps) = 28 \<Longrightarrow> rd_le32 (drop 24 img) = Some v"
    using le32.dec_drop_total [of 24 img] assms(2) by fastforce
  then show ?thesis using assms(3)
    by (cases "image_header_size (ps_plan ps) = 28")
      (simp_all add: check_image_body_def rd Let_def fresh_def)
qed

lemma image_post:
  assumes sz: "unat sz \<le> length data" and f: "fresh ps"
  shows "sec_post (ps_world ps) (\<lambda>ps'. fresh ps' \<and> ps_cursor ps' \<le> sz) (hdr_image data sz ps)"
proof (cases rule: mem_read_cases [OF sz, of "ps_cursor ps" 24])
  case (1 img)
  have sig: "sec_post (ps_world ps) fresh (check_image_sig img ps)"
    using image_sig_post 1 f by simp
  show ?thesis
  proof (cases "check_image_sig img ps")
    case None
    then show ?thesis using sig by simp
  next
    case (Some r)
    show ?thesis
    proof (cases r)
      case (Inl e)
      then show ?thesis using sig Some 1
        by (cases e) (simp add: hdr_image_def ffu_size_defs)
    next
      case (Inr ps')
      then have f': "fresh ps'" "same_io (ps_world ps) (ps_world ps')" using sig Some by simp_all
      define tail where "tail = (if image_header_size (ps_plan ps') = 28
                 then mem_read_exact (Some data) sz (ps_cursor ps' + 24) 4 else Some (EFI_SUCCESS, []))"
      obtain st b where tl: "tail = Some (st, b)"
          "\<not> EFI_ERROR st \<Longrightarrow> image_header_size (ps_plan ps') = 28 \<Longrightarrow> length b = 4"
      proof (cases "image_header_size (ps_plan ps') = 28")
        case True
        show ?thesis
        proof (cases rule: mem_read_cases [OF sz, of "ps_cursor ps' + 24" 4])
          case (1 b)
          show ?thesis using 1(1,2) by (intro that) (simp_all add: tail_def True)
        next
          case 2
          show ?thesis using 2 that [of EFI_END_OF_FILE "[]"] by (simp add: tail_def True)
        qed
      qed (simp add: tail_def that)
      have eq: "hdr_image data sz ps = (if sz < ps_cursor ps + 24 then Some (Inl (EFI_END_OF_FILE, ps))
          else if EFI_ERROR st then Some (Inl (st, ps'))
          else do { r \<leftarrow> check_image_body (img @ b) ps';
                    case r of Inl e \<Rightarrow> Some (Inl e)
                    | Inr ps \<Rightarrow> if sz < ps_cursor ps then Some (Inl (EFI_END_OF_FILE, ps)) else Some (Inr ps) })"
        using 1(1) Some Inr tl(1)
        by (cases "image_header_size (ps_plan ps') = 28")
          (simp_all add: hdr_image_def ffu_size_defs tail_def)
      have "sec_post (ps_world ps') fresh (check_image_body (img @ b) ps')" if "\<not> EFI_ERROR st"
        using image_body_post [of "img @ b" ps'] 1(2) tl(2) f'(1) that by simp
      then show ?thesis unfolding eq using f'(2)
        by (auto simp: sec_post_def not_less intro: same_io_trans
            split: option.splits sum.splits Option.bind_splits)
    qed
  qed
next
  case 2
  then show ?thesis by (simp add: hdr_image_def ffu_size_defs)
qed

lemma vd_skip_defined: "4 * n \<le> length vd \<Longrightarrow> \<exists>s. vd_skip vd n a = Some s"
proof (induction n arbitrary: vd a)
  case 0
  then show ?case by simp
next
  case (Suc n)
  obtain x where "rd_le32 vd = Some x" using le32.dec_total [of vd] Suc.prems by auto
  moreover have "4 * n \<le> length (drop 4 vd)" using Suc.prems by simp
  ultimately show ?case using Suc.IH by simp
qed

lemma validation_post:
  assumes sz: "unat sz \<le> length data"
  shows "fresh ps \<Longrightarrow> ps_cursor ps \<le> sz
    \<Longrightarrow> sec_post (ps_world ps) (\<lambda>ps'. fresh ps' \<and> ps_cursor ps' \<le> sz) (hdr_validation data sz n ps)"
proof (induction n arbitrary: ps)
  case 0
  then show ?case by simp
next
  case (Suc n)
  show ?case
  proof (cases rule: mem_read_cases [OF sz, of "ps_cursor ps" 28])
    case (1 vd)
    obtain k where k: "vd_skip vd 7 0 = Some k" using vd_skip_defined [of 7 vd 0] 1(2) by auto
    let ?ps = "ps\<lparr>ps_cursor := ps_cursor ps + (28 + k)\<rparr>"
    have "fresh ?ps" using Suc.prems(1) by (simp add: fresh_def)
    then show ?thesis using 1 k Suc.IH [of ?ps] by (simp add: Let_def not_less)
  next
    case 2
    then show ?thesis by simp
  qed
qed

section \<open>Write descriptors\<close>

definition add_entries :: "FFU_WRITE_ENTRY list \<Rightarrow> FFU_PLAN \<Rightarrow> FFU_PLAN" where
  "add_entries xs p = p\<lparr>entries := entries p @ xs, entry_count := entry_count p + of_nat (length xs)\<rparr>"

lemma add_entries_simps [simp]:
  "add_entries [] p = p" "entries (add_entries xs p) = entries p @ xs"
  "stores (add_entries xs p) = stores p" "store_count (add_entries xs p) = store_count p"
  "chunk_size (add_entries xs p) = chunk_size p" "payload_base (add_entries xs p) = payload_base p"
  "total_payload_bytes (add_entries xs p) = total_payload_bytes p"
  "add_entries ys (push_entry x p) = add_entries (x # ys) p"
  by (simp_all add: add_entries_def push_entry_def)

lemma next_cursor:
  fixes c sz :: u64 and locs :: u32
  assumes "unat c < 2 ^ 35"
  shows "unat (c + (8 + ucast locs * 8)) = unat c + (8 + 8 * unat locs)"
proof -
  have l: "unat locs < 4294967296" by (rule unat_u32_lt)
  have m: "unat (ucast locs * 8 :: u64) = unat locs * 8"
    using l by (subst unat_mult_le) simp_all
  then have a: "unat (8 + ucast locs * 8 :: u64) = 8 + unat locs * 8"
    using l by (subst unat_add_le) simp_all
  show ?thesis using assms l a by (subst unat_add_le) simp_all
qed

lemma entry_bytes:
  fixes bs blocks :: u32
  assumes "\<not> 0xffffffff < (ucast bs * ucast blocks :: u64)"
  shows "unat (ucast (ucast bs * ucast blocks :: u64) :: u32) = unat bs * unat blocks"
    and "ucast (ucast (ucast bs * ucast blocks :: u64) :: u32) = (ucast bs * ucast blocks :: u64)"
proof -
  have "unat bs * unat blocks \<le> 4294967295 * 4294967295"
    using unat_u32_lt [of bs] unat_u32_lt [of blocks] by (intro mult_le_mono) linarith+
  then have m: "unat (ucast bs * ucast blocks :: u64) = unat bs * unat blocks"
    by (subst unat_mult_le) simp_all
  then have le: "unat bs * unat blocks \<le> 4294967295"
    using assms by (simp add: word_less_nat_alt)
  then show u: "unat (ucast (ucast bs * ucast blocks :: u64) :: u32) = unat bs * unat blocks"
    using m by (subst unat_ucast_small) simp_all
  then show "ucast (ucast (ucast bs * ucast blocks :: u64) :: u32) = (ucast bs * ucast blocks :: u64)"
    using m by (metis unat_ucast_32_64 word_unat_eq_iff)
qed

definition desc_post ::
    "u64 \<Rightarrow> u32 \<Rightarrow> u32 \<Rightarrow> nat \<Rightarrow> u64 \<Rightarrow> pstate \<Rightarrow> ((EFI_STATUS \<times> pstate) + u64 \<times> pstate) option \<Rightarrow> bool" where
  "desc_post sz bs index n rel ps r \<longleftrightarrow>
     (case r of None \<Rightarrow> False
      | Some (Inl (st, ps')) \<Rightarrow> EFI_ERROR st \<and> same_io (ps_world ps) (ps_world ps')
      | Some (Inr (rel', ps')) \<Rightarrow>
          (\<exists>xs. ps_plan ps' = add_entries xs (ps_plan ps) \<and> length xs = n
             \<and> (\<forall>e \<in> set xs. entry_ok sz bs (unat index) e) \<and> contiguous rel xs
             \<and> rel' = rel + total_bytes xs)
          \<and> ps_store_cap ps' = ps_store_cap ps \<and> ps_desired ps' = ps_desired ps
          \<and> entry_array.fits (ps_plan ps') (ps_entry_cap ps')
          \<and> 16 * length (entries (ps_plan ps')) \<le> unat (ps_cursor ps') \<and> ps_cursor ps' \<le> sz
          \<and> same_io (ps_world ps) (ps_world ps'))"

lemma descriptors_post:
  assumes sz: "unat sz \<le> length data" "unat sz < 2 ^ 35"
  shows "entry_array.fits (ps_plan ps) (ps_entry_cap ps)
    \<Longrightarrow> 16 * length (entries (ps_plan ps)) \<le> unat (ps_cursor ps) \<Longrightarrow> ps_cursor ps \<le> sz
    \<Longrightarrow> desc_post sz bs index n rel ps (hdr_descriptors E data sz bs index n rel ps)"
proof (induction n arbitrary: rel ps)
  case 0
  then show ?case by (auto simp: desc_post_def total_bytes_def intro: exI [of _ "[]"])
next
  case (Suc n)
  show ?case
  proof (cases rule: mem_read_cases [OF sz(1), of "ps_cursor ps" 8])
    case (1 wh)
    obtain locs blocks where rd: "rd_le32 wh = Some locs" "rd_le32 (drop 4 wh) = Some blocks"
      using le32.dec_drop_total [of 0 wh] le32.dec_drop_total [of 4 wh] 1(2) by auto
    let ?b = "ucast bs * ucast blocks :: u64"
    let ?e = "make_entry rel (ps_cursor ps) ?b blocks locs index"
    let ?c = "ps_cursor ps + (8 + ucast locs * 8)"
    have cur: "unat (ps_cursor ps) < 2 ^ 35"
      using sz(2) Suc.prems(3) by (simp add: word_le_nat_alt)
    have c': "unat ?c = unat (ps_cursor ps) + (8 + 8 * unat locs)" using next_cursor [OF cur] .
    have few: "unat (entry_count (ps_plan ps)) < 2 ^ 31"
      using Suc.prems(1,2) cur by (simp add: entry_array.fits_def)
    show ?thesis
    proof (cases "locs = 0 \<or> blocks = 0 \<or> sz < ps_cursor ps + 8 + ucast locs * 8 \<or> 0xffffffff < ?b")
      case True
      then show ?thesis using 1 rd by (auto simp: desc_post_def Let_def)
    next
      case False
      then have ok: "locs \<noteq> 0" "blocks \<noteq> 0" "?c \<le> sz" "\<not> 0xffffffff < ?b"
        by (simp_all add: add.assoc not_less)
      from entry_array.append_fits [OF Suc.prems(1) few, of E ?e "ps_world ps"]
      show ?thesis
      proof (elim disjE exE conjE)
        fix cap' w'
        assume ap: "append_entry E (ps_plan ps) (ps_entry_cap ps) ?e (ps_world ps)
              = Some (EFI_SUCCESS, push_entry ?e (ps_plan ps), cap', w')"
          "entry_array.fits (push_entry ?e (ps_plan ps)) cap'"
          "disk_writes w' = disk_writes (ps_world ps)" "polls w' = polls (ps_world ps)" "grew (ps_world ps) w'"
        let ?ps = "ps\<lparr>ps_plan := push_entry ?e (ps_plan ps), ps_entry_cap := cap', ps_world := w',
          ps_cursor := ?c\<rparr>"
        have "0 < unat locs" using ok(1) by (simp add: unat_gt_0)
        then have IH: "desc_post sz bs index n (rel + ?b) ?ps
            (hdr_descriptors E data sz bs index n (rel + ?b) ?ps)"
          using Suc.prems ap ok c' by (intro Suc.IH) (simp_all add: push_entry_def)
        have eq: "hdr_descriptors E data sz bs index (Suc n) rel ps
            = hdr_descriptors E data sz bs index n (rel + ?b) ?ps"
          using 1 rd ok ap(1) False by (simp add: Let_def)
        have e_ok: "entry_ok sz bs (unat index) ?e"
          using ok entry_bytes [OF ok(4)] c' by (simp add: entry_ok_def make_entry_def word_le_nat_alt)
        have e_off: "payload_offset ?e = rel" "ucast (byte_count ?e) = ?b"
          using entry_bytes [OF ok(4)] by (simp_all add: make_entry_def)
        show ?thesis
          using IH e_ok e_off ap(3,4) grew_trans [OF ap(5)] unfolding eq desc_post_def
          by (auto simp: same_io_def total_bytes_def add.assoc split: option.splits sum.splits
              intro!: exI [of _ "?e # _"])
      next
        fix w'
        assume "append_entry E (ps_plan ps) (ps_entry_cap ps) ?e (ps_world ps)
              = Some (EFI_OUT_OF_RESOURCES, ps_plan ps, ps_entry_cap ps, w')"
          "disk_writes w' = disk_writes (ps_world ps)" "polls w' = polls (ps_world ps)" "grew (ps_world ps) w'"
        then show ?thesis using 1 rd ok False
          by (simp add: desc_post_def Let_def same_io_def)
      qed
    qed
  next
    case 2
    then show ?thesis by (simp add: desc_post_def)
  qed
qed


section \<open>Stores\<close>

definition pinv :: "u64 \<Rightarrow> pstate \<Rightarrow> bool" where
  "pinv sz ps \<longleftrightarrow>
     layout sz 0 0 (stores (ps_plan ps)) (entries (ps_plan ps)) \<and>
     store_array.fits (ps_plan ps) (ps_store_cap ps) \<and>
     entry_array.fits (ps_plan ps) (ps_entry_cap ps) \<and>
     (\<forall>s \<in> set (stores (ps_plan ps)). store_payload_base s = 0) \<and>
     payload_base (ps_plan ps) = 0 \<and> total_payload_bytes (ps_plan ps) = 0 \<and>
     length (stores (ps_plan ps)) \<le> length (entries (ps_plan ps)) \<and>
     16 * length (entries (ps_plan ps)) \<le> unat (ps_cursor ps) \<and> ps_cursor ps \<le> sz"

lemma pinv_fresh: "fresh ps \<Longrightarrow> ps_cursor ps \<le> sz \<Longrightarrow> pinv sz ps"
  by (simp add: fresh_def pinv_def store_array.fits_def entry_array.fits_def)

lemma align_ge:
  fixes c :: u64 and a :: u32
  assumes "unat c < 2 ^ 40"
  shows "unat c \<le> unat (align_up_u64 c (ucast a))" "unat (align_up_u64 c (ucast a)) < unat c + 2 ^ 32"
proof -
  have "unat a < 4294967296" by (rule unat_u32_lt)
  moreover have "unat (align_up_u64 c (ucast a)) = unat c
      \<or> unat (align_up_u64 c (ucast a)) = unat c + (unat a - unat c mod unat a)"
  proof (cases "a = 0")
    case True
    then show ?thesis by (simp add: align_up_u64_def)
  next
    case False
    then have "(ucast a :: u64) \<noteq> 0" by (metis unat_eq_zero unat_ucast_32_64)
    then show ?thesis
      using align_up_u64_unat [of "ucast a" c] assms unat_u32_lt [of a] by simp
  qed
  ultimately show "unat c \<le> unat (align_up_u64 c (ucast a))"
    "unat (align_up_u64 c (ucast a)) < unat c + 2 ^ 32" using assms by auto
qed

lemma store_v2_post:
  assumes sz: "unat sz \<le> length data" "unat sz < 2 ^ 35" and c: "unat (ps_cursor ps) < 2 ^ 37"
  shows "case hdr_store_v2 data sz ps of None \<Rightarrow> False
     | Some (Inl (st, ps')) \<Rightarrow> EFI_ERROR st \<and> ps_world ps' = ps_world ps
     | Some (Inr (n, ps')) \<Rightarrow> ps_plan ps' = ps_plan ps \<and> ps_world ps' = ps_world ps
          \<and> ps_store_cap ps' = ps_store_cap ps \<and> ps_entry_cap ps' = ps_entry_cap ps
          \<and> ps_cursor ps \<le> ps_cursor ps' \<and> ps_cursor ps' \<le> sz"
proof (cases rule: mem_read_cases [OF sz(1), of "ps_cursor ps" 14])
  case (1 tail)
  obtain d n l where rd: "rd_le16 tail = Some d" "rd_le64 (drop 4 tail) = Some n"
      "rd_le16 (drop 12 tail) = Some l"
    using le16.dec_drop_total [of 0 tail] le16.dec_drop_total [of 12 tail]
      rd_le64_Some [of "drop 4 tail"] 1(2) by auto
  have "unat (ucast l * 2 :: u64) = unat l * 2"
    using unat_u16_lt [of l] by (subst unat_mult_le) simp_all
  then have "unat (ps_cursor ps) \<le> unat (ps_cursor ps + 14 + ucast l * 2)"
    using c unat_u16_lt [of l] by (simp add: unat_add_le)
  then show ?thesis using 1 rd
    by (auto simp: hdr_store_v2_def ffu_size_defs Let_def not_less word_le_nat_alt)
next
  case 2
  then show ?thesis by (simp add: hdr_store_v2_def ffu_size_defs)
qed

lemma check_store_header_cases:
  assumes "length sh = 248"
  obtains st where "check_store_header sh = Some (Inl st)" "EFI_ERROR st"
    | bs dc where "check_store_header sh = Some (Inr (bs, dc))" "bs \<noteq> 0" "dc \<noteq> 0"
        "bs \<le> UFP_MAX_PAYLOAD_DATA"
proof -
  obtain a b c bs dc where rd: "rd_le32 sh = Some a" "rd_le16 (drop 8 sh) = Some b"
      "rd_le16 (drop 10 sh) = Some c" "rd_le32 (drop 204 sh) = Some bs" "rd_le32 (drop 208 sh) = Some dc"
    using le32.dec_drop_total [of 0 sh] le16.dec_drop_total [of 8 sh] le16.dec_drop_total [of 10 sh]
      le32.dec_drop_total [of 204 sh] le32.dec_drop_total [of 208 sh] assms by auto
  show ?thesis
  proof (cases "a \<noteq> 0 \<or> b \<noteq> 2 \<or> c \<noteq> 0 \<or> bs = 0 \<or> UFP_MAX_PAYLOAD_DATA < bs \<or> dc = 0")
    case True
    then have "check_store_header sh = Some (Inl EFI_VOLUME_CORRUPTED)"
      using rd by (cases "a \<noteq> 0 \<or> b \<noteq> 2 \<or> c \<noteq> 0") (simp_all add: check_store_header_def)
    then show ?thesis by (rule that(1)) simp
  next
    case False
    then show ?thesis using rd that(2) by (simp add: check_store_header_def not_less)
  qed
qed

lemma pinv_push_store:
  assumes inv: "pinv sz ps" and xs: "\<forall>e \<in> set xs. entry_ok sz bs (length (stores (ps_plan ps))) e"
    "contiguous 0 xs" "length xs = unat dc" "dc \<noteq> 0" "bs \<noteq> 0" "bs \<le> UFP_MAX_PAYLOAD_DATA"
    and plan: "plan = add_entries xs (ps_plan ps)"
    and ps': "ps_plan ps' = push_store (make_store h b n bs dc (entry_count (ps_plan ps)) r) plan"
    and fits: "store_array.fits (ps_plan ps') (ps_store_cap ps')"
      "entry_array.fits (ps_plan ps') (ps_entry_cap ps')"
    and cur: "16 * length (entries plan) \<le> unat (ps_cursor ps')" "ps_cursor ps' \<le> sz"
  shows "pinv sz ps'"
proof -
  let ?s = "make_store h b n bs dc (entry_count (ps_plan ps)) r"
  have "store_ok ?s" using xs by (simp add: store_ok_def make_store_def)
  moreover have "unat (entry_count (ps_plan ps)) = length (entries (ps_plan ps))"
    using inv by (simp add: pinv_def entry_array.fits_def)
  ultimately have "layout sz 0 0 (stores (ps_plan ps) @ [?s]) (entries (ps_plan ps) @ xs)"
    using inv xs by (intro layout_append) (simp_all add: pinv_def make_store_def)
  moreover have "0 < unat dc" using xs(4) by (simp add: unat_gt_0)
  ultimately show ?thesis using inv plan ps' fits cur xs
    by (auto simp: pinv_def push_store_def make_store_def)
qed

text \<open>The rest of a store after its header and version-2 tail have been read.\<close>

definition hdr_store_tail ::
    "env \<Rightarrow> bytes \<Rightarrow> u64 \<Rightarrow> u32 \<Rightarrow> u64 \<Rightarrow> bytes \<Rightarrow> ((EFI_STATUS \<times> pstate) + u64 \<times> pstate) option \<Rightarrow> presult" where
  "hdr_store_tail E data sz index hdr_off sh r = do {
     r \<leftarrow> r;
     case r of Inl e \<Rightarrow> Some (Inl e)
     | Inr (psize, ps) \<Rightarrow> do {
         c \<leftarrow> check_store_header sh;
         case c of Inl st \<Rightarrow> Some (Inl (st, ps))
         | Inr (bs, dc) \<Rightarrow> do {
             let start = entry_count (ps_plan ps);
             let base = ps_cursor ps;
             r \<leftarrow> hdr_descriptors E data sz bs index (unat dc) 0 ps;
             case r of Inl e \<Rightarrow> Some (Inl e)
             | Inr (rel, ps) \<Rightarrow> do {
                 (st, plan, cap, w) \<leftarrow> append_store E (ps_plan ps) (ps_store_cap ps)
                    (make_store hdr_off base psize bs dc start rel) (ps_world ps);
                 let ps = ps\<lparr>ps_plan := plan, ps_store_cap := cap, ps_world := w\<rparr>;
                 if EFI_ERROR st then Some (Inl (st, ps)) else Some (Inr ps) } } } }"

lemma add_store_post:
  assumes inv: "pinv sz ps" and small: "length (entries (ps_plan ps2)) < 2 ^ 31"
    and p2: "ps_plan ps2 = add_entries xs (ps_plan ps)" "ps_store_cap ps2 = ps_store_cap ps"
      "entry_array.fits (ps_plan ps2) (ps_entry_cap ps2)"
    and xs: "\<forall>e \<in> set xs. entry_ok sz bs (length (stores (ps_plan ps))) e"
      "contiguous 0 xs" "length xs = unat dc" "dc \<noteq> 0" "bs \<noteq> 0" "bs \<le> UFP_MAX_PAYLOAD_DATA"
    and cur: "16 * length (entries (ps_plan ps2)) \<le> unat (ps_cursor ps2)" "ps_cursor ps2 \<le> sz"
  shows "sec_post (ps_world ps2) (\<lambda>ps'. pinv sz ps' \<and> stores (ps_plan ps') \<noteq> [])
     (do { (st, plan, cap, w) \<leftarrow> append_store E (ps_plan ps2) (ps_store_cap ps2)
              (make_store h b n bs dc (entry_count (ps_plan ps)) r) (ps_world ps2);
           let ps' = ps2\<lparr>ps_plan := plan, ps_store_cap := cap, ps_world := w\<rparr>;
           if EFI_ERROR st then Some (Inl (st, ps')) else Some (Inr ps') })"
proof -
  let ?s = "make_store h b n bs dc (entry_count (ps_plan ps)) r"
  have f: "store_array.fits (ps_plan ps2) (ps_store_cap ps2)"
    using inv p2 by (simp add: pinv_def store_array.fits_def)
  have "length (stores (ps_plan ps2)) \<le> length (entries (ps_plan ps2))"
    using inv p2(1) by (simp add: pinv_def)
  then have few: "unat (store_count (ps_plan ps2)) < 2 ^ 31"
    using f small by (simp add: store_array.fits_def)
  from store_array.append_fits [OF f few, of E ?s "ps_world ps2"] show ?thesis
  proof (elim disjE exE conjE)
    fix cap w
    assume a: "append_store E (ps_plan ps2) (ps_store_cap ps2) ?s (ps_world ps2)
        = Some (EFI_SUCCESS, push_store ?s (ps_plan ps2), cap, w)"
      "store_array.fits (push_store ?s (ps_plan ps2)) cap"
      "disk_writes w = disk_writes (ps_world ps2)" "polls w = polls (ps_world ps2)" "grew (ps_world ps2) w"
    let ?ps' = "ps2\<lparr>ps_plan := push_store ?s (ps_plan ps2), ps_store_cap := cap, ps_world := w\<rparr>"
    have "pinv sz ?ps'"
      by (rule pinv_push_store [OF inv xs(1-6) p2(1)])
        (use a(2) p2(3) cur in \<open>simp_all add: entry_array.fits_def push_store_def\<close>)
    then show ?thesis using a by (simp add: Let_def same_io_def push_store_def)
  next
    fix w
    assume "append_store E (ps_plan ps2) (ps_store_cap ps2) ?s (ps_world ps2)
        = Some (EFI_OUT_OF_RESOURCES, ps_plan ps2, ps_store_cap ps2, w)"
      "disk_writes w = disk_writes (ps_world ps2)" "polls w = polls (ps_world ps2)" "grew (ps_world ps2) w"
    then show ?thesis by (simp add: Let_def same_io_def)
  qed
qed

lemma hdr_store_tail_post:
  assumes sz: "unat sz \<le> length data" "unat sz < 2 ^ 35" and inv: "pinv sz ps"
    and sh: "length sh = 248"
    and v2: "case v2 of None \<Rightarrow> False
       | Some (Inl (st, ps')) \<Rightarrow> EFI_ERROR st \<and> ps_world ps' = ps_world ps
       | Some (Inr (n, ps')) \<Rightarrow> ps_plan ps' = ps_plan ps \<and> ps_world ps' = ps_world ps
          \<and> ps_store_cap ps' = ps_store_cap ps \<and> ps_entry_cap ps' = ps_entry_cap ps
          \<and> c1 \<le> ps_cursor ps' \<and> ps_cursor ps' \<le> sz"
    and c1: "ps_cursor ps \<le> c1"
  shows "sec_post (ps_world ps) (\<lambda>ps'. pinv sz ps' \<and> stores (ps_plan ps') \<noteq> [])
    (hdr_store_tail E data sz (store_count (ps_plan ps)) h sh v2)"
proof (cases v2)
  case None
  then show ?thesis using v2 by simp
next
  case (Some r)
  show ?thesis
  proof (cases r)
    case (Inl e)
    then show ?thesis using v2 Some by (cases e) (simp add: hdr_store_tail_def)
  next
    case (Inr x)
    obtain n ps1 where x: "x = (n, ps1)" by (cases x)
    have p1: "ps_plan ps1 = ps_plan ps" "ps_world ps1 = ps_world ps" "ps_store_cap ps1 = ps_store_cap ps"
        "ps_entry_cap ps1 = ps_entry_cap ps" "ps_cursor ps \<le> ps_cursor ps1" "ps_cursor ps1 \<le> sz"
      using v2 Some Inr x c1 by auto
    show ?thesis
    proof (rule check_store_header_cases [OF sh])
      fix st assume "check_store_header sh = Some (Inl st)" "EFI_ERROR st"
      then show ?thesis using Some Inr x p1 by (simp add: hdr_store_tail_def)
    next
      fix bs dc
      assume hd: "check_store_header sh = Some (Inr (bs, dc))" "bs \<noteq> 0" "dc \<noteq> 0" "bs \<le> UFP_MAX_PAYLOAD_DATA"
      let ?r = "hdr_descriptors E data sz bs (store_count (ps_plan ps)) (unat dc) 0 ps1"
      have k: "unat (store_count (ps_plan ps)) = length (stores (ps_plan ps))"
        using inv by (simp add: pinv_def store_array.fits_def)
      have d: "desc_post sz bs (store_count (ps_plan ps)) (unat dc) 0 ps1 ?r"
        using inv p1 by (intro descriptors_post [OF sz]) (auto simp: pinv_def word_le_nat_alt)
      show ?thesis
      proof (cases ?r)
        case None
        then show ?thesis using d by (simp add: desc_post_def)
      next
        case r2: (Some y)
        show ?thesis
        proof (cases y)
          case (Inl e)
          then show ?thesis using d r2 Some Inr x p1 hd
            by (cases e) (simp add: hdr_store_tail_def desc_post_def)
        next
          case y: (Inr z)
          obtain rel ps2 where z: "z = (rel, ps2)" by (cases z)
          obtain xs where p2: "ps_plan ps2 = add_entries xs (ps_plan ps)" "length xs = unat dc"
              "\<forall>e \<in> set xs. entry_ok sz bs (length (stores (ps_plan ps))) e" "contiguous 0 xs"
              "ps_store_cap ps2 = ps_store_cap ps" "entry_array.fits (ps_plan ps2) (ps_entry_cap ps2)"
              "16 * length (entries (ps_plan ps2)) \<le> unat (ps_cursor ps2)" "ps_cursor ps2 \<le> sz"
              "same_io (ps_world ps) (ps_world ps2)"
            using d r2 y z p1 k by (auto simp: desc_post_def)
          have few: "length (entries (ps_plan ps2)) < 2 ^ 31" using p2(7,8) sz(2) by (simp add: word_le_nat_alt)
          note A = add_store_post [OF inv few p2(1,5,6,3,4,2) hd(3,2,4) p2(7,8), of E h "ps_cursor ps1" n rel]
          show ?thesis
            using A p2(9) Some Inr x hd r2 y z p1
            by (auto simp: hdr_store_tail_def Let_def sec_post_def intro: same_io_trans
                split: option.splits sum.splits)
        qed
      qed
    qed
  qed
qed

lemma hdr_store_post:
  assumes sz: "unat sz \<le> length data" "unat sz < 2 ^ 35" and inv: "pinv sz ps"
  shows "sec_post (ps_world ps) (\<lambda>ps'. pinv sz ps' \<and> stores (ps_plan ps') \<noteq> []) (hdr_store E data sz ps)"
proof -
  define c where "c = align_up_u64 (ps_cursor ps) (ucast (chunk_size (ps_plan ps)))"
  have cur: "unat (ps_cursor ps) < 2 ^ 35" using inv sz(2) by (simp add: pinv_def word_le_nat_alt)
  have c: "unat (ps_cursor ps) \<le> unat c" "unat c < 2 ^ 36"
    using align_ge [of "ps_cursor ps" "chunk_size (ps_plan ps)"] cur by (simp_all add: c_def)
  show ?thesis
  proof (cases rule: mem_read_cases [OF sz(1), of c 248])
    case (1 sh)
    let ?ps1 = "ps\<lparr>ps_cursor := c + 248\<rparr>"
    have c1: "unat (c + 248) = unat c + 248" using c(2) by (simp add: unat_add_le)
    obtain marker where mk: "rd_le16 (drop 4 sh) = Some marker"
      using le16.dec_drop_total [of 4 sh] 1(2) by auto
    define v2 where "v2 = (if marker = 2 then hdr_store_v2 data sz ?ps1 else Some (Inr (0, ?ps1)))"
    have v2_post: "case v2 of None \<Rightarrow> False
       | Some (Inl (st, ps')) \<Rightarrow> EFI_ERROR st \<and> ps_world ps' = ps_world ps
       | Some (Inr (n, ps')) \<Rightarrow> ps_plan ps' = ps_plan ps \<and> ps_world ps' = ps_world ps
          \<and> ps_store_cap ps' = ps_store_cap ps \<and> ps_entry_cap ps' = ps_entry_cap ps
          \<and> c + 248 \<le> ps_cursor ps' \<and> ps_cursor ps' \<le> sz"
      using store_v2_post [OF sz, of ?ps1] c c1 1(4)
      by (auto simp: v2_def word_le_nat_alt split: option.splits sum.splits)
    have eq: "hdr_store E data sz ps = hdr_store_tail E data sz (store_count (ps_plan ps)) c sh v2"
      unfolding hdr_store_def hdr_store_tail_def v2_def ffu_size_defs Let_def
      using 1(1) mk by (simp add: c_def)
    show ?thesis unfolding eq
      by (rule hdr_store_tail_post [OF sz inv _ v2_post]) (use c c1 1(2) in \<open>simp_all add: word_le_nat_alt\<close>)
  next
    case 2
    then show ?thesis by (simp add: hdr_store_def ffu_size_defs c_def)
  qed
qed

lemma hdr_stores_post:
  "unat sz \<le> length data \<Longrightarrow> unat sz < 2 ^ 35 \<Longrightarrow> pinv sz ps
    \<Longrightarrow> stores (ps_plan ps) \<noteq> [] \<or> store_count (ps_plan ps) < ps_desired ps
    \<Longrightarrow> sec_post (ps_world ps) (\<lambda>ps'. pinv sz ps' \<and> stores (ps_plan ps') \<noteq> []) (hdr_stores E data sz ps)"
proof (induction E data sz ps rule: hdr_stores.induct)
  case (1 E data sz ps)
  show ?case
  proof (cases "store_count (ps_plan ps) < ps_desired ps")
    case False
    then show ?thesis using 1(4,5) by (subst hdr_stores.simps) simp
  next
    case True
    have post: "sec_post (ps_world ps) (\<lambda>ps'. pinv sz ps' \<and> stores (ps_plan ps') \<noteq> []) (hdr_store E data sz ps)"
      using hdr_store_post 1(2-4) by blast
    have eq: "hdr_stores E data sz ps = and_then (hdr_store E data sz ps) (hdr_stores E data sz)"
      using True by (subst hdr_stores.simps) (simp add: and_then_def)
    show ?thesis unfolding eq
    proof (rule sec_post_and_then)
      show "sec_post (ps_world ps) (\<lambda>ps'. hdr_store E data sz ps = Some (Inr ps') \<and> pinv sz ps' \<and> stores (ps_plan ps') \<noteq> [])
          (hdr_store E data sz ps)"
        using post by (auto simp: sec_post_def split: option.splits sum.splits)
    qed (use 1 True in blast)
  qed
qed

section \<open>Placement\<close>

definition shift_entry :: "u64 \<Rightarrow> FFU_WRITE_ENTRY \<Rightarrow> FFU_WRITE_ENTRY" where
  "shift_entry pc e = e\<lparr>payload_offset := payload_offset e + pc\<rparr>"

lemma shift_entry_ok [simp]: "entry_ok sz bs k (shift_entry pc e) = entry_ok sz bs k e"
  by (simp add: entry_ok_def shift_entry_def)

lemma shift_contiguous:
  "contiguous (r + pc) (map (shift_entry pc) es) = contiguous r es"
proof (induction es arbitrary: r)
  case (Cons e es)
  then show ?case
    using Cons.IH [of "r + ucast (byte_count e)"] by (simp add: shift_entry_def add_ac)
qed simp

lemma shift_total_bytes [simp]: "total_bytes (map (shift_entry pc) es) = total_bytes es"
  by (induction es) (simp_all add: total_bytes_def shift_entry_def)

lemma place_entries_spec:
  "entries plan = pre @ mid @ post \<Longrightarrow> length pre = unat i \<Longrightarrow> length pre + length mid < 2 ^ 32
    \<Longrightarrow> place_entries (length mid) i pc plan = Some (plan\<lparr>entries := pre @ map (shift_entry pc) mid @ post,
          total_payload_bytes := total_payload_bytes plan + total_bytes mid\<rparr>)"
proof (induction mid arbitrary: pre i plan)
  case Nil
  then show ?case by (simp add: total_bytes_def)
next
  case (Cons e mid)
  let ?plan = "plan\<lparr>entries := (entries plan)[unat i := shift_entry pc e],
      total_payload_bytes := total_payload_bytes plan + ucast (byte_count e)\<rparr>"
  have i: "unat (i + 1) = unat i + 1" using Cons.prems(2,3) by (simp add: unat_add_le)
  have p: "peek (entries plan) (unat i) = Some e"
    using Cons.prems(1,2) by (simp add: mem_simps nth_append)
  have "place_entries (length mid) (i + 1) pc ?plan = Some (?plan\<lparr>entries := (pre @ [shift_entry pc e]) @ map (shift_entry pc) mid @ post,
      total_payload_bytes := total_payload_bytes ?plan + total_bytes mid\<rparr>)"
    using Cons.prems i by (intro Cons.IH) (simp_all add: list_update_append)
  then show ?case using p by (simp add: shift_entry_def total_bytes_def add.assoc Let_def)
qed

lemma place_stores_spec:
  "stores plan = spre @ ss \<Longrightarrow> entries plan = pre @ es \<Longrightarrow> length (pre @ es) < 2 ^ 32
    \<Longrightarrow> layout sz k (length pre) ss es \<Longrightarrow> \<forall>s \<in> set ss. store_payload_base s = 0
    \<Longrightarrow> \<exists>ss' es' pb. place_stores (length ss) (length spre) pc plan =
           Some (plan\<lparr>stores := spre @ ss', entries := pre @ es', payload_base := pb,
                   total_payload_bytes := total_payload_bytes plan + total_bytes es\<rparr>)
         \<and> layout sz k (length pre) ss' es' \<and> length ss' = length ss \<and> length es' = length es
         \<and> total_bytes es' = total_bytes es"
proof (induction ss arbitrary: spre pre es plan k pc)
  case Nil
  then show ?case by (intro exI [of _ "[]"] exI [of _ "payload_base plan"]) (simp add: total_bytes_def)
next
  case (Cons s ss)
  let ?n = "unat (store_entry_count s)"
  define mid where "mid = take ?n es"
  define post where "post = drop ?n es"
  define base where "base = align_up_u64 pc (ucast (block_size s))"
  let ?s = "s\<lparr>store_payload_base := base\<rparr>"
  have n: "?n \<le> length es" and lm: "length mid = ?n" and es: "es = mid @ post"
    using Cons.prems(4) by (simp_all add: mid_def post_def Let_def)
  have lay: "unat (entry_start s) = length pre" "store_ok s"
      "\<forall>e \<in> set mid. entry_ok sz (block_size s) k e" "contiguous (0 + 0) mid"
      "layout sz (Suc k) (length pre + length mid) ss post"
    using Cons.prems(4,5) n by (simp_all add: mid_def post_def Let_def)
  define plan1 where "plan1 = plan\<lparr>stores := (stores plan)[length spre := ?s],
    payload_base := (if payload_base plan = 0 then base else payload_base plan)\<rparr>"
  have e1: "entries plan1 = pre @ mid @ post" using Cons.prems(2) es by (simp add: plan1_def)
  have pe: "place_entries ?n (entry_start s) base plan1 = Some (plan1\<lparr>entries := pre @ map (shift_entry base) mid @ post,
          total_payload_bytes := total_payload_bytes plan1 + total_bytes mid\<rparr>)"
    using place_entries_spec [OF e1 lay(1) [symmetric], of base] Cons.prems(3) lm es by simp
  define plan2 where "plan2 = plan1\<lparr>entries := pre @ map (shift_entry base) mid @ post,
          total_payload_bytes := total_payload_bytes plan1 + total_bytes mid\<rparr>"
  have step: "place_stores (length (s # ss)) (length spre) pc plan
      = place_stores (length ss) (length (spre @ [?s])) (base + payload_size s) plan2"
    using Cons.prems(1) pe
    by (simp add: mem_simps nth_append Let_def plan1_def plan2_def base_def split: if_splits)
  have "\<exists>ss' es' pb. place_stores (length ss) (length (spre @ [?s])) (base + payload_size s) plan2 =
           Some (plan2\<lparr>stores := (spre @ [?s]) @ ss', entries := (pre @ map (shift_entry base) mid) @ es', payload_base := pb,
                   total_payload_bytes := total_payload_bytes plan2 + total_bytes post\<rparr>)
         \<and> layout sz (Suc k) (length (pre @ map (shift_entry base) mid)) ss' es' \<and> length ss' = length ss
         \<and> length es' = length post \<and> total_bytes es' = total_bytes post"
    using Cons.prems lay(5) es
    by (intro Cons.IH) (simp_all add: plan2_def plan1_def list_update_append)
  then obtain ss' es' pb where IH: "place_stores (length ss) (length (spre @ [?s])) (base + payload_size s) plan2 =
           Some (plan2\<lparr>stores := (spre @ [?s]) @ ss', entries := (pre @ map (shift_entry base) mid) @ es', payload_base := pb,
                   total_payload_bytes := total_payload_bytes plan2 + total_bytes post\<rparr>)"
      "layout sz (Suc k) (length (pre @ map (shift_entry base) mid)) ss' es'" "length ss' = length ss"
      "length es' = length post" "total_bytes es' = total_bytes post"
    by blast
  have "contiguous base (map (shift_entry base) mid)"
    using shift_contiguous [of 0 base mid] lay(4) by simp
  then have "layout sz k (length pre) (?s # ss') (map (shift_entry base) mid @ es')"
    using lay lm IH(2) by (simp add: Let_def store_ok_def)
  then show ?case using step IH es
    by (intro exI [of _ "?s # ss'"] exI [of _ "map (shift_entry base) mid @ es'"] exI [of _ pb])
      (simp add: plan2_def plan1_def add.assoc)
qed

section \<open>The parser on a header in memory\<close>

text \<open>What finishing a plan that satisfies the invariant gives, before the last comparison.\<close>

definition finished :: "u64 \<Rightarrow> FFU_PLAN \<Rightarrow> bool" where
  "finished sz plan \<longleftrightarrow>
     stores plan \<noteq> [] \<and> length (stores plan) = unat (store_count plan) \<and>
     length (entries plan) = unat (entry_count plan) \<and>
     layout sz 0 0 (stores plan) (entries plan) \<and>
     total_payload_bytes plan = total_bytes (entries plan) \<and> header_size plan = payload_base plan"

lemma finish_plan_layout:
  assumes inv: "pinv sz ps" "stores (ps_plan ps) \<noteq> []"
  obtains plan where "finished sz plan"
    "finish_plan short lim ps = Some (if header_size plan = 0 \<or> lim < header_size plan then short else EFI_SUCCESS,
       plan, ps_world ps)"
proof -
  let ?p = "ps_plan ps"
  have cnt: "length (stores ?p) = unat (store_count ?p)" "length (entries ?p) = unat (entry_count ?p)"
    using inv(1) by (simp_all add: pinv_def store_array.fits_def entry_array.fits_def)
  have lt: "length ([] @ entries ?p) < 2 ^ 32"
    using cnt(2) unat_u32_lt [of "entry_count ?p"] by simp
  obtain ss' es' pb where pl: "place_stores (unat (store_count ?p)) 0 (ps_cursor ps) ?p =
           Some (?p\<lparr>stores := ss', entries := es', payload_base := pb,
                   total_payload_bytes := total_bytes (entries ?p)\<rparr>)"
      "layout sz 0 0 ss' es'" "length ss' = length (stores ?p)" "length es' = length (entries ?p)"
      "total_bytes es' = total_bytes (entries ?p)"
    using place_stores_spec [of ?p "[]" "stores ?p" "[]" "entries ?p" sz 0 "ps_cursor ps"] inv(1) lt cnt(1)
    by (auto simp: pinv_def)
  define plan where "plan = ?p\<lparr>stores := ss', entries := es', payload_base := pb,
      total_payload_bytes := total_bytes (entries ?p), header_size := pb\<rparr>"
  have "ss' \<noteq> []" using pl(3) inv(2) by (metis length_0_conv)
  then have "finished sz plan"
    unfolding finished_def plan_def using pl(2,5) pl(3,4) [unfolded cnt] by simp
  moreover have "finish_plan short lim ps = Some (if header_size plan = 0 \<or> lim < header_size plan then short
      else EFI_SUCCESS, plan, ps_world ps)"
    by (simp add: finish_plan_def pl(1) plan_def Let_def)
  ultimately show thesis by (rule that)
qed

lemma finish_plan_post:
  assumes inv: "pinv sz ps" "stores (ps_plan ps) \<noteq> []" and short: "EFI_ERROR short"
  shows "\<exists>st plan. finish_plan short sz ps = Some (st, plan, ps_world ps)
    \<and> (st = EFI_SUCCESS \<and> plan_wf sz plan \<or> EFI_ERROR st)"
proof -
  obtain plan where p: "finished sz plan"
    "finish_plan short sz ps = Some (if header_size plan = 0 \<or> sz < header_size plan then short else EFI_SUCCESS,
       plan, ps_world ps)"
    using finish_plan_layout [OF inv] .
  then show ?thesis using short by (auto simp: finished_def plan_wf_def not_less)
qed

lemma hdr_sections_post:
  assumes sz: "unat sz \<le> length data" "unat sz < 2 ^ 35"
  shows "sec_post w (\<lambda>ps. pinv sz ps \<and> stores (ps_plan ps) \<noteq> []) (hdr_sections E data sz w)"
proof -
  have w: "ps_world (start_pstate sz w) = w" by (simp add: start_pstate_def)
  have a: "sec_post w fresh (hdr_security data sz (start_pstate sz w))"
    using security_post [OF sz(1) fresh_start, of sz w] w by simp
  have b: "sec_post w (\<lambda>ps. fresh ps \<and> ps_cursor ps \<le> sz)
      (and_then (hdr_security data sz (start_pstate sz w)) (hdr_image data sz))"
    by (rule sec_post_and_then [OF a]) (rule image_post [OF sz(1)])
  have c: "sec_post w (\<lambda>ps. fresh ps \<and> ps_cursor ps \<le> sz)
      (and_then (and_then (hdr_security data sz (start_pstate sz w)) (hdr_image data sz))
       (\<lambda>ps. hdr_validation data sz (unat (validation_descriptor_count (ps_plan ps))) ps))"
    by (rule sec_post_and_then [OF b]) (use validation_post [OF sz(1)] in blast)
  show ?thesis unfolding hdr_sections_def
  proof (rule sec_post_and_then [OF c])
    fix ps assume "fresh ps \<and> ps_cursor ps \<le> sz"
    then show "sec_post (ps_world ps) (\<lambda>ps. pinv sz ps \<and> stores (ps_plan ps) \<noteq> []) (hdr_stores E data sz ps)"
      using hdr_stores_post [OF sz pinv_fresh] by (simp add: fresh_def)
  qed
qed

lemma parse_header_post:
  assumes sz: "unat sz \<le> length data" "unat sz < 2 ^ 35"
  shows "\<exists>st plan' w'. ffu_parse_header_bytes E (Some data) sz plan w = Some (st, plan', w')
    \<and> same_io w w' \<and> (st = EFI_SUCCESS \<and> plan_wf sz plan' \<or> EFI_ERROR st)"
proof -
  have p: "sec_post w (\<lambda>ps. pinv sz ps \<and> stores (ps_plan ps) \<noteq> []) (hdr_sections E data sz w)"
    using hdr_sections_post [OF sz] .
  show ?thesis
  proof (cases "hdr_sections E data sz w")
    case None
    then show ?thesis using p by simp
  next
    case (Some r)
    show ?thesis
    proof (cases r)
      case (Inl e)
      then show ?thesis using p Some by (cases e) (auto simp: ffu_parse_header_bytes_def)
    next
      case (Inr ps)
      then have ps: "pinv sz ps" "stores (ps_plan ps) \<noteq> []" "same_io w (ps_world ps)"
        using p Some by auto
      show ?thesis
        using finish_plan_post [OF ps(1,2), of EFI_END_OF_FILE] ps(3) Some Inr
        by (auto simp: ffu_parse_header_bytes_def)
    qed
  qed
qed

lemma parse_header_success:
  assumes "unat sz \<le> length data" "unat sz < 2 ^ 35"
    and "ffu_parse_header_bytes E (Some data) sz plan w = Some (st, plan', w')" "\<not> EFI_ERROR st"
  shows "plan_wf sz plan'" "st = EFI_SUCCESS" "same_io w w'"
  using parse_header_post [OF assms(1,2), of E plan w] assms(3,4) by auto

end
