(* ===== verification/Ffu_Flash.thy ===== *)
theory Ffu_Flash
  imports Ffu_Wf "HOL-Library.Sublist"
begin

text \<open>
  The rest of \<open>src/ffu.c\<close>: opening the image file (lines 66-146), printing a plan and counting
  its packets (593-653), and flashing a parsed file to a Block I/O device (655-755).
\<close>

section \<open>Opening a file\<close>

text \<open>The loop of \<open>make_open_path\<close> over the characters that are left.\<close>

fun open_path_loop :: "CHAR16 list \<Rightarrow> nat \<Rightarrow> CHAR16 list \<Rightarrow> nat \<Rightarrow> nat \<Rightarrow> CHAR16 list option" where
  "open_path_loop copy i path start 0 = Some copy"
| "open_path_loop copy i path start (Suc n) = do {
     ch \<leftarrow> peek path (start + i);
     copy \<leftarrow> poke copy i [if ch = 0x2f then 0x5c else ch];
     open_path_loop copy (Suc i) path start n }"

text \<open>An allocation of characters: twice as many bytes, zeroed.\<close>

definition alloc_chars :: "env \<Rightarrow> u64 \<Rightarrow> world \<Rightarrow> CHAR16 list option \<times> world" where
  "alloc_chars E n w = (case uefi_alloc E (n * 2) w of
     (None, w) \<Rightarrow> (None, w) | (Some b, w) \<Rightarrow> (Some (replicate (length b div 2) 0), w))"

definition make_open_path ::
    "env \<Rightarrow> CHAR16 list option \<Rightarrow> u64 \<Rightarrow> world \<Rightarrow> (EFI_STATUS \<times> CHAR16 list \<times> world) option" where
  "make_open_path E path path_len w =
     (case path of None \<Rightarrow> Some (EFI_INVALID_PARAMETER, [], w)
      | Some path \<Rightarrow>
        if path_len = 0 then Some (EFI_INVALID_PARAMETER, [], w)
        else do {
          drive \<leftarrow> andM (Some (3 \<le> path_len)) (do { c \<leftarrow> peek path 2; Some (c = 0x3a) });
          let start = (if drive then 3 else 0);
          let len = path_len - start;
          (case alloc_chars E (len + 1) w of
             (None, w) \<Rightarrow> Some (EFI_OUT_OF_RESOURCES, [], w)
           | (Some copy, w) \<Rightarrow> do {
               copy \<leftarrow> open_path_loop copy 0 path (unat start) (unat len);
               copy \<leftarrow> poke copy (unat len) [0];
               Some (EFI_SUCCESS, copy, w) }) })"

definition HandleProtocol_call :: "env \<Rightarrow> EFI_GUID \<Rightarrow> world \<Rightarrow> EFI_STATUS \<times> world" where
  "HandleProtocol_call E g w = (let w = emit (HandleProtocol g) w in (handle_protocol E (trace w), w))"

definition SetPosition_call :: "env \<Rightarrow> u64 \<Rightarrow> world \<Rightarrow> EFI_STATUS \<times> world" where
  "SetPosition_call E n w = (let w = emit (FileSetPosition n) w in (set_position E (trace w), w))"

text \<open>The size of an open file: seek to its end, ask for the position, seek back.\<close>

definition file_size_of :: "env \<Rightarrow> world \<Rightarrow> EFI_STATUS \<times> u64 \<times> world" where
  "file_size_of E w =
     (let (st, w) = SetPosition_call E (- 1) w
      in if EFI_ERROR st then (st, 0, w)
         else let w = emit FileGetPosition w; (st, n) = get_position E (trace w)
              in if EFI_ERROR st then (st, n, w)
                 else let (st, w) = SetPosition_call E 0 w in (st, n, w))"

definition closed_view :: UEFI_FILE_VIEW where
  "closed_view = \<lparr>file_open = False, view_size = 0\<rparr>"

definition file_open_from_image ::
    "env \<Rightarrow> CHAR16 list option \<Rightarrow> u64 \<Rightarrow> world \<Rightarrow> (EFI_STATUS \<times> UEFI_FILE_VIEW \<times> world) option" where
  "file_open_from_image E path path_len w = do {
     (st, open_path, w) \<leftarrow> make_open_path E path path_len w;
     if EFI_ERROR st then Some (st, closed_view, w)
     else let (st, w) = HandleProtocol_call E gEfiLoadedImageProtocolGuid w
       in if EFI_ERROR st then Some (st, closed_view, uefi_free E True w)
       else let (st, w) = HandleProtocol_call E gEfiSimpleFileSystemProtocolGuid w
       in if EFI_ERROR st then Some (st, closed_view, uefi_free E True w)
       else let w = emit OpenVolume w; st = open_volume E (trace w)
       in if EFI_ERROR st then Some (st, closed_view, uefi_free E True w)
       else let w = emit (FileOpen open_path EFI_FILE_MODE_READ 0) w; st = open_file E (trace w);
                w = emit FileClose w; w = uefi_free E True w
       in if EFI_ERROR st then Some (st, closed_view, w)
       else let (st, n, w) = file_size_of E w
       in if EFI_ERROR st then Some (st, closed_view, emit FileClose w)
       else Some (EFI_SUCCESS, \<lparr>file_open = True, view_size = n\<rparr>, w) }"

section \<open>Printing\<close>

definition say :: "env \<Rightarrow> string \<Rightarrow> world \<Rightarrow> world" where
  "say E s w = con_puta E (asc s) w"

definition say_dec :: "env \<Rightarrow> string \<Rightarrow> u64 \<Rightarrow> world \<Rightarrow> world" where
  "say_dec E s n w = con_put_dec E n (say E s w)"

fun print_stores :: "env \<Rightarrow> FFU_PLAN \<Rightarrow> nat \<Rightarrow> nat \<Rightarrow> world \<Rightarrow> world option" where
  "print_stores E plan i 0 w = Some w"
| "print_stores E plan i (Suc n) w = do {
     s \<leftarrow> peek (stores plan) i;
     let w = say_dec E ''Store '' (of_nat i) w;
     let w = say_dec E '': block='' (ucast (block_size s)) w;
     let w = say_dec E '' descriptors='' (ucast (descriptor_count s)) w;
     let w = con_put_hex E (store_payload_base s) 12 (say E '' payload_base='' w);
     let w = say_dec E '' payload_size='' (payload_size s) w;
     print_stores E plan (Suc i) n (con_crlf E w) }"

definition ffu_print_summary :: "env \<Rightarrow> FFU_PLAN \<Rightarrow> world \<Rightarrow> (EFI_STATUS \<times> world) option" where
  "ffu_print_summary E plan w = do {
     let w = con_crlf E (say_dec E ''FFU file size: '' (file_size plan) w);
     let w = con_crlf E (say_dec E ''FFU header size sent by UFP: '' (header_size plan) w);
     let w = con_crlf E (say_dec E ''Chunk size: '' (ucast (chunk_size plan)) w);
     let w = con_crlf E (say_dec E ''Manifest length: '' (ucast (manifest_length plan)) w);
     let w = con_crlf E (say_dec E ''Validation descriptors: '' (ucast (validation_descriptor_count plan)) w);
     let w = con_crlf E (say_dec E ''Stores: '' (ucast (store_count plan)) w);
     let w = con_crlf E (say_dec E ''Write descriptors: '' (ucast (entry_count plan)) w);
     let w = con_crlf E (say_dec E ''Payload bytes described: '' (total_payload_bytes plan) w);
     w \<leftarrow> print_stores E plan 0 (unat (store_count plan)) w;
     Some (EFI_SUCCESS, w) }"

section \<open>Counting packets\<close>

text \<open>A round that places nothing starts from a full packet and opens a new one.\<close>

definition packet_measure :: "u32 \<Rightarrow> u32 \<Rightarrow> nat" where
  "packet_measure left in_packet = 2 * unat left + (if in_packet = UFP_MAX_PAYLOAD_DATA then 1 else 0)"

lemma packet_round:
  fixes left in_packet :: u32
  defines "room \<equiv> UFP_MAX_PAYLOAD_DATA - in_packet"
  defines "tk \<equiv> (if left < room then left else room)"
  assumes "left \<noteq> 0"
  shows "in_packet + tk = UFP_MAX_PAYLOAD_DATA \<Longrightarrow> packet_measure (left - tk) 0 < packet_measure left in_packet"
    "in_packet + tk \<noteq> UFP_MAX_PAYLOAD_DATA \<Longrightarrow> packet_measure (left - tk) (in_packet + tk) < packet_measure left in_packet"
proof -
  have tk: "tk \<le> left" by (auto simp: tk_def not_less)
  have z: "(0 :: u32) \<noteq> UFP_MAX_PAYLOAD_DATA" by (simp add: UFP_MAX_PAYLOAD_DATA_def)
  have small: "unat (left - tk) < unat left" if "tk \<noteq> 0"
  proof -
    have "0 < unat tk" using that by (simp add: unat_gt_0)
    moreover have "unat tk \<le> unat left" using tk by (simp add: word_le_nat_alt)
    ultimately show ?thesis using word_le_sub_unat [OF tk] by simp
  qed
  have full: "in_packet = UFP_MAX_PAYLOAD_DATA" if "tk = 0"
    using that assms(3) by (auto simp: tk_def room_def split: if_splits)
  show "in_packet + tk = UFP_MAX_PAYLOAD_DATA \<Longrightarrow> packet_measure (left - tk) 0 < packet_measure left in_packet"
    using small full z by (cases "tk = 0") (auto simp: packet_measure_def)
  show "in_packet + tk \<noteq> UFP_MAX_PAYLOAD_DATA \<Longrightarrow> packet_measure (left - tk) (in_packet + tk) < packet_measure left in_packet"
    using small full by (cases "tk = 0") (auto simp: packet_measure_def)
qed

text \<open>The loop over one entry: \<open>in_packet\<close> bytes are in the current packet and \<open>left\<close> are
  still to be placed.\<close>

function packet_fill :: "u32 \<Rightarrow> u32 \<Rightarrow> u64 \<Rightarrow> u32 \<times> u64" where
  "packet_fill left in_packet packets =
     (if left = 0 then (in_packet, packets)
      else let room = UFP_MAX_PAYLOAD_DATA - in_packet;
               tk = (if left < room then left else room);
               in_packet = in_packet + tk
           in if in_packet = UFP_MAX_PAYLOAD_DATA then packet_fill (left - tk) 0 (packets + 1)
              else packet_fill (left - tk) in_packet packets)"
  by pat_completeness auto
termination
proof (relation "measure (\<lambda>(left, in_packet, packets). packet_measure left in_packet)", goal_cases)
  case (2 left in_packet packets room tk q)
  then show ?case using packet_round(1) [of left in_packet] by (simp only: in_measure prod.case simp_thms)
next
  case (3 left in_packet packets room tk q)
  then show ?case using packet_round(2) [of left in_packet] by (simp only: in_measure prod.case simp_thms)
qed simp

declare packet_fill.simps [simp del]

fun packet_entries :: "FFU_PLAN \<Rightarrow> nat \<Rightarrow> nat \<Rightarrow> u32 \<Rightarrow> u64 \<Rightarrow> (u32 \<times> u64) option" where
  "packet_entries plan i 0 in_packet packets = Some (in_packet, packets)"
| "packet_entries plan i (Suc n) in_packet packets = do {
     e \<leftarrow> peek (entries plan) i;
     let (in_packet, packets) = packet_fill (byte_count e) in_packet packets;
     packet_entries plan (Suc i) n in_packet packets }"

definition ffu_packet_dry_run :: "env \<Rightarrow> FFU_PLAN \<Rightarrow> world \<Rightarrow> (EFI_STATUS \<times> world) option" where
  "ffu_packet_dry_run E plan w = do {
     let header_packets = (header_size plan + ucast UFP_MAX_HEADER_DATA - 1) div ucast UFP_MAX_HEADER_DATA;
     (in_packet, packets) \<leftarrow> packet_entries plan 0 (unat (entry_count plan)) 0 0;
     let packets = (if in_packet \<noteq> 0 then packets + 1 else packets);
     let packets = packets + 1;
     let w = con_crlf E (say E ''Recovered UFP packet plan'' w);
     let w = say E '' max data '' (say_dec E ''  Secure header packets: '' header_packets w);
     let w = con_crlf E (con_put_hex E (ucast UFP_MAX_HEADER_DATA) 8 w);
     let w = say E '' plus final progress=100 packet'' (say_dec E ''  Secure payload packets: '' packets w);
     let w = con_crlf E w;
     let w = con_crlf E (say E ''  Switch reboot request: 7 bytes NOKXCBR'' w);
     Some (EFI_SUCCESS, w) }"

section \<open>Flashing a parsed file\<close>

definition read_location ::
    "env \<Rightarrow> UEFI_FILE_VIEW \<Rightarrow> u64 \<Rightarrow> u32 \<Rightarrow> world \<Rightarrow> (EFI_STATUS \<times> u32 \<times> u32 \<times> world) option" where
  "read_location E view desc index w =
     (let (st, loc, w) = file_read_exact E view (desc + 8 + ucast index * 8) 8 w
      in if EFI_ERROR st then Some (st, 0, 0, w)
         else do {
           method \<leftarrow> rd_le32 loc;
           block \<leftarrow> rd_le32 (drop 4 loc);
           Some (EFI_SUCCESS, method, block, w) })"

text \<open>The copy loop of one location. The status variable of the C function and the buffer are
  passed along: a warning of the firmware stays in the one, the bytes of a short read in the
  other. Block sizes of zero are refused before the loop.\<close>

definition copy_take :: "u32 \<Rightarrow> u64 \<Rightarrow> u32 \<Rightarrow> u64" where
  "copy_take remaining buffer_size media_block =
     (let tk = (if ucast remaining < buffer_size then ucast remaining else buffer_size)
      in tk - tk mod ucast media_block)"

definition copy_round ::
    "env \<Rightarrow> UEFI_FILE_VIEW \<Rightarrow> u32 \<Rightarrow> u32 \<Rightarrow> bool \<Rightarrow> u64 \<Rightarrow> u64 \<Rightarrow> EFI_STATUS \<Rightarrow> bytes \<Rightarrow> u64 \<Rightarrow> u32 \<Rightarrow> world
      \<Rightarrow> (EFI_STATUS \<times> bytes \<times> world) option" where
  "copy_round E view mid media_block commit payload lba st buffer tk copied w =
     (if commit then
        let (st, got, w) = file_read_exact E view (payload + ucast copied) tk w
        in do {
          buffer \<leftarrow> poke buffer 0 got;
          if EFI_ERROR st then Some (st, buffer, w)
          else do {
            d \<leftarrow> load buffer 0 (unat tk);
            let (st, w) = WriteBlocks_call E mid (lba + ucast (copied div media_block)) tk d w;
            Some (st, buffer, w) } }
      else Some (st, buffer, w))"

lemma copy_take_unat:
  assumes "mb \<noteq> 0"
  shows "unat (copy_take remaining bsz mb) = min (unat remaining) (unat bsz) div unat mb * unat mb"
    "unat (ucast (copy_take remaining bsz mb) :: u32) = unat (copy_take remaining bsz mb)"
    "unat (copy_take remaining bsz mb) \<le> unat remaining" "unat (copy_take remaining bsz mb) \<le> unat bsz"
proof -
  let ?t = "if (ucast remaining :: u64) < bsz then ucast remaining else bsz"
  have t: "unat ?t = min (unat remaining) (unat bsz)" by (simp add: word_less_nat_alt)
  have "?t mod ucast mb \<le> ?t" by (simp add: word_le_nat_alt unat_mod_distrib)
  then have "unat (copy_take remaining bsz mb) = unat ?t - unat ?t mod unat mb"
    by (simp add: copy_take_def Let_def word_le_sub_unat unat_mod_distrib)
  also have "\<dots> = min (unat remaining) (unat bsz) div unat mb * unat mb"
    by (simp only: t minus_mod_eq_div_mult)
  finally show e: "unat (copy_take remaining bsz mb) = min (unat remaining) (unat bsz) div unat mb * unat mb" .
  have "min (unat remaining) (unat bsz) div unat mb * unat mb \<le> min (unat remaining) (unat bsz)"
    by (rule div_times_less_eq_dividend)
  then show le: "unat (copy_take remaining bsz mb) \<le> unat remaining" "unat (copy_take remaining bsz mb) \<le> unat bsz"
    unfolding e by simp_all
  show "unat (ucast (copy_take remaining bsz mb) :: u32) = unat (copy_take remaining bsz mb)"
    using le(1) unat_u32_lt [of remaining] by (intro unat_ucast_small) simp
qed

function copy_loop ::
    "env \<Rightarrow> UEFI_FILE_VIEW \<Rightarrow> u32 \<Rightarrow> u32 \<Rightarrow> bool \<Rightarrow> u64 \<Rightarrow> u64 \<Rightarrow> u64 \<Rightarrow> EFI_STATUS \<Rightarrow> bytes \<Rightarrow> u32 \<Rightarrow> u32 \<Rightarrow> world
      \<Rightarrow> (EFI_STATUS \<times> bytes \<times> world) option" where
  "copy_loop E view mid media_block commit payload lba buffer_size st buffer remaining copied w =
     (if remaining = 0 then Some (st, buffer, w)
      else let tk = copy_take remaining buffer_size media_block
           in if tk = 0 then Some (EFI_BAD_BUFFER_SIZE, buffer, w)
              else (case copy_round E view mid media_block commit payload lba st buffer tk copied w of
                None \<Rightarrow> None
              | Some (st, buffer, w) \<Rightarrow>
                  if EFI_ERROR st then Some (st, buffer, w)
                  else copy_loop E view mid media_block commit payload lba buffer_size st buffer
                    (remaining - ucast tk) (copied + ucast tk) w))"
  by pat_completeness auto
termination
proof (relation "measure (\<lambda>(E, view, mid, mb, commit, payload, lba, bsz, st, buffer, remaining, copied, w). unat remaining)",
    goal_cases)
  case 1
  show ?case by simp
next
  case (2 E view mid mb commit payload lba bsz st buffer remaining copied w tk x st' y buffer' w')
  then have tk: "tk = copy_take remaining bsz mb" "tk \<noteq> 0" by simp_all
  then have mb: "mb \<noteq> 0" by (auto simp: copy_take_def Let_def)
  have u: "unat (ucast tk :: u32) = unat tk" "unat tk \<le> unat remaining"
    using copy_take_unat [OF mb, of remaining bsz] tk(1) by simp_all
  then have "unat (remaining - ucast tk) = unat remaining - unat tk"
    by (simp add: word_le_sub_unat word_le_nat_alt)
  moreover have "0 < unat tk" using tk(2) by (simp add: unat_gt_0)
  ultimately show ?case using u(2) by simp
qed

declare copy_loop.simps [simp del]

definition flash_location ::
    "env \<Rightarrow> UEFI_FILE_VIEW \<Rightarrow> EFI_BLOCK_IO_MEDIA \<Rightarrow> bool \<Rightarrow> FFU_WRITE_ENTRY \<Rightarrow> FFU_STORE \<Rightarrow> u64 \<Rightarrow> bytes \<Rightarrow> u32 \<Rightarrow> world
      \<Rightarrow> (EFI_STATUS \<times> bytes \<times> world) option" where
  "flash_location E view media commit entry store buffer_size buffer l w = do {
     (st, method, block, w) \<leftarrow> read_location E view (descriptor_offset entry) l w;
     if EFI_ERROR st then Some (st, buffer, w)
     else if method \<noteq> 0 then
       let w = con_crlf E (con_put_dec E (ucast method)
             (say E ''Unsupported non-absolute disk access method in FFU descriptor: '' w))
       in Some (EFI_UNSUPPORTED, buffer, w)
     else
       let media_block = BlockSize media;
           target_byte = ucast block * ucast (block_size store) :: u64;
           lba = target_byte div ucast media_block
       in if target_byte mod ucast media_block \<noteq> 0 then Some (EFI_UNSUPPORTED, buffer, w)
          else if LastBlock media < lba
            \<or> LastBlock media - lba + 1 < ucast (byte_count entry div media_block)
          then Some (EFI_BAD_BUFFER_SIZE, buffer, w)
          else copy_loop E view (MediaId media) media_block commit (payload_offset entry) lba buffer_size st buffer
            (byte_count entry) 0 w }"

fun flash_locations ::
    "env \<Rightarrow> UEFI_FILE_VIEW \<Rightarrow> EFI_BLOCK_IO_MEDIA \<Rightarrow> bool \<Rightarrow> FFU_WRITE_ENTRY \<Rightarrow> FFU_STORE \<Rightarrow> u64 \<Rightarrow> EFI_STATUS \<Rightarrow> bytes \<Rightarrow> nat \<Rightarrow> u32 \<Rightarrow> world
      \<Rightarrow> (EFI_STATUS \<times> bytes \<times> world) option" where
  "flash_locations E view media commit entry store bsz st buffer 0 l w = Some (st, buffer, w)"
| "flash_locations E view media commit entry store bsz st buffer (Suc n) l w = do {
     (st, buffer, w) \<leftarrow> flash_location E view media commit entry store bsz buffer l w;
     if EFI_ERROR st then Some (st, buffer, w)
     else flash_locations E view media commit entry store bsz st buffer n (l + 1) w }"

definition flash_progress :: "env \<Rightarrow> FFU_PLAN \<Rightarrow> u32 \<Rightarrow> world \<Rightarrow> world" where
  "flash_progress E plan i w =
     (if i mod 128 = 0 \<or> i + 1 = entry_count plan then
        con_crlf E (con_put_dec E (ucast (entry_count plan)) (say E ''/'' (say_dec E ''  descriptor '' (ucast (i + 1)) w)))
      else w)"

text \<open>The loop over the entries ends in one of two places: a \<open>goto out\<close> skips the flush (\<open>True\<close>), the
  regular end and the \<open>break\<close> of an entry that is no multiple of the device's blocks do not.\<close>

fun flash_entries ::
    "env \<Rightarrow> UEFI_FILE_VIEW \<Rightarrow> FFU_PLAN \<Rightarrow> EFI_BLOCK_IO_MEDIA \<Rightarrow> bool \<Rightarrow> u64 \<Rightarrow> EFI_STATUS \<Rightarrow> bytes \<Rightarrow> nat \<Rightarrow> u32 \<Rightarrow> world
      \<Rightarrow> (bool \<times> EFI_STATUS \<times> bytes \<times> world) option" where
  "flash_entries E view plan media commit bsz st buffer 0 i w = Some (False, st, buffer, w)"
| "flash_entries E view plan media commit bsz st buffer (Suc n) i w = do {
     entry \<leftarrow> peek (entries plan) (unat i);
     store \<leftarrow> peek (stores plan) (unat (store_index entry));
     if byte_count entry mod BlockSize media \<noteq> 0 then Some (False, EFI_UNSUPPORTED, buffer, w)
     else do {
       (st, buffer, w) \<leftarrow> flash_locations E view media commit entry store bsz st buffer (unat (location_count entry)) 0 w;
       if EFI_ERROR st then Some (True, st, buffer, w)
       else flash_entries E view plan media commit bsz st buffer n (i + 1) (flash_progress E plan i w) } }"

definition flash_buffer_size :: "u32 \<Rightarrow> u64" where
  "flash_buffer_size media_block =
     (let buffer_size = 1024 * 1024;
          buffer_size = (if buffer_size < ucast media_block then ucast media_block else buffer_size)
      in buffer_size - buffer_size mod ucast media_block)"

definition ffu_flash_to_block_io ::
    "env \<Rightarrow> UEFI_FILE_VIEW \<Rightarrow> FFU_PLAN \<Rightarrow> EFI_BLOCK_IO_PROTOCOL option \<Rightarrow> bool \<Rightarrow> world \<Rightarrow> (EFI_STATUS \<times> world) option" where
  "ffu_flash_to_block_io E view plan bio commit w =
     (case bio of None \<Rightarrow> Some (EFI_INVALID_PARAMETER, w) | Some bio \<Rightarrow>
     (case Media bio of None \<Rightarrow> Some (EFI_INVALID_PARAMETER, w) | Some media \<Rightarrow>
        if \<not> MediaPresent media \<or> ReadOnly media \<or> BlockSize media = 0 then Some (EFI_UNSUPPORTED, w)
        else let bsz = flash_buffer_size (BlockSize media) in
        (case uefi_alloc E bsz w of
           (None, w) \<Rightarrow> Some (EFI_OUT_OF_RESOURCES, w)
         | (Some buffer, w) \<Rightarrow> do {
             let w = con_crlf E (say E (if commit then ''Flash mode: COMMIT'' else ''Flash mode: dry-run'') w);
             (out, st, buffer, w) \<leftarrow> flash_entries E view plan media commit bsz EFI_SUCCESS buffer (unat (entry_count plan)) 0 w;
             let (st, w) = (if \<not> out \<and> commit \<and> FlushBlocks bio then FlushBlocks_call E w else (st, w));
             Some (st, uefi_free E True w) })))"

end
