(* ===== verification/Ffu_Stream.thy ===== *)
theory Ffu_Stream
  imports Ffu_Wf "HOL-Library.Sublist"
begin

text \<open>
  The stream flasher of \<open>src/ffu.c\<close> (lines 757-887): payload bytes arrive in chunks of any
  size, are collected in the buffer of the current write descriptor, and a completed
  descriptor is written to each of its locations. The context keeps a pointer to the header
  that the caller received; the header is not copied. Buffers that the caller may free or
  overwrite live in a heap that maps the number of an allocation to its bytes.
\<close>

section \<open>State\<close>

type_synonym heap = "nat \<Rightarrow> bytes option"

record FFU_STREAM_FLASH =
  plan :: FFU_PLAN
  bio :: "EFI_BLOCK_IO_PROTOCOL option"
  header :: "nat option"
  hdr_size :: u64
  entry_data :: bytes
  entry_capacity :: u32
  entry_index :: u32
  entry_received :: u32
  media_block :: u32
  media_id :: u32
  dry_run :: u32
  final_state :: u32
  last_sector :: u32

definition zero_ctx :: FFU_STREAM_FLASH where
  "zero_ctx = \<lparr>plan = zero_plan, bio = None, header = None, hdr_size = 0, entry_data = [],
     entry_capacity = 0, entry_index = 0, entry_received = 0, media_block = 0, media_id = 0,
     dry_run = 0, final_state = 0, last_sector = 0\<rparr>"

text \<open>What a pointer that may be null points to; a freed buffer is undefined behaviour.\<close>

definition deref :: "heap \<Rightarrow> nat option \<Rightarrow> bytes option option" where
  "deref H a = (case a of None \<Rightarrow> Some None | Some a \<Rightarrow> map_option Some (H a))"

section \<open>Operations\<close>

definition read_location_mem ::
    "heap \<Rightarrow> nat option \<Rightarrow> u64 \<Rightarrow> u64 \<Rightarrow> u32 \<Rightarrow> (EFI_STATUS \<times> u32 \<times> u32) option" where
  "read_location_mem H hdr sz desc index = do {
     p \<leftarrow> deref H hdr;
     (st, loc) \<leftarrow> mem_read_exact p sz (desc + 8 + ucast index * 8) 8;
     if EFI_ERROR st then Some (st, 0, 0)
     else do {
       method \<leftarrow> rd_le32 loc;
       block \<leftarrow> rd_le32 (drop 4 loc);
       Some (EFI_SUCCESS, method, block) } }"

text \<open>One location of a completed entry, and the loop over the locations from \<open>l\<close> on.\<close>

definition stream_location ::
    "env \<Rightarrow> heap \<Rightarrow> FFU_STREAM_FLASH \<Rightarrow> FFU_WRITE_ENTRY \<Rightarrow> FFU_STORE \<Rightarrow> u32 \<Rightarrow> world
      \<Rightarrow> (EFI_STATUS \<times> FFU_STREAM_FLASH \<times> world) option" where
  "stream_location E H ctx entry store l w = do {
     (st, method, block) \<leftarrow> read_location_mem H (header ctx) (hdr_size ctx) (descriptor_offset entry) l;
     if EFI_ERROR st then Some (st, ctx, w)
     else if method \<noteq> 0 then Some (EFI_UNSUPPORTED, ctx, w)
     else if media_block ctx = 0 then None
     else let target_byte = ucast block * ucast (block_size store) :: u64;
              lba = target_byte div ucast (media_block ctx)
     in if target_byte mod ucast (media_block ctx) \<noteq> 0 \<or> byte_count entry mod media_block ctx \<noteq> 0
     then Some (EFI_UNSUPPORTED, ctx, w)
     else do {
       (st, w) \<leftarrow> (if dry_run ctx \<noteq> 0 then Some (EFI_SUCCESS, w)
          else do {
            b \<leftarrow> bio ctx;
            d \<leftarrow> load (entry_data ctx) 0 (unat (byte_count entry));
            Some (WriteBlocks_call E (media_id ctx) lba (ucast (byte_count entry)) d w) });
       if EFI_ERROR st then Some (st, ctx, w)
       else Some (EFI_SUCCESS,
              ctx\<lparr>last_sector := ucast (lba + ucast (byte_count entry div media_block ctx) - 1)\<rparr>, w) } }"

fun stream_locations ::
    "env \<Rightarrow> heap \<Rightarrow> FFU_STREAM_FLASH \<Rightarrow> FFU_WRITE_ENTRY \<Rightarrow> FFU_STORE \<Rightarrow> nat \<Rightarrow> u32 \<Rightarrow> world
      \<Rightarrow> (EFI_STATUS \<times> FFU_STREAM_FLASH \<times> world) option" where
  "stream_locations E H ctx entry store 0 l w = Some (EFI_SUCCESS, ctx, w)"
| "stream_locations E H ctx entry store (Suc n) l w = do {
     (st, ctx, w) \<leftarrow> stream_location E H ctx entry store l w;
     if EFI_ERROR st then Some (st, ctx, w)
     else stream_locations E H ctx entry store n (l + 1) w }"

definition stream_write_completed_entry ::
    "env \<Rightarrow> heap \<Rightarrow> FFU_STREAM_FLASH \<Rightarrow> FFU_WRITE_ENTRY \<Rightarrow> world
      \<Rightarrow> (EFI_STATUS \<times> FFU_STREAM_FLASH \<times> world) option" where
  "stream_write_completed_entry E H ctx entry w = do {
     store \<leftarrow> peek (stores (plan ctx)) (unat (store_index entry));
     stream_locations E H ctx entry store (unat (location_count entry)) 0 w }"

fun max_entry_loop :: "FFU_PLAN \<Rightarrow> nat \<Rightarrow> nat \<Rightarrow> u32 \<Rightarrow> u32 option" where
  "max_entry_loop p 0 i m = Some m"
| "max_entry_loop p (Suc n) i m = do {
     e \<leftarrow> peek (entries p) i;
     max_entry_loop p n (Suc i) (if m < byte_count e then byte_count e else m) }"

definition ffu_stream_flash_init ::
    "env \<Rightarrow> heap \<Rightarrow> FFU_STREAM_FLASH \<Rightarrow> nat option \<Rightarrow> u64 \<Rightarrow> EFI_BLOCK_IO_PROTOCOL option \<Rightarrow> bool
      \<Rightarrow> world \<Rightarrow> (EFI_STATUS \<times> FFU_STREAM_FLASH \<times> world) option" where
  "ffu_stream_flash_init E H ctx hdr sz b commit w =
     (case Option.bind b Media of
        None \<Rightarrow> Some (EFI_INVALID_PARAMETER, ctx, w)
      | Some m \<Rightarrow>
        if hdr = None then Some (EFI_INVALID_PARAMETER, ctx, w)
        else if \<not> MediaPresent m \<or> ReadOnly m \<or> BlockSize m = 0 then Some (EFI_UNSUPPORTED, zero_ctx, w)
        else do {
          p \<leftarrow> deref H hdr;
          (st, pl, w) \<leftarrow> ffu_parse_header_bytes E p sz zero_plan w;
          if EFI_ERROR st then let (pl, w) = ffu_plan_free E pl w in Some (st, zero_ctx\<lparr>plan := pl\<rparr>, w)
          else do {
            mx \<leftarrow> max_entry_loop pl (unat (entry_count pl)) 0 0;
            if mx = 0 \<or> UFP_MAX_PAYLOAD_DATA < mx
            then let (pl, w) = ffu_plan_free E pl w in Some (EFI_UNSUPPORTED, zero_ctx\<lparr>plan := pl\<rparr>, w)
            else case uefi_alloc E (ucast mx) w of
              (None, w) \<Rightarrow> let (pl, w) = ffu_plan_free E pl w in Some (EFI_OUT_OF_RESOURCES, zero_ctx\<lparr>plan := pl\<rparr>, w)
            | (Some d, w) \<Rightarrow> Some (EFI_SUCCESS,
                zero_ctx\<lparr>plan := pl, entry_data := d, entry_capacity := mx, bio := b, header := hdr,
                  hdr_size := sz, media_block := BlockSize m, media_id := MediaId m,
                  dry_run := (if commit then 0 else 1), last_sector := 0xffffffff\<rparr>, w) } })"

definition ffu_stream_flash_free :: "env \<Rightarrow> FFU_STREAM_FLASH \<Rightarrow> world \<Rightarrow> FFU_STREAM_FLASH \<times> world" where
  "ffu_stream_flash_free E ctx w =
     (let w = uefi_free E (entry_data ctx \<noteq> []) w;
          (pl, w) = ffu_plan_free E (plan ctx) w
      in (zero_ctx, w))"

text \<open>One round of the payload loop: the next bytes of the current entry, as many as the chunk
  still has and the entry still needs.\<close>

definition step_take :: "FFU_STREAM_FLASH \<Rightarrow> FFU_WRITE_ENTRY \<Rightarrow> u32 \<Rightarrow> u32 \<Rightarrow> u32" where
  "step_take ctx entry len pos = (let need = byte_count entry - entry_received ctx
     in if len - pos < need then len - pos else need)"

definition stream_step ::
    "env \<Rightarrow> heap \<Rightarrow> FFU_STREAM_FLASH \<Rightarrow> bytes \<Rightarrow> u32 \<Rightarrow> u32 \<Rightarrow> world
      \<Rightarrow> ((EFI_STATUS \<times> FFU_STREAM_FLASH \<times> world) + FFU_STREAM_FLASH \<times> u32 \<times> world) option" where
  "stream_step E H ctx data len pos w =
     (if entry_count (plan ctx) \<le> entry_index ctx then Some (Inl (EFI_BAD_BUFFER_SIZE, ctx, w))
      else do {
        entry \<leftarrow> peek (entries (plan ctx)) (unat (entry_index ctx));
        let tk = step_take ctx entry len pos;
        if entry_capacity ctx < entry_received ctx + tk then Some (Inl (EFI_BAD_BUFFER_SIZE, ctx, w))
        else do {
          ed \<leftarrow> memcpy (entry_data ctx) (unat (entry_received ctx)) data (unat pos) (unat tk);
          let ctx = ctx\<lparr>entry_data := ed, entry_received := entry_received ctx + tk\<rparr>;
          let pos = pos + tk;
          if entry_received ctx = byte_count entry then do {
            (st, ctx, w) \<leftarrow> stream_write_completed_entry E H ctx entry w;
            if EFI_ERROR st then Some (Inl (st, ctx, w))
            else Some (Inr (ctx\<lparr>entry_received := 0, entry_index := entry_index ctx + 1\<rparr>, pos, w)) }
          else Some (Inr (ctx, pos, w)) } })"

text \<open>A completed entry changes nothing of the context but the last sector, so every round of
  the payload loop either consumes bytes or moves to the next entry: the loop ends.\<close>

definition sector_only :: "FFU_STREAM_FLASH \<Rightarrow> (EFI_STATUS \<times> FFU_STREAM_FLASH \<times> world) option \<Rightarrow> bool" where
  "sector_only ctx r \<longleftrightarrow> (\<forall>st ctx' w'. r = Some (st, ctx', w') \<longrightarrow> (\<exists>x. ctx' = ctx\<lparr>last_sector := x\<rparr>))"

lemma sector_only_None [simp]: "sector_only ctx None"
  unfolding sector_only_def by blast

lemma sector_only_upd [simp]: "sector_only ctx (Some (st, ctx\<lparr>last_sector := x\<rparr>, w))"
  unfolding sector_only_def by blast

lemma sector_only_same [simp]: "sector_only ctx (Some (st, ctx, w))"
  using sector_only_upd [of ctx st "last_sector ctx" w] by (cases ctx) simp

lemma sector_only_bind: "(\<And>a. sector_only ctx (f a)) \<Longrightarrow> sector_only ctx (Option.bind m f)"
  by (cases m) simp_all

lemma stream_location_ctx:
  "stream_location E H ctx e s l w = Some (st, ctx', w') \<Longrightarrow> \<exists>x. ctx' = ctx\<lparr>last_sector := x\<rparr>"
proof -
  have "sector_only ctx (stream_location E H ctx e s l w)"
    unfolding stream_location_def Let_def
    by (intro sector_only_bind) (simp split: prod.split, intro allI impI conjI sector_only_bind, simp split: prod.split)
  then show "stream_location E H ctx e s l w = Some (st, ctx', w') \<Longrightarrow> \<exists>x. ctx' = ctx\<lparr>last_sector := x\<rparr>"
    by (auto simp: sector_only_def)
qed

lemma stream_locations_ctx:
  "stream_locations E H ctx e s n l w = Some (st, ctx', w') \<Longrightarrow> \<exists>x. ctx' = ctx\<lparr>last_sector := x\<rparr>"
proof (induction n arbitrary: ctx l w)
  case 0
  then have "ctx' = ctx" by simp
  then show ?case using sector_only_same [of ctx st w] unfolding sector_only_def by blast
next
  case (Suc n)
  then obtain st1 ctx1 w1 where s1: "stream_location E H ctx e s l w = Some (st1, ctx1, w1)"
    by (cases "stream_location E H ctx e s l w") auto
  then obtain x where x: "ctx1 = ctx\<lparr>last_sector := x\<rparr>" using stream_location_ctx by blast
  show ?case
  proof (cases "EFI_ERROR st1")
    case True
    then have "ctx' = ctx1" using Suc.prems s1 by simp
    then show ?thesis using x by blast
  next
    case False
    then have "\<exists>y. ctx' = ctx1\<lparr>last_sector := y\<rparr>"
      using Suc.prems Suc.IH [of ctx1 "l + 1" w1] s1 by simp
    then obtain y where "ctx' = ctx1\<lparr>last_sector := y\<rparr>" by (elim exE)
    then have "ctx' = ctx\<lparr>last_sector := y\<rparr>" unfolding x by simp
    then show ?thesis by (rule exI)
  qed
qed

lemma stream_write_ctx:
  "stream_write_completed_entry E H ctx e w = Some (st, ctx', w') \<Longrightarrow> \<exists>x. ctx' = ctx\<lparr>last_sector := x\<rparr>"
  by (auto simp: stream_write_completed_entry_def dest: stream_locations_ctx split: section_splits)

lemma stream_step_InrE:
  assumes "stream_step E H ctx data len pos w = Some (Inr (ctx', pos', w'))"
  obtains (part) entry ed where "peek (entries (plan ctx)) (unat (entry_index ctx)) = Some entry"
      "entry_index ctx < entry_count (plan ctx)"
      "memcpy (entry_data ctx) (unat (entry_received ctx)) data (unat pos) (unat (step_take ctx entry len pos)) = Some ed"
      "entry_received ctx + step_take ctx entry len pos \<noteq> byte_count entry"
      "ctx' = ctx\<lparr>entry_data := ed, entry_received := entry_received ctx + step_take ctx entry len pos\<rparr>"
      "pos' = pos + step_take ctx entry len pos" "w' = w"
    | (full) entry ed x where "peek (entries (plan ctx)) (unat (entry_index ctx)) = Some entry"
      "entry_index ctx < entry_count (plan ctx)"
      "memcpy (entry_data ctx) (unat (entry_received ctx)) data (unat pos) (unat (step_take ctx entry len pos)) = Some ed"
      "entry_received ctx + step_take ctx entry len pos = byte_count entry"
      "ctx' = ctx\<lparr>entry_data := ed, entry_received := 0, entry_index := entry_index ctx + 1, last_sector := x\<rparr>"
      "pos' = pos + step_take ctx entry len pos"
proof -
  from assms have idx: "entry_index ctx < entry_count (plan ctx)"
    by (cases "entry_count (plan ctx) \<le> entry_index ctx") (simp_all add: stream_step_def)
  then have idx': "\<not> entry_count (plan ctx) \<le> entry_index ctx" by simp
  from assms obtain entry where entry: "peek (entries (plan ctx)) (unat (entry_index ctx)) = Some entry"
    using assms idx' by (cases "peek (entries (plan ctx)) (unat (entry_index ctx))") (simp_all add: stream_step_def)
  let ?tk = "step_take ctx entry len pos"
  have cap: "\<not> entry_capacity ctx < entry_received ctx + ?tk"
  proof
    assume "entry_capacity ctx < entry_received ctx + ?tk"
    then show False using assms idx' entry by (simp add: stream_step_def Let_def)
  qed
  obtain ed where ed: "memcpy (entry_data ctx) (unat (entry_received ctx)) data (unat pos) (unat ?tk) = Some ed"
    using assms idx' entry cap
    by (cases "memcpy (entry_data ctx) (unat (entry_received ctx)) data (unat pos) (unat ?tk)")
      (simp_all add: stream_step_def Let_def)
  let ?ctx = "ctx\<lparr>entry_data := ed, entry_received := entry_received ctx + ?tk\<rparr>"
  have eq: "stream_step E H ctx data len pos w =
     (if entry_received ctx + ?tk = byte_count entry then do {
            (st, ctx, w) \<leftarrow> stream_write_completed_entry E H ?ctx entry w;
            if EFI_ERROR st then Some (Inl (st, ctx, w))
            else Some (Inr (ctx\<lparr>entry_received := 0, entry_index := entry_index ctx + 1\<rparr>, pos + ?tk, w)) }
          else Some (Inr (?ctx, pos + ?tk, w)))"
    using idx' entry cap ed by (simp add: stream_step_def Let_def)
  show thesis
  proof (cases "entry_received ctx + ?tk = byte_count entry")
    case False
    then show thesis using assms by (intro part [OF entry idx ed False]) (simp_all add: eq)
  next
    case True
    then obtain st ctx1 w1 where wr: "stream_write_completed_entry E H ?ctx entry w = Some (st, ctx1, w1)"
        "ctx' = ctx1\<lparr>entry_received := 0, entry_index := entry_index ctx1 + 1\<rparr>" "pos' = pos + ?tk"
      using assms by (auto simp: eq split: section_splits)
    obtain x where "ctx1 = ?ctx\<lparr>last_sector := x\<rparr>" using stream_write_ctx [OF wr(1)] by blast
    then show thesis using wr(2,3) by (intro full [OF entry idx ed True, of x]) simp_all
  qed
qed

lemma stream_step_progress:
  assumes "stream_step E H ctx data len pos w = Some (Inr (ctx', pos', w'))" "pos < len"
  shows "plan ctx' = plan ctx"
    and "(unat (entry_count (plan ctx)) - unat (entry_index ctx')) + (unat len - unat pos')
       < (unat (entry_count (plan ctx)) - unat (entry_index ctx)) + (unat len - unat pos)"
proof -
  obtain entry tk where tk: "tk = step_take ctx entry len pos" and pos': "pos' = pos + tk"
    and p: "plan ctx' = plan ctx" and idx: "entry_index ctx < entry_count (plan ctx)"
    and step: "entry_received ctx + tk = byte_count entry \<and> entry_index ctx' = entry_index ctx + 1
       \<or> entry_received ctx + tk \<noteq> byte_count entry \<and> entry_index ctx' = entry_index ctx"
  proof (rule stream_step_InrE [OF assms(1)])
    fix e ed
    assume "entry_index ctx < entry_count (plan ctx)" "entry_received ctx + step_take ctx e len pos \<noteq> byte_count e"
      "ctx' = ctx\<lparr>entry_data := ed, entry_received := entry_received ctx + step_take ctx e len pos\<rparr>"
      "pos' = pos + step_take ctx e len pos"
    then show thesis by (intro that [of "step_take ctx e len pos" e]) simp_all
  next
    fix e ed x
    assume "entry_index ctx < entry_count (plan ctx)" "entry_received ctx + step_take ctx e len pos = byte_count e"
      "ctx' = ctx\<lparr>entry_data := ed, entry_received := 0, entry_index := entry_index ctx + 1, last_sector := x\<rparr>"
      "pos' = pos + step_take ctx e len pos"
    then show thesis by (intro that [of "step_take ctx e len pos" e]) simp_all
  qed
  show "plan ctx' = plan ctx" by (fact p)
  have "tk \<le> len - pos" using tk by (simp add: step_take_def Let_def split: if_splits)
  then have "unat tk \<le> unat len - unat pos"
    using word_le_sub_unat [OF less_imp_le [OF assms(2)]] by (simp add: word_le_nat_alt)
  moreover have pos_lt: "unat pos < unat len" using assms(2) by (simp add: word_less_nat_alt)
  ultimately have u: "unat pos' = unat pos + unat tk" "unat pos' \<le> unat len"
    using unat_u32_lt [of len] by (simp_all add: pos' unat_add_le)
  show "(unat (entry_count (plan ctx)) - unat (entry_index ctx')) + (unat len - unat pos')
       < (unat (entry_count (plan ctx)) - unat (entry_index ctx)) + (unat len - unat pos)"
  proof (cases "entry_received ctx + tk = byte_count entry")
    case True
    then have "unat (entry_index ctx') = unat (entry_index ctx) + 1"
      using step count_up(1) [OF idx] by simp
    then show ?thesis using u idx by (simp add: word_less_nat_alt)
  next
    case False
    then have "tk \<noteq> 0" using tk assms(2) by (auto simp: step_take_def Let_def split: if_splits)
    then have "0 < unat tk" by (simp add: unat_gt_0)
    then show ?thesis using u pos_lt step False by simp
  qed
qed

function payload_loop ::
    "env \<Rightarrow> heap \<Rightarrow> FFU_STREAM_FLASH \<Rightarrow> bytes \<Rightarrow> u32 \<Rightarrow> u32 \<Rightarrow> world
      \<Rightarrow> (EFI_STATUS \<times> FFU_STREAM_FLASH \<times> world) option" where
  "payload_loop E H ctx data len pos w =
     (if pos < len then
        (case stream_step E H ctx data len pos w of
           None \<Rightarrow> None
         | Some (Inl r) \<Rightarrow> Some r
         | Some (Inr (ctx, pos, w)) \<Rightarrow> payload_loop E H ctx data len pos w)
      else Some (EFI_SUCCESS, ctx, w))"
  by pat_completeness auto
termination
proof (relation "measure (\<lambda>(E, H, ctx, data, len, pos, w).
        (unat (entry_count (plan ctx)) - unat (entry_index ctx)) + (unat len - unat pos))", goal_cases)
  case 1
  show ?case by simp
next
  case (2 E H ctx data len pos w r p ctx' q pos' w')
  then show ?case using stream_step_progress [of E H ctx data len pos w ctx' pos' w'] by auto
qed

declare payload_loop.simps [simp del]

definition ffu_stream_flash_payload ::
    "env \<Rightarrow> heap \<Rightarrow> FFU_STREAM_FLASH \<Rightarrow> bytes option \<Rightarrow> u32 \<Rightarrow> world
      \<Rightarrow> (EFI_STATUS \<times> FFU_STREAM_FLASH \<times> world) option" where
  "ffu_stream_flash_payload E H ctx data len w =
     (if data = None \<and> len \<noteq> 0 then Some (EFI_INVALID_PARAMETER, ctx, w)
      else do {
        (st, ctx, w) \<leftarrow> payload_loop E H ctx (case data of None \<Rightarrow> [] | Some d \<Rightarrow> d) len 0 w;
        if EFI_ERROR st then Some (st, ctx, w)
        else if entry_count (plan ctx) \<le> entry_index ctx
        then Some (EFI_SUCCESS, ctx\<lparr>final_state := 1\<rparr>, w)
        else Some (EFI_SUCCESS, ctx, w) })"

definition ffu_stream_flash_done :: "FFU_STREAM_FLASH \<Rightarrow> bool" where
  "ffu_stream_flash_done ctx \<longleftrightarrow>
     entry_count (plan ctx) \<le> entry_index ctx \<and> entry_received ctx = 0"

end
