(* ===== verification/Secure_Loop.thy ===== *)
theory Secure_Loop
  imports Handlers Ffu_Flash Ffu_Stream
begin

text \<open>
  The message loop of the USB flashing mode, \<open>usb_secure_flash_loop\<close> of \<open>src/main.c\<close> (lines
  1066-1490): messages are received one after the other, answered, and the secure ones
  assemble the image header and feed the stream flasher. The local variables of the C
  function are the record \<open>LOOP\<close>; the header buffer and its predecessors live in \<open>mem\<close>, a heap
  that maps the number of an allocation to its bytes, because the stream flasher keeps a
  pointer to the header. \<open>brk\<close> is the number of the next allocation.
\<close>

section \<open>State\<close>

record LOOP =
  port :: USB_TRANSPORT
  flash :: FFU_STREAM_FLASH
  hdr :: "nat option"
  hdr_len :: u64
  header_cap :: u64
  header_v2_received :: u32
  flash_ready :: bool
  async_write_status :: u32
  async_last_sector :: u32
  async_ufp_status :: u16
  mem :: heap
  brk :: nat
  globals :: app

text \<open>What a round of the loop ends with: \<open>continue\<close>, or \<open>break\<close> with the status.\<close>

datatype flow = Next | Leave EFI_STATUS

type_synonym round = "(flow \<times> LOOP \<times> world) run option"

text \<open>Answering and going on: the loop ignores the status of its sends.\<close>

definition reply :: "LOOP \<Rightarrow> send_result \<Rightarrow> round" where
  "reply s r = after r (\<lambda>(st, usb, w). Some (Returns (Next, s\<lparr>port := usb\<rparr>, w)))"

definition reply_short :: "env \<Rightarrow> LOOP \<Rightarrow> u16 \<Rightarrow> u32 \<Rightarrow> world \<Rightarrow> round" where
  "reply_short E s status specifier w = reply s (send_fs_short E (port s) status specifier w)"

section \<open>Asynchronous writes\<close>

definition async_reset :: "LOOP \<Rightarrow> LOOP" where
  "async_reset s = s\<lparr>async_write_status := 0, async_last_sector := 0xffffffff, async_ufp_status := 0\<rparr>"

definition async_start :: "env \<Rightarrow> bytes \<Rightarrow> u64 \<Rightarrow> LOOP \<Rightarrow> world \<Rightarrow> round" where
  "async_start E msg len s w = do {
     good \<leftarrow> andM (Some (10 \<le> len)) (andM (byte_is msg 8 1) (byte_is msg 9 0));
     let s = (if good then async_reset s else s);
     (out, resp) \<leftarrow> ufp_build_async_start_response (Some (stack 64)) 64 (if good then 0 else 8);
     reply s (usb_transport_send E (port s) resp out w) }"

text \<open>The write itself, after the response: \<open>count\<close> blocks of the message from \<open>start\<close> on.\<close>

definition async_fail :: "LOOP \<Rightarrow> LOOP" where
  "async_fail s = s\<lparr>async_write_status := 0, async_ufp_status := 8\<rparr>"

definition async_blocks ::
    "env \<Rightarrow> EFI_BLOCK_IO_MEDIA \<Rightarrow> bool \<Rightarrow> bytes \<Rightarrow> u64 \<Rightarrow> u32 \<Rightarrow> u32 \<Rightarrow> LOOP \<Rightarrow> world \<Rightarrow> (LOOP \<times> world) option" where
  "async_blocks E media commit msg len start count s w =
     (let data_len = ucast count * ucast (BlockSize media) :: u64
      in if count \<noteq> 0 \<and> data_len div ucast count \<noteq> ucast (BlockSize media) then Some (async_fail s, w)
         else if len - 64 < data_len then Some (async_fail s, w)
         else if count \<noteq> 0 \<and> LastBlock media < ucast start + ucast count - 1 then Some (async_fail s, w)
         else if commit \<and> data_len \<noteq> 0 then do {
           data \<leftarrow> load msg 64 (unat data_len);
           let (st, w) = WriteBlocks_call E (MediaId media) (ucast start) data_len data w;
           let s = s\<lparr>async_write_status := ucast st,
                async_ufp_status := (if EFI_ERROR st then status_from_efi st else 0)\<rparr>;
           Some (if \<not> EFI_ERROR st \<and> count \<noteq> 0 then s\<lparr>async_last_sector := start + count - 1\<rparr> else s, w) }
         else let s = s\<lparr>async_write_status := 0, async_ufp_status := 0\<rparr>
              in Some (if count \<noteq> 0 then s\<lparr>async_last_sector := start + count - 1\<rparr> else s, w))"

definition async_write ::
    "env \<Rightarrow> EFI_BLOCK_IO_PROTOCOL \<Rightarrow> bool \<Rightarrow> bytes \<Rightarrow> u64 \<Rightarrow> LOOP \<Rightarrow> world \<Rightarrow> round" where
  "async_write E dev commit msg len s w = do {
     start \<leftarrow> rd_be32 (drop 12 msg);
     count \<leftarrow> rd_be32 (drop 16 msg);
     media \<leftarrow> Media dev;
     (out, resp) \<leftarrow> ufp_build_async_write_status (Some (stack 64)) 64 count start
        (async_write_status s) (async_last_sector s) (async_ufp_status s);
     after (usb_transport_send E (port s) resp out w) (\<lambda>(st, usb, w). do {
       let s = s\<lparr>port := usb\<rparr>;
       check \<leftarrow> peek msg 25;
       (s, w) \<leftarrow> (if check \<noteq> 1 then async_blocks E media commit msg len start count s w else Some (s, w));
       Some (Returns (Next, s, w)) }) }"

definition async_end :: "env \<Rightarrow> LOOP \<Rightarrow> world \<Rightarrow> round" where
  "async_end E s w = do {
     (out, resp) \<leftarrow> ufp_build_async_end_response (Some (stack 64)) 64
        (async_write_status s) (async_last_sector s) (ucast (async_ufp_status s));
     reply (async_reset s) (usb_transport_send E (port s) resp out w) }"

definition async_message ::
    "env \<Rightarrow> EFI_BLOCK_IO_PROTOCOL \<Rightarrow> bool \<Rightarrow> bytes \<Rightarrow> u64 \<Rightarrow> LOOP \<Rightarrow> world \<Rightarrow> round" where
  "async_message E dev commit msg len s w = do {
     starting \<leftarrow> andM (Some (7 \<le> len)) (byte_is msg 6 0x53);
     writing \<leftarrow> andM (Some (64 \<le> len)) (byte_is msg 6 0x57);
     ending \<leftarrow> andM (Some (7 \<le> len)) (byte_is msg 6 0x45);
     if starting then async_start E msg len s w
     else if writing then async_write E dev commit msg len s w
     else if ending then async_end E s w
     else reply s (send_unknown_response E (port s) w) }"

section \<open>Header messages\<close>

text \<open>The fields of a header message (C locals of the header branch).\<close>

record HEADER_MSG =
  hm_v2 :: bool
  hm_chunk :: u32
  hm_offset :: u32
  hm_total :: u32
  hm_data :: u32
  hm_copy :: u32
  hm_options :: u8
  hm_erase :: u8

text \<open>A step of the branch either refuses the message with a status and a specifier, or goes
  on. A version 1 message resets the progress of version 2 ones.\<close>

definition header_v1_fields :: "bytes \<Rightarrow> u64 \<Rightarrow> LOOP \<Rightarrow> ((u16 \<times> u32) + HEADER_MSG \<times> LOOP) option" where
  "header_v1_fields msg len s =
     (if len < 32 then Some (Inl (8, ucast len))
      else do {
        subblock_len \<leftarrow> rd_be32 (drop 16 msg);
        chunk_len \<leftarrow> rd_be32 (drop 24 msg);
        if subblock_len \<noteq> chunk_len + 12 then Some (Inl (16, subblock_len))
        else do {
          options \<leftarrow> peek msg 28;
          erase_options \<leftarrow> peek msg 29;
          Some (Inr (\<lparr>hm_v2 = False, hm_chunk = chunk_len, hm_offset = 0, hm_total = chunk_len,
              hm_data = 32, hm_copy = 0, hm_options = options, hm_erase = erase_options\<rparr>,
            s\<lparr>header_v2_received := 0\<rparr>)) } })"

definition header_v2_fields :: "bytes \<Rightarrow> u64 \<Rightarrow> LOOP \<Rightarrow> ((u16 \<times> u32) + HEADER_MSG \<times> LOOP) option" where
  "header_v2_fields msg len s =
     (if len < 60 then Some (Inl (8, ucast len))
      else do {
        absolute_header_offset \<leftarrow> rd_be32 (drop 20 msg);
        total_len \<leftarrow> rd_be32 (drop 24 msg);
        file_offset \<leftarrow> rd_be32 (drop 29 msg);
        chunk_len \<leftarrow> rd_be32 (drop 33 msg);
        options \<leftarrow> peek msg 28;
        erase_options \<leftarrow> peek msg 37;
        Some (Inr (\<lparr>hm_v2 = True, hm_chunk = chunk_len, hm_offset = file_offset, hm_total = total_len,
            hm_data = 60, hm_copy = header_v2_received s, hm_options = options, hm_erase = erase_options\<rparr>, s)) })"

definition header_check :: "HEADER_MSG \<Rightarrow> u64 \<Rightarrow> LOOP \<Rightarrow> (u16 \<times> u32) option" where
  "header_check m len s =
     (if hm_v2 m \<and> (ucast (hm_total m) :: u64) < ucast (header_v2_received s) + ucast (hm_chunk m)
      then Some (16, hm_chunk m)
      else if (\<not> hm_v2 m \<or> hm_options m \<noteq> 0) \<and> hm_options m AND 0xc0 \<noteq> 0 then Some (8, ucast (hm_options m))
      else if (\<not> hm_v2 m \<or> hm_options m \<noteq> 0) \<and> hm_erase m \<noteq> 0 then Some (8, ucast (hm_erase m))
      else if UFP_MAX_HEADER_DATA < hm_chunk m \<or> len < ucast (hm_data m) + ucast (hm_chunk m)
      then Some (16, hm_chunk m)
      else None)"

text \<open>Where the chunk goes, how many bytes of the header are there with it (\<open>need\<close>) and how
  many there will be (\<open>complete_len\<close>). A version 2 message at offset 0 starts over.\<close>

definition header_restart :: "env \<Rightarrow> LOOP \<Rightarrow> world \<Rightarrow> LOOP \<times> world" where
  "header_restart E s w =
     (case (flash_ready s, hdr s) of
        (False, Some a) \<Rightarrow>
          (s\<lparr>mem := (mem s)(a := None), hdr := None, hdr_len := 0, header_cap := 0, header_v2_received := 0\<rparr>,
           uefi_free E True w)
      | _ \<Rightarrow> (s\<lparr>header_v2_received := 0\<rparr>, w))"

definition header_window ::
    "env \<Rightarrow> HEADER_MSG \<Rightarrow> LOOP \<Rightarrow> world \<Rightarrow> (u16 \<times> u32) + u32 \<times> u64 \<times> u64 \<times> LOOP \<times> world" where
  "header_window E m s w =
     (if hm_v2 m then
        (if hm_offset m = 0 then
           let (s, w) = header_restart E s w
           in Inr (0, ucast (header_v2_received s) + ucast (hm_chunk m), ucast (hm_total m), s, w)
         else if hdr s = None then Inl (8, hm_offset m)
         else Inr (hm_copy m, ucast (header_v2_received s) + ucast (hm_chunk m), ucast (hm_total m), s, w))
      else
        let need = ucast (hm_offset m) + ucast (hm_chunk m) :: u64
        in if need < ucast (hm_offset m) \<or> hm_total m \<noteq> 0 \<and> ucast (hm_total m) < need then Inl (16, hm_chunk m)
           else Inr (hm_copy m, need, if hm_total m \<noteq> 0 then ucast (hm_total m) else need, s, w))"

text \<open>The buffer grows in megabytes, up to 128.\<close>

definition header_capacity :: "u64 \<Rightarrow> u64 \<Rightarrow> u64" where
  "header_capacity need complete_len =
     (let cap_need = (if need < complete_len then complete_len else need)
      in align_up_u64 (if cap_need \<noteq> 0 then cap_need else 1) (1024 * 1024))"

definition header_grow ::
    "env \<Rightarrow> u64 \<Rightarrow> u64 \<Rightarrow> LOOP \<Rightarrow> world \<Rightarrow> ((u16 \<times> u32 \<times> LOOP \<times> world) + LOOP \<times> world) option" where
  "header_grow E need complete_len s w =
     (if \<not> (header_cap s < need \<or> header_cap s < complete_len) then Some (Inr (s, w))
      else let new_cap = header_capacity need complete_len
      in if 128 * 1024 * 1024 < new_cap then Some (Inl (4, ucast new_cap, s, w))
      else case uefi_alloc E new_cap w of
        (None, w) \<Rightarrow> Some (Inl (1, ucast new_cap, s, w))
      | (Some new_header, w) \<Rightarrow> do {
          new_header \<leftarrow> memset new_header 0 0 (unat new_cap);
          (new_header, H, w) \<leftarrow>
            (case hdr s of None \<Rightarrow> Some (new_header, mem s, w)
             | Some a \<Rightarrow> do {
                 old \<leftarrow> mem s a;
                 new_header \<leftarrow> memcpy new_header 0 old 0 (unat (hdr_len s));
                 Some (new_header, (mem s)(a := None), uefi_free E True w) });
          Some (Inr (s\<lparr>mem := H(brk s := Some new_header), hdr := Some (brk s), brk := brk s + 1,
             header_cap := new_cap\<rparr>, w)) })"

definition header_store ::
    "HEADER_MSG \<Rightarrow> bytes \<Rightarrow> u32 \<Rightarrow> u64 \<Rightarrow> LOOP \<Rightarrow> LOOP option" where
  "header_store m msg copy_offset need s = do {
     s \<leftarrow> (if hm_chunk m \<noteq> 0 then do {
         a \<leftarrow> hdr s;
         buf \<leftarrow> mem s a;
         buf \<leftarrow> memcpy buf (unat copy_offset) msg (unat (hm_data m)) (unat (hm_chunk m));
         Some (s\<lparr>mem := (mem s)(a := Some buf)\<rparr>) }
       else Some s);
     let s = (if hdr_len s < need then s\<lparr>hdr_len := need\<rparr> else s);
     Some (if hm_v2 m then s\<lparr>header_v2_received := ucast need\<rparr> else s) }"

definition header_finish ::
    "env \<Rightarrow> EFI_BLOCK_IO_PROTOCOL \<Rightarrow> bool \<Rightarrow> HEADER_MSG \<Rightarrow> u64 \<Rightarrow> LOOP \<Rightarrow> world \<Rightarrow> round" where
  "header_finish E dev commit m complete_len s w =
     (let s' = (if hm_v2 m then s\<lparr>header_v2_received := 0\<rparr> else s)
      in if complete_len \<noteq> 0 \<and> hdr_len s < complete_len then reply_short E s 0 0 w
         else if flash_ready s then reply_short E s' 0 0 w
         else do {
           (st, ctx, w) \<leftarrow> ffu_stream_flash_init E (mem s) (flash s) (hdr s)
              (if complete_len \<noteq> 0 then complete_len else hdr_len s) (Some dev) commit w;
           if \<not> EFI_ERROR st then do {
             let w = con_crlf E (say E ''Received complete FFU header over USB.'' w);
             (x, w) \<leftarrow> ffu_print_summary E (plan ctx) w;
             reply_short E (s'\<lparr>flash := ctx, flash_ready := True\<rparr>) 0 0 w }
           else do {
             let w = con_crlf E (con_put_status E st (say E ''FFU header parse failed: '' w));
             reply_short E (s'\<lparr>flash := ctx\<rparr>) (status_from_efi st) (ucast st) w } })"

definition header_message ::
    "env \<Rightarrow> EFI_BLOCK_IO_PROTOCOL \<Rightarrow> bool \<Rightarrow> bytes \<Rightarrow> u64 \<Rightarrow> bool \<Rightarrow> LOOP \<Rightarrow> world \<Rightarrow> round" where
  "header_message E dev commit msg len header_v2 s w = do {
     fields \<leftarrow> (if header_v2 then header_v2_fields msg len s else header_v1_fields msg len s);
     (case fields of Inl (status, specifier) \<Rightarrow> reply_short E s status specifier w
      | Inr (m, s) \<Rightarrow>
     (case header_check m len s of Some (status, specifier) \<Rightarrow> reply_short E s status specifier w
      | None \<Rightarrow>
     (case header_window E m s w of Inl (status, specifier) \<Rightarrow> reply_short E s status specifier w
      | Inr (copy_offset, need, complete_len, s, w) \<Rightarrow> do {
     let complete_len = (if complete_len = 0 then need else complete_len);
     grown \<leftarrow> header_grow E need complete_len s w;
     (case grown of Inl (status, specifier, s, w) \<Rightarrow> reply_short E s status specifier w
      | Inr (s, w) \<Rightarrow> do {
          s \<leftarrow> header_store m msg copy_offset need s;
          header_finish E dev commit m complete_len s w }) }))) }"

section \<open>Payload messages\<close>

text \<open>Data offset, overhead and protocol mask of the three versions.\<close>

definition payload_layout :: "u32 \<Rightarrow> u32 \<times> u32 \<times> u16" where
  "payload_layout subblock =
     (if subblock = UFP_SEC_SUBBLOCK_PAYLOAD_V1 then (28, 8, 0x0003)
      else if subblock = UFP_SEC_SUBBLOCK_PAYLOAD_V2 then (32, 12, 0x000c)
      else (64, 44, 0x0010))"

text \<open>The checks: a refusal, or the length of the data and its offset.\<close>

definition payload_check ::
    "bytes \<Rightarrow> u64 \<Rightarrow> u16 \<Rightarrow> u32 \<Rightarrow> ((u16 \<times> u32) + u32 \<times> u32) option" where
  "payload_check msg len protocol subblock =
     (if len < 25 then Some (Inl (8, ucast len))
      else do {
        subblock_len \<leftarrow> rd_be32 (drop 16 msg);
        data_len \<leftarrow> rd_be32 (drop 20 msg);
        options \<leftarrow> peek msg 24;
        let (data_offset, overhead, protocol_mask) = payload_layout subblock;
        if subblock_len \<noteq> data_len + overhead then Some (Inl (16, subblock_len))
        else if options AND 0xfe \<noteq> 0 then Some (Inl (8, ucast options))
        else if protocol AND protocol_mask = 0 then Some (Inl (8, ucast protocol))
        else if UFP_MAX_PAYLOAD_DATA < data_len \<or> len < ucast data_offset + ucast data_len
        then Some (Inl (16, data_len))
        else Some (Inr (data_len, data_offset)) })"

definition payload_feed ::
    "env \<Rightarrow> bytes \<Rightarrow> u32 \<Rightarrow> u32 \<Rightarrow> LOOP \<Rightarrow> world \<Rightarrow> (u16 \<times> u32 \<times> LOOP \<times> world) option" where
  "payload_feed E msg data_len data_offset s w =
     (if \<not> flash_ready s then Some (6, 0, s, w)
      else if data_len \<noteq> 0 then do {
        (st, ctx, w) \<leftarrow> ffu_stream_flash_payload E (mem s) (flash s) (Some (drop (unat data_offset) msg)) data_len w;
        Some (if EFI_ERROR st then (status_from_efi st, ucast st, s\<lparr>flash := ctx\<rparr>, w)
              else (0, 0, s\<lparr>flash := ctx\<rparr>, w)) }
      else Some (0, 0, s, w))"

definition payload_message ::
    "env \<Rightarrow> EFI_BLOCK_IO_PROTOCOL \<Rightarrow> bool \<Rightarrow> bytes \<Rightarrow> u64 \<Rightarrow> u16 \<Rightarrow> u8 \<Rightarrow> u32 \<Rightarrow> LOOP \<Rightarrow> world \<Rightarrow> round" where
  "payload_message E dev commit msg len protocol progress subblock s w = do {
     checked \<leftarrow> payload_check msg len protocol subblock;
     (case checked of Inl (status, specifier) \<Rightarrow> reply_short E s status specifier w
      | Inr (data_len, data_offset) \<Rightarrow> do {
          (ufp_status, specifier, s, w) \<leftarrow> payload_feed E msg data_len data_offset s w;
          let final = (if progress = 100 \<and> ffu_stream_flash_done (flash s) then 1 else 0);
          let ufp_status = (if progress = 100 \<and> final = 0 \<and> ufp_status = 0 then 8 else ufp_status);
          (out, resp) \<leftarrow> ufp_build_secure_status_response (Some (stack 64)) 64 ufp_status specifier 0xffffffff
             (last_sector (flash s)) final;
          after (usb_transport_send E (port s) resp out w) (\<lambda>(st, usb, w). do {
            let s = s\<lparr>port := usb\<rparr>;
            if final = 1 \<and> ufp_status = 0 then
              let w = con_crlf E (say E ''USB FFU flashing completed.'' w);
                  w = (if commit \<and> FlushBlocks dev then snd (FlushBlocks_call E w) else w)
              in Some (Returns (Leave EFI_SUCCESS, s, w))
            else Some (Returns (Next, s, w)) }) }) }"

section \<open>Dispatch\<close>

definition secure_message ::
    "env \<Rightarrow> EFI_BLOCK_IO_PROTOCOL \<Rightarrow> bool \<Rightarrow> bytes \<Rightarrow> u64 \<Rightarrow> LOOP \<Rightarrow> world \<Rightarrow> round" where
  "secure_message E dev commit msg len s w =
     (if len < 16 then reply_short E s 8 (ucast len) w
      else do {
        protocol \<leftarrow> rd_be16 (drop 6 msg);
        progress \<leftarrow> peek msg 8;
        subblock \<leftarrow> rd_be32 (drop 12 msg);
        count \<leftarrow> peek msg 11;
        if protocol AND 0x1f = 0 \<or> (ucast protocol :: u32) AND NOT 0x1f \<noteq> 0 then reply_short E s 8 (ucast protocol) w
        else if count \<noteq> 1 then reply_short E s 15 (ucast count) w
        else if subblock = UFP_SEC_SUBBLOCK_HEADER_V1 \<or> subblock = UFP_SEC_SUBBLOCK_HEADER_V2
        then header_message E dev commit msg len (subblock = UFP_SEC_SUBBLOCK_HEADER_V2) s w
        else if subblock = UFP_SEC_SUBBLOCK_PAYLOAD_V1 \<or> subblock = UFP_SEC_SUBBLOCK_PAYLOAD_V2
          \<or> subblock = UFP_SEC_SUBBLOCK_PAYLOAD_V3
        then payload_message E dev commit msg len protocol progress subblock s w
        else reply_short E s 14 subblock w })"

definition common_message :: "env \<Rightarrow> bytes \<Rightarrow> u64 \<Rightarrow> u8 \<Rightarrow> LOOP \<Rightarrow> world \<Rightarrow> round" where
  "common_message E msg len m5 s w = do {
     mode \<leftarrow> (if m5 = 0x42 \<and> 6 < len then peek msg 6 else Some 0);
     after (handle_common_ext E (port s) msg len w) (\<lambda>(st, usb, w).
       let s = s\<lparr>port := usb\<rparr>
       in if m5 = 0x42 \<and> mode = 0x52
          then Some (Returns (Leave EFI_SUCCESS, s,
            con_crlf E (say E ''USB host requested reboot/switch. Exiting app.'' w)))
          else Some (Returns (Next, s, w))) }"

definition log_message :: "env \<Rightarrow> bytes \<Rightarrow> u64 \<Rightarrow> u8 \<Rightarrow> LOOP \<Rightarrow> world \<Rightarrow> round" where
  "log_message E msg len ext s w = do {
     requested \<leftarrow> (if ext = 0x54 then if 28 \<le> len then rd_be32 (drop 24 msg) else Some 0
                   else if 11 \<le> len then rd_be32 (drop 7 msg) else Some 0);
     reply s (handle_read_empty_log E (port s) ext requested w) }"

text \<open>The extended messages, \<open>NOKX\<close> and two more bytes.\<close>

definition extended_message ::
    "env \<Rightarrow> EFI_BLOCK_IO_PROTOCOL \<Rightarrow> bool \<Rightarrow> bytes \<Rightarrow> u64 \<Rightarrow> LOOP \<Rightarrow> world \<Rightarrow> round" where
  "extended_message E dev commit msg len s w = do {
     m4 \<leftarrow> peek msg 4;
     m5 \<leftarrow> peek msg 5;
     if m4 = 0x43 then common_message E msg len m5 s w
     else if m4 = 0x46 \<and> m5 = 0x52 then reply s (handle_read_param E (globals s) (port s) (Some dev) msg len w)
     else if m4 = 0x46 \<and> m5 = 0x57 then do {
       (app, r) \<leftarrow> handle_write_param E (globals s) (port s) msg len w;
       reply (s\<lparr>globals := app\<rparr>) (Some r) }
     else if m4 = 0x46 \<and> m5 = 0x49 then reply s (handle_unlock E (port s) msg len w)
     else if m4 = 0x46 \<and> m5 = 0x4f then reply s (handle_relock E (port s) w)
     else if m4 = 0x46 \<and> m5 = 0x54 then log_message E msg len 0x54 s w
     else if m4 = 0x46 \<and> m5 = 0x58 then log_message E msg len 0x58 s w
     else if m4 = 0x46 \<and> m5 = 0x46 then async_message E dev commit msg len s w
     else if m4 \<noteq> 0x46 \<or> m5 \<noteq> 0x53 then reply s (send_unknown_response E (port s) w)
     else secure_message E dev commit msg len s w }"

definition loop_message ::
    "env \<Rightarrow> EFI_BLOCK_IO_PROTOCOL \<Rightarrow> bool \<Rightarrow> bytes \<Rightarrow> u64 \<Rightarrow> LOOP \<Rightarrow> world \<Rightarrow> round" where
  "loop_message E dev commit msg len s w =
     (if len < 4 then Some (Returns (Next, s, w))
      else do {
        nok \<leftarrow> andM (byte_is msg 0 0x4e) (andM (byte_is msg 1 0x4f) (byte_is msg 2 0x4b));
        if \<not> nok then reply s (send_unknown_response E (port s) w)
        else do {
          m3 \<leftarrow> peek msg 3;
          if m3 = 0x49 then reply s (usb_transport_send E (port s) (Some (asc ''NOKI'')) 4 w)
          else if m3 = 0x56 then reply s (send_v_info_response E (port s) (Some dev) w)
          else if m3 = 0x52 \<or> m3 = 0x4d \<or> m3 = 0x5a then Some (Returns (Leave EFI_SUCCESS, s, w))
          else if m3 = 0x53 \<or> m3 = 0x4e then Some (Returns (Next, s, w))
          else if m3 = 0x54 then reply s (handle_get_gpt E (port s) dev w)
          else if m3 = 0x46 then reply s (handle_legacy_flash E (port s) dev msg len commit w)
          else if len < 6 \<or> m3 \<noteq> 0x58 then reply s (send_unknown_response E (port s) w)
          else extended_message E dev commit msg len s w } })"

section \<open>The loop\<close>

text \<open>One round: receive into the transport's buffer, then handle the message.\<close>

definition secure_round :: "env \<Rightarrow> EFI_BLOCK_IO_PROTOCOL \<Rightarrow> bool \<Rightarrow> LOOP \<Rightarrow> world \<Rightarrow> round" where
  "secure_round E dev commit s w =
     after (usb_transport_recv E (port s) w) (\<lambda>(st, len, usb, w).
       let s = s\<lparr>port := usb\<rparr>
       in if EFI_ERROR st
          then Some (Returns (Leave st, s, con_crlf E (con_put_status E st (say E ''USB receive failed: '' w))))
          else loop_message E dev commit (case rx usb of None \<Rightarrow> [] | Some b \<Rightarrow> b) len s w)"

fun secure_loop ::
    "env \<Rightarrow> EFI_BLOCK_IO_PROTOCOL \<Rightarrow> bool \<Rightarrow> nat \<Rightarrow> LOOP \<Rightarrow> world \<Rightarrow> (EFI_STATUS \<times> LOOP \<times> world) run option" where
  "secure_loop E dev commit 0 s w = None"
| "secure_loop E dev commit (Suc fuel) s w =
     after (secure_round E dev commit s w) (\<lambda>(fl, s, w).
       case fl of Leave st \<Rightarrow> Some (Returns (st, s, w))
       | Next \<Rightarrow> secure_loop E dev commit fuel s w)"

definition start_loop :: "USB_TRANSPORT \<Rightarrow> app \<Rightarrow> LOOP" where
  "start_loop usb app = \<lparr>port = usb, flash = zero_ctx, hdr = None, hdr_len = 0, header_cap = 0,
     header_v2_received = 0, flash_ready = False, async_write_status = 0, async_last_sector = 0xffffffff,
     async_ufp_status = 0, mem = (\<lambda>a. None), brk = 0, globals = app\<rparr>"

text \<open>Leaving the loop: the flasher, the header and the transport are released.\<close>

definition end_loop :: "env \<Rightarrow> LOOP \<Rightarrow> world \<Rightarrow> LOOP \<times> world" where
  "end_loop E s w =
     (let (ctx, w) = ffu_stream_flash_free E (flash s) w;
          w = uefi_free E (hdr s \<noteq> None) w;
          (usb, w) = usb_transport_close E (port s) w
      in (s\<lparr>flash := ctx, port := usb\<rparr>, w))"

text \<open>\<open>usb\<close> holds the uninitialised local transport and the static variables of the transport.
  Fuel counts messages: the loop can only receive as many as there are polls.\<close>

definition usb_secure_flash_loop ::
    "env \<Rightarrow> EFI_BLOCK_IO_PROTOCOL \<Rightarrow> bool \<Rightarrow> USB_TRANSPORT \<Rightarrow> app \<Rightarrow> world \<Rightarrow> (EFI_STATUS \<times> LOOP \<times> world) run option" where
  "usb_secure_flash_loop E dev commit usb app w = do {
     (st, usb, w) \<leftarrow> usb_transport_open E usb w;
     if EFI_ERROR st
     then Some (Returns (st, start_loop usb app,
       con_crlf E (con_put_status E st (say E ''USB function init failed: '' w))))
     else after (secure_loop E dev commit (Suc (length (polls w))) (start_loop usb app) w)
       (\<lambda>(st, s, w). let (s, w) = end_loop E s w in Some (Returns (st, s, w))) }"

end
