(* ===== verification/App.thy ===== *)
theory App
  imports Options Secure_Loop
begin

text \<open>
  Devices and the entry point of \<open>src/main.c\<close> (lines 185-231 and 1492-1579): listing the Block
  I/O devices, choosing one, and \<open>EfiMain\<close>, which runs the mode that the options ask for. The
  handles that the firmware returns are given with the interface that \<open>HandleProtocol\<close> stores
  for each, possibly null.
\<close>

section \<open>Block I/O devices\<close>

definition list_device :: "env \<Rightarrow> nat \<Rightarrow> EFI_BLOCK_IO_PROTOCOL option \<Rightarrow> world \<Rightarrow> world" where
  "list_device E i handle w =
     (let (st, w) = HandleProtocol_call E gEfiBlockIoProtocolGuid w
      in if EFI_ERROR st then w
         else case Option.bind handle Media of
           None \<Rightarrow> w
         | Some m \<Rightarrow>
             let w = say E ''] '' (say_dec E ''['' (of_nat i) w);
                 w = say E (if MediaPresent m then ''present '' else ''no-media '') w;
                 w = say E (if ReadOnly m then ''ro '' else ''rw '') w;
                 w = say E (if LogicalPartition m then ''partition '' else ''whole '') w;
                 w = say_dec E ''block='' (ucast (BlockSize m)) w;
                 w = say_dec E '' last_lba='' (LastBlock m) w
             in con_crlf E w)"

fun list_devices :: "env \<Rightarrow> nat \<Rightarrow> EFI_BLOCK_IO_PROTOCOL option list \<Rightarrow> world \<Rightarrow> world" where
  "list_devices E i [] w = w"
| "list_devices E i (h # hs) w = list_devices E (Suc i) hs (list_device E i h w)"

definition LocateHandleBuffer_call ::
    "env \<Rightarrow> world \<Rightarrow> EFI_STATUS \<times> EFI_BLOCK_IO_PROTOCOL option list \<times> world" where
  "LocateHandleBuffer_call E w =
     (let w = emit (LocateHandleBuffer gEfiBlockIoProtocolGuid) w; (st, hs) = locate_handles E (trace w) in (st, hs, w))"

definition list_block_devices :: "env \<Rightarrow> world \<Rightarrow> EFI_STATUS \<times> world" where
  "list_block_devices E w =
     (let (st, handles, w) = LocateHandleBuffer_call E w
      in if EFI_ERROR st
         then (st, con_crlf E (con_put_status E st (say E ''LocateHandleBuffer(BlockIo) failed: '' w)))
         else let w = con_crlf E (say_dec E ''Block I/O handles: '' (of_nat (length handles)) w);
                  w = list_devices E 0 handles w
              in (EFI_SUCCESS, uefi_free E True w))"

definition get_block_device ::
    "env \<Rightarrow> u32 \<Rightarrow> world \<Rightarrow> EFI_STATUS \<times> EFI_BLOCK_IO_PROTOCOL option \<times> world" where
  "get_block_device E n w =
     (if sint n < 0 then (EFI_INVALID_PARAMETER, None, w)
      else let (st, handles, w) = LocateHandleBuffer_call E w
        in if EFI_ERROR st then (st, None, w)
           else if length handles \<le> unat n then (EFI_NOT_FOUND, None, uefi_free E True w)
           else let (st, w) = HandleProtocol_call E gEfiBlockIoProtocolGuid w
                in (st, if EFI_ERROR st then None else handles ! unat n, uefi_free E True w))"

section \<open>The entry point\<close>

text \<open>The message loop takes the device itself. It reads a null pointer where it reads a device
  without media, and it flushes only after a flasher has started, which needs media; so a
  null device is one without media.\<close>

definition device_of :: "EFI_BLOCK_IO_PROTOCOL option \<Rightarrow> EFI_BLOCK_IO_PROTOCOL" where
  "device_of b = (case b of None \<Rightarrow> \<lparr>Media = None, FlushBlocks = False\<rparr> | Some b \<Rightarrow> b)"

type_synonym main_result = "(EFI_STATUS \<times> world) run option"

definition main_usb :: "env \<Rightarrow> USB_TRANSPORT \<Rightarrow> app \<Rightarrow> OPTIONS \<Rightarrow> world \<Rightarrow> main_result" where
  "main_usb E usb app o' w =
     (if sint (target o') < 0 \<or> \<not> yes o'
      then Some (Returns (EFI_INVALID_PARAMETER, con_crlf E (say E ''--usb-ffu requires --target=N --yes.'' w)))
      else let (st, b, w) = get_block_device E (target o') w
        in if EFI_ERROR st
           then Some (Returns (st, con_crlf E (con_put_status E st (say E ''Target Block I/O handle not found: '' w))))
           else after (usb_secure_flash_loop E (device_of b) (yes o') usb app w)
             (\<lambda>(st, s, w). Some (Returns (st, w))))"

definition main_flash ::
    "env \<Rightarrow> UEFI_FILE_VIEW \<Rightarrow> FFU_PLAN \<Rightarrow> OPTIONS \<Rightarrow> world \<Rightarrow> (EFI_STATUS \<times> world) option" where
  "main_flash E view pl o' w =
     (if sint (target o') < 0
      then Some (EFI_INVALID_PARAMETER,
        con_crlf E (say E ''--flash requires --target=N. Use --list-block first.'' w))
      else let (st, b, w) = get_block_device E (target o') w
        in if EFI_ERROR st
           then Some (st, con_crlf E (con_put_status E st (say E ''Target Block I/O handle not found: '' w)))
           else do {
             (st, w) \<leftarrow> ffu_flash_to_block_io E view pl b (yes o') w;
             if EFI_ERROR st then Some (st, con_crlf E (con_put_status E st (say E ''Flash plan failed: '' w)))
             else Some (st, con_crlf E (say E (if yes o' then ''Flash completed.''
                 else ''Dry-run completed. Re-run with --yes to write.'') w)) })"

definition main_file :: "env \<Rightarrow> OPTIONS \<Rightarrow> world \<Rightarrow> (EFI_STATUS \<times> world) option" where
  "main_file E o' w = do {
     (st, view, w) \<leftarrow> file_open_from_image E (path o') (path_len o') w;
     if EFI_ERROR st then Some (st, con_crlf E (con_put_status E st (say E ''Open FFU failed: '' w)))
     else do {
       (st, pl, w) \<leftarrow> ffu_parse E view w;
       if EFI_ERROR st then
         let w = con_crlf E (con_put_status E st (say E ''FFU parse failed: '' w))
         in Some (st, snd (file_close view w))
       else do {
         (x, w) \<leftarrow> ffu_print_summary E pl w;
         (y, w) \<leftarrow> (if packets o' then ffu_packet_dry_run E pl w else Some (EFI_SUCCESS, w));
         (st, w) \<leftarrow> (if flash_option o' then main_flash E view pl o' w else Some (st, w));
         let (pl, w) = ffu_plan_free E pl w;
         Some (st, snd (file_close view w)) } } }"

definition EfiMain ::
    "env \<Rightarrow> EFI_LOADED_IMAGE_PROTOCOL option \<Rightarrow> EFI_SYSTEM_TABLE option \<Rightarrow> USB_TRANSPORT \<Rightarrow> app \<Rightarrow> world \<Rightarrow> main_result" where
  "EfiMain E loaded st usb app w = do {
     let E = uefi_set_system_table st E;
     let w = con_crlf E (say E ''UfpFfu: recovered UFP FFU protocol app'' w);
     (st, o', w) \<leftarrow> parse_options E loaded w;
     if EFI_ERROR st then
       Some (Returns (st, usage E (con_crlf E (con_put_status E st (say E ''Argument parse failed: '' w)))))
     else if show_help o' then Some (Returns (EFI_SUCCESS, usage E w))
     else if list_block o' then Some (Returns (list_block_devices E w))
     else if usb_ffu o' then main_usb E usb app o' w
     else if path o' = None \<or> path_len o' = 0 then Some (Returns (EFI_INVALID_PARAMETER, usage E w))
     else map_option Returns (main_file E o' w) }"

end
