(* ===== verification/Sample.thy ===== *)
theory Sample
  imports Ffu_Wf
begin

text \<open>
  A smallest complete image header, for concrete instances of the theorems: a 1 KiB-chunk
  security header, a version-1 image header, and one version-1 store with one write
  descriptor of one block of 8 bytes that goes to block 3. The firmware of the instances
  answers every call with success.
\<close>

definition sample_security :: bytes where
  "sample_security = [32, 0, 0, 0] @ asc ''SignedImage '' @ [1, 0, 0, 0, 0x0c, 0x80, 0, 0, 1, 0, 0, 0, 32, 0, 0, 0]"

definition sample_image :: bytes where
  "sample_image = [24, 0, 0, 0] @ asc ''ImageFlash  '' @ [1, 0, 0, 0, 1, 0, 0, 0]"

definition sample_store :: bytes where
  "sample_store = [0, 0, 0, 0, 1, 0, 0, 0, 2, 0, 0, 0] @ replicate 192 0 @ [8, 0, 0, 0, 1, 0, 0, 0] @ replicate 36 0"

definition sample_descriptor :: bytes where
  "sample_descriptor = [1, 0, 0, 0, 1, 0, 0, 0, 0, 0, 0, 0, 3, 0, 0, 0]"

definition sample_header :: bytes where
  "sample_header = sample_security @ replicate 992 0 @ sample_image @ replicate 1000 0 @ sample_store @ sample_descriptor"

definition sample_env :: env where
  "sample_env = \<lparr>g_st = Some \<lparr>ConOut = True, RuntimeServices = True, BootServices = True\<rparr>, alloc_pool = \<lambda>_. 0, set_position = \<lambda>_. 0,
     get_position = \<lambda>_. (0, 0), file_read = \<lambda>_. (0, []), read_blocks = \<lambda>_. (0, []),
     write_blocks = \<lambda>_. 0, flush_blocks = \<lambda>_. 0, get_variable = \<lambda>_. (0, 0, 0, []),
     set_variable = \<lambda>_. 0, has_get_variable = True, has_set_variable = True,
     has_locate_protocol = True, locate_protocol = \<lambda>_. (0, True), has_detect_port = True,
     has_get_max_transfer = False, has_alloc_buffer = False, has_free_buffer = False,
     has_start_controller = True, has_stop_controller = True, has_abort_transfer = True,
     get_max_transfer = \<lambda>_. (0, 0), alloc_buffer = \<lambda>_. (EFI_UNSUPPORTED, None),
     start_controller = \<lambda>_. 0, configure_endpoints = \<lambda>_. 0, usb_transfer = \<lambda>_. 0,
     usb_stall = \<lambda>_. 0, handle_protocol = \<lambda>_. 0, locate_handles = \<lambda>_. (0, []),
     open_volume = \<lambda>_. 0, open_file = \<lambda>_. 0\<rparr>"

lemmas sample_env_defs = sample_env_def uefi_bs_def uefi_rs_def con_out_def

definition sample_world :: world where "sample_world = \<lparr>trace = [], polls = []\<rparr>"

definition sample_entry :: FFU_WRITE_ENTRY where
  "sample_entry = \<lparr>payload_offset = 2312, descriptor_offset = 2296, byte_count = 8, block_count = 1,
     location_count = 1, store_index = 0\<rparr>"

definition sample_plan :: FFU_PLAN where
  "sample_plan = \<lparr>file_size = 2312, header_size = 2312, payload_base = 2312, chunk_size = 1024,
     security_catalog_size = 1, security_hash_size = 32, image_header_size = 24,
     manifest_length = 1, validation_descriptor_count = 0, store_count = 1, entry_count = 1,
     total_payload_bytes = 8,
     stores = [\<lparr>header_offset = 2048, store_payload_base = 2312, payload_size = 8,
        descriptor_base = 2296, block_size = 8, descriptor_count = 1, entry_start = 0,
        store_entry_count = 1\<rparr>],
     entries = [sample_entry]\<rparr>"

definition sample_world' :: world where
  "sample_world' = \<lparr>trace = [AllocatePool 2048, AllocatePool 96], polls = []\<rparr>"

section \<open>The parts of the header\<close>

lemma sample_lengths:
  "length sample_security = 32" "length sample_image = 24" "length sample_store = 248"
  "length sample_descriptor = 16"
  by (simp_all add: sample_security_def sample_image_def sample_store_def sample_descriptor_def)

lemma sample_length [simp]: "length sample_header = 2312"
  by (simp add: sample_header_def sample_lengths)

lemma sample_parts:
  "take 32 sample_header = sample_security" "take 24 (drop 1024 sample_header) = sample_image"
  "take 248 (drop 2048 sample_header) = sample_store"
  "take 8 (drop 2296 sample_header) = [1, 0, 0, 0, 1, 0, 0, 0]"
  by (simp_all add: sample_header_def sample_lengths) (simp add: sample_descriptor_def)

lemma sample_read:
  "mem_read_exact (Some sample_header) 2312 0 32 = Some (EFI_SUCCESS, sample_security)"
  "mem_read_exact (Some sample_header) 2312 1024 24 = Some (EFI_SUCCESS, sample_image)"
  "mem_read_exact (Some sample_header) 2312 2048 248 = Some (EFI_SUCCESS, sample_store)"
  "mem_read_exact (Some sample_header) 2312 2296 8 = Some (EFI_SUCCESS, [1, 0, 0, 0, 1, 0, 0, 0])"
  by (simp_all add: mem_read_exact_in sample_parts)

lemma sample_alloc:
  "uefi_alloc sample_env n w = (Some (replicate (unat (if n = 0 then 1 else n)) 0),
     emit (AllocatePool (if n = 0 then 1 else n)) w)"
  by (simp add: uefi_alloc_def sample_env_defs EFI_ERROR_def)

section \<open>The run of the parser\<close>

definition sample_plan0 :: FFU_PLAN where
  "sample_plan0 = zero_plan\<lparr>file_size := 2312, chunk_size := 1024, security_catalog_size := 1, security_hash_size := 32\<rparr>"

definition ps1 :: pstate where
  "ps1 = start_pstate 2312 sample_world\<lparr>ps_plan := sample_plan0, ps_cursor := 1024\<rparr>"

definition ps2 :: pstate where
  "ps2 = ps1\<lparr>ps_plan := sample_plan0\<lparr>image_header_size := 24\<rparr>\<rparr>"

definition ps3 :: pstate where
  "ps3 = ps1\<lparr>ps_plan := sample_plan0\<lparr>image_header_size := 24, manifest_length := 1\<rparr>, ps_cursor := 1049\<rparr>"

definition ps4 :: pstate where "ps4 = ps3\<lparr>ps_cursor := 2296\<rparr>"

definition ps5 :: pstate where
  "ps5 = ps4\<lparr>ps_plan := push_entry (sample_entry\<lparr>payload_offset := 0\<rparr>) (ps_plan ps4),
     ps_entry_cap := 64, ps_world := emit (AllocatePool 2048) sample_world, ps_cursor := 2312\<rparr>"

definition ps6 :: pstate where
  "ps6 = ps5\<lparr>ps_plan := push_store (make_store 2048 2296 0 8 1 0 8) (ps_plan ps5),
     ps_store_cap := 2, ps_world := emit (AllocatePool 96) (ps_world ps5)\<rparr>"

lemmas ps_defs = ps6_def ps5_def ps4_def ps3_def ps1_def sample_plan0_def zero_plan_def
  start_pstate_def sample_entry_def make_entry_def push_entry_def make_store_def push_store_def

lemma sample_checks:
  "check_security sample_security (start_pstate 2312 sample_world) = Some (Inr ps1)"
  "check_image_sig sample_image ps1 = Some (Inr ps2)"
  "check_image_body sample_image ps2 = Some (Inr ps3)"
  "check_store_header sample_store = Some (Inr (8, 1))"
  "rd_le16 (drop 4 sample_store) = Some 1"
  "rd_le32 [1, 0, 0, 0, 1, 0, 0, 0] = Some 1" "rd_le32 [1, 0, 0, 0] = Some 1"
  by code_simp+

lemma sample_fields:
  "ps_cursor ps1 = 1024" "image_header_size (ps_plan ps2) = 24" "ps_cursor ps3 = 1049"
  "validation_descriptor_count (ps_plan ps3) = 0" "ps_cursor ps4 = 2296"
  "store_count (ps_plan ps3) = 0" "chunk_size (ps_plan ps3) = 1024" "entry_count (ps_plan ps4) = 0"
  "ps_desired ps3 = 1" "ps_desired ps6 = 1" "store_count (ps_plan ps6) = 1"
  "align_up_u64 1049 1024 = 2048"
  by code_simp+

lemma sample_steps:
  "ps3\<lparr>ps_cursor := 2296\<rparr> = ps4"
  "ps4\<lparr>ps_plan := ps_plan ps5, ps_entry_cap := 64, ps_world := ps_world ps5, ps_cursor := 2312\<rparr> = ps5"
  "ps5\<lparr>ps_plan := ps_plan ps6, ps_store_cap := 2, ps_world := ps_world ps6\<rparr> = ps6"
  by (simp_all add: ps4_def ps5_def ps6_def)

lemma sample_append:
  "append_entry sample_env (ps_plan ps4) (ps_entry_cap ps4) (make_entry 0 2296 8 1 1 0) (ps_world ps4)
    = Some (EFI_SUCCESS, ps_plan ps5, 64, ps_world ps5)"
  "append_store sample_env (ps_plan ps5) (ps_store_cap ps5) (make_store 2048 2296 0 8 1 0 8) (ps_world ps5)
    = Some (EFI_SUCCESS, ps_plan ps6, 2, ps_world ps6)"
  by (simp_all add: append_entry_def append_store_def sample_alloc ps_defs uefi_free_def)

lemma sample_descriptors:
  "hdr_descriptors sample_env sample_header 2312 8 0 (Suc 0) 0 ps4 = Some (Inr (8, ps5))"
  by (simp add: sample_read sample_fields sample_append sample_checks sample_steps)

lemma sample_hdr_store: "hdr_store sample_env sample_header 2312 ps3 = Some (Inr ps6)"
  by (simp add: hdr_store_def Let_def sample_fields sample_read sample_checks ffu_size_defs
      sample_steps sample_descriptors sample_append del: hdr_descriptors.simps)

lemma sample_hdr_stores: "hdr_stores sample_env sample_header 2312 ps3 = Some (Inr ps6)"
  by (subst hdr_stores.simps, simp add: sample_fields sample_hdr_store, subst hdr_stores.simps,
      simp add: sample_fields)

lemma sample_finish:
  "finish_plan EFI_END_OF_FILE 2312 ps6 = Some (EFI_SUCCESS, sample_plan, sample_world')"
  by code_simp

lemma sample_parse:
  "ffu_parse_header_bytes sample_env (Some sample_header) 2312 zero_plan sample_world
    = Some (EFI_SUCCESS, sample_plan, sample_world')"
proof -
  have "hdr_security sample_header 2312 (start_pstate 2312 sample_world) = Some (Inr ps1)"
    by (simp add: hdr_security_def ffu_size_defs sample_read sample_checks)
  moreover have "hdr_image sample_header 2312 ps1 = Some (Inr ps3)"
    by (simp add: hdr_image_def ffu_size_defs sample_read sample_checks sample_fields)
  ultimately show ?thesis
    by (simp add: ffu_parse_header_bytes_def hdr_sections_def and_then_def sample_fields
        sample_hdr_stores sample_finish)
qed

end
