(* ===== verification/Ffu_Stream_Spec.thy ===== *)
theory Ffu_Stream_Spec
  imports Ffu_Stream Sample
begin

text \<open>
  What the stream flasher promises. Its abstract state is the list of the entries that are
  not yet complete and the bytes received for the first of them. Feeding bytes completes the
  entries that have all their bytes and writes each of them, whole and in order, to the
  locations that the header lists (\<open>consume\<close>); how the bytes are cut into chunks is not
  visible. The concrete code implements this step, never makes an out-of-range access, and
  a dry run writes nothing.
\<close>

section \<open>The abstract flasher\<close>

definition le32_at :: "bytes \<Rightarrow> nat \<Rightarrow> u32" where
  "le32_at p i = (case rd_le32 (drop i p) of Some v \<Rightarrow> v | None \<Rightarrow> 0)"

definition entry_method :: "bytes \<Rightarrow> FFU_WRITE_ENTRY \<Rightarrow> nat \<Rightarrow> u32" where
  "entry_method p e l = le32_at p (unat (descriptor_offset e) + 8 + 8 * l)"

definition entry_target :: "bytes \<Rightarrow> u32 \<Rightarrow> FFU_WRITE_ENTRY \<Rightarrow> nat \<Rightarrow> u64" where
  "entry_target p bs e l = ucast (le32_at p (unat (descriptor_offset e) + 8 + 8 * l + 4)) * ucast bs"

definition entry_writes ::
    "bytes \<Rightarrow> FFU_PLAN \<Rightarrow> u32 \<Rightarrow> FFU_WRITE_ENTRY \<Rightarrow> bytes \<Rightarrow> (u64 \<times> bytes) list" where
  "entry_writes p pl mb e d =
     map (\<lambda>l. (entry_target p (block_size (stores pl ! unat (store_index e))) e l div ucast mb, d))
       [0..<unat (location_count e)]"

fun consume ::
    "(FFU_WRITE_ENTRY \<Rightarrow> bytes \<Rightarrow> 'w list) \<Rightarrow> FFU_WRITE_ENTRY list \<Rightarrow> bytes
      \<Rightarrow> 'w list \<times> FFU_WRITE_ENTRY list \<times> bytes" where
  "consume f [] b = ([], [], b)"
| "consume f (e # es) b =
     (let n = unat (byte_count e)
      in if n \<le> length b
         then let (ws, r) = consume f es (drop n b) in (f e (take n b) @ ws, r)
         else ([], e # es, b))"

lemma consume_append:
  "consume f es (b @ d) =
    (let (ws, es', b') = consume f es b; (ws', r) = consume f es' (b' @ d) in (ws @ ws', r))"
proof (induction es arbitrary: b)
  case Nil
  then show ?case by simp
next
  case (Cons e es)
  then show ?case by (auto simp: Let_def split: prod.splits)
qed

lemma consume_rest:
  "consume f es b = (ws, es', b') \<Longrightarrow> \<exists>k. es' = drop k es
     \<and> (es' \<noteq> [] \<longrightarrow> length b' < unat (byte_count (hd es')))"
proof (induction es arbitrary: b ws)
  case Nil
  then show ?case by simp
next
  case (Cons e es)
  show ?case
  proof (cases "unat (byte_count e) \<le> length b")
    case True
    then obtain ws' where "consume f es (drop (unat (byte_count e)) b) = (ws', es', b')"
      using Cons.prems by (auto simp: Let_def split: prod.splits)
    then obtain k where "es' = drop k es" "es' \<noteq> [] \<longrightarrow> length b' < unat (byte_count (hd es'))"
      using Cons.IH by blast
    then show ?thesis by (intro exI [of _ "Suc k"]) simp
  next
    case False
    then show ?thesis using Cons.prems by (intro exI [of _ 0]) auto
  qed
qed

section \<open>Invariant\<close>

definition stream_inv :: "heap \<Rightarrow> bytes \<Rightarrow> FFU_STREAM_FLASH \<Rightarrow> bool" where
  "stream_inv H p ctx \<longleftrightarrow>
     plan_wf (hdr_size ctx) (plan ctx) \<and>
     (\<exists>a. header ctx = Some a \<and> H a = Some p) \<and> unat (hdr_size ctx) \<le> length p \<and>
     bio ctx \<noteq> None \<and> media_block ctx \<noteq> 0 \<and>
     length (entry_data ctx) = unat (entry_capacity ctx) \<and>
     (\<forall>e \<in> set (entries (plan ctx)). byte_count e \<le> entry_capacity ctx) \<and>
     unat (entry_index ctx) \<le> length (entries (plan ctx)) \<and>
     (if unat (entry_index ctx) < length (entries (plan ctx))
      then entry_received ctx \<le> byte_count (entries (plan ctx) ! unat (entry_index ctx))
      else entry_received ctx = 0)"

text \<open>\<open>live\<close>: the current entry still needs bytes. It fails only after a write failed.\<close>

definition live :: "FFU_STREAM_FLASH \<Rightarrow> bool" where
  "live ctx \<longleftrightarrow> (unat (entry_index ctx) < length (entries (plan ctx)) \<longrightarrow>
     entry_received ctx < byte_count (entries (plan ctx) ! unat (entry_index ctx)))"

text \<open>The abstract state of a context, and the writes of a completed entry.\<close>

definition pending :: "FFU_STREAM_FLASH \<Rightarrow> FFU_WRITE_ENTRY list \<times> bytes" where
  "pending ctx = (drop (unat (entry_index ctx)) (entries (plan ctx)),
     take (unat (entry_received ctx)) (entry_data ctx))"

definition emits :: "bytes \<Rightarrow> FFU_STREAM_FLASH \<Rightarrow> FFU_WRITE_ENTRY \<Rightarrow> bytes \<Rightarrow> (u64 \<times> bytes) list" where
  "emits p ctx e d = (if dry_run ctx = 0 then entry_writes p (plan ctx) (media_block ctx) e d else [])"

section \<open>Writing a completed entry\<close>

text \<open>After an error a prefix of the writes was made; on success all of them, and the device
  accepted each one.\<close>

definition wr_post ::
    "env \<Rightarrow> FFU_STREAM_FLASH \<Rightarrow> world \<Rightarrow> (u64 \<times> bytes) list \<Rightarrow> (EFI_STATUS \<times> FFU_STREAM_FLASH \<times> world) option \<Rightarrow> bool" where
  "wr_post E ctx w full r \<longleftrightarrow> (\<exists>st x w' ws. r = Some (st, ctx\<lparr>last_sector := x\<rparr>, w')
     \<and> disk_writes w' = disk_writes w @ ws \<and> polls w' = polls w \<and> grew w w'
     \<and> prefix ws full
     \<and> (EFI_ERROR st \<or> ws = full \<and> st = EFI_SUCCESS \<and> taken E w w' = map (Pair (media_id ctx)) full))"

lemma location_index:
  fixes off :: u64 and l :: u32
  assumes "unat off + 8 + 8 * unat n \<le> unat (sz :: u64)" "l < n"
  shows "unat (off + 8 + ucast l * 8) = unat off + 8 + 8 * unat l"
    "unat off + 8 + 8 * unat l + 8 \<le> unat sz"
proof -
  have l: "unat l < unat n" using assms(2) by (simp add: word_less_nat_alt)
  have s: "unat sz < 18446744073709551616" by (rule unat_u64_lt)
  have m: "unat (ucast l * 8 :: u64) = unat l * 8"
    using unat_u32_lt [of l] by (subst unat_mult_le) simp_all
  have "unat (off + 8) = unat off + 8" using assms(1) s by (subst unat_add_le) simp_all
  then show "unat (off + 8 + ucast l * 8) = unat off + 8 + 8 * unat l"
    using m l assms(1) s by (subst unat_add_le) simp_all
  show "unat off + 8 + 8 * unat l + 8 \<le> unat sz" using l assms(1) by simp
qed

lemma le32_take:
  assumes "k + n \<le> length p" "i + 4 \<le> n"
  shows "rd_le32 (drop i (take n (drop k p))) = rd_le32 (drop (k + i) p)"
proof (rule le32.dec_prefix)
  have "drop i (take n (drop k p)) = take (n - i) (drop (k + i) p)"
    by (simp add: drop_take add.commute)
  then show "take 4 (drop i (take n (drop k p))) = take 4 (drop (k + i) p)"
    using assms(2) by (simp add: min_def)
qed (use assms in simp_all)

lemma read_location_in:
  assumes hd: "header ctx = Some a" "H a = Some p" "unat (hdr_size ctx) \<le> length p"
    and e: "unat (descriptor_offset e) + 8 + 8 * unat (location_count e) \<le> unat (hdr_size ctx)"
    and l: "l < location_count e"
  shows "read_location_mem H (header ctx) (hdr_size ctx) (descriptor_offset e) l
    = Some (EFI_SUCCESS, entry_method p e (unat l), le32_at p (unat (descriptor_offset e) + 8 + 8 * unat l + 4))"
proof -
  let ?o = "unat (descriptor_offset e) + 8 + 8 * unat l"
  note ix = location_index [OF e l]
  have rd: "mem_read_exact (Some p) (hdr_size ctx) (descriptor_offset e + 8 + ucast l * 8) 8
      = Some (EFI_SUCCESS, take 8 (drop ?o p))"
    using ix by (simp add: mem_read_exact_in [OF hd(3)])
  have len: "?o + 8 \<le> length p" using ix(2) hd(3) by linarith
  obtain m where m: "rd_le32 (drop ?o p) = Some m" using le32.dec_drop_total [of ?o p] len by auto
  obtain b where b: "rd_le32 (drop (?o + 4) p) = Some b" using le32.dec_drop_total [of "?o + 4" p] len by auto
  have "rd_le32 (take 8 (drop ?o p)) = Some m" "rd_le32 (drop 4 (take 8 (drop ?o p))) = Some b"
    using le32_take [OF len, of 0] le32_take [OF len, of 4] m b by simp_all
  then show ?thesis
    using hd(1,2) rd m b by (simp add: read_location_mem_def deref_def entry_method_def le32_at_def)
qed

lemma stream_location_post:
  assumes hd: "header ctx = Some a" "H a = Some p" "unat (hdr_size ctx) \<le> length p"
    and e: "unat (descriptor_offset e) + 8 + 8 * unat (location_count e) \<le> unat (hdr_size ctx)"
    and l: "l < location_count e" and b: "bio ctx \<noteq> None" and mb: "media_block ctx \<noteq> 0"
    and d: "unat (byte_count e) \<le> length (entry_data ctx)"
  shows "wr_post E ctx w
    (if dry_run ctx = 0 then [(entry_target p (block_size s) e (unat l) div ucast (media_block ctx),
        take (unat (byte_count e)) (entry_data ctx))] else [])
    (stream_location E H ctx e s l w)"
proof -
  let ?t = "entry_target p (block_size s) e (unat l)"
  let ?lba = "?t div ucast (media_block ctx)"
  let ?d = "take (unat (byte_count e)) (entry_data ctx)"
  let ?bad = "entry_method p e (unat l) \<noteq> 0 \<or> ?t mod ucast (media_block ctx) \<noteq> 0
      \<or> byte_count e mod media_block ctx \<noteq> 0"
  let ?x = "ucast (?lba + ucast (byte_count e div media_block ctx) - 1) :: u32"
  have self: "ctx\<lparr>last_sector := last_sector ctx\<rparr> = ctx" by (cases ctx) simp
  note rd = read_location_in [of ctx a H p e l, OF hd e l]
  obtain b0 where b0: "bio ctx = Some b0" using b by auto
  have ld: "load (entry_data ctx) 0 (unat (byte_count e)) = Some ?d" using d by (simp add: load_def)
  obtain st w1 where wb: "WriteBlocks_call E (media_id ctx) ?lba (ucast (byte_count e)) ?d w = (st, w1)"
    by (cases "WriteBlocks_call E (media_id ctx) ?lba (ucast (byte_count e)) ?d w")
  then have w1: "disk_writes w1 = disk_writes w @ [(?lba, ?d)]" "polls w1 = polls w" "grew w w1"
      "\<not> EFI_ERROR st \<Longrightarrow> taken E w w1 = [(media_id ctx, ?lba, ?d)]"
    by (auto simp: WriteBlocks_call_def Let_def taken_write)
  have eq: "stream_location E H ctx e s l w =
     (if ?bad then Some (EFI_UNSUPPORTED, ctx, w)
      else if dry_run ctx \<noteq> 0 then Some (EFI_SUCCESS, ctx\<lparr>last_sector := ?x\<rparr>, w)
      else if EFI_ERROR st then Some (st, ctx, w1) else Some (EFI_SUCCESS, ctx\<lparr>last_sector := ?x\<rparr>, w1))"
    using rd mb b0 ld wb by (simp add: stream_location_def Let_def entry_target_def)
  have keep: "wr_post E ctx w full (Some (st', ctx, w'))"
    if "EFI_ERROR st'" "disk_writes w' = disk_writes w @ ws" "polls w' = polls w" "grew w w'" "prefix ws full"
    for full st' w' ws
    unfolding wr_post_def using that self by metis
  have good: "wr_post E ctx w full (Some (EFI_SUCCESS, ctx\<lparr>last_sector := ?x\<rparr>, w'))"
    if "disk_writes w' = disk_writes w @ full" "polls w' = polls w" "grew w w'" "taken E w w' = map (Pair (media_id ctx)) full" for full w'
    unfolding wr_post_def using that
    by (intro exI [of _ EFI_SUCCESS] exI [of _ ?x] exI [of _ w'] exI [of _ full]) simp
  show ?thesis
  proof (cases ?bad)
    case True
    then have "(if ?bad then Some (EFI_UNSUPPORTED, ctx, w) else r) = Some (EFI_UNSUPPORTED, ctx, w)" for r
      by (simp only: if_True)
    then show ?thesis unfolding eq by (simp only:) (rule keep [where ws = "[]"], simp_all)
  next
    case False
    then show ?thesis unfolding eq using w1
      by (cases "dry_run ctx = 0"; cases "EFI_ERROR st")
        (simp_all add: good keep [where ws = "[(?lba, ?d)]"])
  qed
qed

lemma wr_post_seq:
  assumes "wr_post E ctx w xs r"
    and "\<And>x w'. wr_post E (ctx\<lparr>last_sector := x\<rparr>) w' ys (f (ctx\<lparr>last_sector := x\<rparr>) w')"
  shows "wr_post E ctx w (xs @ ys)
     (do { (st, ctx, w) \<leftarrow> r; if EFI_ERROR st then Some (st, ctx, w) else f ctx w })"
proof -
  obtain st x w' ws where r: "r = Some (st, ctx\<lparr>last_sector := x\<rparr>, w')"
      "disk_writes w' = disk_writes w @ ws" "polls w' = polls w" "grew w w'" "prefix ws xs"
      "EFI_ERROR st \<or> ws = xs \<and> st = EFI_SUCCESS \<and> taken E w w' = map (Pair (media_id ctx)) xs"
    using assms(1) unfolding wr_post_def by blast
  show ?thesis
  proof (cases "EFI_ERROR st")
    case True
    then show ?thesis unfolding wr_post_def using r
      by (intro exI [of _ st] exI [of _ x] exI [of _ w'] exI [of _ ws]) (simp add: prefix_prefix)
  next
    case False
    obtain st' y w'' ws' where f: "f (ctx\<lparr>last_sector := x\<rparr>) w' = Some (st', ctx\<lparr>last_sector := x\<rparr>\<lparr>last_sector := y\<rparr>, w'')"
        "disk_writes w'' = disk_writes w' @ ws'" "polls w'' = polls w'" "grew w' w''" "prefix ws' ys"
        "EFI_ERROR st' \<or> ws' = ys \<and> st' = EFI_SUCCESS \<and> taken E w' w'' = map (Pair (media_id ctx)) ys"
      using assms(2) [of x w'] unfolding wr_post_def by auto
    show ?thesis unfolding wr_post_def using r f False taken_append [OF r(4) f(4), of E] grew_trans [OF r(4) f(4)]
      by (intro exI [of _ st'] exI [of _ y] exI [of _ w''] exI [of _ "ws @ ws'"]) auto
  qed
qed

lemma stream_locations_post:
  assumes hd: "header ctx = Some a" "H a = Some p" "unat (hdr_size ctx) \<le> length p"
    and e: "unat (descriptor_offset e) + 8 + 8 * unat (location_count e) \<le> unat (hdr_size ctx)"
    and b: "bio ctx \<noteq> None" and mb: "media_block ctx \<noteq> 0"
    and d: "unat (byte_count e) \<le> length (entry_data ctx)"
  shows "unat l + n = unat (location_count e) \<Longrightarrow> wr_post E ctx w
    (if dry_run ctx = 0 then map (\<lambda>i. (entry_target p (block_size s) e i div ucast (media_block ctx),
        take (unat (byte_count e)) (entry_data ctx))) [unat l..<unat l + n] else [])
    (stream_locations E H ctx e s n l w)"
  using assms
proof (induction n arbitrary: ctx l w)
  case 0
  have self: "ctx\<lparr>last_sector := last_sector ctx\<rparr> = ctx" by (cases ctx) simp
  show ?case unfolding wr_post_def using self
    by (intro exI [of _ EFI_SUCCESS] exI [of _ "last_sector ctx"] exI [of _ w] exI [of _ "[]"]) simp
next
  case (Suc n)
  have l: "l < location_count e" using Suc.prems(1) by (simp add: word_less_nat_alt)
  have l1: "unat (l + 1) = unat l + 1" using count_up(1) [OF l] .
  let ?f = "\<lambda>i. (entry_target p (block_size s) e i div ucast (media_block ctx),
        take (unat (byte_count e)) (entry_data ctx))"
  have split: "(if dry_run ctx = 0 then map ?f [unat l..<unat l + Suc n] else [])
      = (if dry_run ctx = 0 then [?f (unat l)] else [])
      @ (if dry_run ctx = 0 then map ?f [unat (l + 1)..<unat (l + 1) + n] else [])"
    by (simp add: l1 upt_rec)
  show ?case unfolding split stream_locations.simps
  proof (rule wr_post_seq)
    show "wr_post E ctx w (if dry_run ctx = 0 then [?f (unat l)] else []) (stream_location E H ctx e s l w)"
      using stream_location_post [of ctx a H p e l, OF Suc.prems(2-5) l Suc.prems(6-8)] .
  next
    fix x w'
    show "wr_post E (ctx\<lparr>last_sector := x\<rparr>) w'
        (if dry_run ctx = 0 then map ?f [unat (l + 1)..<unat (l + 1) + n] else [])
        (stream_locations E H (ctx\<lparr>last_sector := x\<rparr>) e s n (l + 1) w')"
      using Suc.IH [of "l + 1" "ctx\<lparr>last_sector := x\<rparr>" w'] Suc.prems l1
      by (cases "dry_run ctx = 0") (simp_all del: upt_Suc)
  qed
qed

lemma stream_write_post:
  assumes inv: "stream_inv H p ctx" and e: "e \<in> set (entries (plan ctx))"
  shows "wr_post E ctx w (emits p ctx e (take (unat (byte_count e)) (entry_data ctx)))
    (stream_write_completed_entry E H ctx e w)"
proof -
  obtain a where a: "header ctx = Some a" "H a = Some p" using inv by (auto simp: stream_inv_def)
  have wf: "plan_wf (hdr_size ctx) (plan ctx)" using inv by (simp add: stream_inv_def)
  note we = plan_wf_entry [OF wf e]
  have "byte_count e \<le> entry_capacity ctx" using inv e by (simp add: stream_inv_def)
  then have d: "unat (byte_count e) \<le> length (entry_data ctx)"
    using inv by (simp add: stream_inv_def word_le_nat_alt)
  have o: "unat (descriptor_offset e) + 8 + 8 * unat (location_count e) \<le> unat (hdr_size ctx)"
    using we(2) by (simp add: entry_ok_def)
  have "wr_post E ctx w (if dry_run ctx = 0 then map (\<lambda>i. (entry_target p (block_size (stores (plan ctx) ! unat (store_index e))) e i div ucast (media_block ctx),
        take (unat (byte_count e)) (entry_data ctx))) [unat (0 :: u32)..<unat (0 :: u32) + unat (location_count e)] else [])
    (stream_locations E H ctx e (stores (plan ctx) ! unat (store_index e)) (unat (location_count e)) 0 w)"
    using inv a o d by (intro stream_locations_post) (auto simp: stream_inv_def)
  then show ?thesis
    using we(1)
    by (cases "dry_run ctx = 0")
      (simp_all add: stream_write_completed_entry_def mem_simps emits_def entry_writes_def)
qed

section \<open>Receiving payload\<close>

text \<open>The number of bytes a round takes, as a natural number.\<close>

lemma step_take_unat:
  assumes "entry_received ctx \<le> byte_count e" "pos \<le> len"
  shows "unat (step_take ctx e len pos)
      = min (unat len - unat pos) (unat (byte_count e) - unat (entry_received ctx))"
    "unat (entry_received ctx + step_take ctx e len pos)
      = unat (entry_received ctx) + unat (step_take ctx e len pos)"
    "unat (pos + step_take ctx e len pos) = unat pos + unat (step_take ctx e len pos)"
proof -
  have a: "unat (len - pos) = unat len - unat pos" "unat (byte_count e - entry_received ctx)
      = unat (byte_count e) - unat (entry_received ctx)"
    using assms by (simp_all add: word_le_sub_unat)
  show t: "unat (step_take ctx e len pos)
      = min (unat len - unat pos) (unat (byte_count e) - unat (entry_received ctx))"
    using a by (simp add: step_take_def Let_def word_less_nat_alt min_def)
  have "unat (entry_received ctx) \<le> unat (byte_count e)" "unat pos \<le> unat len"
    using assms by (simp_all add: word_le_nat_alt)
  then show "unat (entry_received ctx + step_take ctx e len pos)
      = unat (entry_received ctx) + unat (step_take ctx e len pos)"
    "unat (pos + step_take ctx e len pos) = unat pos + unat (step_take ctx e len pos)"
    using t unat_u32_lt [of "byte_count e"] unat_u32_lt [of len] by (simp_all add: unat_add_le)
qed

text \<open>The context after the bytes of a round have been copied.\<close>

definition filled :: "FFU_STREAM_FLASH \<Rightarrow> bytes \<Rightarrow> u32 \<Rightarrow> u32 \<Rightarrow> FFU_STREAM_FLASH" where
  "filled ctx data tk pos = ctx\<lparr>
     entry_data := take (unat (entry_received ctx)) (entry_data ctx) @ take (unat tk) (drop (unat pos) data)
        @ drop (unat (entry_received ctx) + unat tk) (entry_data ctx),
     entry_received := entry_received ctx + tk\<rparr>"

lemma stream_step_in:
  assumes inv: "stream_inv H p ctx" and i: "unat (entry_index ctx) < length (entries (plan ctx))"
    and e: "e = entries (plan ctx) ! unat (entry_index ctx)" and pos: "pos < len"
    and len: "unat len \<le> length data" and tk: "tk = step_take ctx e len pos"
  shows "stream_step E H ctx data len pos w =
     (if entry_received ctx + tk = byte_count e then do {
        (st, ctx, w) \<leftarrow> stream_write_completed_entry E H (filled ctx data tk pos) e w;
        if EFI_ERROR st then Some (Inl (st, ctx, w))
        else Some (Inr (ctx\<lparr>entry_received := 0, entry_index := entry_index ctx + 1\<rparr>, pos + tk, w)) }
      else Some (Inr (filled ctx data tk pos, pos + tk, w)))"
    and "stream_inv H p (filled ctx data tk pos)"
proof -
  have le: "entry_received ctx \<le> byte_count e" using inv i e by (simp add: stream_inv_def)
  note t = step_take_unat [OF le less_imp_le [OF pos], folded tk]
  have wf: "plan_wf (hdr_size ctx) (plan ctx)" using inv by (simp add: stream_inv_def)
  then have cnt: "\<not> entry_count (plan ctx) \<le> entry_index ctx"
    using i by (simp add: plan_wf_def word_le_nat_alt)
  have "e \<in> set (entries (plan ctx))" using e i by simp
  then have cap: "unat (byte_count e) \<le> unat (entry_capacity ctx)"
    using inv by (simp add: stream_inv_def word_le_nat_alt)
  have fill: "unat (entry_received ctx) + unat tk \<le> unat (byte_count e)"
    using t(1) le by (simp add: word_le_nat_alt)
  then have c: "\<not> entry_capacity ctx < entry_received ctx + tk"
    using t(2) cap by (simp add: word_less_nat_alt)
  have d: "length (entry_data ctx) = unat (entry_capacity ctx)" using inv by (simp add: stream_inv_def)
  have m: "memcpy (entry_data ctx) (unat (entry_received ctx)) data (unat pos) (unat tk)
      = Some (entry_data (filled ctx data tk pos))"
    using t(1) len pos fill cap d
    by (subst memcpy_in) (auto simp: filled_def word_less_nat_alt)
  show "stream_step E H ctx data len pos w =
     (if entry_received ctx + tk = byte_count e then do {
        (st, ctx, w) \<leftarrow> stream_write_completed_entry E H (filled ctx data tk pos) e w;
        if EFI_ERROR st then Some (Inl (st, ctx, w))
        else Some (Inr (ctx\<lparr>entry_received := 0, entry_index := entry_index ctx + 1\<rparr>, pos + tk, w)) }
      else Some (Inr (filled ctx data tk pos, pos + tk, w)))"
    unfolding stream_step_def using cnt i c m
    by (simp add: mem_simps e [symmetric] tk [symmetric]) (simp add: filled_def)
  have "length (entry_data (filled ctx data tk pos)) = unat (entry_capacity ctx)"
  proof -
    have "unat pos + unat tk \<le> length data" using t(1) len pos by (simp add: word_less_nat_alt)
    then have "length (take (unat tk) (drop (unat pos) data)) = unat tk" by simp
    then show ?thesis using d fill cap by (simp add: filled_def)
  qed
  moreover have "entry_received ctx + tk \<le> byte_count e" using t(2) fill by (simp add: word_le_nat_alt)
  ultimately show "stream_inv H p (filled ctx data tk pos)"
    using inv i e by (simp add: stream_inv_def filled_def)
qed

text \<open>The outcome of feeding bytes to a context, with \<open>full\<close> the writes, \<open>es\<close> the entries and \<open>b\<close>
  the buffered bytes that the abstract step gives: on success exactly that happened, after an
  error of the firmware the writes are a prefix.\<close>

definition config :: "FFU_STREAM_FLASH \<Rightarrow> FFU_PLAN \<times> u32 \<times> u32 \<times> u32 \<times> nat option \<times> u64" where
  "config ctx = (plan ctx, media_block ctx, media_id ctx, dry_run ctx, header ctx, hdr_size ctx)"

definition feed_post ::
    "heap \<Rightarrow> bytes \<Rightarrow> FFU_STREAM_FLASH \<Rightarrow> world \<Rightarrow> (u64 \<times> bytes) list \<times> FFU_WRITE_ENTRY list \<times> bytes
      \<Rightarrow> (EFI_STATUS \<times> FFU_STREAM_FLASH \<times> world) option \<Rightarrow> bool" where
  "feed_post H p ctx w a r \<longleftrightarrow> (case a of (full, es, b) \<Rightarrow> \<exists>st ctx' w' ws. r = Some (st, ctx', w')
     \<and> stream_inv H p ctx' \<and> config ctx' = config ctx
     \<and> disk_writes w' = disk_writes w @ ws \<and> polls w' = polls w \<and> grew w w' \<and> prefix ws full
     \<and> (EFI_ERROR st \<or> st = EFI_SUCCESS \<and> ws = full \<and> live ctx' \<and> pending ctx' = (es, b)))"

lemma emits_config: "config ctx' = config ctx \<Longrightarrow> emits p ctx' = emits p ctx"
  by (simp add: config_def emits_def fun_eq_iff)

lemma feed_post_pre:
  assumes "feed_post H p ctx1 w1 (full, r) res" "config ctx1 = config ctx"
    and "disk_writes w1 = disk_writes w @ ws" "polls w1 = polls w" "grew w w1"
  shows "feed_post H p ctx w (ws @ full, r) res"
  using assms grew_trans [OF assms(5)] unfolding feed_post_def by (cases r) fastforce

text \<open>One round against one step of the abstract flasher.\<close>

lemma pending_at:
  assumes "unat (entry_index ctx) < length (entries (plan ctx))"
  shows "pending ctx = (entries (plan ctx) ! unat (entry_index ctx)
      # drop (Suc (unat (entry_index ctx))) (entries (plan ctx)),
     take (unat (entry_received ctx)) (entry_data ctx))"
  using assms by (simp add: pending_def Cons_nth_drop_Suc)

lemma filled_take:
  assumes "unat (entry_received ctx) \<le> length (entry_data ctx)"
    and "unat (entry_received ctx + tk) = unat (entry_received ctx) + unat tk"
    and "unat pos + unat tk \<le> length data"
  shows "take (unat (entry_received (filled ctx data tk pos))) (entry_data (filled ctx data tk pos))
    = take (unat (entry_received ctx)) (entry_data ctx) @ take (unat tk) (drop (unat pos) data)"
  using assms by (simp add: filled_def)

lemma advance_inv:
  assumes inv: "stream_inv H p ctx" and i: "unat (entry_index ctx) < length (entries (plan ctx))"
  shows "stream_inv H p (ctx\<lparr>last_sector := x, entry_received := 0, entry_index := entry_index ctx + 1\<rparr>)"
    and "live (ctx\<lparr>last_sector := x, entry_received := 0, entry_index := entry_index ctx + 1\<rparr>)"
    and "pending (ctx\<lparr>last_sector := x, entry_received := 0, entry_index := entry_index ctx + 1\<rparr>)
      = (drop (Suc (unat (entry_index ctx))) (entries (plan ctx)), [])"
proof -
  have wf: "plan_wf (hdr_size ctx) (plan ctx)" using inv by (simp add: stream_inv_def)
  then have "entry_index ctx < entry_count (plan ctx)"
    using i by (simp add: plan_wf_def word_less_nat_alt)
  then have s: "unat (entry_index ctx + 1) = Suc (unat (entry_index ctx))" using count_up(1) by simp
  show "stream_inv H p (ctx\<lparr>last_sector := x, entry_received := 0, entry_index := entry_index ctx + 1\<rparr>)"
    using inv i s by (simp add: stream_inv_def)
  have "byte_count (entries (plan ctx) ! Suc (unat (entry_index ctx))) \<noteq> 0"
    if "Suc (unat (entry_index ctx)) < length (entries (plan ctx))"
    using plan_wf_entry(4) [OF wf] that by simp
  then show "live (ctx\<lparr>last_sector := x, entry_received := 0, entry_index := entry_index ctx + 1\<rparr>)"
    using s by (simp add: live_def word_neq_0_conv)
  show "pending (ctx\<lparr>last_sector := x, entry_received := 0, entry_index := entry_index ctx + 1\<rparr>)
      = (drop (Suc (unat (entry_index ctx))) (entries (plan ctx)), [])"
    using s by (simp add: pending_def)
qed

lemma feed_next:
  assumes "stream_step E H ctx data len pos w = Some (Inr (ctx', pos', w'))" "pos < len"
  shows "payload_loop E H ctx data len pos w = payload_loop E H ctx' data len pos' w'"
  using assms by (subst payload_loop.simps) simp

lemma payload_round:
  assumes inv: "stream_inv H p ctx" and i: "unat (entry_index ctx) < length (entries (plan ctx))"
    and e: "e = entries (plan ctx) ! unat (entry_index ctx)" and pos: "pos < len"
    and len: "unat len = length data"
    and IH: "\<And>ctx' pos' w'. stream_step E H ctx data len pos w = Some (Inr (ctx', pos', w')) \<Longrightarrow>
      stream_inv H p ctx' \<Longrightarrow> live ctx' \<Longrightarrow> pos' \<le> len \<Longrightarrow>
      feed_post H p ctx' w' (consume (emits p ctx') (fst (pending ctx')) (snd (pending ctx') @ drop (unat pos') data))
        (payload_loop E H ctx' data len pos' w')"
  shows "feed_post H p ctx w (consume (emits p ctx) (fst (pending ctx)) (snd (pending ctx) @ drop (unat pos) data))
      (payload_loop E H ctx data len pos w)"
proof -
  define tk where "tk = step_take ctx e len pos"
  define b where "b = take (unat (entry_received ctx)) (entry_data ctx)"
  define rest where "rest = drop (Suc (unat (entry_index ctx))) (entries (plan ctx))"
  let ?c = "filled ctx data tk pos"
  have le: "entry_received ctx \<le> byte_count e" using inv i e by (simp add: stream_inv_def)
  note t = step_take_unat [OF le less_imp_le [OF pos], folded tk_def]
  have "e \<in> set (entries (plan ctx))" using e i by simp
  then have ein: "e \<in> set (entries (plan ?c))" and cap: "unat (byte_count e) \<le> length (entry_data ctx)"
    using inv by (simp_all add: stream_inv_def word_le_nat_alt filled_def)
  have lb: "length b = unat (entry_received ctx)" and rl: "unat (entry_received ctx) \<le> length (entry_data ctx)"
    using cap le by (simp_all add: b_def word_le_nat_alt)
  have pl: "unat pos + unat tk \<le> length data" using t(1) len pos by (simp add: word_less_nat_alt)
  note ft = filled_take [OF rl t(2) pl, folded b_def]
  have same: "config ?c = config ctx" "plan ?c = plan ctx" "entry_index ?c = entry_index ctx"
      "entry_received ?c = entry_received ctx + tk"
    by (simp_all add: config_def filled_def)
  have pe: "pending ctx = (e # rest, b)" using pending_at [OF i] by (simp add: e b_def rest_def)
  have split: "take (unat tk) (drop (unat pos) data) @ drop (unat pos + unat tk) data = drop (unat pos) data"
    by (metis append_take_drop_id drop_drop add.commute)
  have pos': "pos + tk \<le> len" using t(3) pl len by (simp add: word_le_nat_alt)
  note st = stream_step_in [OF inv i e pos eq_imp_le [OF len] tk_def]
  show ?thesis
  proof (cases "entry_received ctx + tk = byte_count e")
    case False
    have step: "stream_step E H ctx data len pos w = Some (Inr (?c, pos + tk, w))" using st(1) False by simp
    have "unat (entry_received ctx + tk) \<le> unat (byte_count e)" using t(1,2) le by (simp add: word_le_nat_alt)
    then have "entry_received ctx + tk \<le> byte_count e" by (simp add: word_le_nat_alt)
    then have "live ?c" using False i e same by (simp add: live_def)
    from IH [OF step st(2) this pos']
    have "feed_post H p ?c w (consume (emits p ctx) (e # rest) (b @ drop (unat pos) data))
        (payload_loop E H ?c data len (pos + tk) w)"
      using pending_at [of ?c] i ft same(2,3) e split t(3) emits_config [OF same(1)]
      by (simp add: rest_def)
    then show ?thesis unfolding feed_next [OF step pos] pe
      by (simp add: feed_post_def same(1))
  next
    case True
    define d where "d = b @ take (unat tk) (drop (unat pos) data)"
    have n: "unat (byte_count e) = length b + unat tk" using t(2) lb True by simp
    have d: "take (unat (byte_count e)) (entry_data ?c) = d" using ft same(4) True by (simp add: d_def)
    have cons: "consume (emits p ctx) (e # rest) (b @ drop (unat pos) data) =
       (let (ws, r) = consume (emits p ctx) rest (drop (unat pos + unat tk) data) in (emits p ctx e d @ ws, r))"
    proof -
      have "unat (byte_count e) \<le> length (b @ drop (unat pos) data)" using n pl by simp
      then show ?thesis using n by (simp add: Let_def d_def add.commute del: length_append length_drop)
    qed
    obtain st' x w' ws where wr: "stream_write_completed_entry E H ?c e w = Some (st', ?c\<lparr>last_sector := x\<rparr>, w')"
        "disk_writes w' = disk_writes w @ ws" "polls w' = polls w" "grew w w'" "prefix ws (emits p ctx e d)"
        "EFI_ERROR st' \<or> ws = emits p ctx e d \<and> st' = EFI_SUCCESS"
      using stream_write_post [OF st(2) ein, of E w] d emits_config [OF same(1)] unfolding wr_post_def by auto
    show ?thesis
    proof (cases "EFI_ERROR st'")
      case err: True
      have "stream_step E H ctx data len pos w = Some (Inl (st', ?c\<lparr>last_sector := x\<rparr>, w'))"
        using st(1) True wr(1) err by simp
      then have "payload_loop E H ctx data len pos w = Some (st', ?c\<lparr>last_sector := x\<rparr>, w')"
        using pos by (subst payload_loop.simps) simp
      moreover have "stream_inv H p (?c\<lparr>last_sector := x\<rparr>)" using st(2) by (simp add: stream_inv_def)
      moreover have "config (?c\<lparr>last_sector := x\<rparr>) = config ctx" using same(1) by (simp add: config_def)
      ultimately show ?thesis using wr err unfolding pe
        by (auto simp: feed_post_def cons prefix_prefix simp del: consume.simps split: prod.splits intro!: exI [of _ ws])
    next
      case ok: False
      let ?a = "?c\<lparr>last_sector := x, entry_received := 0, entry_index := entry_index ?c + 1\<rparr>"
      have step: "stream_step E H ctx data len pos w = Some (Inr (?a, pos + tk, w'))"
        using st(1) True wr(1) ok by simp
      have i': "unat (entry_index ?c) < length (entries (plan ?c))" using i same by simp
      have cfg: "config ?a = config ctx" using same(1) by (simp add: config_def)
      note adv = advance_inv [OF st(2) i', of x]
      have "feed_post H p ?a w' (consume (emits p ctx) rest (drop (unat pos + unat tk) data))
          (payload_loop E H ?a data len (pos + tk) w')"
        using IH [OF step adv(1,2) pos'] t(3) adv(3) emits_config [OF cfg] same(2,3) by (simp add: rest_def)
      moreover obtain full r where "consume (emits p ctx) rest (drop (unat pos + unat tk) data) = (full, r)"
        by (rule prod.exhaust)
      ultimately show ?thesis
        using feed_post_pre [OF _ cfg wr(2,3,4)] wr(6) ok
        by (simp add: feed_next [OF step pos] pe cons del: consume.simps)
    qed
  qed
qed

lemma live_consume:
  assumes inv: "stream_inv H p ctx" "live ctx"
  shows "consume f (fst (pending ctx)) (snd (pending ctx)) = ([], pending ctx)"
proof (cases "unat (entry_index ctx) < length (entries (plan ctx))")
  case True
  then have "unat (entry_received ctx) < unat (byte_count (entries (plan ctx) ! unat (entry_index ctx)))"
    using inv(2) by (simp add: live_def word_less_nat_alt)
  then show ?thesis using True by (simp add: pending_at Let_def)
next
  case False
  then show ?thesis using inv(1) by (simp add: pending_def stream_inv_def)
qed

lemma payload_loop_post:
  "stream_inv H p ctx \<Longrightarrow> live ctx \<or> pos < len \<Longrightarrow> unat len = length data \<Longrightarrow> pos \<le> len
    \<Longrightarrow> feed_post H p ctx w (consume (emits p ctx) (fst (pending ctx)) (snd (pending ctx) @ drop (unat pos) data))
      (payload_loop E H ctx data len pos w)"
proof (induction E H ctx data len pos w rule: payload_loop.induct)
  case (1 E H ctx data len pos w)
  note inv = 1(2) and len = 1(4)
  show ?case
  proof (cases "pos < len")
    case False
    then have "pos = len" using 1(5) by simp
    then have "payload_loop E H ctx data len pos w = Some (EFI_SUCCESS, ctx, w)" "drop (unat pos) data = []"
      using len by (simp_all add: payload_loop.simps)
    moreover have "consume (emits p ctx) (fst (pending ctx)) (snd (pending ctx)) = ([], pending ctx)"
      using live_consume inv 1(3) False by blast
    ultimately show ?thesis using inv 1(3) False
      by (auto simp: feed_post_def intro!: exI [of _ "[]"])
  next
    case pos: True
    show ?thesis
    proof (cases "unat (entry_index ctx) < length (entries (plan ctx))")
      case False
      then have i: "entry_count (plan ctx) \<le> entry_index ctx"
        using inv by (simp add: stream_inv_def plan_wf_def word_le_nat_alt)
      have "payload_loop E H ctx data len pos w = Some (EFI_BAD_BUFFER_SIZE, ctx, w)"
        using pos i by (simp add: payload_loop.simps stream_step_def)
      moreover have "fst (pending ctx) = []" using False by (simp add: pending_def)
      ultimately show ?thesis using inv by (auto simp: feed_post_def intro!: exI [of _ "[]"])
    next
      case i: True
      show ?thesis
        by (rule payload_round [OF inv i refl pos len]) (rule 1(1) [OF pos], (assumption | simp add: len)+)
    qed
  qed
qed

lemma feed_post_final:
  assumes "feed_post H p ctx w a (Some (st, ctx', w'))"
  shows "feed_post H p ctx w a (Some (st, ctx'\<lparr>final_state := 1\<rparr>, w'))"
  using assms by (cases a) (auto simp: feed_post_def stream_inv_def live_def pending_def config_def)

lemma feed_post_Some: "feed_post H p ctx w a r \<Longrightarrow> \<exists>st ctx' w'. r = Some (st, ctx', w')"
  by (cases a) (auto simp: feed_post_def)

text \<open>One call of \<open>ffu_stream_flash_payload\<close> against the abstract flasher.\<close>

lemma payload_post:
  assumes inv: "stream_inv H p ctx" "live ctx" and len: "unat len = length data"
  shows "feed_post H p ctx w (consume (emits p ctx) (fst (pending ctx)) (snd (pending ctx) @ data))
    (ffu_stream_flash_payload E H ctx (Some data) len w)"
proof -
  have l: "feed_post H p ctx w (consume (emits p ctx) (fst (pending ctx)) (snd (pending ctx) @ data))
      (payload_loop E H ctx data len 0 w)"
    using payload_loop_post [OF inv(1) _ len, of 0 w E] inv(2) by simp
  obtain st ctx' w' where r: "payload_loop E H ctx data len 0 w = Some (st, ctx', w')"
    using feed_post_Some [OF l] by blast
  have "feed_post H p ctx w (consume (emits p ctx) (fst (pending ctx)) (snd (pending ctx) @ data))
      (Some (EFI_SUCCESS, ctx', w'))" if "\<not> EFI_ERROR st"
    using l r that by (auto simp: feed_post_def split: prod.splits)
  then show ?thesis using l r feed_post_final
    by (auto simp: ffu_stream_flash_payload_def simp del: consume.simps)
qed

text \<open>Without \<open>live\<close> (after an error) the call is still safe.\<close>

lemma payload_safe:
  assumes inv: "stream_inv H p ctx" and len: "unat len = length data"
  shows "\<exists>st ctx' w'. ffu_stream_flash_payload E H ctx (Some data) len w = Some (st, ctx', w')
    \<and> stream_inv H p ctx' \<and> (\<exists>ws. disk_writes w' = disk_writes w @ ws \<and> (dry_run ctx \<noteq> 0 \<longrightarrow> ws = []))
    \<and> config ctx' = config ctx \<and> polls w' = polls w \<and> grew w w'"
proof (cases "live ctx \<or> 0 < len")
  case True
  have l: "feed_post H p ctx w (consume (emits p ctx) (fst (pending ctx)) (snd (pending ctx) @ data))
      (payload_loop E H ctx data len 0 w)"
    using payload_loop_post [OF inv True len, of w E] by simp
  obtain st ctx' w' where r: "payload_loop E H ctx data len 0 w = Some (st, ctx', w')"
    using feed_post_Some [OF l] by blast
  have "fst (consume (emits p ctx) es b) = []" if "dry_run ctx \<noteq> 0" for es b
    using that by (induction es arbitrary: b) (auto simp: Let_def emits_def split: prod.splits)
  note nw = this
  obtain full es b where c: "consume (emits p ctx) (fst (pending ctx)) (snd (pending ctx) @ data) = (full, es, b)"
    by (rule prod_cases3)
  have "dry_run ctx \<noteq> 0 \<longrightarrow> full = []" using nw [of "fst (pending ctx)" "snd (pending ctx) @ data"] c by auto
  then have "stream_inv H p ctx'" "\<exists>ws. disk_writes w' = disk_writes w @ ws \<and> (dry_run ctx \<noteq> 0 \<longrightarrow> ws = [])"
      "config ctx' = config ctx" "polls w' = polls w" "grew w w'"
    using l r c by (auto simp: feed_post_def)
  then show ?thesis using r by (auto simp: ffu_stream_flash_payload_def stream_inv_def config_def)
next
  case False
  then have "payload_loop E H ctx data len 0 w = Some (EFI_SUCCESS, ctx, w)"
    by (simp add: payload_loop.simps)
  then show ?thesis using inv by (auto simp: ffu_stream_flash_payload_def stream_inv_def config_def)
qed

section \<open>Starting and finishing\<close>

lemma max_entry_loop_spec:
  "i + n = length (entries pl) \<Longrightarrow> \<exists>mx. max_entry_loop pl n i m = Some mx \<and> m \<le> mx
     \<and> (\<forall>e \<in> set (drop i (entries pl)). byte_count e \<le> mx)"
proof (induction n arbitrary: i m)
  case 0
  then show ?case by simp
next
  case (Suc n)
  then have i: "i < length (entries pl)" by simp
  let ?m = "if m < byte_count (entries pl ! i) then byte_count (entries pl ! i) else m"
  obtain mx where mx: "max_entry_loop pl n (Suc i) ?m = Some mx" "?m \<le> mx"
      "\<forall>e \<in> set (drop (Suc i) (entries pl)). byte_count e \<le> mx"
    using Suc.IH [of "Suc i" ?m] Suc.prems by auto
  have "drop i (entries pl) = entries pl ! i # drop (Suc i) (entries pl)"
    using i by (simp add: Cons_nth_drop_Suc)
  then show ?case using mx i by (auto simp: mem_simps split: if_splits)
qed

lemma init_inv:
  assumes H: "H a = Some p" "unat sz \<le> length p" "unat sz < 2 ^ 35"
  shows "\<exists>st ctx' w'. ffu_stream_flash_init E H ctx (Some a) sz b commit w = Some (st, ctx', w')
    \<and> disk_writes w' = disk_writes w \<and> polls w' = polls w \<and> grew w w'
    \<and> (EFI_ERROR st \<or> st = EFI_SUCCESS \<and> stream_inv H p ctx' \<and> live ctx'
         \<and> pending ctx' = (entries (plan ctx'), []) \<and> (dry_run ctx' = 0 \<longleftrightarrow> commit)
         \<and> header ctx' = Some a \<and> hdr_size ctx' = sz)"
proof (cases "Option.bind b Media")
  case None
  then show ?thesis by (simp add: ffu_stream_flash_init_def)
next
  case (Some m)
  show ?thesis
  proof (cases "\<not> MediaPresent m \<or> ReadOnly m \<or> BlockSize m = 0")
    case True
    then show ?thesis using Some by (auto simp: ffu_stream_flash_init_def)
  next
    case False
    obtain st pl w1 where pr: "ffu_parse_header_bytes E (Some p) sz zero_plan w = Some (st, pl, w1)"
        "same_io w w1" "st = EFI_SUCCESS \<and> plan_wf sz pl \<or> EFI_ERROR st"
      using parse_header_post [OF H(2,3), of E zero_plan w] by blast
    have fr: "disk_writes (snd (ffu_plan_free E q v)) = disk_writes v" "polls (snd (ffu_plan_free E q v)) = polls v"
      for q v by (simp_all add: ffu_plan_free_def Let_def uefi_free_def)
    have gr: "grew v (snd (ffu_plan_free E q v))" for q v by (simp add: ffu_plan_free_def Let_def)
    have d: "deref H (Some a) = Some (Some p)" using H(1) by (simp add: deref_def)
    show ?thesis
    proof (cases "EFI_ERROR st")
      case True
      then show ?thesis using Some False d pr fr [of pl w1] gr [of w1 pl]
        by (cases "ffu_plan_free E pl w1") (auto simp: ffu_stream_flash_init_def same_io_def intro: grew_trans)
    next
      case ok: False
      then have wf: "plan_wf sz pl" using pr(3) by simp
      then have cnt: "0 + unat (entry_count pl) = length (entries pl)" by (simp add: plan_wf_def)
      obtain mx where mx: "max_entry_loop pl (unat (entry_count pl)) 0 0 = Some mx"
          "\<forall>e \<in> set (entries pl). byte_count e \<le> mx"
        using max_entry_loop_spec [OF cnt, of 0] by auto
      show ?thesis
      proof (cases "mx = 0 \<or> UFP_MAX_PAYLOAD_DATA < mx")
        case True
        then show ?thesis using Some False d pr ok mx fr [of pl w1] gr [of w1 pl]
          by (cases "ffu_plan_free E pl w1") (auto simp: ffu_stream_flash_init_def same_io_def intro: grew_trans)
      next
        case small: False
        obtain r w2 where al: "uefi_alloc E (ucast mx) w1 = (r, w2)" by fastforce
        show ?thesis
        proof (cases r)
          case None
          then show ?thesis using Some False d pr ok mx small al fr [of pl w2] gr [of w2 pl] uefi_alloc_polls [OF al] grew_alloc [OF al]
            by (cases "ffu_plan_free E pl w2") (auto simp: ffu_stream_flash_init_def same_io_def intro: grew_trans)
        next
          case (Some dat)
          have "(ucast mx :: u64) \<noteq> 0" using small by (metis unat_eq_zero unat_ucast_32_64)
          then have ld: "length dat = unat mx" using uefi_alloc_length [of E "ucast mx" w1 dat w2] al Some by simp
          have "byte_count (entries pl ! 0) \<noteq> 0" if "0 < length (entries pl)"
            using plan_wf_entry(4) [OF wf] that by simp
          then have b0: "0 < byte_count (entries pl ! 0)" if "entries pl \<noteq> []"
            using that by (simp add: word_neq_0_conv)
          let ?ctx = "zero_ctx\<lparr>plan := pl, entry_data := dat, entry_capacity := mx, bio := b, header := Some a,
                  hdr_size := sz, media_block := BlockSize m, media_id := MediaId m,
                  dry_run := (if commit then 0 else 1), last_sector := 0xffffffff\<rparr>"
          have eq: "ffu_stream_flash_init E H ctx (Some a) sz b commit w = Some (EFI_SUCCESS, ?ctx, w2)"
            using \<open>Option.bind b Media = Some m\<close> False d pr ok mx(1) small al Some
            by (simp add: ffu_stream_flash_init_def)
          have "b \<noteq> None" using \<open>Option.bind b Media = Some m\<close> by (cases b) simp_all
          then have "stream_inv H p ?ctx" "live ?ctx" "pending ?ctx = (entries pl, [])"
            using wf mx(2) ld H False b0 by (auto simp: stream_inv_def live_def pending_def zero_ctx_def)
          then show ?thesis using eq pr(2) uefi_alloc_polls [OF al] disk_writes_alloc [OF al] grew_alloc [OF al]
            by (auto simp: same_io_def)
        qed
      qed
    qed
  qed
qed

text \<open>The transfer is done exactly when no entry is pending.\<close>

lemma done_pending:
  assumes inv: "stream_inv H p ctx"
  shows "ffu_stream_flash_done ctx \<longleftrightarrow> fst (pending ctx) = []"
proof -
  have wf: "plan_wf (hdr_size ctx) (plan ctx)" using inv by (simp add: stream_inv_def)
  then show ?thesis using inv
    by (auto simp: ffu_stream_flash_done_def pending_def plan_wf_def stream_inv_def word_le_nat_alt)
qed

text \<open>Feeding a list of chunks, as the payload messages of a session do.\<close>

fun feed_chunks ::
    "env \<Rightarrow> heap \<Rightarrow> FFU_STREAM_FLASH \<Rightarrow> bytes list \<Rightarrow> world \<Rightarrow> (EFI_STATUS \<times> FFU_STREAM_FLASH \<times> world) option" where
  "feed_chunks E H ctx [] w = Some (EFI_SUCCESS, ctx, w)"
| "feed_chunks E H ctx (d # ds) w = do {
     (st, ctx, w) \<leftarrow> ffu_stream_flash_payload E H ctx (Some d) (of_nat (length d)) w;
     if EFI_ERROR st then Some (st, ctx, w) else feed_chunks E H ctx ds w }"

lemma feed_chunks_post:
  "stream_inv H p ctx \<Longrightarrow> live ctx \<Longrightarrow> \<forall>d \<in> set ds. length d < 2 ^ 32
    \<Longrightarrow> feed_post H p ctx w (consume (emits p ctx) (fst (pending ctx)) (snd (pending ctx) @ concat ds))
      (feed_chunks E H ctx ds w)"
proof (induction ds arbitrary: ctx w)
  case Nil
  then show ?case by (simp add: feed_post_def live_consume split: prod.split)
next
  case (Cons d ds)
  have len: "unat (of_nat (length d) :: u32) = length d"
    using Cons.prems(3) by (simp add: unsigned_of_nat take_bit_nat_eq_self)
  obtain ws es b where a: "consume (emits p ctx) (fst (pending ctx)) (snd (pending ctx) @ d) = (ws, es, b)"
    by (rule prod_cases3)
  obtain full r where c: "consume (emits p ctx) es (b @ concat ds) = (full, r)" by (rule prod.exhaust)
  have tot: "consume (emits p ctx) (fst (pending ctx)) (snd (pending ctx) @ concat (d # ds)) = (ws @ full, r)"
    using consume_append [of "emits p ctx" "fst (pending ctx)" "snd (pending ctx) @ d" "concat ds"] a c by simp
  obtain st ctx' w' ws' where f: "ffu_stream_flash_payload E H ctx (Some d) (of_nat (length d)) w = Some (st, ctx', w')"
      "stream_inv H p ctx'" "config ctx' = config ctx" "disk_writes w' = disk_writes w @ ws'" "polls w' = polls w" "grew w w'"
      "prefix ws' ws" "EFI_ERROR st \<or> st = EFI_SUCCESS \<and> ws' = ws \<and> live ctx' \<and> pending ctx' = (es, b)"
    using payload_post [OF Cons.prems(1,2) len, of w E] a unfolding feed_post_def by auto
  show ?case
  proof (cases "EFI_ERROR st")
    case True
    then show ?thesis unfolding tot using f by (auto simp: feed_post_def prefix_prefix intro!: exI [of _ ws'])
  next
    case False
    have "feed_post H p ctx' w' (full, r) (feed_chunks E H ctx' ds w')"
      using Cons.IH [of ctx' w'] f(2,8) False Cons.prems(3) c emits_config [OF f(3)] by simp
    then show ?thesis unfolding tot using feed_post_pre [OF _ f(3,4,5,6)] f(1,8) False by simp
  qed
qed

section \<open>A complete image\<close>

text \<open>The writes of a whole image: every entry gets its slice of the payload.\<close>

fun image_writes ::
    "(FFU_WRITE_ENTRY \<Rightarrow> bytes \<Rightarrow> 'w list) \<Rightarrow> FFU_WRITE_ENTRY list \<Rightarrow> bytes \<Rightarrow> 'w list" where
  "image_writes f [] d = []"
| "image_writes f (e # es) d =
     f e (take (unat (byte_count e)) d) @ image_writes f es (drop (unat (byte_count e)) d)"

definition image_bytes :: "FFU_WRITE_ENTRY list \<Rightarrow> nat" where
  "image_bytes es = sum_list (map (unat \<circ> byte_count) es)"

lemma consume_complete:
  "length b = image_bytes es \<Longrightarrow> consume f es b = (image_writes f es b, [], [])"
  by (induction es arbitrary: b) (auto simp: image_bytes_def Let_def)

lemma consume_all:
  "consume f es b = (ws, [], []) \<Longrightarrow> length b = image_bytes es \<and> ws = image_writes f es b"
proof (induction es arbitrary: b ws)
  case Nil
  then show ?case by (simp add: image_bytes_def)
next
  case (Cons e es)
  then have le: "unat (byte_count e) \<le> length b" by (auto simp: Let_def split: if_splits)
  then obtain ws' where "consume f es (drop (unat (byte_count e)) b) = (ws', [], [])"
      "ws = f e (take (unat (byte_count e)) b) @ ws'"
    using Cons.prems by (auto simp: Let_def split: prod.splits)
  with Cons.IH [of "drop (unat (byte_count e)) b" ws'] le show ?case
    by (auto simp: image_bytes_def)
qed

lemma image_writes_dry: "image_writes (\<lambda>e d. []) es b = []"
  by (induction es arbitrary: b) simp_all

lemma init_success:
  assumes "H a = Some p" "unat sz \<le> length p" "unat sz < 2 ^ 35"
    and "ffu_stream_flash_init E H ctx0 (Some a) sz b commit w = Some (EFI_SUCCESS, ctx, w1)"
  shows "stream_inv H p ctx" "live ctx" "pending ctx = (entries (plan ctx), [])"
    "dry_run ctx = 0 \<longleftrightarrow> commit" "disk_writes w1 = disk_writes w" "polls w1 = polls w"
  using init_inv [of H a p sz E ctx0 b commit w, OF assms(1-3)] assms(4) by auto

text \<open>What a session that fed chunks after a successful start has done.\<close>

lemma session_post:
  assumes "H a = Some p" "unat sz \<le> length p" "unat sz < 2 ^ 35"
    and "ffu_stream_flash_init E H ctx0 (Some a) sz b commit w = Some (EFI_SUCCESS, ctx, w1)"
    and "\<forall>d \<in> set ds. length d < 2 ^ 32"
  shows "feed_post H p ctx w1 (consume (emits p ctx) (entries (plan ctx)) (concat ds)) (feed_chunks E H ctx ds w1)"
proof -
  note i = init_success [of H a p sz, OF assms(1-4)]
  show ?thesis using feed_chunks_post [OF i(1,2) assms(5), of w1 E] i(3) by simp
qed

lemma session_complete:
  assumes "H a = Some p" "unat sz \<le> length p" "unat sz < 2 ^ 35"
    and "ffu_stream_flash_init E H ctx0 (Some a) sz b commit w = Some (EFI_SUCCESS, ctx, w1)"
    and "\<forall>d \<in> set ds. length d < 2 ^ 32"
    and "feed_chunks E H ctx ds w1 = Some (EFI_SUCCESS, ctx', w2)" "ffu_stream_flash_done ctx'"
  shows "length (concat ds) = image_bytes (entries (plan ctx))
    \<and> disk_writes w2 = disk_writes w @ (if commit
        then image_writes (entry_writes p (plan ctx) (media_block ctx)) (entries (plan ctx)) (concat ds)
        else [])"
proof -
  note i = init_success [of H a p sz, OF assms(1-4)]
  obtain ws es r where c: "consume (emits p ctx) (entries (plan ctx)) (concat ds) = (ws, es, r)"
    by (rule prod_cases3)
  have f: "stream_inv H p ctx'" "disk_writes w2 = disk_writes w @ ws" "pending ctx' = (es, r)"
    using session_post [of H a p sz, OF assms(1-5)] assms(6) c i(5) by (auto simp: feed_post_def)
  have "es = []" "r = []"
    using done_pending [OF f(1)] assms(7) f(1,3) by (auto simp: pending_def stream_inv_def)
  then have "length (concat ds) = image_bytes (entries (plan ctx))"
    "ws = image_writes (emits p ctx) (entries (plan ctx)) (concat ds)"
    using consume_all c by blast+
  moreover have "emits p ctx = (if commit then entry_writes p (plan ctx) (media_block ctx) else (\<lambda>e d. []))"
    using i(4) by (auto simp: emits_def fun_eq_iff)
  ultimately show ?thesis using f(2) by (simp add: image_writes_dry)
qed

section \<open>A sample session\<close>

definition sample_heap :: heap where "sample_heap = [0 \<mapsto> sample_header]"

definition sample_media :: EFI_BLOCK_IO_MEDIA where
  "sample_media = \<lparr>MediaId = 7, RemovableMedia = False, MediaPresent = True, LogicalPartition = False, ReadOnly = False,
     WriteCaching = False, BlockSize = 4, IoAlign = 0, LastBlock = 99, LowestAlignedLba = 0, LogicalBlocksPerPhysicalBlock = 0,
     OptimalTransferLengthGranularity = 0\<rparr>"

definition sample_bio :: EFI_BLOCK_IO_PROTOCOL where
  "sample_bio = \<lparr>Media = Some sample_media, FlushBlocks = True\<rparr>"

definition sample_ctx :: FFU_STREAM_FLASH where
  "sample_ctx = \<lparr>plan = sample_plan, bio = Some sample_bio, header = Some 0, hdr_size = 2312,
     entry_data = [0, 0, 0, 0, 0, 0, 0, 0], entry_capacity = 8, entry_index = 0,
     entry_received = 0, media_block = 4, media_id = 7, dry_run = 0, final_state = 0,
     last_sector = 0xffffffff\<rparr>"

definition sample_done :: FFU_STREAM_FLASH where
  "sample_done = sample_ctx\<lparr>entry_data := [1, 2, 3, 4, 5, 6, 7, 8], entry_index := 1, final_state := 1,
     last_sector := 7\<rparr>"

definition sample_mid :: FFU_STREAM_FLASH where
  "sample_mid = sample_ctx\<lparr>entry_data := [1, 2, 3, 0, 0, 0, 0, 0], entry_received := 3\<rparr>"

definition sample_world1 :: world where "sample_world1 = emit (AllocatePool 8) sample_world'"

lemma sample_init:
  "ffu_stream_flash_init sample_env sample_heap zero_ctx (Some 0) 2312 (Some sample_bio) True sample_world
    = Some (EFI_SUCCESS, sample_ctx, emit (AllocatePool 8) sample_world')"
proof -
  have "max_entry_loop sample_plan (unat (entry_count sample_plan)) 0 0 = Some 8" by code_simp
  moreover have "replicate 8 (0 :: u8) = [0, 0, 0, 0, 0, 0, 0, 0]" by code_simp
  ultimately show ?thesis
    by (simp add: ffu_stream_flash_init_def sample_bio_def sample_media_def deref_def sample_heap_def
        sample_parse sample_alloc UFP_MAX_PAYLOAD_DATA_def sample_ctx_def zero_ctx_def)
qed

lemma sample_location:
  "read_location_mem sample_heap (Some 0) 2312 2296 0 = Some (EFI_SUCCESS, 0, 3)"
proof -
  have "mem_read_exact (Some sample_header) 2312 2304 8 = Some (EFI_SUCCESS, [0, 0, 0, 0, 3, 0, 0, 0])"
    by (simp add: mem_read_exact_in) (simp add: sample_header_def sample_lengths, simp add: sample_descriptor_def)
  moreover have "rd_le32 [0, 0, 0, 0, 3, 0, 0, 0] = Some 0" "rd_le32 [3, 0, 0, 0] = Some 3"
    by code_simp+
  ultimately show ?thesis by (simp add: read_location_mem_def deref_def sample_heap_def)
qed

lemma sample_write:
  "WriteBlocks_call sample_env m l n d w = (EFI_SUCCESS, emit (WriteBlocks m l n d) w)"
  by (simp add: WriteBlocks_call_def sample_env_defs EFI_SUCCESS_def)

lemmas sample_defs = sample_ctx_def sample_done_def sample_mid_def sample_plan_def sample_entry_def

lemma sample_feed1:
  "ffu_stream_flash_payload sample_env sample_heap sample_ctx (Some [1, 2, 3]) 3 w
    = Some (EFI_SUCCESS, sample_mid, w)"
  by (simp add: ffu_stream_flash_payload_def payload_loop.simps stream_step_def sample_defs
      step_take_def mem_simps Let_def)

lemma sample_feed2:
  "ffu_stream_flash_payload sample_env sample_heap sample_mid (Some [4, 5, 6, 7, 8]) 5 w
    = Some (EFI_SUCCESS, sample_done, emit (WriteBlocks 7 6 8 [1, 2, 3, 4, 5, 6, 7, 8]) w)"
  by (simp add: ffu_stream_flash_payload_def payload_loop.simps stream_step_def sample_defs
      step_take_def mem_simps Let_def stream_write_completed_entry_def stream_location_def
      sample_location sample_write)

lemma sample_feed0:
  "ffu_stream_flash_payload sample_env sample_heap sample_mid (Some []) 0 w = Some (EFI_SUCCESS, sample_mid, w)"
  by (simp add: ffu_stream_flash_payload_def payload_loop.simps sample_defs)

lemma sample_session:
  "feed_chunks sample_env sample_heap sample_ctx [[1, 2, 3], [4, 5, 6, 7, 8]] w
    = Some (EFI_SUCCESS, sample_done, emit (WriteBlocks 7 6 8 [1, 2, 3, 4, 5, 6, 7, 8]) w)"
  by (simp add: sample_feed1 sample_feed2)

lemma sample_all_received: "ffu_stream_flash_done sample_done"
  by (simp add: ffu_stream_flash_done_def sample_defs)

end
