(* ===== verification/Ffu_Flash_Spec.thy ===== *)
theory Ffu_Flash_Spec
  imports Ffu_Flash Ffu_Stream_Spec
begin

text \<open>
  What flashing a file does. The file is the byte list \<open>d\<close> that the firmware reads from
  (\<open>file_backed\<close>). The writes of a location are its slice of the file, cut at the buffer size;
  seen sector by sector the cuts disappear. A failing run has made a prefix of the writes, and
  every write made lies on the device.
\<close>

section \<open>The writes of a location\<close>

function chunk_writes :: "nat \<Rightarrow> nat \<Rightarrow> u64 \<Rightarrow> nat \<Rightarrow> bytes \<Rightarrow> (u64 \<times> bytes) list" where
  "chunk_writes k mb lba c data =
     (if data = [] \<or> k = 0 then []
      else (lba + of_nat (c div mb), take k data) # chunk_writes k mb lba (c + k) (drop k data))"
  by pat_completeness auto
termination by (relation "measure (\<lambda>(k, mb, lba, c, data). length data)") auto

declare chunk_writes.simps [simp del]

text \<open>One write per sector.\<close>

abbreviation sector_writes :: "nat \<Rightarrow> u64 \<Rightarrow> nat \<Rightarrow> bytes \<Rightarrow> (u64 \<times> bytes) list" where
  "sector_writes mb lba c data \<equiv> chunk_writes mb mb lba c data"

lemma chunk_writes_Nil [simp]: "chunk_writes k mb lba c [] = []"
  by (simp add: chunk_writes.simps)

lemma chunk_writes_step:
  "data \<noteq> [] \<Longrightarrow> 0 < k \<Longrightarrow> chunk_writes k mb lba c data
    = (lba + of_nat (c div mb), take k data) # chunk_writes k mb lba (c + k) (drop k data)"
  by (simp add: chunk_writes.simps)

lemma sector_writes_shift:
  assumes "0 < mb" "mb dvd c"
  shows "sector_writes mb (lba + of_nat (c div mb)) c' data = sector_writes mb lba (c + c') data"
proof (induction "length data" arbitrary: c' data rule: less_induct)
  case less
  show ?case
  proof (cases "data = []")
    case False
    then have "sector_writes mb (lba + of_nat (c div mb)) (c' + mb) (drop mb data)
        = sector_writes mb lba (c + (c' + mb)) (drop mb data)"
      using assms(1) by (intro less) simp
    moreover have "(c + c') div mb = c div mb + c' div mb" using assms(2) by (rule div_plus_div_distrib_dvd_left)
    ultimately show ?thesis using False assms(1) by (simp add: chunk_writes_step add.assoc)
  qed simp
qed

lemma sector_writes_append:
  assumes "0 < mb" "mb dvd length xs"
  shows "sector_writes mb lba c (xs @ ys) = sector_writes mb lba c xs @ sector_writes mb lba (c + length xs) ys"
  using assms(2)
proof (induction "length xs" arbitrary: c xs rule: less_induct)
  case less
  show ?case
  proof (cases "xs = []")
    case False
    then have "mb \<le> length xs" using less.prems by (auto intro: dvd_imp_le)
    moreover have "sector_writes mb lba (c + mb) (drop mb xs @ ys)
        = sector_writes mb lba (c + mb) (drop mb xs) @ sector_writes mb lba (c + mb + length (drop mb xs)) ys"
      using False assms(1) less.prems by (intro less) (auto simp: dvd_diff_nat)
    ultimately show ?thesis using False assms(1) by (simp add: chunk_writes_step)
  qed simp
qed

text \<open>Cutting at the buffer size is invisible in the sequence of sectors.\<close>

lemma chunks_are_sectors:
  assumes "0 < mb" "0 < k" "mb dvd k"
  shows "mb dvd c \<Longrightarrow> concat (map (\<lambda>(x, d). sector_writes mb x 0 d) (chunk_writes k mb lba c data))
    = sector_writes mb lba c data"
proof (induction "length data" arbitrary: c data rule: less_induct)
  case less
  show ?case
  proof (cases "data = []")
    case False
    have IH: "concat (map (\<lambda>(x, d). sector_writes mb x 0 d) (chunk_writes k mb lba (c + k) (drop k data)))
        = sector_writes mb lba (c + k) (drop k data)"
      using False assms less.prems by (intro less) auto
    have "sector_writes mb lba c data = sector_writes mb lba c (take k data) @ sector_writes mb lba (c + k) (drop k data)"
    proof (cases "k \<le> length data")
      case True
      then show ?thesis using sector_writes_append [OF assms(1), of "take k data" lba c "drop k data"] assms(3)
        by (simp add: min_absorb2)
    qed simp
    then show ?thesis using False assms IH sector_writes_shift [OF assms(1) less.prems, of lba 0 "take k data"]
      by (simp add: chunk_writes_step)
  qed simp
qed

section \<open>The contract of a flashing step\<close>

definition in_device :: "EFI_BLOCK_IO_MEDIA \<Rightarrow> u64 \<times> bytes \<Rightarrow> bool" where
  "in_device media x \<longleftrightarrow> unat (BlockSize media) dvd length (snd x) \<and>
     unat (fst x) + length (snd x) div unat (BlockSize media) \<le> unat (LastBlock media) + 1"

definition flash_post ::
    "EFI_BLOCK_IO_MEDIA \<Rightarrow> u64 \<Rightarrow> world \<Rightarrow> (u64 \<times> bytes) list \<Rightarrow> (EFI_STATUS \<times> bytes \<times> world) option \<Rightarrow> bool" where
  "flash_post media bsz w full r \<longleftrightarrow> (\<exists>st b w' ws. r = Some (st, b, w') \<and> length b = unat bsz
     \<and> disk_writes w' = disk_writes w @ ws \<and> polls w' = polls w \<and> prefix ws full
     \<and> (EFI_ERROR st \<or> ws = full) \<and> (\<forall>x \<in> set ws. in_device media x))"

lemma flash_postI:
  "length b = unat bsz \<Longrightarrow> disk_writes w' = disk_writes w @ ws \<Longrightarrow> polls w' = polls w \<Longrightarrow> prefix ws full
    \<Longrightarrow> EFI_ERROR st \<or> ws = full \<Longrightarrow> \<forall>x \<in> set ws. in_device media x
    \<Longrightarrow> flash_post media bsz w full (Some (st, b, w'))"
  unfolding flash_post_def by blast

lemma flash_post_error:
  "EFI_ERROR st \<Longrightarrow> length b = unat bsz \<Longrightarrow> disk_writes w' = disk_writes w \<Longrightarrow> polls w' = polls w
    \<Longrightarrow> flash_post media bsz w full (Some (st, b, w'))"
  by (rule flash_postI [where ws = "[]"]) auto

lemma flash_post_pre:
  assumes "flash_post media bsz w1 full r" "disk_writes w1 = disk_writes w @ ws" "polls w1 = polls w"
    "\<forall>x \<in> set ws. in_device media x"
  shows "flash_post media bsz w (ws @ full) r"
  using assms unfolding flash_post_def by (elim exE) (fastforce intro!: exI)

text \<open>Sequencing: the continuation runs unless there was an error.\<close>

lemma flash_post_seq:
  assumes "flash_post media bsz w xs r"
    and "\<And>st b w'. \<not> EFI_ERROR st \<Longrightarrow> length b = unat bsz \<Longrightarrow> flash_post media bsz w' ys (f st b w')"
  shows "flash_post media bsz w (xs @ ys)
     (do { (st, b, w) \<leftarrow> r; if EFI_ERROR st then Some (st, b, w) else f st b w })"
proof -
  obtain st b w' ws where r: "r = Some (st, b, w')" "length b = unat bsz"
      "disk_writes w' = disk_writes w @ ws" "polls w' = polls w" "prefix ws xs"
      "EFI_ERROR st \<or> ws = xs" "\<forall>x \<in> set ws. in_device media x"
    using assms(1) unfolding flash_post_def by blast
  show ?thesis
  proof (cases "EFI_ERROR st")
    case True
    then show ?thesis using r by (auto intro!: flash_postI [where ws = ws] prefix_prefix)
  next
    case False
    then show ?thesis using r flash_post_pre [OF assms(2) [OF False r(2)] r(3,4,7)] by simp
  qed
qed

section \<open>The copy loop\<close>

text \<open>What a location asks for: the slice of the file, which a file that is too short cuts off.\<close>

definition slice_writes :: "bool \<Rightarrow> bytes \<Rightarrow> nat \<Rightarrow> nat \<Rightarrow> u64 \<Rightarrow> nat \<Rightarrow> nat \<Rightarrow> nat \<Rightarrow> (u64 \<times> bytes) list" where
  "slice_writes commit d bsz mb lba po c n =
     (if commit then chunk_writes bsz mb lba c (take n (drop (po + c) d)) else [])"

lemma slice_writes_step:
  assumes "0 < n" "0 < bsz" "po + c + min n bsz \<le> length d"
  shows "slice_writes commit d bsz mb lba po c n =
    (if commit then [(lba + of_nat (c div mb), take (min n bsz) (drop (po + c) d))] else [])
    @ slice_writes commit d bsz mb lba po (c + min n bsz) (n - min n bsz)"
proof -
  have "take n (drop (po + c) d) \<noteq> []" using assms by auto
  moreover have "drop bsz (take n (drop (po + c) d)) = take (n - min n bsz) (drop (po + (c + min n bsz)) d)"
    by (cases "n \<le> bsz") (simp_all add: drop_take add.commute add.left_commute)
  moreover have "take bsz (take n (drop (po + c) d)) = take (min n bsz) (drop (po + c) d)" by (simp add: min.commute)
  moreover have "chunk_writes bsz mb lba (c + bsz) [] = []" by simp
  ultimately show ?thesis using assms(2)
    by (cases "n \<le> bsz") (simp_all add: slice_writes_def chunk_writes_step)
qed

lemma copy_round_post:
  assumes fb: "file_backed E d" "file_open view" "length d < 2 ^ 64"
    and tk: "unat tk \<le> unat bsz" "0 < unat tk" "unat mb dvd unat tk" and mb: "mb = BlockSize media"
    and at: "copied = 0 \<or> \<not> commit \<or> unat po + unat copied \<le> length d"
    and dev: "unat lba + unat copied div unat mb + unat tk div unat mb \<le> unat (LastBlock media) + 1"
    and buf: "length buffer = unat bsz" and st: "\<not> EFI_ERROR st"
  shows "(\<exists>st' b w'. copy_round E view mid mb commit po lba st buffer tk copied w = Some (st', b, w')
        \<and> length b = unat bsz \<and> polls w' = polls w \<and> EFI_ERROR st' \<and> disk_writes w' = disk_writes w)
    \<or> (\<exists>st' b w'. copy_round E view mid mb commit po lba st buffer tk copied w = Some (st', b, w')
        \<and> length b = unat bsz \<and> polls w' = polls w \<and> (commit \<longrightarrow> unat po + unat copied + unat tk \<le> length d)
        \<and> disk_writes w' = disk_writes w @ (if commit
            then [(lba + of_nat (unat copied div unat mb), take (unat tk) (drop (unat po + unat copied) d))] else [])
        \<and> (\<forall>x \<in> set (if commit
            then [(lba + of_nat (unat copied div unat mb), take (unat tk) (drop (unat po + unat copied) d))] else []).
            in_device media x))"
proof (cases commit)
  case False
  then show ?thesis using buf by (simp add: copy_round_def)
next
  case True
  have off: "unat (po + ucast copied) = unat po + unat copied"
  proof (cases "copied = 0")
    case False
    then have "unat po + unat copied < 2 ^ 64" using at fb(3) True by linarith
    then show ?thesis by (subst unat_add_le) simp_all
  qed simp
  let ?in = "unat po + unat copied + unat tk \<le> length d"
  let ?w = "emit (FileRead tk) (emit (FileSetPosition (po + ucast copied)) w)"
  note rd = file_backed_read [OF fb(1,2), of "po + ucast copied" tk w, unfolded off]
  show ?thesis
  proof (cases ?in)
    case in_file: True
    let ?d = "take (unat tk) (drop (unat po + unat copied) d)"
    have ld: "length ?d = unat tk" using in_file by simp
    have pk: "poke buffer 0 ?d = Some (?d @ drop (unat tk) buffer)"
      using ld tk(1) buf by (simp add: poke_def)
    have lo: "load (?d @ drop (unat tk) buffer) 0 (unat tk) = Some ?d"
      using ld tk(1) buf by (simp add: load_def)
    let ?l = "lba + ucast (copied div mb)"
    have l: "?l = lba + of_nat (unat copied div unat mb)" by (simp flip: unat_div_distrib)
    let ?v = "emit (WriteBlocks mid ?l tk ?d) ?w"
    let ?st = "write_blocks E (trace ?v)"
    have eq: "copy_round E view mid mb commit po lba st buffer tk copied w = Some (?st, ?d @ drop (unat tk) buffer, ?v)"
      using True in_file rd pk lo by (simp add: copy_round_def Let_def WriteBlocks_call_def)
    have "unat (lba + of_nat (unat copied div unat mb)) = unat lba + unat copied div unat mb"
    proof -
      have c: "unat (of_nat (unat copied div unat mb) :: u64) = unat copied div unat mb"
      proof -
        have "unat copied div unat mb \<le> unat copied" by simp
        then have "unat copied div unat mb < 2 ^ 64"
          by (rule le_less_trans) (use unat_u32_lt [of copied] in simp)
        then show ?thesis by (simp add: unsigned_of_nat take_bit_nat_eq_self)
      qed
      have "1 \<le> unat tk div unat mb" using tk(2,3) by (auto elim!: dvdE)
      then have "unat lba + unat copied div unat mb < 2 ^ 64"
        using dev unat_u64_lt [of "LastBlock media"] by simp
      then show ?thesis by (subst unat_add_le) (simp_all add: c)
    qed
    then have "in_device media (lba + of_nat (unat copied div unat mb), ?d)"
      using dev ld tk(3) mb by (simp add: in_device_def)
    then show ?thesis using eq in_file True l ld tk(1) buf by (intro disjI2) (auto simp: disk_writes_def)
  next
    case out: False
    let ?g = "if unat po + unat copied \<le> length d then drop (unat po + unat copied) d else []"
    have "length ?g \<le> unat tk" using out by auto
    then have pk: "poke buffer 0 ?g = Some (?g @ drop (length ?g) buffer)" "length (?g @ drop (length ?g) buffer) = unat bsz"
      using tk(1) buf by (simp_all only: poke_def take_0 append_Nil plus_nat.add_0) auto
    let ?e = "if unat po + unat copied \<le> length d then EFI_END_OF_FILE else EFIERR 7"
    have e: "EFI_ERROR ?e" by (auto simp: EFI_ERROR_def EFIERR_def EFI_ERROR_BIT_def efi_codes)
    have "copy_round E view mid mb commit po lba st buffer tk copied w = Some (?e, ?g @ drop (length ?g) buffer, ?w)"
      unfolding copy_round_def if_P [OF True] rd if_not_P [OF out] Let_def prod.case pk(1) Option.bind.simps if_P [OF e]
      by (rule refl)
    then show ?thesis using e pk(2) by (intro disjI1) (auto simp: disk_writes_def)
  qed
qed

lemma copy_loop_post:
  assumes fb: "file_backed E d" "file_open view" "length d < 2 ^ 64"
    and mb: "mb = BlockSize media" "mb \<noteq> 0" and bsz: "unat mb dvd unat bsz" "bsz \<noteq> 0"
  shows "unat mb dvd unat remaining \<Longrightarrow> unat mb dvd unat copied \<Longrightarrow> unat copied + unat remaining < 2 ^ 32
    \<Longrightarrow> copied = 0 \<or> \<not> commit \<or> unat po + unat copied \<le> length d
    \<Longrightarrow> unat lba + (unat copied + unat remaining) div unat mb \<le> unat (LastBlock media) + 1
    \<Longrightarrow> length buffer = unat bsz \<Longrightarrow> \<not> EFI_ERROR st
    \<Longrightarrow> flash_post media bsz w
      (slice_writes commit d (unat bsz) (unat mb) lba (unat po) (unat copied) (unat remaining))
      (copy_loop E view mid mb commit po lba bsz st buffer remaining copied w)"
proof (induction "unat remaining" arbitrary: remaining copied st buffer w rule: less_induct)
  case less
  let ?loop = "copy_loop E view mid mb commit po lba bsz"
  show ?case
  proof (cases "remaining = 0")
    case True
    then show ?thesis using less.prems(6)
      by (subst copy_loop.simps) (auto intro!: flash_postI [where ws = "[]"] simp: slice_writes_def)
  next
    case False
    let ?t = "copy_take remaining bsz mb" let ?m = "min (unat remaining) (unat bsz)"
    have pos: "0 < unat remaining" "0 < unat bsz" "0 < unat mb" using False bsz(2) mb(2) by (simp_all add: unat_gt_0)
    have mdvd: "unat mb dvd ?m" using less.prems(1) bsz(1) by (simp add: min_def)
    have t: "unat ?t = ?m" using copy_take_unat(1) [OF mb(2), of remaining bsz] mdvd by simp
    then have tz: "?t \<noteq> 0" using pos by (metis min_less_iff_conj not_gr_zero unat_0)
    have t32: "unat (ucast ?t :: u32) = ?m" using copy_take_unat(2) [OF mb(2), of remaining bsz] t by simp
    have r': "unat (remaining - ucast ?t) = unat remaining - ?m"
      using t32 by (subst word_le_sub_unat) (simp_all add: word_le_nat_alt)
    have c': "unat (copied + ucast ?t) = unat copied + ?m"
      using t32 less.prems(3) by (subst unat_add_le) auto
    have qdiv: "(unat copied + unat remaining) div unat mb = unat copied div unat mb + unat remaining div unat mb"
      using less.prems(2) by (rule div_plus_div_distrib_dvd_left)
    have mq: "?m div unat mb \<le> unat remaining div unat mb" by (intro div_le_mono) simp
    define out where "out = (if commit
        then [(lba + of_nat (unat copied div unat mb), take ?m (drop (unat po + unat copied) d))] else [])"
    have next_ok: "flash_post media bsz w1
        (slice_writes commit d (unat bsz) (unat mb) lba (unat po) (unat copied + ?m) (unat remaining - ?m))
        (?loop st1 b1 (remaining - ucast ?t) (copied + ucast ?t) w1)"
      if "length b1 = unat bsz" "\<not> EFI_ERROR st1" "commit \<longrightarrow> unat po + unat copied + ?m \<le> length d" for st1 b1 w1
    proof -
      have "flash_post media bsz w1
        (slice_writes commit d (unat bsz) (unat mb) lba (unat po) (unat (copied + ucast ?t)) (unat (remaining - ucast ?t)))
        (?loop st1 b1 (remaining - ucast ?t) (copied + ucast ?t) w1)"
      proof (rule less.hyps)
        show "unat (remaining - ucast ?t) < unat remaining" using r' pos by simp
        show "unat mb dvd unat (remaining - ucast ?t)" using r' mdvd less.prems(1) by simp
        show "unat mb dvd unat (copied + ucast ?t)" using c' mdvd less.prems(2) by simp
        show "unat (copied + ucast ?t) + unat (remaining - ucast ?t) < 2 ^ 32" using c' r' less.prems(3) by simp
        show "copied + ucast ?t = 0 \<or> \<not> commit \<or> unat po + unat (copied + ucast ?t) \<le> length d"
          using that(3) c' by auto
        show "unat lba + (unat (copied + ucast ?t) + unat (remaining - ucast ?t)) div unat mb \<le> unat (LastBlock media) + 1"
          using c' r' less.prems(5) by simp
      qed (use that in simp_all)
      then show ?thesis by (simp only: c' r')
    qed
    have full: "slice_writes commit d (unat bsz) (unat mb) lba (unat po) (unat copied) (unat remaining)
        = out @ slice_writes commit d (unat bsz) (unat mb) lba (unat po) (unat copied + ?m) (unat remaining - ?m)"
      if "commit \<longrightarrow> unat po + unat copied + ?m \<le> length d"
      using that slice_writes_step [OF pos(1,2), of "unat po" "unat copied" d commit "unat mb" lba]
      by (cases commit) (simp_all add: out_def slice_writes_def)
    have eq: "?loop st buffer remaining copied w =
        (case copy_round E view mid mb commit po lba st buffer ?t copied w of
                None \<Rightarrow> None
              | Some (st, buffer, w) \<Rightarrow>
                  if EFI_ERROR st then Some (st, buffer, w)
                  else ?loop st buffer (remaining - ucast ?t) (copied + ucast ?t) w)"
      using False tz by (subst copy_loop.simps) (simp add: Let_def)
    have round: "(\<exists>st' b w'. copy_round E view mid mb commit po lba st buffer ?t copied w = Some (st', b, w')
        \<and> length b = unat bsz \<and> polls w' = polls w \<and> EFI_ERROR st' \<and> disk_writes w' = disk_writes w)
      \<or> (\<exists>st' b w'. copy_round E view mid mb commit po lba st buffer ?t copied w = Some (st', b, w')
        \<and> length b = unat bsz \<and> polls w' = polls w \<and> (commit \<longrightarrow> unat po + unat copied + ?m \<le> length d)
        \<and> disk_writes w' = disk_writes w @ out \<and> (\<forall>x \<in> set out. in_device media x))"
      unfolding out_def t [symmetric]
    proof (rule copy_round_post [OF fb])
      show "unat ?t \<le> unat bsz" "0 < unat ?t" "unat mb dvd unat ?t" using t mdvd pos by simp_all
      show "unat lba + unat copied div unat mb + unat ?t div unat mb \<le> unat (LastBlock media) + 1"
        using less.prems(5) qdiv mq t by simp
    qed (use less.prems mb in simp_all)
    show ?thesis
    proof (use round in \<open>elim disjE exE conjE\<close>)
      fix st1 b1 w1
      assume "copy_round E view mid mb commit po lba st buffer ?t copied w = Some (st1, b1, w1)"
        "length b1 = unat bsz" "polls w1 = polls w" "EFI_ERROR st1" "disk_writes w1 = disk_writes w"
      then show ?thesis unfolding eq by (simp add: flash_post_error)
    next
      fix st1 b1 w1
      assume h: "copy_round E view mid mb commit po lba st buffer ?t copied w = Some (st1, b1, w1)"
        "length b1 = unat bsz" "polls w1 = polls w" "commit \<longrightarrow> unat po + unat copied + ?m \<le> length d"
        "disk_writes w1 = disk_writes w @ out" "\<forall>x \<in> set out. in_device media x"
      show ?thesis
      proof (cases "EFI_ERROR st1")
        case True
        then show ?thesis unfolding eq full [OF h(4)] using h
          by (auto intro!: flash_postI [where ws = out])
      next
        case no: False
        have "flash_post media bsz w (out @ slice_writes commit d (unat bsz) (unat mb) lba (unat po) (unat copied + ?m) (unat remaining - ?m))
            (?loop st1 b1 (remaining - ucast ?t) (copied + ucast ?t) w1)"
          by (rule flash_post_pre [OF next_ok [OF h(2) no h(4)] h(5,3,6)])
        then show ?thesis unfolding eq full [OF h(4)] using h(1) no by simp
      qed
    qed
  qed
qed

section \<open>Locations and entries\<close>

lemma file_location_in:
  fixes hs :: u64
  assumes fb: "file_backed E d" "file_open view"
    and e: "unat (descriptor_offset e) + 8 + 8 * unat (location_count e) \<le> unat hs" "unat hs \<le> length d"
    and l: "l < location_count e"
  shows "\<exists>v. read_location E view (descriptor_offset e) l w
      = Some (EFI_SUCCESS, entry_method d e (unat l), le32_at d (unat (descriptor_offset e) + 8 + 8 * unat l + 4), v)
    \<and> disk_writes v = disk_writes w \<and> polls v = polls w"
proof -
  let ?o = "unat (descriptor_offset e) + 8 + 8 * unat l"
  note i = location_index [OF e(1) l]
  have "?o + 8 \<le> length d" using i(2) e(2) by linarith
  then have rd: "file_read_exact E view (descriptor_offset e + 8 + ucast l * 8) 8 w
      = (EFI_SUCCESS, take 8 (drop ?o d), emit (FileRead 8) (emit (FileSetPosition (descriptor_offset e + 8 + ucast l * 8)) w))"
    using file_backed_read [OF fb, of "descriptor_offset e + 8 + ucast l * 8" 8 w] i(1) by simp
  have m: "rd_le32 (take 8 (drop ?o d)) = Some (le32_at d ?o)"
    "rd_le32 (drop 4 (take 8 (drop ?o d))) = Some (le32_at d (?o + 4))"
  proof -
    obtain x where x: "rd_le32 (drop ?o d) = Some x" using le32.dec_drop_total [of ?o d] \<open>?o + 8 \<le> length d\<close> by auto
    obtain y where y: "rd_le32 (drop (?o + 4) d) = Some y" using le32.dec_drop_total [of "?o + 4" d] \<open>?o + 8 \<le> length d\<close> by auto
    show "rd_le32 (take 8 (drop ?o d)) = Some (le32_at d ?o)"
      using le32_take [of ?o 8 d 0] \<open>?o + 8 \<le> length d\<close> x by (simp add: le32_at_def)
    show "rd_le32 (drop 4 (take 8 (drop ?o d))) = Some (le32_at d (?o + 4))"
      using le32_take [of ?o 8 d 4] \<open>?o + 8 \<le> length d\<close> y by (simp add: le32_at_def)
  qed
  show ?thesis using m by (simp add: read_location_def rd entry_method_def disk_writes_def)
qed

definition location_slice ::
    "bool \<Rightarrow> bytes \<Rightarrow> nat \<Rightarrow> nat \<Rightarrow> u32 \<Rightarrow> FFU_WRITE_ENTRY \<Rightarrow> nat \<Rightarrow> (u64 \<times> bytes) list" where
  "location_slice commit d bsz mb bs e l =
     slice_writes commit d bsz mb (entry_target d bs e l div of_nat mb) (unat (payload_offset e)) 0 (unat (byte_count e))"

lemma device_check:
  fixes lba lb :: u64 and n :: u32
  assumes "\<not> (lb < lba \<or> lb - lba + 1 < ucast n)"
  shows "unat lba + unat n \<le> unat lb + 1"
proof -
  have le: "lba \<le> lb" "unat (lb - lba) = unat lb - unat lba" "unat lba \<le> unat lb"
    using assms by (auto simp: not_less word_le_sub_unat word_le_nat_alt)
  show ?thesis
  proof (cases "unat lb - unat lba + 1 < 2 ^ 64")
    case True
    then have "unat (lb - lba + 1) = unat lb - unat lba + 1" using le(2) by (subst unat_add_le) simp_all
    then show ?thesis using assms le(3) by (simp add: word_less_nat_alt)
  next
    case False
    then show ?thesis using le unat_u32_lt [of n] by simp
  qed
qed

lemma flash_location_post:
  fixes hs :: u64
  assumes fb: "file_backed E d" "file_open view" "length d < 2 ^ 64"
    and e: "unat (descriptor_offset e) + 8 + 8 * unat (location_count e) \<le> unat hs" "unat hs \<le> length d"
    and mb: "BlockSize media \<noteq> 0" "byte_count e mod BlockSize media = 0"
    and bsz: "unat (BlockSize media) dvd unat bsz" "bsz \<noteq> 0"
    and l: "l < location_count e" and buf: "length buffer = unat bsz"
  shows "flash_post media bsz w (location_slice commit d (unat bsz) (unat (BlockSize media)) (block_size s) e (unat l))
    (flash_location E view media commit e s bsz buffer l w)"
proof -
  obtain v where v: "read_location E view (descriptor_offset e) l w
      = Some (EFI_SUCCESS, entry_method d e (unat l), le32_at d (unat (descriptor_offset e) + 8 + 8 * unat l + 4), v)"
    "disk_writes v = disk_writes w" "polls v = polls w"
    using file_location_in [OF fb(1,2) e l] by blast
  let ?t = "entry_target d (block_size s) e (unat l)"
  let ?mb = "BlockSize media" let ?lba = "?t div ucast ?mb"
  have lba: "?lba = ?t div of_nat (unat ?mb)" by simp
  let ?full = "location_slice commit d (unat bsz) (unat ?mb) (block_size s) e (unat l)"
  have err: "flash_post media bsz w ?full (Some (st, buffer, v'))"
    if "EFI_ERROR st" "disk_writes v' = disk_writes w" "polls v' = polls w" for st v'
    using flash_post_error [OF that(1) buf that(2,3)] .
  have copy: "flash_post media bsz w ?full (copy_loop E view (MediaId media) ?mb commit (payload_offset e) ?lba bsz EFI_SUCCESS buffer
      (byte_count e) 0 v)"
    if dev: "\<not> (LastBlock media < ?lba \<or> LastBlock media - ?lba + 1 < ucast (byte_count e div ?mb))"
  proof -
    have "unat ?mb dvd unat (byte_count e)" using mb(2) by (metis mod_0_imp_dvd unat_0 unat_mod_distrib)
    moreover have "unat ?lba + (unat (0 :: u32) + unat (byte_count e)) div unat ?mb \<le> unat (LastBlock media) + 1"
      using device_check [OF dev] by (simp add: unat_div_distrib)
    moreover have "unat (0 :: u32) + unat (byte_count e) < 2 ^ 32" using unat_u32_lt [of "byte_count e"] by simp
    ultimately have "flash_post media bsz v
        (slice_writes commit d (unat bsz) (unat ?mb) ?lba (unat (payload_offset e)) (unat (0 :: u32)) (unat (byte_count e)))
        (copy_loop E view (MediaId media) ?mb commit (payload_offset e) ?lba bsz EFI_SUCCESS buffer (byte_count e) 0 v)"
      using mb(1) bsz buf by (intro copy_loop_post [OF fb]) simp_all
    then show ?thesis using v(2,3) by (simp add: flash_post_def location_slice_def)
  qed
  show ?thesis unfolding flash_location_def v(1) Option.bind.simps prod.case Let_def
    using copy err v(2,3) by (simp add: entry_target_def say_def)
qed

lemma flash_locations_post:
  fixes hs :: u64
  assumes fb: "file_backed E d" "file_open view" "length d < 2 ^ 64"
    and e: "unat (descriptor_offset e) + 8 + 8 * unat (location_count e) \<le> unat hs" "unat hs \<le> length d"
    and mb: "BlockSize media \<noteq> 0" "byte_count e mod BlockSize media = 0"
    and bsz: "unat (BlockSize media) dvd unat bsz" "bsz \<noteq> 0"
  shows "unat l + n = unat (location_count e) \<Longrightarrow> length buffer = unat bsz \<Longrightarrow>
    flash_post media bsz w
      (concat (map (location_slice commit d (unat bsz) (unat (BlockSize media)) (block_size s) e) [unat l..<unat l + n]))
      (flash_locations E view media commit e s bsz st buffer n l w)"
proof (induction n arbitrary: l buffer st w)
  case 0
  then show ?case by (auto intro!: flash_postI [where ws = "[]"])
next
  case (Suc n)
  let ?f = "location_slice commit d (unat bsz) (unat (BlockSize media)) (block_size s) e"
  have l: "l < location_count e" using Suc.prems(1) by (simp add: word_less_nat_alt)
  have l1: "unat (l + 1) = unat l + 1" using count_up(1) [OF l] .
  have split: "concat (map ?f [unat l..<unat l + Suc n]) = ?f (unat l) @ concat (map ?f [unat (l + 1)..<unat (l + 1) + n])"
    by (simp add: l1 upt_rec)
  show ?case unfolding split flash_locations.simps
    by (rule flash_post_seq [OF flash_location_post [OF fb e mb bsz l Suc.prems(2)]], rule Suc.IH)
      (use Suc.prems(1) l1 in simp_all)
qed

text \<open>The writes of an entry: every location of its table, in order.\<close>

definition file_entry_writes :: "bool \<Rightarrow> bytes \<Rightarrow> nat \<Rightarrow> nat \<Rightarrow> FFU_PLAN \<Rightarrow> FFU_WRITE_ENTRY \<Rightarrow> (u64 \<times> bytes) list" where
  "file_entry_writes commit d bsz mb pl e =
     concat (map (location_slice commit d bsz mb (block_size (stores pl ! unat (store_index e))) e)
       [0..<unat (location_count e)])"

lemma grew_say [simp]: "grew w v \<Longrightarrow> grew w (say E s v)" "grew w v \<Longrightarrow> grew w (say_dec E s n v)"
  by (simp_all add: say_def say_dec_def)

lemma say_frame [simp]: "disk_writes (say E s w) = disk_writes w" "polls (say E s w) = polls w"
  by (simp_all add: say_def)

lemma say_dec_frame [simp]: "disk_writes (say_dec E s n w) = disk_writes w" "polls (say_dec E s n w) = polls w"
  by (simp_all add: say_dec_def)

lemma flash_progress_frame [simp]:
  "disk_writes (flash_progress E pl i w) = disk_writes w" "polls (flash_progress E pl i w) = polls w"
  by (simp_all add: flash_progress_def)

text \<open>The loop over the entries, without the flag that tells where it ended.\<close>

lemma map_snd_seq:
  "map_option snd (do { (st, b, w) \<leftarrow> r; if EFI_ERROR st then Some (True, st, b, w) else f st b w })
    = (do { (st, b, w) \<leftarrow> r; if EFI_ERROR st then Some (st, b, w) else map_option snd (f st b w) })"
  by (cases r) auto

lemma flash_entries_post:
  assumes fb: "file_backed E d" "file_open view" "length d < 2 ^ 64"
    and wf: "plan_wf hs pl" "unat hs \<le> length d" and mb: "BlockSize media \<noteq> 0"
    and bsz: "unat (BlockSize media) dvd unat bsz" "bsz \<noteq> 0"
  shows "unat i + n = length (entries pl) \<Longrightarrow> length buffer = unat bsz \<Longrightarrow>
    flash_post media bsz w
      (concat (map (file_entry_writes commit d (unat bsz) (unat (BlockSize media)) pl) (drop (unat i) (entries pl))))
      (map_option snd (flash_entries E view pl media commit bsz st buffer n i w))"
proof (induction n arbitrary: i buffer st w)
  case 0
  then show ?case by (auto intro!: flash_postI [where ws = "[]"])
next
  case (Suc n)
  let ?f = "file_entry_writes commit d (unat bsz) (unat (BlockSize media)) pl"
  have i: "unat i < length (entries pl)" using Suc.prems(1) by simp
  let ?e = "entries pl ! unat i"
  have e: "?e \<in> set (entries pl)" using i by simp
  note we = plan_wf_entry [OF wf(1) e]
  let ?s = "stores pl ! unat (store_index ?e)"
  have "i < entry_count pl" using i wf(1) by (simp add: plan_wf_def word_less_nat_alt)
  then have i1: "unat (i + 1) = unat i + 1" by (rule count_up(1))
  have split: "concat (map ?f (drop (unat i) (entries pl))) = ?f ?e @ concat (map ?f (drop (unat (i + 1)) (entries pl)))"
    using i by (simp add: i1 Cons_nth_drop_Suc [symmetric])
  have o: "unat (descriptor_offset ?e) + 8 + 8 * unat (location_count ?e) \<le> unat hs"
    using we(2) by (simp add: entry_ok_def)
  show ?case
  proof (cases "byte_count ?e mod BlockSize media = 0")
    case False
    then show ?thesis unfolding flash_entries.simps using i we(1) Suc.prems(2)
      by (simp add: mem_simps flash_post_error)
  next
    case True
    have locs: "flash_post media bsz w (?f ?e)
      (flash_locations E view media commit ?e ?s bsz st buffer (unat (location_count ?e)) 0 w)"
      using flash_locations_post [OF fb o wf(2) mb True bsz, of 0] Suc.prems(2) by (simp add: file_entry_writes_def)
    have "flash_post media bsz w (?f ?e @ concat (map ?f (drop (unat (i + 1)) (entries pl))))
      (do { (st, b, w) \<leftarrow> flash_locations E view media commit ?e ?s bsz st buffer (unat (location_count ?e)) 0 w;
            if EFI_ERROR st then Some (st, b, w)
            else map_option snd (flash_entries E view pl media commit bsz st b n (i + 1) (flash_progress E pl i w)) })"
    proof (rule flash_post_seq [OF locs])
      fix st' w' and b :: bytes
      assume "length b = unat bsz"
      then have "flash_post media bsz (flash_progress E pl i w') (concat (map ?f (drop (unat (i + 1)) (entries pl))))
          (map_option snd (flash_entries E view pl media commit bsz st' b n (i + 1) (flash_progress E pl i w')))"
        using Suc.prems(1) i1 by (intro Suc.IH) simp_all
      then show "flash_post media bsz w' (concat (map ?f (drop (unat (i + 1)) (entries pl))))
          (map_option snd (flash_entries E view pl media commit bsz st' b n (i + 1) (flash_progress E pl i w')))"
        by (simp add: flash_post_def)
    qed
    then show ?thesis unfolding split flash_entries.simps using i we(1) True by (simp add: mem_simps map_snd_seq)
  qed
qed

text \<open>An entry that is no multiple of the device's blocks: the loop stops there, but the flush
  that follows replaces its error.\<close>

definition misaligned :: "FFU_PLAN \<Rightarrow> EFI_BLOCK_IO_MEDIA \<Rightarrow> bool" where
  "misaligned pl media \<longleftrightarrow> (\<exists>e \<in> set (entries pl). byte_count e mod BlockSize media \<noteq> 0)"

lemma flash_entries_end:
  "flash_entries E view pl media commit bsz st buffer n i w = Some (out, st', b, w') \<Longrightarrow> \<not> EFI_ERROR st
    \<Longrightarrow> if out then EFI_ERROR st' else \<not> EFI_ERROR st' \<or> misaligned pl media"
proof (induction n arbitrary: i st buffer w)
  case (Suc n)
  obtain e where e: "peek (entries pl) (unat i) = Some e"
    using Suc.prems(1) by (cases "peek (entries pl) (unat i)") simp_all
  obtain s where s: "peek (stores pl) (unat (store_index e)) = Some s"
    using Suc.prems(1) e by (cases "peek (stores pl) (unat (store_index e))") simp_all
  show ?case
  proof (cases "byte_count e mod BlockSize media = 0")
    case False
    moreover have "e \<in> set (entries pl)" using e by (auto simp: peek_def split: if_splits)
    ultimately show ?thesis using Suc.prems(1) e s by (auto simp: misaligned_def)
  next
    case True
    then obtain st1 b1 w1 where
      l: "flash_locations E view media commit e s bsz st buffer (unat (location_count e)) 0 w = Some (st1, b1, w1)"
      using Suc.prems(1) e s
      by (cases "flash_locations E view media commit e s bsz st buffer (unat (location_count e)) 0 w") auto
    show ?thesis
    proof (cases "EFI_ERROR st1")
      case err: True
      then show ?thesis using Suc.prems(1) e s True l by auto
    next
      case False
      then have "flash_entries E view pl media commit bsz st1 b1 n (i + 1) (flash_progress E pl i w1) = Some (out, st', b, w')"
        using Suc.prems(1) e s True l by simp
      then show ?thesis using Suc.IH False by blast
    qed
  qed
qed simp

section \<open>The flasher\<close>

lemma flash_buffer_ok:
  fixes mb :: u32
  assumes "mb \<noteq> 0"
  shows "unat mb dvd unat (flash_buffer_size mb)" "flash_buffer_size mb \<noteq> 0"
proof -
  let ?b = "if (1024 * 1024 :: u64) < ucast mb then ucast mb else 1024 * 1024 :: u64"
  have pos: "0 < unat mb" using assms by (simp add: unat_gt_0)
  have ge: "unat mb \<le> unat ?b" by (simp add: word_less_nat_alt)
  have "?b mod ucast mb \<le> ?b" by (simp add: word_le_nat_alt unat_mod_distrib)
  then have "unat (flash_buffer_size mb) = unat ?b - unat ?b mod unat mb"
    by (simp only: flash_buffer_size_def Let_def word_le_sub_unat unat_mod_distrib unat_ucast_32_64)
  also have "\<dots> = unat ?b div unat mb * unat mb" by (simp only: minus_mod_eq_div_mult)
  finally have e: "unat (flash_buffer_size mb) = unat ?b div unat mb * unat mb" .
  then show "unat mb dvd unat (flash_buffer_size mb)" by (simp only: dvd_triv_right)
  have "0 < unat ?b div unat mb" using ge pos by (simp add: div_greater_zero_iff del: if_split)
  then have "unat (flash_buffer_size mb) \<noteq> 0" using e pos by simp
  then show "flash_buffer_size mb \<noteq> 0" by (metis unat_0)
qed

definition file_image_writes :: "bool \<Rightarrow> bytes \<Rightarrow> EFI_BLOCK_IO_MEDIA \<Rightarrow> FFU_PLAN \<Rightarrow> (u64 \<times> bytes) list" where
  "file_image_writes commit d media pl =
     concat (map (file_entry_writes commit d (unat (flash_buffer_size (BlockSize media))) (unat (BlockSize media)) pl) (entries pl))"

lemma FlushBlocks_frame:
  "FlushBlocks_call E w = (st, w') \<Longrightarrow> disk_writes w' = disk_writes w \<and> polls w' = polls w"
  by (auto simp: FlushBlocks_call_def Let_def disk_writes_def)

text \<open>Total, and a prefix of the image is written; all of it unless an error is returned, or the
  error of a misaligned entry is lost in the flush.\<close>

lemma flash_to_block_io_post:
  assumes fb: "file_backed E d" "file_open view" "length d < 2 ^ 64"
    and wf: "plan_wf hs pl" "unat hs \<le> length d" and bp: "Media bp = Some media"
  shows "\<exists>st w' ws. ffu_flash_to_block_io E view pl (Some bp) commit w = Some (st, w')
    \<and> disk_writes w' = disk_writes w @ ws \<and> polls w' = polls w \<and> prefix ws (file_image_writes commit d media pl)
    \<and> (EFI_ERROR st \<or> ws = file_image_writes commit d media pl \<or> FlushBlocks bp \<and> misaligned pl media) \<and> (\<forall>x \<in> set ws. in_device media x)"
proof (cases "\<not> MediaPresent media \<or> ReadOnly media \<or> BlockSize media = 0")
  case True
  then show ?thesis using bp by (simp add: ffu_flash_to_block_io_def)
next
  case ok: False
  let ?bsz = "flash_buffer_size (BlockSize media)"
  note B = flash_buffer_ok [of "BlockSize media"]
  obtain p v where a: "uefi_alloc E ?bsz w = (p, v)" by fastforce
  have v: "disk_writes v = disk_writes w" "polls v = polls w"
    using disk_writes_alloc [OF a] uefi_alloc_polls [OF a] by simp_all
  show ?thesis
  proof (cases p)
    case None
    then show ?thesis using ok bp a v by (simp add: ffu_flash_to_block_io_def Let_def)
  next
    case (Some buffer)
    have buf: "length buffer = unat ?bsz" using uefi_alloc_length [of E ?bsz w buffer v] a Some B(2) ok by simp
    let ?u = "con_crlf E (say E (if commit then ''Flash mode: COMMIT'' else ''Flash mode: dry-run'') v)"
    have n: "unat (0 :: u32) + unat (entry_count pl) = length (entries pl)" using wf(1) by (simp add: plan_wf_def)
    let ?r = "flash_entries E view pl media commit ?bsz EFI_SUCCESS buffer (unat (entry_count pl)) 0 ?u"
    have "flash_post media ?bsz ?u (file_image_writes commit d media pl) (map_option snd ?r)"
      using flash_entries_post [OF fb wf _ B n buf, where st = EFI_SUCCESS] ok by (simp add: file_image_writes_def)
    then obtain out st b w' ws where f: "?r = Some (out, st, b, w')"
      "disk_writes w' = disk_writes w @ ws" "polls w' = polls w" "prefix ws (file_image_writes commit d media pl)"
      "EFI_ERROR st \<or> ws = file_image_writes commit d media pl" "\<forall>x \<in> set ws. in_device media x"
      using v by (auto simp: flash_post_def)
    have fin: "if out then EFI_ERROR st else \<not> EFI_ERROR st \<or> misaligned pl media"
      using flash_entries_end [OF f(1)] by simp
    obtain st2 w2 where g: "(if \<not> out \<and> commit \<and> FlushBlocks bp then FlushBlocks_call E w' else (st, w')) = (st2, w2)"
      by fastforce
    then have "disk_writes w2 = disk_writes w'" "polls w2 = polls w'"
        "EFI_ERROR st2 \<or> \<not> EFI_ERROR st \<or> FlushBlocks bp \<and> misaligned pl media"
      using FlushBlocks_frame [of E w' st2 w2] fin by (auto split: if_splits)
    moreover have "ffu_flash_to_block_io E view pl (Some bp) commit w = Some (st2, uefi_free E True w2)"
      unfolding ffu_flash_to_block_io_def option.case bp Let_def a Some prod.case using ok f(1) g by simp
    ultimately show ?thesis using f(2-6) by (auto simp: uefi_free_def)
  qed
qed

section \<open>The two flashers agree\<close>

text \<open>A sequence of writes seen sector by sector.\<close>

definition by_sector :: "nat \<Rightarrow> (u64 \<times> bytes) list \<Rightarrow> (u64 \<times> bytes) list" where
  "by_sector mb ws = concat (map (\<lambda>(x, d). sector_writes mb x 0 d) ws)"

lemma by_sector_append [simp]: "by_sector mb (xs @ ys) = by_sector mb xs @ by_sector mb ys"
  by (simp add: by_sector_def)

lemma by_sector_concat: "by_sector mb (concat (map f xs)) = concat (map (\<lambda>x. by_sector mb (f x)) xs)"
  by (induction xs) (simp_all add: by_sector_def)

definition file_slice :: "bytes \<Rightarrow> FFU_WRITE_ENTRY \<Rightarrow> bytes" where
  "file_slice d e = take (unat (byte_count e)) (drop (unat (payload_offset e)) d)"

lemma location_slice_sectors:
  assumes "0 < mb" "0 < bsz" "mb dvd bsz"
  shows "by_sector mb (location_slice True d bsz mb bs e l)
    = sector_writes mb (entry_target d bs e l div of_nat mb) 0 (file_slice d e)"
  unfolding by_sector_def location_slice_def slice_writes_def file_slice_def
  using chunks_are_sectors [OF assms, of 0] by simp

lemma image_writes_slices:
  assumes "\<forall>e \<in> set es. length (g e) = unat (byte_count e)"
  shows "image_writes f es (concat (map g es)) = concat (map (\<lambda>e. f e (g e)) es)"
  using assms by (induction es) auto

text \<open>The stream flasher, fed the slices of the file, and the file flasher make the same
  writes, sector by sector.\<close>

lemma flashers_agree:
  assumes mb: "BlockSize media \<noteq> 0"
    and sl: "\<forall>e \<in> set (entries pl). unat (payload_offset e) + unat (byte_count e) \<le> length d"
  shows "by_sector (unat (BlockSize media)) (file_image_writes True d media pl)
    = by_sector (unat (BlockSize media)) (image_writes (entry_writes d pl (BlockSize media)) (entries pl)
        (concat (map (file_slice d) (entries pl))))"
proof -
  let ?mb = "unat (BlockSize media)" let ?bsz = "unat (flash_buffer_size (BlockSize media))"
  have pos: "0 < ?mb" "0 < ?bsz" "?mb dvd ?bsz"
    using flash_buffer_ok [OF mb] mb by (simp_all add: unat_gt_0)
  have len: "\<forall>e \<in> set (entries pl). length (file_slice d e) = unat (byte_count e)"
    using sl by (auto simp: file_slice_def)
  have loc: "by_sector ?mb (file_entry_writes True d ?bsz ?mb pl e)
      = by_sector ?mb (entry_writes d pl (BlockSize media) e (file_slice d e))" for e
  proof -
    let ?t = "\<lambda>l. entry_target d (block_size (stores pl ! unat (store_index e))) e l div ucast (BlockSize media)"
    have "by_sector ?mb (entry_writes d pl (BlockSize media) e (file_slice d e))
        = concat (map (\<lambda>l. sector_writes ?mb (?t l) 0 (file_slice d e)) [0..<unat (location_count e)])"
      by (simp add: by_sector_def entry_writes_def comp_def)
    then show ?thesis by (simp add: file_entry_writes_def by_sector_concat location_slice_sectors [OF pos])
  qed
  show ?thesis unfolding image_writes_slices [OF len] file_image_writes_def
    by (simp only: by_sector_concat loc)
qed

section \<open>Counting packets\<close>

abbreviation packet_bytes :: nat where "packet_bytes \<equiv> unat UFP_MAX_PAYLOAD_DATA"

lemma div_add_one: "0 < m \<Longrightarrow> (m + y) div m = Suc (y div m)" for m y :: nat
  using div_add_self1 [of m y] by (simp only: Suc_eq_plus1 less_not_refl2 not_False_eq_True)

lemma packet_fill_eq:
  "unat in_packet < packet_bytes \<Longrightarrow>
    unat (fst (packet_fill left in_packet packets)) = (unat in_packet + unat left) mod packet_bytes
    \<and> snd (packet_fill left in_packet packets) = packets + of_nat ((unat in_packet + unat left) div packet_bytes)"
proof (induction left in_packet packets rule: packet_fill.induct)
  case (1 left in_packet packets)
  let ?room = "UFP_MAX_PAYLOAD_DATA - in_packet" let ?tk = "if left < ?room then left else ?room"
  have room: "unat ?room = packet_bytes - unat in_packet"
    using 1(3) by (subst word_le_sub_unat) (simp_all add: word_le_nat_alt)
  have pos: "0 < packet_bytes" by (simp add: UFP_MAX_PAYLOAD_DATA_def)
  have sum: "unat (in_packet + ?tk) = unat in_packet + unat ?tk"
    using room 1(3) unat_u32_lt [of UFP_MAX_PAYLOAD_DATA]
    by (subst unat_add_le) (auto simp: word_less_nat_alt)
  show ?case
  proof (cases "left = 0")
    case True
    then show ?thesis using 1(3) by (subst (1 2) packet_fill.simps) simp
  next
    case False
    show ?thesis
    proof (cases "left < ?room")
      case small: True
      then have lt: "unat in_packet + unat left < packet_bytes" using room by (simp add: word_less_nat_alt)
      then have ne: "in_packet + left \<noteq> UFP_MAX_PAYLOAD_DATA" using sum small by (metis less_irrefl)
      have "packet_fill left in_packet packets = (in_packet + left, packets)"
        using False small ne by (subst packet_fill.simps) (simp add: Let_def packet_fill.simps [of 0])
      then show ?thesis using sum small lt by simp
    next
      case big: False
      then have l: "unat left \<ge> packet_bytes - unat in_packet" "unat (left - ?room) = unat left - (packet_bytes - unat in_packet)"
        using room by (simp_all add: word_le_nat_alt not_less word_le_sub_unat)
      have eq: "packet_fill left in_packet packets = packet_fill (left - ?room) 0 (packets + 1)"
        using False big by (subst packet_fill.simps) (simp add: Let_def)
      have IH: "unat (fst (packet_fill (left - ?room) 0 (packets + 1))) = (unat (0 :: u32) + unat (left - ?room)) mod packet_bytes
          \<and> snd (packet_fill (left - ?room) 0 (packets + 1))
            = packets + 1 + of_nat ((unat (0 :: u32) + unat (left - ?room)) div packet_bytes)"
        using 1(1) [OF False refl refl refl] big pos by simp
      have "unat in_packet + unat left = packet_bytes + unat (left - ?room)" using l 1(3) by simp
      moreover have "(packet_bytes + y) div packet_bytes = Suc (y div packet_bytes)" for y :: nat
        by (rule div_add_one [OF pos])
      ultimately show ?thesis using IH by (simp add: eq)
    qed
  qed
qed

lemma packet_entries_eq:
  "i + n = length (entries pl) \<Longrightarrow> unat ip < packet_bytes \<Longrightarrow>
    \<exists>q c. packet_entries pl i n ip pk = Some (q, c)
      \<and> unat q = (unat ip + image_bytes (drop i (entries pl))) mod packet_bytes
      \<and> c = pk + of_nat ((unat ip + image_bytes (drop i (entries pl))) div packet_bytes)"
proof (induction n arbitrary: i ip pk)
  case 0
  then show ?case by (simp add: image_bytes_def)
next
  case (Suc n)
  let ?e = "entries pl ! i"
  have i: "i < length (entries pl)" using Suc.prems(1) by simp
  obtain q c where f: "packet_fill (byte_count ?e) ip pk = (q, c)" by fastforce
  then have q: "unat q = (unat ip + unat (byte_count ?e)) mod packet_bytes"
    "c = pk + of_nat ((unat ip + unat (byte_count ?e)) div packet_bytes)"
    using packet_fill_eq [OF Suc.prems(2), of "byte_count ?e" pk] by simp_all
  have pos: "0 < packet_bytes" by (simp add: UFP_MAX_PAYLOAD_DATA_def)
  then have "unat q < packet_bytes" using q(1) by simp
  then obtain q' c' where r: "packet_entries pl (Suc i) n q c = Some (q', c')"
      "unat q' = (unat q + image_bytes (drop (Suc i) (entries pl))) mod packet_bytes"
      "c' = c + of_nat ((unat q + image_bytes (drop (Suc i) (entries pl))) div packet_bytes)"
    using Suc.IH [of "Suc i" q c] Suc.prems(1) by auto
  have b: "image_bytes (drop i (entries pl)) = unat (byte_count ?e) + image_bytes (drop (Suc i) (entries pl))"
    using i by (simp add: image_bytes_def Cons_nth_drop_Suc [symmetric])
  let ?x = "unat ip + unat (byte_count ?e)" let ?y = "image_bytes (drop (Suc i) (entries pl))"
  have "(?x + ?y) div packet_bytes = ?x div packet_bytes + (?x mod packet_bytes + ?y) div packet_bytes"
  proof -
    have "?x + ?y = ?x div packet_bytes * packet_bytes + (?x mod packet_bytes + ?y)"
      using div_mult_mod_eq [of ?x packet_bytes] by linarith
    then show ?thesis using div_mult_self3 [of packet_bytes "?x div packet_bytes" "?x mod packet_bytes + ?y"] pos
      by (metis less_not_refl2)
  qed
  then show ?case using i f r q b by (simp add: mem_simps mod_simps add.assoc)
qed

end
