(* ===== verification/Secure_Spec.thy ===== *)
theory Secure_Spec
  imports Secure_Loop Ffu_Flash_Spec
begin

text \<open>
  Safety of the message loop: its invariant, the preservation by each message, and what the
  loop guarantees for any sequence of messages. The header buffer is the delicate part. The
  stream flasher points into it, and the loop replaces it when a message announces a header
  that does not fit; \<open>loop_ok c\<close> says that it has the capacity \<open>c\<close>, which all header
  messages of a session announcing the same length agree on.
\<close>

section \<open>Invariant\<close>

definition port_ok :: "u64 \<Rightarrow> LOOP \<Rightarrow> bool" where
  "port_ok mt s \<longleftrightarrow> usb_ok (port s) \<and> max_transfer (port s) = mt \<and> mt \<le> USBFN_MAX_XFER \<and> app_ok (globals s)"

definition header_ok :: "u64 \<Rightarrow> LOOP \<Rightarrow> bool" where
  "header_ok c s \<longleftrightarrow>
     (hdr s = None \<longrightarrow> hdr_len s = 0 \<and> header_cap s = 0 \<and> \<not> flash_ready s) \<and>
     (\<forall>a. hdr s = Some a \<longrightarrow> header_cap s = c \<and> c \<le> 128 * 1024 * 1024 \<and> hdr_len s \<le> c
        \<and> (\<exists>p. mem s a = Some p \<and> length p = unat c))"

definition ready_ok :: "bool \<Rightarrow> LOOP \<Rightarrow> bool" where
  "ready_ok commit s \<longleftrightarrow> (flash_ready s \<longrightarrow> (\<exists>p. stream_inv (mem s) p (flash s))
     \<and> header (flash s) = hdr s \<and> (dry_run (flash s) = 0 \<longleftrightarrow> commit))"

definition loop_ok :: "u64 \<Rightarrow> u64 \<Rightarrow> bool \<Rightarrow> LOOP \<Rightarrow> bool" where
  "loop_ok mt c commit s \<longleftrightarrow> port_ok mt s \<and> header_ok c s \<and> ready_ok commit s"

text \<open>What a round may do to the world: write only when committing, and use up polls.\<close>

definition steps :: "bool \<Rightarrow> world \<Rightarrow> world \<Rightarrow> bool" where
  "steps commit w w' \<longleftrightarrow>
     (\<exists>ws. disk_writes w' = disk_writes w @ ws \<and> (\<not> commit \<longrightarrow> ws = [])) \<and> (\<exists>k. polls w' = drop k (polls w)) \<and> grew w w'"

definition round_post :: "u64 \<Rightarrow> u64 \<Rightarrow> bool \<Rightarrow> world \<Rightarrow> round \<Rightarrow> bool" where
  "round_post mt c commit w r \<longleftrightarrow> (case r of None \<Rightarrow> False
     | Some (Waiting w') \<Rightarrow> steps commit w w'
     | Some (Returns (fl, s', w')) \<Rightarrow> loop_ok mt c commit s' \<and> steps commit w w')"

lemma steps_refl [simp]: "steps commit w w"
  by (auto simp: steps_def intro: exI [of _ 0])

lemma steps_trans: "steps commit u v \<Longrightarrow> steps commit v w \<Longrightarrow> steps commit u w"
  by (auto simp: steps_def add.commute intro: grew_trans)

lemma quiet_steps: "quiet v w \<Longrightarrow> steps commit v w"
  by (auto simp: quiet_def steps_def)

lemma same_steps:
  "disk_writes v = disk_writes w \<Longrightarrow> polls v = polls w \<Longrightarrow> grew w v \<Longrightarrow> steps commit w v"
  by (auto simp: steps_def intro: exI [of _ 0])

lemma write_steps:
  "polls v = polls w \<Longrightarrow> disk_writes v = disk_writes w @ ws \<Longrightarrow> (\<not> commit \<Longrightarrow> ws = []) \<Longrightarrow> grew w v \<Longrightarrow> steps commit w v"
  by (auto simp: steps_def intro: exI [of _ 0])

lemma round_post_Returns [simp]:
  "round_post mt c commit w (Some (Returns (fl, s', w'))) \<longleftrightarrow> loop_ok mt c commit s' \<and> steps commit w w'"
  by (simp add: round_post_def)

lemma round_post_from:
  assumes "round_post mt c commit v r" "steps commit w v"
  shows "round_post mt c commit w r"
  using assms by (auto simp: round_post_def intro: steps_trans split: option.splits run.splits)

lemma loop_ok_port:
  assumes "loop_ok mt c commit s" "usb_ok usb" "usb_keep usb = usb_keep (port s)"
  shows "loop_ok mt c commit (s\<lparr>port := usb\<rparr>)"
  using assms by (simp add: loop_ok_def port_ok_def header_ok_def ready_ok_def usb_keep_def)

lemma loop_ok_usb: "loop_ok mt c commit s \<Longrightarrow> usb_ok (port s)"
  by (simp add: loop_ok_def port_ok_def)

lemma loop_ok_app: "loop_ok mt c commit s \<Longrightarrow> app_ok (globals s)"
  by (simp add: loop_ok_def port_ok_def)

text \<open>Fields that the invariant does not mention.\<close>

lemma loop_ok_async [simp]:
  "loop_ok mt c commit (s\<lparr>async_write_status := a\<rparr>) = loop_ok mt c commit s"
  "loop_ok mt c commit (s\<lparr>async_last_sector := b\<rparr>) = loop_ok mt c commit s"
  "loop_ok mt c commit (s\<lparr>async_ufp_status := d\<rparr>) = loop_ok mt c commit s"
  "loop_ok mt c commit (s\<lparr>header_v2_received := e\<rparr>) = loop_ok mt c commit s"
  by (simp_all add: loop_ok_def port_ok_def header_ok_def ready_ok_def)

lemma loop_ok_globals: "loop_ok mt c commit s \<Longrightarrow> app_ok app \<Longrightarrow> loop_ok mt c commit (s\<lparr>globals := app\<rparr>)"
  by (simp add: loop_ok_def port_ok_def header_ok_def ready_ok_def)

section \<open>Answers\<close>

lemma after_post:
  assumes "delivers usb_ok usb_keep usb ms v r" "steps commit w v"
    and "\<And>st usb' w'. usb_ok usb' \<Longrightarrow> usb_keep usb' = usb_keep usb \<Longrightarrow> steps commit w w'
      \<Longrightarrow> round_post mt c commit w (f (st, usb', w'))"
  shows "round_post mt c commit w (after r f)"
proof -
  consider (wait) w' where "r = Some (Waiting w')" | (ret) st usb' w' where "r = Some (Returns (st, usb', w'))"
    using assms(1) by (auto simp: delivers_def split: option.splits run.splits)
  then show ?thesis
  proof cases
    case wait
    then show ?thesis using assms(1,2) quiet_steps by (auto simp: round_post_def intro: steps_trans)
  next
    case ret
    then have "usb_ok usb'" "usb_keep usb' = usb_keep usb" "steps commit v w'"
      using assms(1) quiet_steps by auto
    then show ?thesis using ret assms(3) steps_trans [OF assms(2)] by simp
  qed
qed

lemma reply_post:
  assumes "loop_ok mt c commit s" "delivers usb_ok usb_keep (port s) ms v r" "steps commit w v"
  shows "round_post mt c commit w (reply s r)"
  unfolding reply_def using assms(2,3)
  by (rule after_post) (use loop_ok_port [OF assms(1)] in simp)

lemma reply_answers:
  assumes "loop_ok mt c commit s" "answers (port s) m v r" "steps commit w v"
  shows "round_post mt c commit w (reply s r)"
  using assms reply_post unfolding answers_def by blast

lemma reply_replies:
  assumes "loop_ok mt c commit s" "replies (port s) m v r" "steps commit w v"
  shows "round_post mt c commit w (reply s r)"
  using assms reply_post unfolding replies_def by blast

lemma reply_once:
  assumes "loop_ok mt c commit s" "answers_once (port s) v r" "steps commit w v"
  shows "round_post mt c commit w (reply s r)"
  using assms reply_answers unfolding answers_once_def by blast

lemma reply_short_post:
  assumes "loop_ok mt c commit s" "steps commit w v"
  shows "round_post mt c commit w (reply_short E s st sp v)"
  unfolding reply_short_def
  using assms by (intro reply_replies [OF _ short_replies(1)]) (simp_all add: loop_ok_usb)

lemma reply_unknown_post:
  assumes "loop_ok mt c commit s" "steps commit w v"
  shows "round_post mt c commit w (reply s (send_unknown_response E (port s) v))"
  using assms by (intro reply_replies [OF _ short_replies(7)]) (simp_all add: loop_ok_usb)

text \<open>A frame from a packet builder that fits the 64-byte buffer.\<close>

lemma frame_delivers:
  assumes "usb_ok usb" "unat n = length m"
  shows "delivers usb_ok usb_keep usb (usb.message usb (m @ r) n) w (usb_transport_send E usb (Some (m @ r)) n w)"
  using assms by (intro usb.send_delivers) simp_all

section \<open>Asynchronous writes\<close>

lemma stack_64: "unat (64 :: u64) \<le> length (stack 64)"
  by (simp add: stack_def)

lemmas frames_64 =
  async_start.builds [OF _ stack_64] async_write.builds [OF _ stack_64]
  async_end.builds [OF _ stack_64] secure_status.builds [OF _ stack_64]

lemma async_frame_lengths:
  "length (async_start_frame a) = 9" "length (async_write_frame b c d e f) = 27"
  "length (async_end_frame g h i) = 21" "length (status_frame j k l m n) = 36"
  by (simp_all add: frame_defs)

lemma async_reset_ok: "loop_ok mt c commit (async_reset s) = loop_ok mt c commit s"
  "port (async_reset s) = port s"
  by (simp_all add: async_reset_def)

lemma async_start_post:
  assumes ok: "loop_ok mt c commit s" and len: "unat len \<le> length msg"
  shows "round_post mt c commit w (async_start E msg len s w)"
proof -
  have "\<exists>g. andM (Some (10 \<le> len)) (andM (byte_is msg 8 1) (byte_is msg 9 0)) = Some g"
    using len by (auto simp: andM_def byte_is_def peek_def word_le_nat_alt)
  then obtain g where g: "andM (Some (10 \<le> len)) (andM (byte_is msg 8 1) (byte_is msg 9 0)) = Some g" by blast
  let ?s = "if g then async_reset s else s"
  have s: "loop_ok mt c commit ?s" "port ?s = port s" using ok by (simp_all add: async_reset_ok)
  have "round_post mt c commit w (reply ?s (usb_transport_send E (port ?s)
      (Some (async_start_frame a @ drop 9 (stack 64))) 9 w))" for a
    by (rule reply_post [OF s(1) frame_delivers [OF loop_ok_usb [OF s(1)]] steps_refl])
      (simp add: async_frame_lengths)
  then show ?thesis unfolding async_start_def g Let_def by (simp add: frames_64 async_frame_lengths)
qed

lemma async_blocks_post:
  assumes ok: "loop_ok mt c commit s" and len: "unat len \<le> length msg" "64 \<le> len"
  shows "\<exists>s' w'. async_blocks E media commit msg len start n s w = Some (s', w')
    \<and> loop_ok mt c commit s' \<and> steps commit w w'"
proof -
  let ?d = "ucast n * ucast (BlockSize media) :: u64"
  have ld: "load msg 64 (unat ?d) = Some (take (unat ?d) (drop 64 msg))" if "\<not> len - 64 < ?d"
    using that len by (intro load_in) (auto simp: word_le_nat_alt word_less_nat_alt word_le_sub_unat)
  show ?thesis
    using ok ld unfolding async_blocks_def Let_def
    by (auto simp: async_fail_def WriteBlocks_call_def Let_def intro!: write_steps)
qed

lemma async_write_post:
  assumes ok: "loop_ok mt c commit s" and len: "unat len \<le> length msg" "64 \<le> len" and m: "Media dev = Some media"
  shows "round_post mt c commit w (async_write E dev commit msg len s w)"
proof -
  have l: "64 \<le> length msg" using len by (simp add: word_le_nat_alt)
  obtain a where a: "rd_be32 (drop 12 msg) = Some a" using be32.dec_drop_total [of 12 msg] l by auto
  obtain n where n: "rd_be32 (drop 16 msg) = Some n" using be32.dec_drop_total [of 16 msg] l by auto
  let ?f = "async_write_frame n a (async_write_status s) (async_last_sector s) (async_ufp_status s)"
  have "round_post mt c commit w (after (usb_transport_send E (port s) (Some (?f @ drop 27 (stack 64))) 27 w)
      (\<lambda>(st, usb, w). do {
       let s = s\<lparr>port := usb\<rparr>;
       check \<leftarrow> peek msg 25;
       (s, w) \<leftarrow> (if check \<noteq> 1 then async_blocks E media commit msg len a n s w else Some (s, w));
       Some (Returns (Next, s, w)) }))"
  proof (rule after_post [OF frame_delivers [OF loop_ok_usb [OF ok]] steps_refl])
    fix st usb' w'
    assume u: "usb_ok usb'" "usb_keep usb' = usb_keep (port s)" "steps commit w w'"
    note s = loop_ok_port [OF ok u(1,2)]
    obtain s2 w2 where b: "async_blocks E media commit msg len a n (s\<lparr>port := usb'\<rparr>) w' = Some (s2, w2)"
        "loop_ok mt c commit s2" "steps commit w' w2"
      using async_blocks_post [OF s len] by blast
    show "round_post mt c commit w (case (st, usb', w') of (st, usb, w) \<Rightarrow> do {
       let s = s\<lparr>port := usb\<rparr>;
       check \<leftarrow> peek msg 25;
       (s, w) \<leftarrow> (if check \<noteq> 1 then async_blocks E media commit msg len a n s w else Some (s, w));
       Some (Returns (Next, s, w)) })"
      using s b u l by (auto simp: peek_in Let_def intro: steps_trans)
  qed (simp add: async_frame_lengths)
  then show ?thesis unfolding async_write_def by (simp add: a n m frames_64 async_frame_lengths)
qed

lemma async_end_post:
  assumes ok: "loop_ok mt c commit s"
  shows "round_post mt c commit w (async_end E s w)"
proof -
  have s: "loop_ok mt c commit (async_reset s)" using ok by (simp add: async_reset_ok)
  have "round_post mt c commit w (reply (async_reset s) (usb_transport_send E (port (async_reset s))
      (Some (async_end_frame a b d @ drop 21 (stack 64))) 21 w))" for a b d
    by (rule reply_post [OF s frame_delivers [OF loop_ok_usb [OF s]] steps_refl])
      (simp add: async_frame_lengths)
  then show ?thesis unfolding async_end_def
    by (simp add: frames_64 async_frame_lengths async_reset_ok)
qed

lemma async_message_post:
  assumes ok: "loop_ok mt c commit s" and len: "unat len \<le> length msg" and m: "Media dev = Some media"
  shows "round_post mt c commit w (async_message E dev commit msg len s w)"
proof -
  have guard: "\<exists>g. andM (Some (k \<le> len)) (byte_is msg 6 v) = Some g \<and> (g \<longrightarrow> k \<le> len)" if "7 \<le> k" for k v
    using len that by (cases "k \<le> len") (auto simp: byte_is_def peek_def word_le_nat_alt)
  obtain g1 where g1: "andM (Some (7 \<le> len)) (byte_is msg 6 0x53) = Some g1" using guard [of 7] by auto
  obtain g2 where g2: "andM (Some (64 \<le> len)) (byte_is msg 6 0x57) = Some g2" "g2 \<longrightarrow> 64 \<le> len"
    using guard [of 64] by auto
  obtain g3 where g3: "andM (Some (7 \<le> len)) (byte_is msg 6 0x45) = Some g3" using guard [of 7] by auto
  show ?thesis unfolding async_message_def g1 g2(1) g3 Option.bind.simps
    using async_start_post [OF ok len] async_write_post [OF ok len _ m] async_end_post [OF ok]
      reply_unknown_post [OF ok steps_refl] g2(2) by simp
qed

section \<open>Header messages\<close>

text \<open>The header length that a message announces: both versions have it at offset 24.\<close>

definition header_bytes :: "bytes \<Rightarrow> u32 option" where
  "header_bytes m =
     (if 32 \<le> length m \<and> take 6 m = asc ''NOKXFS''
         \<and> rd_be32 (drop 12 m) \<in> {Some UFP_SEC_SUBBLOCK_HEADER_V1, Some UFP_SEC_SUBBLOCK_HEADER_V2}
      then rd_be32 (drop 24 m) else None)"

definition fits_capacity :: "u64 \<Rightarrow> bytes \<Rightarrow> bool" where
  "fits_capacity c m \<longleftrightarrow> (\<forall>n. header_bytes m = Some n \<longrightarrow> header_capacity 0 (ucast n) = c)"

lemma header_capacity_max: "need \<le> n \<Longrightarrow> header_capacity need n = header_capacity 0 n"
  by (auto simp: header_capacity_def Let_def word_neq_0_conv)

lemma header_capacity_ge:
  fixes n :: u32
  shows "unat n \<le> unat (header_capacity 0 (ucast n))" "unat (header_capacity 0 (ucast n)) < 2 ^ 33"
proof -
  let ?v = "if (ucast n :: u64) \<noteq> 0 then ucast n else 1 :: u64"
  have z: "unat n = 0" if "(ucast n :: u64) = 0" using that unat_ucast_32_64 [of n] by simp
  then have v: "unat n \<le> unat ?v" "unat ?v < 2 ^ 32" using unat_u32_lt [of n] by auto
  have "header_capacity 0 (ucast n) = align_up_u64 ?v (1024 * 1024)"
    by (auto simp: header_capacity_def Let_def word_neq_0_conv)
  then show "unat n \<le> unat (header_capacity 0 (ucast n))" "unat (header_capacity 0 (ucast n)) < 2 ^ 33"
    using v align_up_u64_unat [of "1024 * 1024" ?v] by (auto split: if_splits)
qed

text \<open>The fields that a header message of the right length carries.\<close>

definition fields_ok :: "u32 \<Rightarrow> HEADER_MSG \<Rightarrow> LOOP \<Rightarrow> bool" where
  "fields_ok n m s \<longleftrightarrow> hm_total m = n \<and>
     (if hm_v2 m then hm_copy m = header_v2_received s \<and> hm_data m = 60
      else hm_chunk m = n \<and> hm_offset m = 0 \<and> hm_copy m = 0 \<and> hm_data m = 32)"

lemma header_fields_post:
  assumes len: "unat len \<le> length msg"
  shows "\<exists>r. (if v2 then header_v2_fields msg len s else header_v1_fields msg len s) = Some r
    \<and> (\<forall>m s'. r = Inr (m, s') \<longrightarrow> (\<exists>n. rd_be32 (drop 24 msg) = Some n \<and> fields_ok n m s')
        \<and> 32 \<le> len \<and> hm_v2 m = v2 \<and> (\<forall>mt c commit. loop_ok mt c commit s' = loop_ok mt c commit s))"
proof -
  have rd: "\<exists>n. rd_be32 (drop i msg) = Some n" if "unat len \<ge> i + 4" for i
    using that len be32.dec_drop_total [of i msg] by auto
  have pk: "peek msg i = Some (msg ! i)" if "i < unat len" for i
    using that len by (simp add: peek_in)
  show ?thesis
  proof (cases v2)
    case True
    show ?thesis
    proof (cases "len < 60")
      case False
      then have l: "60 \<le> unat len" by (simp add: word_less_nat_alt)
      obtain a b d e where "rd_be32 (drop 20 msg) = Some a" "rd_be32 (drop 24 msg) = Some b"
          "rd_be32 (drop 29 msg) = Some d" "rd_be32 (drop 33 msg) = Some e"
        using rd [of 20] rd [of 24] rd [of 29] rd [of 33] l by auto
      then show ?thesis using True False l pk [of 28] pk [of 37]
        by (auto simp: header_v2_fields_def fields_ok_def word_le_nat_alt)
    qed (simp add: True header_v2_fields_def)
  next
    case v1: False
    show ?thesis
    proof (cases "len < 32")
      case False
      then have l: "32 \<le> unat len" by (simp add: word_less_nat_alt)
      obtain a b where "rd_be32 (drop 16 msg) = Some a" "rd_be32 (drop 24 msg) = Some b"
        using rd [of 16] rd [of 24] l by auto
      then show ?thesis using v1 False l pk [of 28] pk [of 29]
        by (auto simp: header_v1_fields_def fields_ok_def word_le_nat_alt)
    qed (simp add: v1 header_v1_fields_def)
  qed
qed

text \<open>The window of a chunk that passed the checks: it ends inside the announced length.\<close>

definition window_ok :: "u64 \<Rightarrow> u64 \<Rightarrow> bool \<Rightarrow> u32 \<Rightarrow> u32 \<Rightarrow> u32 \<times> u64 \<times> u64 \<times> LOOP \<Rightarrow> bool" where
  "window_ok mt c commit n chunk x \<longleftrightarrow> (case x of (copy, need, complete, s) \<Rightarrow>
     loop_ok mt c commit s \<and> unat copy + unat chunk = unat need \<and> need \<le> complete \<and> complete = ucast n)"

lemma restart_post:
  assumes ok: "loop_ok mt c commit s"
  shows "\<exists>s' w'. header_restart E s w = (s', w') \<and> loop_ok mt c commit s' \<and> header_v2_received s' = 0
    \<and> port s' = port s \<and> steps commit w w'"
proof (cases "flash_ready s \<or> hdr s = None")
  case True
  then show ?thesis using ok
    by (cases "flash_ready s"; cases "hdr s") (simp_all add: header_restart_def)
next
  case False
  then obtain a where a: "hdr s = Some a" "\<not> flash_ready s" by auto
  show ?thesis using ok a
    by (auto simp: header_restart_def loop_ok_def port_ok_def header_ok_def ready_ok_def uefi_free_def
        intro!: same_steps)
qed

lemma header_window_post:
  assumes ok: "loop_ok mt c commit s" and f: "fields_ok n m s" and chk: "header_check m len s = None"
  shows "case header_window E m s w of Inl x \<Rightarrow> True
    | Inr (copy, need, complete, s', w') \<Rightarrow> window_ok mt c commit n (hm_chunk m) (copy, need, complete, s')
        \<and> steps commit w w'"
proof -
  have sum: "unat (ucast a + ucast b :: u64) = unat a + unat b" for a b :: u32
    using unat_u32_lt [of a] unat_u32_lt [of b] by (subst unat_add_le) auto
  have le: "(ucast a + ucast b :: u64) \<le> ucast n \<longleftrightarrow> unat a + unat b \<le> unat n" for a b :: u32
    by (simp add: word_le_nat_alt sum)
  show ?thesis
  proof (cases "hm_v2 m")
    case True
    then have b: "unat (header_v2_received s) + unat (hm_chunk m) \<le> unat n"
      using chk f by (auto simp: header_check_def fields_ok_def not_less le split: if_splits)
    obtain s' w' where r: "header_restart E s w = (s', w')" "loop_ok mt c commit s'" "header_v2_received s' = 0"
        "steps commit w w'" using restart_post [OF ok] by blast
    show ?thesis using True ok f b r
      by (auto simp: header_window_def fields_ok_def window_ok_def sum le word_le_nat_alt)
  next
    case False
    then show ?thesis using ok f unat_u32_lt [of n]
      by (auto simp: header_window_def fields_ok_def window_ok_def Let_def)
  qed
qed

lemma header_grow_post:
  fixes n :: u32
  assumes ok: "loop_ok mt c commit s" and n: "need \<le> ucast n" "header_capacity 0 (ucast n) = c"
  shows "\<exists>r. header_grow E need (ucast n) s w = Some r \<and> (case r of
      Inl (st, sp, s', w') \<Rightarrow> loop_ok mt c commit s' \<and> steps commit w w'
    | Inr (s', w') \<Rightarrow> loop_ok mt c commit s' \<and> steps commit w w' \<and> (hdr s' = None \<longrightarrow> n = 0))"
proof -
  have c: "unat n \<le> unat c" using header_capacity_ge(1) [of n] n(2) by simp
  have new: "header_capacity need (ucast n) = c" using header_capacity_max [OF n(1)] n(2) by simp
  show ?thesis
  proof (cases "header_cap s < need \<or> header_cap s < ucast n")
    case False
    have "n = 0" if "hdr s = None"
    proof -
      have "\<not> (0 :: u64) < ucast n" using that ok False by (simp add: loop_ok_def header_ok_def)
      then have "(ucast n :: u64) = 0" using word_neq_0_conv by blast
      then show ?thesis by (metis unat_ucast_32_64 unat_eq_zero)
    qed
    then show ?thesis using False ok by (simp add: header_grow_def)
  next
    case True
    then have lt: "header_cap s < ucast n" using n(1) by auto
    have none: "hdr s = None"
    proof (rule ccontr)
      assume "hdr s \<noteq> None"
      then have "header_cap s = c" using ok by (auto simp: loop_ok_def header_ok_def)
      then show False using lt c by (simp add: word_less_nat_alt)
    qed
    have nz: "c \<noteq> 0" using lt c by (auto simp: word_less_nat_alt)
    show ?thesis
    proof (cases "128 * 1024 * 1024 < c")
      case True
      then show ?thesis using \<open>header_cap s < need \<or> header_cap s < ucast n\<close> ok new
        by (simp add: header_grow_def)
    next
      case small: False
      obtain p v where a: "uefi_alloc E c w = (p, v)" by fastforce
      have st: "steps commit w v" by (rule same_steps [OF disk_writes_alloc [OF a] uefi_alloc_polls [OF a] grew_alloc [OF a grew_refl]])
      show ?thesis
      proof (cases p)
        case None
        then show ?thesis using True ok new small a st by (simp add: header_grow_def)
      next
        case (Some b)
        then have "length b = unat c" using uefi_alloc_length [of E c w b v] a nz by simp
        then have z: "memset b 0 0 (unat c) = Some (replicate (unat c) 0)" by (simp add: memset_in)
        have hl: "hdr_len s = 0" "\<not> flash_ready s" using ok none by (simp_all add: loop_ok_def header_ok_def)
        have "header_grow E need (ucast n) s w = Some (Inr (s\<lparr>mem := (mem s)(brk s := Some (replicate (unat c) 0)),
            hdr := Some (brk s), brk := brk s + 1, header_cap := c\<rparr>, v))"
          using True new small a Some z none by (simp add: header_grow_def)
        then show ?thesis using ok st hl small
          by (simp add: loop_ok_def port_ok_def header_ok_def ready_ok_def)
      qed
    qed
  qed
qed

text \<open>Storing a chunk keeps the size of the buffer, so a plan parsed earlier stays in range.\<close>

lemma stream_inv_store:
  assumes "stream_inv H p ctx" "H a = Some b" "length b = length b'"
  shows "\<exists>q. stream_inv (H(a := Some b')) q ctx"
proof (cases "header ctx = Some a")
  case True
  then show ?thesis using assms by (intro exI [of _ b']) (auto simp: stream_inv_def)
next
  case False
  then show ?thesis using assms by (intro exI [of _ p]) (auto simp: stream_inv_def)
qed

lemma header_store_post:
  fixes n :: u32
  assumes ok: "loop_ok mt c commit s" and n: "need \<le> ucast n" "header_capacity 0 (ucast n) = c"
    and w: "unat copy + unat (hm_chunk m) = unat need" "hdr s = None \<longrightarrow> n = 0"
    and msg: "unat (hm_data m) + unat (hm_chunk m) \<le> length msg"
  shows "\<exists>s'. header_store m msg copy need s = Some s' \<and> loop_ok mt c commit s' \<and> (hdr s' = None \<longrightarrow> n = 0)"
proof -
  have nd: "unat need \<le> unat n" using n(1) by (simp add: word_le_nat_alt)
  have c: "unat n \<le> unat c" using header_capacity_ge(1) [of n] n(2) by simp
  have len: "loop_ok mt c commit (if hdr_len s1 < need then s1\<lparr>hdr_len := need\<rparr> else s1)"
    if "loop_ok mt c commit s1" "hdr s1 = hdr s" for s1
  proof -
    have "need \<le> c" using nd c by (simp add: word_le_nat_alt)
    moreover have "need = 0" if "hdr s = None" using that w(2) nd by (simp add: unat_eq_zero [symmetric])
    ultimately show ?thesis using that by (auto simp: loop_ok_def port_ok_def header_ok_def ready_ok_def)
  qed
  show ?thesis
  proof (cases "hm_chunk m = 0")
    case True
    then show ?thesis using len [OF ok] w(2) by (auto simp: header_store_def Let_def split: if_splits)
  next
    case False
    then have "0 < unat (hm_chunk m)" by (simp add: unat_gt_0)
    then have "n \<noteq> 0" using w(1) nd by auto
    then obtain a where a: "hdr s = Some a" using w(2) by auto
    then obtain b where b: "mem s a = Some b" "length b = unat c" using ok by (auto simp: loop_ok_def header_ok_def)
    define b' where "b' = take (unat copy) b @ take (unat (hm_chunk m)) (drop (unat (hm_data m)) msg)
      @ drop (unat copy + unat (hm_chunk m)) b"
    have cp: "memcpy b (unat copy) msg (unat (hm_data m)) (unat (hm_chunk m)) = Some b'"
      using w(1) nd c b(2) msg by (subst memcpy_in) (simp_all add: b'_def)
    have lb: "length b' = length b" using w(1) nd c b(2) msg by (simp add: b'_def)
    let ?s = "s\<lparr>mem := (mem s)(a := Some b')\<rparr>"
    have "ready_ok commit ?s" using ok stream_inv_store [of "mem s" _ "flash s" a b b'] b(1) lb
      by (auto simp: loop_ok_def ready_ok_def)
    then have "loop_ok mt c commit ?s" using ok a b lb by (simp add: loop_ok_def port_ok_def header_ok_def)
    then show ?thesis using False a b cp len [of ?s] by (auto simp: header_store_def Let_def split: if_splits)
  qed
qed

section \<open>The plan summary\<close>

lemma print_stores_post:
  "i + n \<le> length (stores pl) \<Longrightarrow> \<exists>w'. print_stores E pl i n w = Some w'
    \<and> disk_writes w' = disk_writes w \<and> polls w' = polls w \<and> grew w w'"
proof (induction n arbitrary: i w)
  case (Suc n)
  then have "\<forall>v. \<exists>u. print_stores E pl (Suc i) n v = Some u \<and> disk_writes u = disk_writes v \<and> polls u = polls v \<and> grew v u"
    using Suc.IH [of "Suc i"] by simp
  then obtain f where f: "\<And>v. print_stores E pl (Suc i) n v = Some (f v)
      \<and> disk_writes (f v) = disk_writes v \<and> polls (f v) = polls v \<and> grew v (f v)" by metis
  show ?case using Suc.prems f grew_trans [OF _ conjunct2 [OF conjunct2 [OF conjunct2 [OF f]]], of w]
    by (simp add: peek_in)
qed simp

lemma print_summary_post:
  assumes "unat (store_count pl) \<le> length (stores pl)"
  shows "\<exists>st w'. ffu_print_summary E pl w = Some (st, w')
    \<and> disk_writes w' = disk_writes w \<and> polls w' = polls w \<and> grew w w'"
proof -
  have "\<forall>v. \<exists>u. print_stores E pl 0 (unat (store_count pl)) v = Some u
      \<and> disk_writes u = disk_writes v \<and> polls u = polls v \<and> grew v u"
    using print_stores_post [of 0 "unat (store_count pl)" pl E] assms by simp
  then obtain f where f: "\<And>v. print_stores E pl 0 (unat (store_count pl)) v = Some (f v)
      \<and> disk_writes (f v) = disk_writes v \<and> polls (f v) = polls v \<and> grew v (f v)" by metis
  show ?thesis using grew_trans [OF _ conjunct2 [OF conjunct2 [OF conjunct2 [OF f]]], of w]
    by (simp add: ffu_print_summary_def f)
qed

section \<open>Completing the header\<close>

lemma header_finish_post:
  fixes n :: u32
  assumes ok: "loop_ok mt c commit s" and n: "header_capacity 0 (ucast n) = c" "hdr s = None \<longrightarrow> n = 0"
    and dev: "Media dev = Some media"
  shows "round_post mt c commit w (header_finish E dev commit m (ucast n) s w)"
proof -
  let ?r = "if hm_v2 m then s\<lparr>header_v2_received := 0\<rparr> else s"
  have r: "loop_ok mt c commit ?r" using ok by simp
  consider (part) "(ucast n :: u64) \<noteq> 0 \<and> hdr_len s < ucast n" | (again) "\<not> ((ucast n :: u64) \<noteq> 0 \<and> hdr_len s < ucast n)" "flash_ready s"
    | (start) "\<not> ((ucast n :: u64) \<noteq> 0 \<and> hdr_len s < ucast n)" "\<not> flash_ready s" by blast
  then show ?thesis
  proof cases
    case part
    then show ?thesis by (simp add: header_finish_def reply_short_post [OF ok steps_refl])
  next
    case again
    then show ?thesis using reply_short_post [OF r steps_refl]
      unfolding header_finish_def Let_def if_not_P [OF again(1)] if_P [OF again(2)] by blast
  next
    case start
    let ?sz = "if (ucast n :: u64) \<noteq> 0 then ucast n else hdr_len s"
    have "\<exists>st ctx w'. ffu_stream_flash_init E (mem s) (flash s) (hdr s) ?sz (Some dev) commit w = Some (st, ctx, w')
      \<and> disk_writes w' = disk_writes w \<and> polls w' = polls w \<and> grew w w'
      \<and> (EFI_ERROR st \<or> (\<exists>p. stream_inv (mem s) p ctx) \<and> header ctx = hdr s \<and> (dry_run ctx = 0 \<longleftrightarrow> commit))"
    proof (cases "hdr s")
      case None
      then show ?thesis using dev by (simp add: ffu_stream_flash_init_def)
    next
      case (Some a)
      then obtain p where p: "mem s a = Some p" "length p = unat c" and b: "hdr_len s \<le> c" "c \<le> 128 * 1024 * 1024"
        using ok by (auto simp: loop_ok_def header_ok_def)
      have "unat ?sz \<le> unat c" using header_capacity_ge(1) [of n] n(1) b(1) by (simp add: word_le_nat_alt)
      moreover have "unat c < 2 ^ 35" using b(2) by (simp add: word_le_nat_alt)
      ultimately show ?thesis
        using init_inv [of "mem s" a p ?sz E "flash s" "Some dev" commit w] p Some by auto
    qed
    then obtain st ctx v where i: "ffu_stream_flash_init E (mem s) (flash s) (hdr s) ?sz (Some dev) commit w = Some (st, ctx, v)"
      "disk_writes v = disk_writes w" "polls v = polls w" "grew w v"
      "EFI_ERROR st \<or> (\<exists>p. stream_inv (mem s) p ctx) \<and> header ctx = hdr s \<and> (dry_run ctx = 0 \<longleftrightarrow> commit)"
      by blast
    have eq: "header_finish E dev commit m (ucast n) s w =
       (if \<not> EFI_ERROR st then
          ffu_print_summary E (plan ctx) (con_crlf E (say E ''Received complete FFU header over USB.'' v))
            \<bind> (\<lambda>(x, w). reply_short E (?r\<lparr>flash := ctx, flash_ready := True\<rparr>) 0 0 w)
        else reply_short E (?r\<lparr>flash := ctx\<rparr>) (status_from_efi st) (ucast st)
          (con_crlf E (con_put_status E st (say E ''FFU header parse failed: '' v))))"
      unfolding header_finish_def Let_def if_not_P [OF start(1)] if_not_P [OF start(2)] i(1)
      by (simp only: Option.bind.simps prod.case)
    show ?thesis
    proof (cases "EFI_ERROR st")
      case True
      have "loop_ok mt c commit (?r\<lparr>flash := ctx\<rparr>)"
        using r start(2) by (simp add: loop_ok_def port_ok_def header_ok_def ready_ok_def)
      then show ?thesis unfolding eq using True i(2,3,4) by (simp only: simp_thms if_False) (rule reply_short_post, simp_all add: same_steps)
    next
      case False
      then obtain p where inv: "stream_inv (mem s) p ctx" "header ctx = hdr s" "dry_run ctx = 0 \<longleftrightarrow> commit"
        using i(5) by blast
      have "unat (store_count (plan ctx)) \<le> length (stores (plan ctx))"
        using inv(1) by (simp add: stream_inv_def plan_wf_def)
      from print_summary_post [OF this]
      obtain x u where ps: "ffu_print_summary E (plan ctx)
          (con_crlf E (say E ''Received complete FFU header over USB.'' v)) = Some (x, u)"
        "disk_writes u = disk_writes v" "polls u = polls v" "grew (con_crlf E (say E ''Received complete FFU header over USB.'' v)) u" by force
      have vu: "grew v u" by (rule grew_trans [OF _ ps(4)]) simp
      have "hdr s \<noteq> None" using inv by (auto simp: stream_inv_def)
      then have "loop_ok mt c commit (?r\<lparr>flash := ctx, flash_ready := True\<rparr>)"
        using r inv by (auto simp: loop_ok_def port_ok_def header_ok_def ready_ok_def)
      then show ?thesis unfolding eq ps(1) using False i(2,3) ps(2,3) grew_trans [OF i(4) vu]
        by (simp only: Option.bind.simps prod.case simp_thms if_True) (rule reply_short_post, simp_all add: same_steps)
    qed
  qed
qed

lemma header_message_post:
  assumes ok: "loop_ok mt c commit s" and len: "unat len \<le> length msg" and dev: "Media dev = Some media"
    and n: "\<And>n. 32 \<le> len \<Longrightarrow> rd_be32 (drop 24 msg) = Some n \<Longrightarrow> header_capacity 0 (ucast n) = c"
  shows "round_post mt c commit w (header_message E dev commit msg len v2 s w)"
proof -
  obtain r where r: "(if v2 then header_v2_fields msg len s else header_v1_fields msg len s) = Some r"
    "\<forall>m s'. r = Inr (m, s') \<longrightarrow> (\<exists>n. rd_be32 (drop 24 msg) = Some n \<and> fields_ok n m s')
        \<and> 32 \<le> len \<and> hm_v2 m = v2 \<and> (\<forall>mt c commit. loop_ok mt c commit s' = loop_ok mt c commit s)"
    using header_fields_post [OF len] by blast
  show ?thesis
  proof (cases r)
    case (Inl x)
    then show ?thesis using r(1) reply_short_post [OF ok steps_refl]
      by (cases x) (simp add: header_message_def)
  next
    case (Inr y)
    obtain m s1 where y: "y = (m, s1)" by fastforce
    then obtain k where k: "rd_be32 (drop 24 msg) = Some k" "fields_ok k m s1" "32 \<le> len"
      and ok1: "loop_ok mt c commit s1" using r(2) Inr ok by blast
    have ck: "header_capacity 0 (ucast k) = c" using n [OF k(3,1)] .
    show ?thesis
    proof (cases "header_check m len s1")
      case (Some x)
      then show ?thesis using r(1) Inr y reply_short_post [OF ok1 steps_refl]
        by (cases x) (simp add: header_message_def)
    next
      case chk: None
      have "\<not> len < ucast (hm_data m) + ucast (hm_chunk m)" using chk by (auto simp: header_check_def split: if_splits)
      moreover have "unat (ucast (hm_data m) + ucast (hm_chunk m) :: u64) = unat (hm_data m) + unat (hm_chunk m)"
        using unat_u32_lt [of "hm_data m"] unat_u32_lt [of "hm_chunk m"] by (subst unat_add_le) auto
      ultimately have ml: "unat (hm_data m) + unat (hm_chunk m) \<le> length msg"
        using len by (simp add: word_less_nat_alt)
      show ?thesis
      proof (cases "header_window E m s1 w")
        case (Inl x)
        then show ?thesis using r(1) Inr y chk reply_short_post [OF ok1 steps_refl]
          by (cases x) (simp add: header_message_def)
      next
        case win: (Inr z)
        obtain copy need complete s2 w2 where z: "z = (copy, need, complete, s2, w2)" by (cases z) auto
        then have ok2: "loop_ok mt c commit s2" "steps commit w w2" "unat copy + unat (hm_chunk m) = unat need"
            "need \<le> ucast k" "complete = ucast k"
          using header_window_post [OF ok1 k(2) chk, of w E] win by (auto simp: window_ok_def)
        have cz: "(if complete = 0 then need else complete) = ucast k" using ok2(4,5) by auto
        obtain g where g: "header_grow E need (ucast k) s2 w2 = Some g" "case g of
            Inl (st, sp, s', w') \<Rightarrow> loop_ok mt c commit s' \<and> steps commit w2 w'
          | Inr (s', w') \<Rightarrow> loop_ok mt c commit s' \<and> steps commit w2 w' \<and> (hdr s' = None \<longrightarrow> k = 0)"
          using header_grow_post [OF ok2(1,4) ck, of E w2] by blast
        have eq: "header_message E dev commit msg len v2 s w
          = (case g of Inl (status, specifier, s, w) \<Rightarrow> reply_short E s status specifier w
             | Inr (s, w) \<Rightarrow> header_store m msg copy need s \<bind> (\<lambda>s. header_finish E dev commit m (ucast k) s w))"
          using r(1) Inr y chk win z g(1) by (simp add: header_message_def cz Let_def)
        show ?thesis
        proof (cases g)
          case (Inl x)
          obtain st sp s3 w3 where x: "x = (st, sp, s3, w3)" by (cases x) auto
          then have "loop_ok mt c commit s3" "steps commit w2 w3" using g(2) Inl by auto
          then show ?thesis unfolding eq Inl x sum.case prod.case
            by (intro reply_short_post) (auto intro: steps_trans [OF ok2(2)])
        next
          case (Inr x)
          obtain s3 w3 where x: "x = (s3, w3)" by (cases x) auto
          then have g3: "loop_ok mt c commit s3" "steps commit w2 w3" "hdr s3 = None \<longrightarrow> k = 0" using g(2) Inr by auto
          obtain s4 where s4: "header_store m msg copy need s3 = Some s4 \<and> loop_ok mt c commit s4 \<and> (hdr s4 = None \<longrightarrow> k = 0)"
            using header_store_post [OF g3(1) ok2(4) ck ok2(3) g3(3) ml] by (rule exE)
          note stored = s4 [THEN conjunct1] s4 [THEN conjunct2, THEN conjunct1] s4 [THEN conjunct2, THEN conjunct2]
          show ?thesis unfolding eq Inr x sum.case prod.case stored(1) Option.bind.simps
            by (rule round_post_from [OF header_finish_post [OF stored(2) ck stored(3) dev] steps_trans [OF ok2(2) g3(2)]])
        qed
      qed
    qed
  qed
qed

section \<open>Payload messages\<close>

text \<open>The flasher gets a pointer into the message and reads only as many bytes as it is told.\<close>

lemma memcpy_prefix:
  "i + n \<le> k \<Longrightarrow> k \<le> length d \<Longrightarrow> memcpy b j (take k d) i n = memcpy b j d i n"
proof (induction n arbitrary: b j i)
  case (Suc n)
  have "peek (take k d) i = peek d i" using Suc.prems by (simp add: peek_def)
  then show ?case using Suc.IH [of "Suc i"] Suc.prems by simp
qed simp

lemma stream_step_prefix:
  assumes "unat len \<le> length data" "pos < len"
  shows "stream_step E H ctx (take (unat len) data) len pos w = stream_step E H ctx data len pos w"
proof -
  have "memcpy b j (take (unat len) data) (unat pos) (unat (step_take ctx e len pos))
      = memcpy b j data (unat pos) (unat (step_take ctx e len pos))" for b j e
  proof (rule memcpy_prefix)
    have "step_take ctx e len pos \<le> len - pos" by (simp add: step_take_def Let_def not_less)
    then show "unat pos + unat (step_take ctx e len pos) \<le> unat len"
      using assms(2) word_le_sub_unat [of pos len] by (simp add: word_le_nat_alt word_less_nat_alt)
  qed (fact assms(1))
  then show ?thesis by (simp only: stream_step_def Let_def)
qed

lemma payload_loop_prefix:
  "unat len \<le> length data \<Longrightarrow>
    payload_loop E H ctx (take (unat len) data) len pos w = payload_loop E H ctx data len pos w"
proof (induction E H ctx data len pos w rule: payload_loop.induct)
  case (1 E H ctx data len pos w)
  show ?case
  proof (cases "pos < len")
    case True
    then show ?thesis
      using 1 stream_step_prefix [OF 1(2) True, of E H ctx w]
      by (subst (1 2) payload_loop.simps) (auto split: option.split sum.split)
  qed (simp add: payload_loop.simps)
qed

lemma payload_prefix:
  assumes "unat len \<le> length data"
  shows "ffu_stream_flash_payload E H ctx (Some data) len w
    = ffu_stream_flash_payload E H ctx (Some (take (unat len) data)) len w"
  by (simp add: ffu_stream_flash_payload_def payload_loop_prefix [OF assms])

lemma payload_check_post:
  assumes len: "unat len \<le> length msg"
  shows "\<exists>r. payload_check msg len protocol sb = Some r
    \<and> (\<forall>n off. r = Inr (n, off) \<longrightarrow> unat off + unat n \<le> length msg)"
proof (cases "len < 25")
  case False
  then have l: "25 \<le> unat len" by (simp add: word_less_nat_alt)
  obtain a b where ab: "rd_be32 (drop 16 msg) = Some a" "rd_be32 (drop 20 msg) = Some b"
    using be32.dec_drop_total [of 16 msg] be32.dec_drop_total [of 20 msg] l len by auto
  have pk: "peek msg 24 = Some (msg ! 24)" using l len by (simp add: peek_in)
  obtain d ov mask where lay: "payload_layout sb = (d, ov, mask)" by (cases "payload_layout sb")
  have "unat d + unat b \<le> length msg" if "\<not> len < ucast d + ucast b"
  proof -
    have "unat (ucast d + ucast b :: u64) = unat d + unat b"
      using unat_u32_lt [of d] unat_u32_lt [of b] by (subst unat_add_le) auto
    then show ?thesis using that len by (simp add: word_less_nat_alt)
  qed
  then show ?thesis using False by (simp add: payload_check_def ab pk lay)
qed (simp add: payload_check_def)

lemma loop_ok_flash:
  assumes "loop_ok mt c commit s" "flash_ready s" "stream_inv (mem s) p ctx" "config ctx = config (flash s)"
  shows "loop_ok mt c commit (s\<lparr>flash := ctx\<rparr>)"
  using assms by (auto simp: loop_ok_def port_ok_def header_ok_def ready_ok_def config_def)

lemma payload_feed_post:
  assumes ok: "loop_ok mt c commit s" and d: "unat off + unat n \<le> length msg"
  shows "\<exists>st sp s' w'. payload_feed E msg n off s w = Some (st, sp, s', w')
    \<and> loop_ok mt c commit s' \<and> port s' = port s \<and> steps commit w w'"
proof (cases "flash_ready s \<and> n \<noteq> 0")
  case True
  then obtain p where p: "stream_inv (mem s) p (flash s)" and dry: "dry_run (flash s) = 0 \<longleftrightarrow> commit"
    using ok by (auto simp: loop_ok_def ready_ok_def)
  let ?d = "take (unat n) (drop (unat off) msg)"
  have l: "unat n \<le> length (drop (unat off) msg)" "unat n = length ?d" using d by simp_all
  obtain st ctx w' where f: "ffu_stream_flash_payload E (mem s) (flash s) (Some (drop (unat off) msg)) n w = Some (st, ctx, w')"
    "stream_inv (mem s) p ctx" "\<exists>ws. disk_writes w' = disk_writes w @ ws \<and> (dry_run (flash s) \<noteq> 0 \<longrightarrow> ws = [])"
    "config ctx = config (flash s)" "polls w' = polls w" "grew w w'"
    using payload_safe [OF p l(2), of E w] unfolding payload_prefix [OF l(1)] by blast
  have "loop_ok mt c commit (s\<lparr>flash := ctx\<rparr>)" using loop_ok_flash [OF ok _ f(2,4)] True by simp
  moreover have "steps commit w w'" using f(3,5,6) dry by (auto intro: write_steps)
  ultimately show ?thesis using True f(1) by (simp add: payload_feed_def)
next
  case False
  then show ?thesis using ok by (auto simp: payload_feed_def)
qed

lemma FlushBlocks_steps: "steps commit w (snd (FlushBlocks_call E w))"
  by (auto simp: FlushBlocks_call_def Let_def intro: same_steps)

lemma payload_message_post:
  assumes ok: "loop_ok mt c commit s" and len: "unat len \<le> length msg"
  shows "round_post mt c commit w (payload_message E dev commit msg len protocol progress sb s w)"
proof -
  obtain r where r: "payload_check msg len protocol sb = Some r"
    "\<forall>n off. r = Inr (n, off) \<longrightarrow> unat off + unat n \<le> length msg"
    using payload_check_post [OF len] by blast
  show ?thesis
  proof (cases r)
    case (Inl x)
    then show ?thesis using r(1) reply_short_post [OF ok steps_refl]
      by (cases x) (simp add: payload_message_def)
  next
    case (Inr x)
    obtain n off where x: "x = (n, off)" by fastforce
    then have b: "unat off + unat n \<le> length msg" using r(2) Inr by simp
    obtain st sp s1 w1 where f: "payload_feed E msg n off s w = Some (st, sp, s1, w1)" "loop_ok mt c commit s1"
        "steps commit w w1" using payload_feed_post [OF ok b, of E w] by blast
    define fin where "fin = (if progress = 100 \<and> ffu_stream_flash_done (flash s1) then 1 else 0 :: u8)"
    define us where "us = (if progress = 100 \<and> fin = 0 \<and> st = 0 then 8 else st)"
    let ?f = "status_frame us sp 0xffffffff (last_sector (flash s1)) fin"
    let ?k = "\<lambda>(st :: EFI_STATUS, usb, w). let s = s1\<lparr>port := usb\<rparr>
       in if fin = 1 \<and> us = 0 then
              let w = con_crlf E (say E ''USB FFU flashing completed.'' w);
                  w = (if commit \<and> FlushBlocks dev then snd (FlushBlocks_call E w) else w)
              in Some (Returns (Leave EFI_SUCCESS, s, w))
            else Some (Returns (Next, s, w))"
    have "round_post mt c commit w (after (usb_transport_send E (port s1) (Some (?f @ drop 36 (stack 64))) 36 w1) ?k)"
    proof (rule after_post [OF frame_delivers [OF loop_ok_usb [OF f(2)]] f(3)])
      fix st' usb' w'
      assume u: "usb_ok usb'" "usb_keep usb' = usb_keep (port s1)" "steps commit w w'"
      let ?v = "con_crlf E (say E ''USB FFU flashing completed.'' w')"
      have v: "steps commit w ?v" using steps_trans [OF u(3), of ?v] same_steps [of ?v w'] by simp
      have "steps commit w (snd (FlushBlocks_call E ?v))" by (rule steps_trans [OF v FlushBlocks_steps])
      then show "round_post mt c commit w (?k (st', usb', w'))"
        using loop_ok_port [OF f(2) u(1,2)] u(3) v by (cases commit) (simp_all add: Let_def)
    qed (simp add: async_frame_lengths)
    then show ?thesis using r(1) Inr x f(1)
      by (simp add: payload_message_def frames_64 async_frame_lengths fin_def [symmetric] us_def [symmetric])
  qed
qed

section \<open>Dispatch\<close>

text \<open>The contracts on the firmware, and what a message of a session satisfies.\<close>

definition firmware_ok :: "env \<Rightarrow> bool" where
  "firmware_ok E \<longleftrightarrow> variable_contract E \<and> read_contract E"

definition message_ok :: "u64 \<Rightarrow> bytes \<Rightarrow> u64 \<Rightarrow> bool" where
  "message_ok c msg len \<longleftrightarrow> unat len \<le> length msg \<and> unat len < 2 ^ 32
     \<and> fits_capacity c (take (unat len) msg)"

lemma be32_take: "i + 4 \<le> n \<Longrightarrow> n \<le> length m \<Longrightarrow> rd_be32 (drop i (take n m)) = rd_be32 (drop i m)"
  by (rule be32.dec_prefix) (auto simp: drop_take min_def)

lemma header_bytes_in:
  fixes len :: u64
  assumes "take 6 msg = asc ''NOKXFS''" "rd_be32 (drop 12 msg) = Some sb" "unat len \<le> length msg" "32 \<le> len"
    and "sb = UFP_SEC_SUBBLOCK_HEADER_V1 \<or> sb = UFP_SEC_SUBBLOCK_HEADER_V2" "rd_be32 (drop 24 msg) = Some n"
  shows "header_bytes (take (unat len) msg) = Some n"
proof -
  have l: "32 \<le> unat len" using assms(4) by (simp add: word_le_nat_alt)
  have "rd_be32 (drop i (take (unat len) msg)) = rd_be32 (drop i msg)" if "i + 4 \<le> unat len" for i
    using be32_take [OF that assms(3)] .
  then show ?thesis using assms l by (simp add: header_bytes_def min_def)
qed

lemma secure_message_post:
  assumes ok: "loop_ok mt c commit s" and m: "message_ok c msg len" and dev: "Media dev = Some media"
    and magic: "take 6 msg = asc ''NOKXFS''"
  shows "round_post mt c commit w (secure_message E dev commit msg len s w)"
proof (cases "len < 16")
  case True
  then show ?thesis by (simp add: secure_message_def reply_short_post [OF ok])
next
  case False
  have len: "unat len \<le> length msg" using m by (simp add: message_ok_def)
  have l: "16 \<le> length msg" using False len by (simp add: word_less_nat_alt)
  obtain pr sb where rd: "rd_be16 (drop 6 msg) = Some pr" "rd_be32 (drop 12 msg) = Some sb"
    using be16.dec_drop_total [of 6 msg] be32.dec_drop_total [of 12 msg] l by auto
  have pk: "peek msg 8 = Some (msg ! 8)" "peek msg 11 = Some (msg ! 11)" using l by (simp_all add: peek_in)
  have cap: "header_capacity 0 (ucast n) = c"
    if "sb = UFP_SEC_SUBBLOCK_HEADER_V1 \<or> sb = UFP_SEC_SUBBLOCK_HEADER_V2" "32 \<le> len" "rd_be32 (drop 24 msg) = Some n" for n
    using header_bytes_in [OF magic rd(2) len that(2,1,3)] m by (simp add: message_ok_def fits_capacity_def)
  show ?thesis unfolding secure_message_def if_not_P [OF False] rd pk Option.bind.simps
    using reply_short_post [OF ok steps_refl] header_message_post [OF ok len dev cap] payload_message_post [OF ok len]
    by simp
qed

lemma common_message_post:
  assumes ok: "loop_ok mt c commit s" and len: "unat len \<le> length msg" "unat len < 2 ^ 32"
  shows "round_post mt c commit w (common_message E msg len m5 s w)"
proof -
  have "\<exists>x. (if m5 = 0x42 \<and> 6 < len then peek msg 6 else Some 0) = Some x"
    using len by (auto simp: peek_def word_less_nat_alt)
  then obtain x where x: "(if m5 = 0x42 \<and> 6 < len then peek msg 6 else Some 0) = Some x" by blast
  obtain ms where d: "delivers usb_ok usb_keep (port s) ms w (handle_common_ext E (port s) msg len w)"
    using common_ext_post [OF loop_ok_usb [OF ok] len, of w E] by (auto simp: answers_once_def answers_def)
  show ?thesis unfolding common_message_def x Option.bind.simps
  proof (rule after_post [OF d steps_refl])
    fix st usb' w'
    assume u: "usb_ok usb'" "usb_keep usb' = usb_keep (port s)" "steps commit w w'"
    let ?v = "con_crlf E (say E ''USB host requested reboot/switch. Exiting app.'' w')"
    have "steps commit w ?v" using steps_trans [OF u(3), of ?v] same_steps [of ?v w'] by simp
    then show "round_post mt c commit w (case (st, usb', w') of (st, usb, w) \<Rightarrow>
       let s = s\<lparr>port := usb\<rparr>
       in if m5 = 0x42 \<and> x = 0x52
          then Some (Returns (Leave EFI_SUCCESS, s, con_crlf E (say E ''USB host requested reboot/switch. Exiting app.'' w)))
          else Some (Returns (Next, s, w)))"
      using loop_ok_port [OF ok u(1,2)] u(3) by (simp add: Let_def)
  qed
qed

lemma log_message_post:
  assumes ok: "loop_ok mt c commit s" and len: "unat len \<le> length msg"
  shows "round_post mt c commit w (log_message E msg len ext s w)"
proof -
  have "\<exists>x. (if ext = 0x54 then if 28 \<le> len then rd_be32 (drop 24 msg) else Some 0
                   else if 11 \<le> len then rd_be32 (drop 7 msg) else Some 0) = Some x"
    using len be32.dec_drop_total [of 24 msg] be32.dec_drop_total [of 7 msg] by (auto simp: word_le_nat_alt)
  then obtain x where x: "(if ext = 0x54 then if 28 \<le> len then rd_be32 (drop 24 msg) else Some 0
                   else if 11 \<le> len then rd_be32 (drop 7 msg) else Some 0) = Some x" by blast
  show ?thesis unfolding log_message_def x Option.bind.simps
    by (rule reply_replies [OF ok empty_log_replies [OF loop_ok_usb [OF ok]] steps_refl])
qed

lemma write_message_post:
  assumes ok: "loop_ok mt c commit s" and len: "unat len \<le> length msg"
  shows "round_post mt c commit w (do {
       (app, r) \<leftarrow> handle_write_param E (globals s) (port s) msg len w;
       reply (s\<lparr>globals := app\<rparr>) (Some r) })"
proof -
  obtain p where "write_post (globals s) (port s) p w (handle_write_param E (globals s) (port s) msg len w)"
    using write_param_post [OF loop_ok_usb [OF ok] loop_ok_app [OF ok] len, of w E] by blast
  then obtain st app' r' where r: "handle_write_param E (globals s) (port s) msg len w = Some (app', r')"
      "app_ok app'" "replies (port s) (fw_frame p st) w (Some r')"
    by (auto simp: write_post_def)
  have "loop_ok mt c commit (s\<lparr>globals := app'\<rparr>)" by (rule loop_ok_globals [OF ok r(2)])
  then have "round_post mt c commit w (reply (s\<lparr>globals := app'\<rparr>) (Some r'))"
    by (rule reply_replies [where m = "fw_frame p st", OF _ _ steps_refl]) (simp add: r(3))
  then show ?thesis unfolding r(1) by simp
qed

lemma extended_message_post:
  assumes ok: "loop_ok mt c commit s" and m: "message_ok c msg len" and dev: "Media dev = Some media"
    and E: "firmware_ok E" and magic: "take 4 msg = asc ''NOKX''" "6 \<le> len"
  shows "round_post mt c commit w (extended_message E dev commit msg len s w)"
proof -
  have len: "unat len \<le> length msg" "unat len < 2 ^ 32" using m by (simp_all add: message_ok_def)
  then have l: "6 \<le> length msg" using magic(2) by (simp add: word_le_nat_alt)
  then have pk: "peek msg 4 = Some (msg ! 4)" "peek msg 5 = Some (msg ! 5)" by (simp_all add: peek_in)
  have "take 6 msg = take 4 msg @ take 2 (drop 4 msg)" by (simp flip: take_add)
  also have "take 2 (drop 4 msg) = [msg ! 4, msg ! 5]"
    using l by (simp add: take_Suc_conv_app_nth numeral_eq_Suc)
  finally have m6: "take 6 msg = asc ''NOKXFS''" if "msg ! 4 = 0x46" "msg ! 5 = 0x53"
    using that magic(1) by simp
  note usb = loop_ok_usb [OF ok]
  obtain p st d where rp: "answers (port s) (fr_frame p st (of_nat (length d)) d) w
      (handle_read_param E (globals s) (port s) (Some dev) msg len w)"
    using read_param_post [OF usb loop_ok_app [OF ok] len(1), of E w "Some dev"] E by (auto simp: firmware_ok_def)
  show ?thesis unfolding extended_message_def pk Option.bind.simps
    using common_message_post [OF ok len] reply_answers [OF ok rp steps_refl] write_message_post [OF ok len(1)]
      reply_replies [OF ok unlock_replies [OF usb len(1)] steps_refl]
      reply_replies [OF ok relock_replies [OF usb] steps_refl] log_message_post [OF ok len(1)]
      async_message_post [OF ok len(1) dev] reply_unknown_post [OF ok steps_refl]
      secure_message_post [OF ok m dev m6]
    by (simp only: if_split simp_thms) blast
qed

lemma loop_message_post:
  assumes ok: "loop_ok mt c commit s" and m: "message_ok c msg len" and dev: "Media dev = Some media"
    and E: "firmware_ok E"
  shows "round_post mt c commit w (loop_message E dev commit msg len s w)"
proof (cases "len < 4")
  case True
  then show ?thesis by (simp add: loop_message_def ok)
next
  case False
  have len: "unat len \<le> length msg" using m by (simp add: message_ok_def)
  then have l: "4 \<le> length msg" using False by (simp add: word_less_nat_alt)
  note usb = loop_ok_usb [OF ok]
  define b where "b \<longleftrightarrow> msg ! 0 = 0x4e \<and> msg ! 1 = 0x4f \<and> msg ! 2 = 0x4b"
  have nok: "andM (byte_is msg 0 0x4e) (andM (byte_is msg 1 0x4f) (byte_is msg 2 0x4b)) = Some b"
  proof -
    have "0 < length msg" "1 < length msg" "2 < length msg" using l by linarith+
    then show ?thesis by (simp only: byte_is_in b_def) (auto simp: andM_def)
  qed
  have pk: "peek msg 3 = Some (msg ! 3)" using l by (simp add: peek_in)
  have "take 4 msg = [msg ! 0, msg ! 1, msg ! 2, msg ! 3]"
    using l by (auto simp: numeral_eq_Suc Suc_le_length_iff)
  then have x: "round_post mt c commit w (extended_message E dev commit msg len s w)" if b "msg ! 3 = 0x58" "\<not> len < 6"
    using that by (intro extended_message_post [OF ok m dev E]) (simp_all add: b_def)
  have i: "round_post mt c commit w (reply s (usb_transport_send E (port s) (Some (asc ''NOKI'')) 4 w))"
    by (rule reply_replies [OF ok send_replies [OF usb] steps_refl]) simp
  obtain gm where g: "answers (port s) gm w (handle_get_gpt E (port s) dev w)"
    using get_gpt_post [OF usb dev, of E w] E by (auto simp: firmware_ok_def)
  have leg: "round_post mt c commit w (reply s (handle_legacy_flash E (port s) dev msg len commit w))"
  proof -
    obtain st n sp v ws where v: "handle_legacy_flash E (port s) dev msg len commit w
        = send_legacy_flash_response E (port s) st n sp v"
        "polls v = polls w" "disk_writes v = disk_writes w @ ws" "\<not> commit \<longrightarrow> ws = []" "grew w v"
      using legacy_flash_post [OF len dev, of E "port s" commit w] by (auto simp: legacy_outcome_def)
    have "steps commit w v" using v(2-5) by (auto intro: write_steps)
    then show ?thesis unfolding v(1) by (rule reply_replies [OF ok short_replies(5) [OF usb]])
  qed
  show ?thesis unfolding loop_message_def if_not_P [OF False] nok pk Option.bind.simps
    using reply_unknown_post [OF ok steps_refl] i reply_replies [OF ok v_info_replies [OF usb] steps_refl]
      reply_answers [OF ok g steps_refl] leg x ok by (auto simp del: list.map)
qed

section \<open>The loop\<close>

text \<open>The promises on what the event handler delivers: a reported length covers bytes that were
  really received, and the header messages agree on the capacity of the buffer.\<close>

definition polls_ok :: "u64 \<Rightarrow> u64 \<Rightarrow> usbfn_poll list \<Rightarrow> bool" where
  "polls_ok c n ps \<longleftrightarrow> (\<forall>r b. Poll_Rx r b \<in> set ps \<longrightarrow> BytesTransferred r \<le> n
     \<and> unat (BytesTransferred r) \<le> length b \<and> fits_capacity c (take (unat (BytesTransferred r)) b))"

lemma polls_ok_drop: "polls_ok c n ps \<Longrightarrow> polls_ok c n (drop k ps)"
  by (auto simp: polls_ok_def dest: in_set_dropD)

lemma received_ok:
  assumes ok: "usb_ok usb" "max_transfer usb \<le> USBFN_MAX_XFER" and p: "polls_ok c (max_transfer usb) ps"
    and r: "Poll_Rx r b \<in> set ps" "rx usb = Some buf"
  shows "message_ok c (received b buf) (BytesTransferred r)"
proof -
  have l: "length buf = unat (max_transfer usb)" using ok(1) r(2) by (simp add: usb_ok_def)
  have n: "unat (BytesTransferred r) \<le> length buf" "unat (BytesTransferred r) \<le> length b"
    "fits_capacity c (take (unat (BytesTransferred r)) b)"
    using p r(1) l by (auto simp: polls_ok_def word_le_nat_alt)
  have "unat (max_transfer usb) < 2 ^ 32" using ok(2) by (simp add: word_le_nat_alt USBFN_MAX_XFER_def)
  moreover have "take (unat (BytesTransferred r)) (received b buf) = take (unat (BytesTransferred r)) b"
    using n by (simp add: received_def min_def)
  moreover have "length (received b buf) = length buf" by (auto simp: received_def)
  ultimately show ?thesis using n l by (simp add: message_ok_def)
qed

text \<open>A round either waits for the next message, or handles one that was polled.\<close>

definition progress :: "round \<Rightarrow> world \<Rightarrow> bool" where
  "progress r w \<longleftrightarrow> (\<forall>s' w'. r = Some (Returns (Next, s', w')) \<longrightarrow> length (polls w') < length (polls w))"

lemma secure_round_post:
  assumes ok: "loop_ok mt c commit s" and p: "polls_ok c mt (polls w)"
    and dev: "Media dev = Some media" and E: "firmware_ok E"
  shows "round_post mt c commit w (secure_round E dev commit s w) \<and> progress (secure_round E dev commit s w) w"
proof -
  have mt: "usb_ok (port s)" "max_transfer (port s) = mt" "mt \<le> USBFN_MAX_XFER"
    using ok by (simp_all add: loop_ok_def port_ok_def)
  note recv = recv_post [OF mt(1), where E = E and w = w]
  consider (wait) v where "usb_transport_recv E (port s) w = Some (Waiting v)"
    | (ret) st len usb v where "usb_transport_recv E (port s) w = Some (Returns (st, len, usb, v))"
    using recv by (auto split: option.splits run.splits)
  then show ?thesis
  proof cases
    case wait
    then show ?thesis using recv quiet_steps by (simp add: secure_round_def round_post_def progress_def)
  next
    case ret
    then have r: "quiet w v" "usb_ok usb" "max_transfer usb = mt"
      "EFI_ERROR st \<or> (\<exists>r b ps. polls w = ps @ Poll_Rx r b # polls v \<and> BytesTransferred r = len
         \<and> rx usb = map_option (received b) (rx (port s)))"
      using recv mt(2) by auto
    let ?s = "s\<lparr>port := usb\<rparr>"
    have s: "loop_ok mt c commit ?s"
      using ok r(2,3) by (simp add: loop_ok_def port_ok_def header_ok_def ready_ok_def)
    have v: "steps commit w v" by (rule quiet_steps [OF r(1)])
    show ?thesis
    proof (cases "EFI_ERROR st")
      case True
      have "steps commit w (con_crlf E (con_put_status E st (say E ''USB receive failed: '' v)))"
        by (rule steps_trans [OF v]) (simp add: same_steps)
      then show ?thesis using ret True s by (simp add: secure_round_def progress_def)
    next
      case False
      then obtain q b ps where pw: "polls w = ps @ Poll_Rx q b # polls v" and q3: "BytesTransferred q = len"
        "rx usb = map_option (received b) (rx (port s))" using r(4) by blast
      then have q: "length (polls v) < length (polls w)" "Poll_Rx q b \<in> set (polls w)"
        "BytesTransferred q = len" "rx usb = map_option (received b) (rx (port s))" by simp_all
      obtain buf where buf: "rx (port s) = Some buf" using mt(1) by (auto simp: usb_ok_def)
      have "message_ok c (received b buf) len"
        using received_ok [OF mt(1) _ _ q(2) buf] p mt(2,3) q(3) by simp
      from loop_message_post [OF s this dev E]
      have m: "round_post mt c commit v (loop_message E dev commit (received b buf) len ?s v)" .
      have eq: "secure_round E dev commit s w = loop_message E dev commit (received b buf) len ?s v"
        using ret False q(4) buf by (simp add: secure_round_def)
      have "length (polls w') \<le> length (polls v)" if "steps commit v w'" for w'
        using that by (auto simp: steps_def)
      then have "progress (secure_round E dev commit s w) w"
        unfolding eq progress_def using m q(1) by (fastforce dest: le_less_trans)
      then show ?thesis using round_post_from [OF m v] by (simp add: eq)
    qed
  qed
qed

text \<open>The loop never runs out of fuel if it has one unit more than there are polls.\<close>

lemma secure_loop_post:
  assumes dev: "Media dev = Some media" and E: "firmware_ok E"
  shows "loop_ok mt c commit s \<Longrightarrow> polls_ok c mt (polls w) \<Longrightarrow> length (polls w) < fuel
    \<Longrightarrow> \<exists>r. secure_loop E dev commit fuel s w = Some r
      \<and> (case r of Waiting w' \<Rightarrow> steps commit w w'
         | Returns (st, s', w') \<Rightarrow> loop_ok mt c commit s' \<and> steps commit w w')"
proof (induction fuel arbitrary: s w)
  case 0
  then show ?case by (simp only: not_less_zero)
next
  case (Suc fuel)
  note post = secure_round_post [OF Suc.prems(1,2) dev E]
  consider (wait) v where "secure_round E dev commit s w = Some (Waiting v)"
    | (leave) st s1 v where "secure_round E dev commit s w = Some (Returns (Leave st, s1, v))"
    | (go) s1 v where "secure_round E dev commit s w = Some (Returns (Next, s1, v))"
    using post by (auto simp: round_post_def split: option.splits run.splits) (metis flow.exhaust)
  then show ?case
  proof cases
    case wait
    then show ?thesis using post by (simp add: round_post_def)
  next
    case leave
    then show ?thesis using post by simp
  next
    case go
    then have r: "loop_ok mt c commit s1" "steps commit w v" "length (polls v) < fuel"
      using post Suc.prems(3) by (auto simp: progress_def)
    have "polls_ok c mt (polls v)" using r(2) Suc.prems(2) by (auto simp: steps_def intro: polls_ok_drop)
    from Suc.IH [OF r(1) this r(3)] obtain x where x: "secure_loop E dev commit fuel s1 v = Some x"
      "case x of Waiting w' \<Rightarrow> steps commit v w' | Returns (st, s', w') \<Rightarrow> loop_ok mt c commit s' \<and> steps commit v w'"
      by blast
    then show ?thesis
      using go r(2) by (intro exI [of _ x]) (auto split: run.splits intro: steps_trans)
  qed
qed

lemma start_loop_ok:
  assumes "usb_ok usb" "max_transfer usb \<le> USBFN_MAX_XFER" "app_ok app"
  shows "loop_ok (max_transfer usb) c commit (start_loop usb app)"
  using assms by (simp add: loop_ok_def port_ok_def header_ok_def ready_ok_def start_loop_def)

text \<open>The whole mode: opening the transport, the loop, and the release of everything.\<close>

definition run_world :: "('a \<times> 'b \<times> world) run \<Rightarrow> world" where
  "run_world r = (case r of Waiting w \<Rightarrow> w | Returns (st, s, w) \<Rightarrow> w)"

lemma close_frame: "disk_writes (snd (usb_transport_close E usb w)) = disk_writes w"
  "polls (snd (usb_transport_close E usb w)) = polls w"
proof -
  have e: "disk_writes (emit StopController v) = disk_writes v" "disk_writes (emit FreeTransferBuffer v) = disk_writes v" for v
    by (simp_all add: disk_writes_def)
  show "disk_writes (snd (usb_transport_close E usb w)) = disk_writes w"
    "polls (snd (usb_transport_close E usb w)) = polls w"
    by (simp_all add: usb_transport_close_def Let_def e uefi_free_def)
qed

lemma end_loop_frame: "disk_writes (snd (end_loop E s w)) = disk_writes w"
proof -
  have f: "disk_writes (snd (ffu_stream_flash_free E ctx v)) = disk_writes v" for ctx v
    by (simp add: ffu_stream_flash_free_def ffu_plan_free_def Let_def uefi_free_def)
  show ?thesis using f [of "flash s" w]
    by (simp add: end_loop_def case_prod_unfold Let_def close_frame)
qed

lemma alloc_frame: "disk_writes (snd (uefi_alloc E n w)) = disk_writes w" "polls (snd (uefi_alloc E n w)) = polls w"
  by (cases "uefi_alloc E n w", simp)+

lemma open_frame:
  assumes bs: "uefi_bs E"
  shows "\<exists>x. usb_transport_open E usb w = Some x \<and> disk_writes (snd (snd x)) = disk_writes w \<and> polls (snd (snd x)) = polls w"
proof -
  have e: "disk_writes (emit ev v) = disk_writes v"
    if "ev \<in> {AllocateTransferBuffer n, StartController, ConfigureEnableEndpoints i, LocateProtocol g, DetectPort, GetMaxTransferSize}"
    for ev v n i g
    using that by (auto simp: disk_writes_def)
  have b: "disk_writes (snd (snd (open_buffers E usb v))) = disk_writes v" "polls (snd (snd (open_buffers E usb v))) = polls v" for usb v
    unfolding open_buffers_def Let_def case_prod_unfold
    by (simp_all add: e close_frame alloc_frame del: disk_writes_alloc)
  have s: "disk_writes (snd (snd (open_start E usb v))) = disk_writes v" "polls (snd (snd (open_start E usb v))) = polls v" for usb v
    unfolding open_start_def Let_def case_prod_unfold by (simp_all add: e close_frame)
  let ?w1 = "emit (LocateProtocol gEfiUsbFnIoProtocolGuid) w"
  obtain ls found where l: "locate_protocol E (trace ?w1) = (ls, found)" by (cases "locate_protocol E (trace ?w1)")
  define w2 where "w2 = (if has_detect_port E then emit DetectPort ?w1 else ?w1)"
  define u1 where "u1 = zero_usb usb\<lparr>io := True, max_transfer := USBFN_MAX_XFER\<rparr>"
  define q where "q = (if has_get_max_transfer E
       then let w = emit GetMaxTransferSize w2; (st, reported) = get_max_transfer E (trace w)
            in if \<not> EFI_ERROR st \<and> reported \<noteq> 0 \<and> reported < max_transfer u1
               then (u1\<lparr>max_transfer := reported\<rparr>, w) else (u1, w)
       else (u1, w2))"
  have w2: "disk_writes w2 = disk_writes w" "polls w2 = polls w" by (simp_all add: w2_def e)
  have q: "disk_writes (snd q) = disk_writes w" "polls (snd q) = polls w"
    unfolding q_def Let_def case_prod_unfold by (simp_all add: e w2)
  obtain u2 w3 where p2: "q = (u2, w3)" by (cases q)
  obtain st3 u3 w4 where o: "open_buffers E u2 w3 = (st3, u3, w4)" by (cases "open_buffers E u2 w3")
  have w4: "disk_writes w4 = disk_writes w" "polls w4 = polls w" using b [of u2 w3] o q p2 by simp_all
  show ?thesis
  proof (cases "uefi_bs E \<and> has_locate_protocol E \<and> \<not> EFI_ERROR ls \<and> found")
    case True
    then have "usb_transport_open E usb w = (if EFI_ERROR st3 then Some (st3, u3, w4) else Some (open_start E u3 w4))"
      using l p2 o unfolding usb_transport_open_def q_def u1_def w2_def by simp
    then show ?thesis using s [of u3 w4] w4 by (cases "EFI_ERROR st3") simp_all
  next
    case False
    then have "usb_transport_open E usb w = Some (EFI_UNSUPPORTED, zero_usb usb, w)
      \<or> usb_transport_open E usb w = Some (ls, zero_usb usb\<lparr>io := found\<rparr>, ?w1)"
      using bs l unfolding usb_transport_open_def by (cases "has_locate_protocol E") simp_all
    then show ?thesis by (auto simp: e)
  qed
qed

lemma usb_loop_post:
  assumes E: "usb_contract E" "uefi_bs E" "firmware_ok E" and dev: "Media dev = Some media"
    and app: "length (g_ms_ext_props usb) = 142" "app_ok app"
    and p: "\<And>st usb' w'. usb_transport_open E usb w = Some (st, usb', w') \<Longrightarrow> polls_ok c (max_transfer usb') (polls w)"
  shows "\<exists>r. usb_secure_flash_loop E dev commit usb app w = Some r
    \<and> (\<not> commit \<longrightarrow> disk_writes (run_world r) = disk_writes w)"
proof -
  obtain st usb' v where o: "usb_transport_open E usb w = Some (st, usb', v)" "disk_writes v = disk_writes w"
    using open_frame [OF E(2), of usb w] by auto
  show ?thesis
  proof (cases "EFI_ERROR st")
    case True
    then show ?thesis using o by (simp add: usb_secure_flash_loop_def run_world_def)
  next
    case False
    note q = open_post [OF E(1) app(1) o(1) False]
    have l: "loop_ok (max_transfer usb') c commit (start_loop usb' app)"
      using q app(2) by (simp add: start_loop_ok)
    have pv: "polls_ok c (max_transfer usb') (polls v)"
      using p [OF o(1)] q by (auto simp: quiet_def intro: polls_ok_drop)
    obtain r where r: "secure_loop E dev commit (Suc (length (polls v))) (start_loop usb' app) v = Some r"
      "case r of Waiting w' \<Rightarrow> steps commit v w'
         | Returns (st, s', w') \<Rightarrow> loop_ok (max_transfer usb') c commit s' \<and> steps commit v w'"
      using secure_loop_post [OF dev E(3) l pv lessI] by blast
    have d: "\<not> commit \<longrightarrow> disk_writes x = disk_writes w" if "steps commit v x" for x
      using that q by (auto simp: steps_def quiet_def)
    show ?thesis
    proof (cases r)
      case (Waiting x)
      then have "usb_secure_flash_loop E dev commit usb app w = Some (Waiting x)"
        using o False r(1) by (simp add: usb_secure_flash_loop_def del: secure_loop.simps)
      then show ?thesis using Waiting r(2) d by (auto simp: run_world_def)
    next
      case (Returns y)
      obtain st2 s2 w2 where y: "y = (st2, s2, w2)" by (cases y)
      obtain s3 w3 where e: "end_loop E s2 w2 = (s3, w3)" by fastforce
      then have "usb_secure_flash_loop E dev commit usb app w = Some (Returns (st2, s3, w3))"
        using o False r(1) Returns y by (simp add: usb_secure_flash_loop_def del: secure_loop.simps)
      moreover have "disk_writes w3 = disk_writes w2" using end_loop_frame [of E s2 w2] e by simp
      ultimately show ?thesis using Returns y r(2) d [of w2] by (auto simp: run_world_def)
    qed
  qed
qed

section \<open>The header pointer\<close>

text \<open>Without the agreement on the length, the loop frees the buffer that the flasher points to:
  once a plan has been parsed, a header message that needs a larger buffer leaves the flasher
  with a dangling pointer, and completing the next entry reads through it.\<close>

lemma grow_frees:
  assumes "header_grow E need complete_len s w = Some (Inr (s', w'))"
    and "header_cap s < need \<or> header_cap s < complete_len" "hdr s = Some a" "a < brk s"
  shows "mem s' a = None \<and> flash s' = flash s"
proof -
  obtain p v where al: "uefi_alloc E (header_capacity need complete_len) w = (p, v)" by fastforce
  then show ?thesis using assms
    by (auto simp: header_grow_def Let_def split: if_splits option.splits Option.bind_splits)
qed

end
