(* ===== verification/Ffu_File_Wf.thy ===== *)
theory Ffu_File_Wf
  imports Ffu_Wf
begin

text \<open>
  What the file parser guarantees. Unlike the header parser it does not compare every step
  with the size of the image: a cursor beyond the end of the file makes the next read fail,
  or the comparison at the end. On a file of less than \<open>2\<^sup>34\<close> bytes the cursor cannot wrap, so
  no access goes wrong and a plan that is returned with success is as well formed as one of
  the header parser.
\<close>

section \<open>Reading\<close>

lemma file_read_exact_io:
  "file_read_exact E view off n w = (st, b, w') \<Longrightarrow> same_io w w'"
  using file_read_exact_frame by (simp add: same_io_def)

lemma file_read_cases:
  assumes "file_backed E d" "file_open view"
  obtains b w' where "file_read_exact E view off n w = (EFI_SUCCESS, b, w')" "length b = unat n"
      "unat off + unat n \<le> length d" "same_io w w'"
    | st b w' where "file_read_exact E view off n w = (st, b, w')" "EFI_ERROR st" "same_io w w'"
proof (cases "unat off + unat n \<le> length d")
  case True
  then show thesis using file_backed_read [OF assms, of off n w]
    by (intro that(1)) (auto intro: file_read_exact_io)
next
  case False
  then show thesis using file_backed_read [OF assms, of off n w]
    by (intro that(2)) (auto simp: EFI_ERROR_iff_bit EFIERR_def EFI_ERROR_BIT_def EFI_END_OF_FILE_def intro: file_read_exact_io)
qed

section \<open>Sections before the stores\<close>

lemma fresh_world [simp]: "fresh (ps\<lparr>ps_world := w\<rparr>) = fresh ps" "fresh (ps\<lparr>ps_cursor := c\<rparr>) = fresh ps"
  by (simp_all add: fresh_def)

lemma sec_post_world:
  "sec_post w' P r \<Longrightarrow> same_io w w' \<Longrightarrow> sec_post w P r"
  by (auto simp: sec_post_def intro: same_io_trans split: option.splits sum.splits)

text \<open>The cursor stays small: behind the security header below \<open>2\<^sup>35\<close>, and a section that has
  read at the cursor moves it by less than \<open>2\<^sup>36\<close>.\<close>

definition near :: "pstate \<Rightarrow> bool" where
  "near ps \<longleftrightarrow> unat (ps_cursor ps) < 2 ^ 37"

lemma check_security_near:
  assumes "length sec = 32" "fresh ps"
  shows "sec_post (ps_world ps) (\<lambda>ps'. fresh ps' \<and> near ps') (check_security sec ps)"
proof -
  obtain n alg kb cat hash where rd: "rd_le32 sec = Some n" "rd_le32 (drop 20 sec) = Some alg"
      "rd_le32 (drop 16 sec) = Some kb" "rd_le32 (drop 24 sec) = Some cat"
      "rd_le32 (drop 28 sec) = Some hash"
    using le32.dec_drop_total [of 0 sec] le32.dec_drop_total [of 20 sec]
      le32.dec_drop_total [of 16 sec] le32.dec_drop_total [of 24 sec]
      le32.dec_drop_total [of 28 sec] assms(1) by auto
  have c: "unat (32 + ucast cat + ucast hash :: u64) < 2 ^ 34"
  proof -
    have "unat (32 + ucast cat :: u64) = 32 + unat cat" using unat_u32_lt [of cat] by (subst unat_add_le) simp_all
    then have "unat (32 + ucast cat + ucast hash :: u64) = 32 + unat cat + unat hash"
      using unat_u32_lt [of cat] unat_u32_lt [of hash] by (subst unat_add_le) simp_all
    then show ?thesis using unat_u32_lt [of cat] unat_u32_lt [of hash] by simp
  qed
  then have "unat (align_up_u64 (32 + ucast cat + ucast hash) (ucast (push_bit 10 kb :: u32))) < 2 ^ 37"
    using align_ge(2) [of "32 + ucast cat + ucast hash" "push_bit 10 kb"] by simp
  then show ?thesis using assms
    by (simp add: check_security_def ffu_size_defs rd sig_eq_in andM_def Let_def fresh_def near_def)
qed

lemma file_security_post:
  assumes f: "file_backed E d" "file_open view" and ps: "fresh ps"
  shows "sec_post (ps_world ps) (\<lambda>ps'. fresh ps' \<and> near ps') (file_security E view ps)"
proof (cases rule: file_read_cases [OF f, of 0 32 "ps_world ps"])
  case (1 b w')
  have "sec_post w' (\<lambda>ps'. fresh ps' \<and> near ps') (check_security b (ps\<lparr>ps_world := w'\<rparr>))"
    using check_security_near [of b "ps\<lparr>ps_world := w'\<rparr>"] 1(2) ps by simp
  then show ?thesis using sec_post_world [OF _ 1(4)] 1(1)
    by (simp add: file_security_def ffu_size_defs)
next
  case (2 st b w')
  then show ?thesis by (simp add: file_security_def ffu_size_defs)
qed

lemma check_image_sig_cursor:
  "check_image_sig img ps = Some (Inr ps') \<Longrightarrow> ps_cursor ps' = ps_cursor ps"
  by (auto simp: check_image_sig_def Let_def split: section_splits)

lemma add_u32_near:
  fixes c :: u64 and x :: u32
  shows "unat c < 2 ^ 34 \<Longrightarrow> unat (c + ucast x) < 2 ^ 37"
  using unat_u32_lt [of x] by (subst unat_add_le) simp_all

lemma image_body_near:
  assumes "24 \<le> length img" "image_header_size (ps_plan ps) = 28 \<Longrightarrow> 28 \<le> length img" "fresh ps"
    and "unat (ps_cursor ps) < 2 ^ 34"
  shows "sec_post (ps_world ps) (\<lambda>ps'. fresh ps' \<and> near ps') (check_image_body img ps)"
proof -
  have "near ps'" if "check_image_body img ps = Some (Inr ps')" for ps'
    using that add_u32_near [OF assms(4)]
    by (auto simp: check_image_body_def Let_def near_def split: section_splits)
  then show ?thesis using image_body_post [OF assms(1-3)]
    by (auto simp: sec_post_def split: option.splits sum.splits)
qed

lemma file_image_post:
  assumes f: "file_backed E d" "file_open view" and L: "length d < 2 ^ 34" and ps: "fresh ps"
  shows "sec_post (ps_world ps) (\<lambda>ps'. fresh ps' \<and> near ps') (file_image E view ps)"
proof (cases rule: file_read_cases [OF f, of "ps_cursor ps" 24 "ps_world ps"])
  case (1 img w1)
  let ?p = "ps\<lparr>ps_world := w1\<rparr>"
  have sig: "sec_post w1 fresh (check_image_sig img ?p)"
    using image_sig_post [of img ?p] 1(2) ps by simp
  show ?thesis
  proof (cases "check_image_sig img ?p")
    case None
    then show ?thesis using sig by simp
  next
    case (Some r)
    show ?thesis
    proof (cases r)
      case (Inl e)
      then show ?thesis using sec_post_world [OF sig 1(4)] Some 1(1)
        by (cases e) (simp add: file_image_def ffu_size_defs)
    next
      case (Inr p1)
      then have p1: "fresh p1" "same_io w1 (ps_world p1)" "ps_cursor p1 = ps_cursor ps"
        using sig Some check_image_sig_cursor [of img ?p p1] by simp_all
      obtain st b w2 where tl: "(if image_header_size (ps_plan p1) = 28
            then file_read_exact E view (ps_cursor p1 + 24) 4 (ps_world p1) else (EFI_SUCCESS, [], ps_world p1)) = (st, b, w2)"
          "\<not> EFI_ERROR st \<Longrightarrow> image_header_size (ps_plan p1) = 28 \<Longrightarrow> length b = 4" "same_io (ps_world p1) w2"
      proof (cases rule: file_read_cases [OF f, of "ps_cursor p1 + 24" 4 "ps_world p1"])
        case (1 b w2)
        then show ?thesis using that by (cases "image_header_size (ps_plan p1) = 28") simp_all
      next
        case (2 st b w2)
        then show ?thesis using that by (cases "image_header_size (ps_plan p1) = 28") simp_all
      qed
      have eq: "file_image E view ps = (if EFI_ERROR st then Some (Inl (st, p1\<lparr>ps_world := w2\<rparr>))
          else check_image_body (img @ b) (p1\<lparr>ps_world := w2\<rparr>))"
        using 1(1) Some Inr tl(1)
        by (cases "image_header_size (ps_plan p1) = 28") (auto simp: file_image_def ffu_size_defs)
      have io: "same_io (ps_world ps) w2" using 1(4) p1(2) tl(3) same_io_trans by blast
      have "sec_post w2 (\<lambda>ps'. fresh ps' \<and> near ps') (check_image_body (img @ b) (p1\<lparr>ps_world := w2\<rparr>))"
        if "\<not> EFI_ERROR st"
        using image_body_near [of "img @ b" "p1\<lparr>ps_world := w2\<rparr>"] 1(2,3) tl(2) p1 L that by simp
      then show ?thesis unfolding eq using io sec_post_world [OF _ io] by simp
    qed
  qed
next
  case (2 st b w')
  then show ?thesis by (simp add: file_image_def ffu_size_defs)
qed

lemma vd_skip_bound:
  "vd_skip vd n a = Some s \<Longrightarrow> unat a + n * 2 ^ 32 < 2 ^ 63 \<Longrightarrow> unat s \<le> unat a + n * 2 ^ 32"
proof (induction vd n a rule: vd_skip.induct)
  case (2 vd n a)
  obtain x where x: "rd_le32 vd = Some x" "vd_skip (drop 4 vd) n (a + ucast x) = Some s"
    using 2(2) by (auto split: Option.bind_splits)
  have "unat (a + ucast x) = unat a + unat x"
    using 2(3) unat_u32_lt [of x] by (subst unat_add_le) simp_all
  then show ?case using 2(1) [OF x] 2(3) unat_u32_lt [of x] by simp
qed simp

lemma file_validation_post:
  assumes f: "file_backed E d" "file_open view" and L: "length d < 2 ^ 34"
  shows "fresh ps \<Longrightarrow> near ps
    \<Longrightarrow> sec_post (ps_world ps) (\<lambda>ps'. fresh ps' \<and> near ps') (file_validation E view n ps)"
proof (induction n arbitrary: ps)
  case 0
  then show ?case by simp
next
  case (Suc n)
  show ?case
  proof (cases rule: file_read_cases [OF f, of "ps_cursor ps" 28 "ps_world ps"])
    case (1 vd w1)
    obtain k where k: "vd_skip vd 7 0 = Some k" using vd_skip_defined [of 7 vd 0] 1(2) by auto
    let ?p = "ps\<lparr>ps_world := w1, ps_cursor := ps_cursor ps + (28 + k)\<rparr>"
    have kb: "unat k \<le> 7 * 2 ^ 32" using vd_skip_bound [OF k] by simp
    then have "unat (28 + k) = 28 + unat k" by (subst unat_add_le) simp_all
    then have "unat (ps_cursor ps + (28 + k)) < 2 ^ 37"
      using kb 1(3) L by (subst unat_add_le) simp_all
    then have p: "fresh ?p" "near ?p" using Suc.prems(1) by (simp_all add: fresh_def near_def)
    have "sec_post w1 (\<lambda>ps'. fresh ps' \<and> near ps') (file_validation E view n ?p)"
      using Suc.IH [OF p] by simp
    then show ?thesis using sec_post_world [OF _ 1(4)] 1(1) k by simp
  next
    case (2 st b w')
    then show ?thesis by simp
  qed
qed

section \<open>Write descriptors\<close>

lemma entry_ok_mono: "entry_ok sz bs k e \<Longrightarrow> sz \<le> sz' \<Longrightarrow> entry_ok sz' bs k e"
  by (simp add: entry_ok_def word_le_nat_alt)

lemma layout_mono: "layout sz k a ss es \<Longrightarrow> sz \<le> sz' \<Longrightarrow> layout sz' k a ss es"
  by (induction ss arbitrary: k a es) (auto simp: Let_def intro: entry_ok_mono)

text \<open>The invariant between the stores: that of the header parser with the cursor itself as
  the bound, and as many entries as a file of \<open>len\<close> bytes has room for.\<close>

definition finv :: "nat \<Rightarrow> pstate \<Rightarrow> bool" where
  "finv len ps \<longleftrightarrow> pinv (ps_cursor ps) ps \<and> near ps \<and> 16 * length (entries (ps_plan ps)) \<le> len + 16"

lemma finv_fresh: "fresh ps \<Longrightarrow> near ps \<Longrightarrow> finv len ps"
  by (simp add: finv_def pinv_fresh) (simp add: fresh_def)

definition fdesc_post ::
    "nat \<Rightarrow> u32 \<Rightarrow> u32 \<Rightarrow> nat \<Rightarrow> u64 \<Rightarrow> pstate \<Rightarrow> ((EFI_STATUS \<times> pstate) + u64 \<times> pstate) option \<Rightarrow> bool" where
  "fdesc_post len bs index n rel ps r \<longleftrightarrow>
     (case r of None \<Rightarrow> False
      | Some (Inl (st, ps')) \<Rightarrow> EFI_ERROR st \<and> same_io (ps_world ps) (ps_world ps')
      | Some (Inr (rel', ps')) \<Rightarrow>
          desc_post (ps_cursor ps') bs index n rel ps r \<and> near ps' \<and> ps_cursor ps \<le> ps_cursor ps'
          \<and> 16 * length (entries (ps_plan ps')) \<le> len + 16)"

lemma desc_post_step:
  assumes "desc_post sz bs index n (rel + ucast (byte_count e)) ps1 (Some (Inr (rel', ps')))"
    and "ps_plan ps1 = push_entry e (ps_plan ps)" "payload_offset e = rel" "entry_ok sz bs (unat index) e"
    and "ps_store_cap ps1 = ps_store_cap ps" "ps_desired ps1 = ps_desired ps" "same_io (ps_world ps) (ps_world ps1)"
  shows "desc_post sz bs index (Suc n) rel ps (Some (Inr (rel', ps')))"
proof -
  obtain xs where "ps_plan ps' = add_entries xs (ps_plan ps1)" "length xs = n"
      "\<forall>e \<in> set xs. entry_ok sz bs (unat index) e" "contiguous (rel + ucast (byte_count e)) xs"
      "rel' = rel + ucast (byte_count e) + total_bytes xs"
    using assms(1) by (auto simp: desc_post_def)
  then have "ps_plan ps' = add_entries (e # xs) (ps_plan ps) \<and> length (e # xs) = Suc n
      \<and> (\<forall>e \<in> set (e # xs). entry_ok sz bs (unat index) e) \<and> contiguous rel (e # xs)
      \<and> rel' = rel + total_bytes (e # xs)"
    using assms(2-4) by (simp add: total_bytes_def add.assoc)
  then show ?thesis using assms(1,5-7) same_io_trans by (auto simp: desc_post_def intro!: exI [of _ "e # xs"])
qed

lemma file_descriptors_post:
  assumes f: "file_backed E d" "file_open view" and L: "length d < 2 ^ 34"
  shows "entry_array.fits (ps_plan ps) (ps_entry_cap ps)
    \<Longrightarrow> 16 * length (entries (ps_plan ps)) \<le> unat (ps_cursor ps) \<Longrightarrow> near ps
    \<Longrightarrow> 16 * length (entries (ps_plan ps)) \<le> length d + 16
    \<Longrightarrow> fdesc_post (length d) bs index n rel ps (file_descriptors E view bs index n rel ps)"
proof (induction n arbitrary: rel ps)
  case 0
  then show ?case by (auto simp: fdesc_post_def desc_post_def total_bytes_def intro: exI [of _ "[]"])
next
  case (Suc n)
  show ?case
  proof (cases rule: file_read_cases [OF f, of "ps_cursor ps" 8 "ps_world ps"])
    case (1 wh w1)
    obtain locs blocks where rd: "rd_le32 wh = Some locs" "rd_le32 (drop 4 wh) = Some blocks"
      using le32.dec_drop_total [of 0 wh] le32.dec_drop_total [of 4 wh] 1(2) by auto
    let ?b = "ucast bs * ucast blocks :: u64"
    let ?e = "make_entry rel (ps_cursor ps) ?b blocks locs index"
    let ?c = "ps_cursor ps + (8 + ucast locs * 8)"
    have cur: "unat (ps_cursor ps) + 8 \<le> length d" using 1(3) by simp
    have c': "unat ?c = unat (ps_cursor ps) + (8 + 8 * unat locs)"
      using cur L by (intro next_cursor) simp
    have few: "unat (entry_count (ps_plan ps)) < 2 ^ 31"
      using Suc.prems(1,2) cur L by (simp add: entry_array.fits_def)
    show ?thesis
    proof (cases "locs = 0 \<or> blocks = 0 \<or> 0xffffffff < ?b")
      case True
      then show ?thesis using 1 rd by (auto simp: fdesc_post_def Let_def)
    next
      case False
      then have ok: "locs \<noteq> 0" "blocks \<noteq> 0" "\<not> 0xffffffff < ?b" by simp_all
      from entry_array.append_fits [OF Suc.prems(1) few, of E ?e w1]
      show ?thesis
      proof (elim disjE exE conjE)
        fix cap' w'
        assume ap: "append_entry E (ps_plan ps) (ps_entry_cap ps) ?e w1
              = Some (EFI_SUCCESS, push_entry ?e (ps_plan ps), cap', w')"
          "entry_array.fits (push_entry ?e (ps_plan ps)) cap'"
          "disk_writes w' = disk_writes w1" "polls w' = polls w1" "grew w1 w'"
        let ?ps = "ps\<lparr>ps_plan := push_entry ?e (ps_plan ps), ps_entry_cap := cap', ps_world := w',
          ps_cursor := ?c\<rparr>"
        let ?r = "file_descriptors E view bs index n (rel + ?b) ?ps"
        have io: "same_io (ps_world ps) w'" using 1(4) ap(3-5) by (auto simp: same_io_def intro: grew_trans)
        have "0 < unat locs" "unat locs < 2 ^ 32" using ok(1) unat_u32_lt [of locs] by (simp_all add: unat_gt_0)
        then have IH: "fdesc_post (length d) bs index n (rel + ?b) ?ps ?r"
          using Suc.prems ap ok c' cur L by (intro Suc.IH) (simp_all add: push_entry_def near_def)
        have eq: "file_descriptors E view bs index (Suc n) rel ps = ?r"
          using 1 rd ok ap(1) False by (simp add: Let_def)
        have e_off: "payload_offset ?e = rel" "ucast (byte_count ?e) = ?b"
          using entry_bytes [OF ok(3)] by (simp_all add: make_entry_def)
        show ?thesis
        proof (cases ?r)
          case None
          then show ?thesis using IH by (simp add: fdesc_post_def)
        next
          case (Some r)
          show ?thesis
          proof (cases r)
            case (Inl x)
            then show ?thesis using IH Some io unfolding eq
              by (cases x) (auto simp: fdesc_post_def intro: same_io_trans)
          next
            case (Inr x)
            obtain rel' ps' where x: "x = (rel', ps')" by (cases x)
            have p: "desc_post (ps_cursor ps') bs index n (rel + ?b) ?ps (Some (Inr (rel', ps')))" "near ps'"
                "?c \<le> ps_cursor ps'" "16 * length (entries (ps_plan ps')) \<le> length d + 16"
              using IH Some Inr x by (simp_all add: fdesc_post_def)
            have "entry_ok (ps_cursor ps') bs (unat index) ?e"
              using ok entry_bytes [OF ok(3)] c' p(3) by (simp add: entry_ok_def make_entry_def word_le_nat_alt)
            then have "desc_post (ps_cursor ps') bs index (Suc n) rel ps (Some (Inr (rel', ps')))"
              using p(1) e_off io by (intro desc_post_step [of _ _ _ _ _ ?e ?ps]) simp_all
            moreover have "ps_cursor ps \<le> ps_cursor ps'" using p(3) c' by (simp add: word_le_nat_alt)
            ultimately show ?thesis using p Some Inr x unfolding eq by (simp add: fdesc_post_def)
          qed
        qed
      next
        fix w'
        assume "append_entry E (ps_plan ps) (ps_entry_cap ps) ?e w1
              = Some (EFI_OUT_OF_RESOURCES, ps_plan ps, ps_entry_cap ps, w')"
          "disk_writes w' = disk_writes w1" "polls w' = polls w1" "grew w1 w'"
        moreover from this have "grew (ps_world ps) w'" using 1(4) by (auto simp: same_io_def intro: grew_trans)
        ultimately show ?thesis using 1 rd ok False
          by (simp add: fdesc_post_def Let_def same_io_def)
      qed
    qed
  next
    case (2 st b w')
    then show ?thesis by (simp add: fdesc_post_def)
  qed
qed

section \<open>Stores\<close>

lemma pinv_mono: "pinv sz ps \<Longrightarrow> sz \<le> sz' \<Longrightarrow> pinv sz' ps"
  by (auto simp: pinv_def intro: layout_mono)

text \<open>What the version-2 tail, or its absence, leaves.\<close>

definition v2_post :: "pstate \<Rightarrow> ((EFI_STATUS \<times> pstate) + u64 \<times> pstate) option \<Rightarrow> bool" where
  "v2_post ps r \<longleftrightarrow>
     (case r of None \<Rightarrow> False
      | Some (Inl (st, ps')) \<Rightarrow> EFI_ERROR st \<and> same_io (ps_world ps) (ps_world ps')
      | Some (Inr (n, ps')) \<Rightarrow> ps_plan ps' = ps_plan ps \<and> same_io (ps_world ps) (ps_world ps')
          \<and> ps_store_cap ps' = ps_store_cap ps \<and> ps_entry_cap ps' = ps_entry_cap ps
          \<and> ps_cursor ps \<le> ps_cursor ps' \<and> near ps')"

lemma file_store_v2_post:
  assumes f: "file_backed E d" "file_open view" and L: "length d < 2 ^ 34"
  shows "v2_post ps (file_store_v2 E view ps)"
proof (cases rule: file_read_cases [OF f, of "ps_cursor ps" 14 "ps_world ps"])
  case (1 tail w')
  obtain dd n l where rd: "rd_le16 tail = Some dd" "rd_le64 (drop 4 tail) = Some n"
      "rd_le16 (drop 12 tail) = Some l"
    using le16.dec_drop_total [of 0 tail] le16.dec_drop_total [of 12 tail]
      rd_le64_Some [of "drop 4 tail"] 1(2) by auto
  have "unat (ucast l * 2 :: u64) = unat l * 2"
    using unat_u16_lt [of l] by (subst unat_mult_le) simp_all
  then have "unat (ps_cursor ps + 14 + ucast l * 2) = unat (ps_cursor ps) + 14 + unat l * 2"
    using 1(3) L unat_u16_lt [of l] by (simp add: unat_add_le)
  then show ?thesis using 1 rd L unat_u16_lt [of l]
    by (auto simp: file_store_v2_def ffu_size_defs Let_def v2_post_def word_le_nat_alt near_def)
next
  case (2 st b w')
  then show ?thesis by (simp add: file_store_v2_def ffu_size_defs v2_post_def)
qed

text \<open>The rest of a store after its header and version-2 tail have been read.\<close>

definition file_store_tail ::
    "env \<Rightarrow> UEFI_FILE_VIEW \<Rightarrow> u32 \<Rightarrow> u64 \<Rightarrow> bytes \<Rightarrow> ((EFI_STATUS \<times> pstate) + u64 \<times> pstate) option \<Rightarrow> presult" where
  "file_store_tail E view index hdr_off sh r = do {
     r \<leftarrow> r;
     case r of Inl e \<Rightarrow> Some (Inl e)
     | Inr (psize, ps) \<Rightarrow> do {
         c \<leftarrow> check_store_header sh;
         case c of Inl st \<Rightarrow> Some (Inl (st, ps))
         | Inr (bs, dc) \<Rightarrow> do {
             let start = entry_count (ps_plan ps);
             let base = ps_cursor ps;
             r \<leftarrow> file_descriptors E view bs index (unat dc) 0 ps;
             case r of Inl e \<Rightarrow> Some (Inl e)
             | Inr (rel, ps) \<Rightarrow> do {
                 (st, plan, cap, w) \<leftarrow> append_store E (ps_plan ps) (ps_store_cap ps)
                    (make_store hdr_off base psize bs dc start rel) (ps_world ps);
                 let ps = ps\<lparr>ps_plan := plan, ps_store_cap := cap, ps_world := w\<rparr>;
                 if EFI_ERROR st then Some (Inl (st, ps)) else Some (Inr ps) } } } }"

text \<open>After an append the state that it was made from decides the cursor.\<close>

lemma store_append_cursor:
  "(do { (st, plan, cap, w) \<leftarrow> append_store E p c x v;
         let ps' = ps2\<lparr>ps_plan := plan, ps_store_cap := cap, ps_world := w\<rparr>;
         if EFI_ERROR st then Some (Inl (st, ps')) else Some (Inr ps') }) = Some (Inr ps')
    \<Longrightarrow> ps_cursor ps' = ps_cursor ps2 \<and> entries (ps_plan ps') = entries p"
  by (auto simp: Let_def push_store_def dest!: append_store_result split: section_splits)

lemma finv_store:
  assumes "sec_post w (\<lambda>ps'. pinv (ps_cursor ps2) ps' \<and> stores (ps_plan ps') \<noteq> []) r"
    and "\<And>ps'. r = Some (Inr ps') \<Longrightarrow> ps_cursor ps' = ps_cursor ps2 \<and> entries (ps_plan ps') = entries (ps_plan ps2)"
    and "near ps2" "16 * length (entries (ps_plan ps2)) \<le> len + 16"
  shows "sec_post w (\<lambda>ps'. finv len ps' \<and> stores (ps_plan ps') \<noteq> []) r"
  using assms by (auto simp: sec_post_def finv_def near_def split: option.splits sum.splits)

lemma file_store_tail_post:
  assumes f: "file_backed E d" "file_open view" and L: "length d < 2 ^ 34" and inv: "finv (length d) ps"
    and ps1: "ps_plan ps1 = ps_plan ps" "ps_store_cap ps1 = ps_store_cap ps" "ps_entry_cap ps1 = ps_entry_cap ps"
      "ps_cursor ps \<le> ps_cursor ps1" "near ps1" and sh: "length sh = 248"
  shows "sec_post (ps_world ps1) (\<lambda>ps'. finv (length d) ps' \<and> stores (ps_plan ps') \<noteq> [])
    (file_store_tail E view (store_count (ps_plan ps)) h sh (Some (Inr (n, ps1))))"
proof (rule check_store_header_cases [OF sh])
  fix st assume "check_store_header sh = Some (Inl st)" "EFI_ERROR st"
  then show ?thesis by (simp add: file_store_tail_def)
next
  fix bs dc
  assume hd: "check_store_header sh = Some (Inr (bs, dc))" "bs \<noteq> 0" "dc \<noteq> 0" "bs \<le> UFP_MAX_PAYLOAD_DATA"
  let ?r = "file_descriptors E view bs (store_count (ps_plan ps)) (unat dc) 0 ps1"
  have k: "unat (store_count (ps_plan ps)) = length (stores (ps_plan ps))"
    using inv by (simp add: finv_def pinv_def store_array.fits_def)
  have d: "fdesc_post (length d) bs (store_count (ps_plan ps)) (unat dc) 0 ps1 ?r"
    using inv ps1 by (intro file_descriptors_post [OF f L]) (auto simp: finv_def pinv_def word_le_nat_alt)
  show ?thesis
  proof (cases ?r)
    case None
    then show ?thesis using d by (simp add: fdesc_post_def)
  next
    case r: (Some y)
    show ?thesis
    proof (cases y)
      case (Inl e)
      then show ?thesis using d r hd by (cases e) (simp add: file_store_tail_def fdesc_post_def)
    next
      case y: (Inr z)
      obtain rel ps2 where z: "z = (rel, ps2)" by (cases z)
      have D: "desc_post (ps_cursor ps2) bs (store_count (ps_plan ps)) (unat dc) 0 ps1 ?r" "near ps2"
          "ps_cursor ps1 \<le> ps_cursor ps2" "16 * length (entries (ps_plan ps2)) \<le> length d + 16"
        using d r y z by (simp_all add: fdesc_post_def)
      obtain xs where p2: "ps_plan ps2 = add_entries xs (ps_plan ps)" "length xs = unat dc"
          "\<forall>e \<in> set xs. entry_ok (ps_cursor ps2) bs (length (stores (ps_plan ps))) e" "contiguous 0 xs"
          "ps_store_cap ps2 = ps_store_cap ps" "entry_array.fits (ps_plan ps2) (ps_entry_cap ps2)"
          "16 * length (entries (ps_plan ps2)) \<le> unat (ps_cursor ps2)"
          "same_io (ps_world ps1) (ps_world ps2)"
        using D(1) r y z ps1 k by (auto simp: desc_post_def)
      have few: "length (entries (ps_plan ps2)) < 2 ^ 31" using D(4) L by simp
      have inv2: "pinv (ps_cursor ps2) ps"
        using inv ps1(4) D(3) by (auto simp: finv_def intro: pinv_mono)
      let ?a = "do { (st, plan, cap, w) \<leftarrow> append_store E (ps_plan ps2) (ps_store_cap ps2)
                    (make_store h (ps_cursor ps1) n bs dc (entry_count (ps_plan ps)) rel) (ps_world ps2);
                 let ps = ps2\<lparr>ps_plan := plan, ps_store_cap := cap, ps_world := w\<rparr>;
                 if EFI_ERROR st then Some (Inl (st, ps)) else Some (Inr ps) }"
      have A: "sec_post (ps_world ps2) (\<lambda>ps'. pinv (ps_cursor ps2) ps' \<and> stores (ps_plan ps') \<noteq> []) ?a"
        using add_store_post [OF inv2 few p2(1,5,6,3,4,2) hd(3,2,4) p2(7) order_refl, of E h "ps_cursor ps1" n rel] .
      have "sec_post (ps_world ps2) (\<lambda>ps'. finv (length d) ps' \<and> stores (ps_plan ps') \<noteq> []) ?a"
        by (rule finv_store [OF A _ D(2,4)]) (rule store_append_cursor)
      moreover have "file_store_tail E view (store_count (ps_plan ps)) h sh (Some (Inr (n, ps1))) = ?a"
        using hd r y z by (simp add: file_store_tail_def Let_def ps1)
      ultimately show ?thesis using sec_post_world [OF _ p2(8)] by simp
    qed
  qed
qed

lemma file_store_post:
  assumes f: "file_backed E d" "file_open view" and L: "length d < 2 ^ 34" and inv: "finv (length d) ps"
  shows "sec_post (ps_world ps) (\<lambda>ps'. finv (length d) ps' \<and> stores (ps_plan ps') \<noteq> []) (file_store E view ps)"
proof -
  define c where "c = align_up_u64 (ps_cursor ps) (ucast (chunk_size (ps_plan ps)))"
  have c: "unat (ps_cursor ps) \<le> unat c"
    using align_ge(1) [of "ps_cursor ps" "chunk_size (ps_plan ps)"] inv by (simp add: c_def finv_def near_def)
  show ?thesis
  proof (cases rule: file_read_cases [OF f, of c 248 "ps_world ps"])
    case (1 sh w1)
    let ?ps1 = "ps\<lparr>ps_world := w1, ps_cursor := c + 248\<rparr>"
    have c1: "unat (c + 248) = unat c + 248" using 1(3) L by (simp add: unat_add_le)
    obtain marker where mk: "rd_le16 (drop 4 sh) = Some marker"
      using le16.dec_drop_total [of 4 sh] 1(2) by auto
    define v2 where "v2 = (if marker = 2 then file_store_v2 E view ?ps1 else Some (Inr (0, ?ps1)))"
    have post: "v2_post ?ps1 v2"
      using file_store_v2_post [OF f L, of ?ps1] c1 1(3) L by (simp add: v2_def) (simp add: v2_post_def near_def)
    have eq: "file_store E view ps = file_store_tail E view (store_count (ps_plan ps)) c sh v2"
      unfolding file_store_def file_store_tail_def v2_def ffu_size_defs Let_def
      using 1(1) mk by (simp add: c_def)
    show ?thesis
    proof (cases v2)
      case None
      then show ?thesis using post by (simp add: v2_post_def)
    next
      case (Some r)
      show ?thesis
      proof (cases r)
        case (Inl e)
        then show ?thesis using post Some 1(4) unfolding eq
          by (cases e) (auto simp: file_store_tail_def v2_post_def intro: same_io_trans)
      next
        case (Inr x)
        obtain n p where x: "x = (n, p)" by (cases x)
        have p: "ps_plan p = ps_plan ps" "same_io w1 (ps_world p)" "ps_store_cap p = ps_store_cap ps"
            "ps_entry_cap p = ps_entry_cap ps" "c + 248 \<le> ps_cursor p" "near p"
          using post Some Inr x by (simp_all add: v2_post_def)
        have cp: "ps_cursor ps \<le> ps_cursor p" using p(5) c c1 by (simp add: word_le_nat_alt)
        have "same_io (ps_world ps) (ps_world p)" using 1(4) p(2) by (rule same_io_trans)
        then show ?thesis
          using sec_post_world [OF file_store_tail_post [OF f L inv p(1,3,4) cp p(6) 1(2) [simplified]]] Some Inr x
          unfolding eq by simp
      qed
    qed
  next
    case (2 st b w')
    then show ?thesis by (simp add: file_store_def ffu_size_defs c_def)
  qed
qed

lemma file_stores_post:
  assumes f: "file_backed E d" "file_open view" and L: "length d < 2 ^ 34"
  shows "finv (length d) ps \<Longrightarrow> stores (ps_plan ps) \<noteq> [] \<or> store_count (ps_plan ps) < ps_desired ps
    \<Longrightarrow> sec_post (ps_world ps) (\<lambda>ps'. finv (length d) ps' \<and> stores (ps_plan ps') \<noteq> []) (file_stores E view ps)"
  using f
proof (induction E view ps rule: file_stores.induct)
  case (1 E view ps)
  show ?case
  proof (cases "store_count (ps_plan ps) < ps_desired ps")
    case False
    then show ?thesis using 1(2,3) by (subst file_stores.simps) simp
  next
    case True
    have post: "sec_post (ps_world ps) (\<lambda>ps'. finv (length d) ps' \<and> stores (ps_plan ps') \<noteq> []) (file_store E view ps)"
      using file_store_post [OF 1(4,5) L 1(2)] .
    have eq: "file_stores E view ps = and_then (file_store E view ps) (file_stores E view)"
      using True by (subst file_stores.simps) (simp add: and_then_def)
    show ?thesis unfolding eq
    proof (rule sec_post_and_then)
      show "sec_post (ps_world ps) (\<lambda>ps'. file_store E view ps = Some (Inr ps') \<and> finv (length d) ps' \<and> stores (ps_plan ps') \<noteq> [])
          (file_store E view ps)"
        using post by (auto simp: sec_post_def split: option.splits sum.splits)
    qed (use 1 True in blast)
  qed
qed

section \<open>The parser\<close>

text \<open>The payload starts behind the cursor, so an image that is long enough contains every
  table that the parser has passed.\<close>

lemma place_entries_base: "place_entries n i pc p = Some p' \<Longrightarrow> payload_base p' = payload_base p"
  by (induction n arbitrary: i p) (auto simp: Let_def split: Option.bind_splits)

lemma place_stores_base:
  "place_stores n i pc p = Some p' \<Longrightarrow> payload_base p \<noteq> 0 \<Longrightarrow> payload_base p' = payload_base p"
proof (induction n arbitrary: i pc p)
  case (Suc n)
  then show ?case by (auto simp: Let_def dest!: place_entries_base split: Option.bind_splits if_splits)
qed simp

lemma place_stores_first:
  assumes "place_stores (Suc n) i pc p = Some p'" "payload_base p = 0" "0 < unat pc" "unat pc < 2 ^ 40"
  shows "pc \<le> payload_base p'"
proof -
  obtain st where st: "peek (stores p) i = Some st" using assms(1) by (auto split: Option.bind_splits)
  define b where "b = align_up_u64 pc (ucast (block_size st))"
  have b: "unat pc \<le> unat b" using align_ge(1) [OF assms(4)] by (simp add: b_def)
  then have "b \<noteq> 0" using assms(3) by auto
  then have "payload_base p' = b"
    using assms(1,2) st
    by (auto simp: Let_def b_def dest!: place_entries_base place_stores_base split: Option.bind_splits)
  then show ?thesis using b by (simp add: word_le_nat_alt)
qed

lemma finish_file_post:
  assumes inv: "finv len ps" "stores (ps_plan ps) \<noteq> []" and short: "EFI_ERROR short"
  shows "\<exists>st plan. finish_plan short lim ps = Some (st, plan, ps_world ps)
    \<and> (st = EFI_SUCCESS \<and> plan_wf lim plan \<or> EFI_ERROR st)"
proof -
  have p: "pinv (ps_cursor ps) ps" using inv(1) by (simp add: finv_def)
  obtain plan where pl: "finished (ps_cursor ps) plan"
    "finish_plan short lim ps = Some (if header_size plan = 0 \<or> lim < header_size plan then short else EFI_SUCCESS,
       plan, ps_world ps)"
    using finish_plan_layout [OF p inv(2)] .
  have "ps_cursor ps \<le> header_size plan"
  proof -
    obtain q where q: "place_stores (unat (store_count (ps_plan ps))) 0 (ps_cursor ps) (ps_plan ps) = Some q"
        "payload_base q = header_size plan"
      using pl(2) by (auto simp: finish_plan_def Let_def split: Option.bind_splits if_splits)
    have "0 < length (stores (ps_plan ps))" using inv(2) by simp
    moreover have "length (stores (ps_plan ps)) = unat (store_count (ps_plan ps))"
        "length (stores (ps_plan ps)) \<le> length (entries (ps_plan ps))"
        "16 * length (entries (ps_plan ps)) \<le> unat (ps_cursor ps)" "payload_base (ps_plan ps) = 0"
      using p by (simp_all add: pinv_def store_array.fits_def)
    moreover have "unat (ps_cursor ps) < 2 ^ 40" using inv(1) by (simp add: finv_def near_def)
    ultimately show ?thesis
      using place_stores_first [of "unat (store_count (ps_plan ps)) - 1" 0 "ps_cursor ps" "ps_plan ps" q] q by simp
  qed
  then have "plan_wf lim plan" if "header_size plan \<noteq> 0" "\<not> lim < header_size plan"
    using pl(1) that order_trans [of "ps_cursor ps" "header_size plan" lim]
    by (auto simp: finished_def plan_wf_def not_less intro: layout_mono)
  then show ?thesis using pl(2) short by auto
qed

lemma file_sections_post:
  assumes f: "file_backed E d" "file_open view" and L: "length d < 2 ^ 34"
  shows "sec_post w (\<lambda>ps. finv (length d) ps \<and> stores (ps_plan ps) \<noteq> []) (file_sections E view w)"
proof -
  let ?s = "start_pstate (view_size view) w"
  let ?F = "\<lambda>ps. fresh ps \<and> near ps"
  have w: "ps_world ?s = w" by (simp add: start_pstate_def)
  have a: "sec_post w ?F (file_security E view ?s)"
    using file_security_post [OF f fresh_start, of "view_size view" w] w by simp
  have b: "sec_post w ?F (and_then (file_security E view ?s) (file_image E view))"
    by (rule sec_post_and_then [OF a]) (use file_image_post [OF f L] in blast)
  have c: "sec_post w ?F (and_then (and_then (file_security E view ?s) (file_image E view))
       (\<lambda>ps. file_validation E view (unat (validation_descriptor_count (ps_plan ps))) ps))"
    by (rule sec_post_and_then [OF b]) (use file_validation_post [OF f L] in blast)
  show ?thesis unfolding file_sections_def
  proof (rule sec_post_and_then [OF c])
    fix ps assume "fresh ps \<and> near ps"
    then show "sec_post (ps_world ps) (\<lambda>ps. finv (length d) ps \<and> stores (ps_plan ps) \<noteq> []) (file_stores E view ps)"
      using file_stores_post [OF f L finv_fresh] by (simp add: fresh_def)
  qed
qed

lemma parse_file_post:
  assumes f: "file_backed E d" "file_open view" and L: "length d < 2 ^ 34"
  shows "\<exists>st plan w'. ffu_parse E view w = Some (st, plan, w')
    \<and> same_io w w' \<and> (st = EFI_SUCCESS \<and> plan_wf (view_size view) plan \<or> EFI_ERROR st)"
proof -
  have p: "sec_post w (\<lambda>ps. finv (length d) ps \<and> stores (ps_plan ps) \<noteq> []) (file_sections E view w)"
    using file_sections_post [OF assms] .
  show ?thesis
  proof (cases "file_sections E view w")
    case None
    then show ?thesis using p by simp
  next
    case (Some r)
    show ?thesis
    proof (cases r)
      case (Inl e)
      then show ?thesis using p Some by (cases e) (auto simp: ffu_parse_def)
    next
      case (Inr ps)
      then have ps: "finv (length d) ps" "stores (ps_plan ps) \<noteq> []" "same_io w (ps_world ps)"
        using p Some by auto
      show ?thesis
        using finish_file_post [OF ps(1,2), of EFI_VOLUME_CORRUPTED "view_size view"] ps(3) Some Inr
        by (auto simp: ffu_parse_def)
    qed
  qed
qed

end
