(* ===== verification/Parse_Agree.thy ===== *)
theory Parse_Agree
  imports Ffu_Wf
begin

text \<open>
  The two parsers of \<open>src/ffu.c\<close> agree: a header that \<open>ffu_parse_header_bytes\<close> accepts in
  memory is accepted by \<open>ffu_parse\<close> in a file that starts with the same bytes, with the same
  plan. The proof is a simulation, section by section: whatever the header parser does with
  success, the file parser does from the corresponding state (\<open>as_file\<close>), which differs in
  the recorded file size and in the world only.
\<close>

section \<open>Corresponding inputs and states\<close>

definition same_image :: "env \<Rightarrow> UEFI_FILE_VIEW \<Rightarrow> bytes \<Rightarrow> bytes \<Rightarrow> u64 \<Rightarrow> bool" where
  "same_image E view d data sz \<longleftrightarrow> file_backed E d \<and> file_open view \<and> unat (view_size view) = length d
     \<and> unat sz \<le> length data \<and> unat sz \<le> length d \<and> take (unat sz) data = take (unat sz) d"

definition as_file :: "u64 \<Rightarrow> world \<Rightarrow> pstate \<Rightarrow> pstate" where
  "as_file vs w ps = ps\<lparr>ps_plan := (ps_plan ps)\<lparr>file_size := vs\<rparr>, ps_world := w\<rparr>"

lemma as_file_simps [simp]:
  "ps_plan (as_file vs w ps) = (ps_plan ps)\<lparr>file_size := vs\<rparr>"
  "ps_store_cap (as_file vs w ps) = ps_store_cap ps" "ps_entry_cap (as_file vs w ps) = ps_entry_cap ps"
  "ps_cursor (as_file vs w ps) = ps_cursor ps" "ps_desired (as_file vs w ps) = ps_desired ps"
  "ps_world (as_file vs w ps) = w" "(as_file vs w ps)\<lparr>ps_world := w'\<rparr> = as_file vs w' ps"
  "(as_file vs w ps)\<lparr>ps_cursor := c\<rparr> = as_file vs w (ps\<lparr>ps_cursor := c\<rparr>)"
  "(as_file vs w ps)\<lparr>ps_desired := n\<rparr> = as_file vs w (ps\<lparr>ps_desired := n\<rparr>)"
  by (simp_all add: as_file_def)

lemma same_read:
  assumes "same_image E view d data sz" "mem_read_exact (Some data) sz off n = Some (st, b)" "\<not> EFI_ERROR st"
  shows "st = EFI_SUCCESS" "\<exists>w'. file_read_exact E view off n w = (EFI_SUCCESS, b, w')"
proof -
  have l: "unat sz \<le> length data" "unat sz \<le> length d" and t: "take (unat sz) data = take (unat sz) d"
    and f: "file_backed E d" "file_open view"
    using assms(1) by (simp_all add: same_image_def)
  have r: "unat off + unat n \<le> unat sz" "st = EFI_SUCCESS" "b = take (unat n) (drop (unat off) data)"
    using assms(2,3) unfolding mem_read_exact_in [OF l(1)] by (auto split: if_splits)
  have cut: "take (unat n) (drop (unat off) x) = take (unat n) (drop (unat off) (take (unat sz) x))" for x :: bytes
    using r(1) by (simp add: drop_take min_absorb1)
  have "b = take (unat n) (drop (unat off) d)" unfolding r(3) by (subst cut, subst t, rule cut [symmetric])
  then show "\<exists>w'. file_read_exact E view off n w = (EFI_SUCCESS, b, w')"
    using file_backed_read [OF f, of off n w] r(1) l(2) by simp
  show "st = EFI_SUCCESS" by (rule r(2))
qed

lemma memory_alloc:
  assumes "memory_ok E"
  shows "\<exists>b w'. uefi_alloc E n w = (Some b, w')"
  using assms by (simp add: memory_ok_def uefi_alloc_def Let_def)

lemma push_as_file [simp]:
  "push_entry e (p\<lparr>file_size := vs\<rparr>) = (push_entry e p)\<lparr>file_size := vs\<rparr>"
  "push_store s (p\<lparr>file_size := vs\<rparr>) = (push_store s p)\<lparr>file_size := vs\<rparr>"
  by (simp_all add: push_entry_def push_store_def)

lemma append_entry_as_file:
  assumes "memory_ok E" "append_entry E0 p cap e w0 = Some (st, p', cap', w0')" "\<not> EFI_ERROR st"
  shows "\<exists>w'. append_entry E (p\<lparr>file_size := vs\<rparr>) cap e w = Some (EFI_SUCCESS, p'\<lparr>file_size := vs\<rparr>, cap', w')"
proof -
  obtain b v where "uefi_alloc E (ucast (if cap \<noteq> 0 then cap * 2 else 64) * 32) w = (Some b, v)"
    using memory_alloc [OF assms(1)] by blast
  then show ?thesis
    using assms(2,3) by (auto simp: append_entry_def Let_def split: if_splits prod.splits option.splits)
qed

lemma append_store_as_file:
  assumes "memory_ok E" "append_store E0 p cap e w0 = Some (st, p', cap', w0')" "\<not> EFI_ERROR st"
  shows "\<exists>w'. append_store E (p\<lparr>file_size := vs\<rparr>) cap e w = Some (EFI_SUCCESS, p'\<lparr>file_size := vs\<rparr>, cap', w')"
proof -
  obtain b v where "uefi_alloc E (ucast (if cap \<noteq> 0 then cap * 2 else 2) * 48) w = (Some b, v)"
    using memory_alloc [OF assms(1)] by blast
  then show ?thesis
    using assms(2,3) by (auto simp: append_store_def Let_def split: if_splits prod.splits option.splits)
qed

section \<open>Headers that have been read\<close>

lemma check_security_as_file:
  "check_security sec ps = Some (Inr ps1) \<Longrightarrow> check_security sec (as_file vs w ps) = Some (Inr (as_file vs w ps1))"
  by (auto simp: check_security_def as_file_def Let_def split: section_splits)

lemma check_image_sig_as_file:
  "check_image_sig img ps = Some (Inr ps1) \<Longrightarrow> check_image_sig img (as_file vs w ps) = Some (Inr (as_file vs w ps1))"
  by (auto simp: check_image_sig_def as_file_def Let_def split: section_splits)

lemma check_image_body_as_file:
  "check_image_body img ps = Some (Inr ps1) \<Longrightarrow> check_image_body img (as_file vs w ps) = Some (Inr (as_file vs w ps1))"
  by (auto simp: check_image_body_def as_file_def Let_def split: section_splits)

section \<open>What a success consists of\<close>

lemma hdr_descriptors_success:
  assumes "hdr_descriptors E data sz bs i (Suc n) rel ps = Some (Inr (rel1, ps1))"
  obtains st wh locs blocks st' pl cap v where
    "mem_read_exact (Some data) sz (ps_cursor ps) 8 = Some (st, wh)" "\<not> EFI_ERROR st"
    "rd_le32 wh = Some locs" "rd_le32 (drop 4 wh) = Some blocks" "locs \<noteq> 0" "blocks \<noteq> 0"
    "\<not> sz < ps_cursor ps + 8 + ucast locs * 8" "\<not> 0xffffffff < (ucast bs * ucast blocks :: u64)"
    "append_entry E (ps_plan ps) (ps_entry_cap ps) (make_entry rel (ps_cursor ps) (ucast bs * ucast blocks) blocks locs i)
       (ps_world ps) = Some (st', pl, cap, v)" "\<not> EFI_ERROR st'"
    "hdr_descriptors E data sz bs i n (rel + ucast bs * ucast blocks) (ps\<lparr>ps_plan := pl, ps_entry_cap := cap, ps_world := v,
      ps_cursor := ps_cursor ps + (8 + ucast locs * 8)\<rparr>) = Some (Inr (rel1, ps1))"
  using assms by (auto simp: Let_def split: section_splits)

definition store_cursor :: "pstate \<Rightarrow> u64" where
  "store_cursor ps = align_up_u64 (ps_cursor ps) (ucast (chunk_size (ps_plan ps)))"

definition after_store_header :: "pstate \<Rightarrow> pstate" where
  "after_store_header ps = ps\<lparr>ps_cursor := store_cursor ps + FFU_STORE_HEADER_V1_SIZE\<rparr>"

lemma hdr_store_success:
  assumes h: "hdr_store E data sz ps = Some (Inr ps1)"
  obtains st0 sh marker psize p2 bs dc rel p3 st pl cap v where
    "mem_read_exact (Some data) sz (store_cursor ps) FFU_STORE_HEADER_V1_SIZE = Some (st0, sh)" "\<not> EFI_ERROR st0"
    "rd_le16 (drop 4 sh) = Some marker"
    "(if marker = 2 then hdr_store_v2 data sz (after_store_header ps) else Some (Inr (0, after_store_header ps)))
      = Some (Inr (psize, p2))"
    "check_store_header sh = Some (Inr (bs, dc))"
    "hdr_descriptors E data sz bs (store_count (ps_plan ps)) (unat dc) 0 p2 = Some (Inr (rel, p3))"
    "append_store E (ps_plan p3) (ps_store_cap p3) (make_store (store_cursor ps) (ps_cursor p2) psize bs dc
       (entry_count (ps_plan p2)) rel) (ps_world p3) = Some (st, pl, cap, v)" "\<not> EFI_ERROR st"
    "ps1 = p3\<lparr>ps_plan := pl, ps_store_cap := cap, ps_world := v\<rparr>"
proof -
  obtain st0 sh marker where sh: "mem_read_exact (Some data) sz (store_cursor ps) FFU_STORE_HEADER_V1_SIZE = Some (st0, sh)"
      "\<not> EFI_ERROR st0" and mk: "rd_le16 (drop 4 sh) = Some marker"
    using h by (auto simp: hdr_store_def Let_def store_cursor_def split: section_splits)
  obtain psize p2 bs dc rel p3 where v2: "(if marker = 2 then hdr_store_v2 data sz (after_store_header ps)
        else Some (Inr (0, after_store_header ps))) = Some (Inr (psize, p2))"
    and ch: "check_store_header sh = Some (Inr (bs, dc))"
    and ds: "hdr_descriptors E data sz bs (store_count (ps_plan ps)) (unat dc) 0 p2 = Some (Inr (rel, p3))"
    using h sh mk by (auto simp: hdr_store_def Let_def store_cursor_def [symmetric] after_store_header_def split: section_splits)
  obtain st pl cap v where "append_store E (ps_plan p3) (ps_store_cap p3) (make_store (store_cursor ps) (ps_cursor p2) psize bs dc
       (entry_count (ps_plan p2)) rel) (ps_world p3) = Some (st, pl, cap, v)"
      "\<not> EFI_ERROR st" "ps1 = p3\<lparr>ps_plan := pl, ps_store_cap := cap, ps_world := v\<rparr>"
    using h sh mk v2 ch ds
    by (auto simp: hdr_store_def Let_def store_cursor_def [symmetric] after_store_header_def split: section_splits)
  then show thesis using that sh mk v2 ch ds by blast
qed

lemma hdr_parse_success:
  assumes h: "ffu_parse_header_bytes E (Some data) sz pl0 w = Some (EFI_SUCCESS, pl, w')"
    and sz: "unat sz \<le> length data" "unat sz < 2 ^ 35"
  obtains p1 p2 p3 ps where "hdr_security data sz (start_pstate sz w) = Some (Inr p1)"
    "hdr_image data sz p1 = Some (Inr p2)"
    "hdr_validation data sz (unat (validation_descriptor_count (ps_plan p2))) p2 = Some (Inr p3)"
    "hdr_stores E data sz p3 = Some (Inr ps)" "finish_plan EFI_END_OF_FILE sz ps = Some (EFI_SUCCESS, pl, w')"
proof -
  obtain r where sec: "hdr_sections E data sz w = Some r" and
    r: "(case r of Inl (st, ps) \<Rightarrow> Some (st, ps_plan ps, ps_world ps) | Inr ps \<Rightarrow> finish_plan EFI_END_OF_FILE sz ps)
      = Some (EFI_SUCCESS, pl, w')"
    using h by (auto simp: ffu_parse_header_bytes_def split: Option.bind_splits)
  show thesis
  proof (cases r)
    case (Inl e)
    then show ?thesis using r sec hdr_sections_post [OF sz, of w E] by (auto split: prod.splits)
  next
    case (Inr ps)
    then show ?thesis using that [of _ _ _ ps] sec r
      by (auto simp: hdr_sections_def and_then_def split: option.splits sum.splits)
  qed
qed

section \<open>The sections\<close>

lemma security_agree:
  assumes "same_image E view d data sz" "hdr_security data sz ps = Some (Inr ps1)"
  shows "\<exists>w'. file_security E view (as_file vs w ps) = Some (Inr (as_file vs w' ps1))"
proof -
  obtain sec where sec: "mem_read_exact (Some data) sz 0 FFU_SECURITY_HEADER_SIZE = Some (EFI_SUCCESS, sec)"
    and c: "check_security sec ps = Some (Inr ps1)" and s: "\<not> sz < FFU_SECURITY_HEADER_SIZE"
    using assms(2) same_read(1) [OF assms(1)] by (auto simp: hdr_security_def split: section_splits)
  obtain w' where "file_read_exact E view 0 FFU_SECURITY_HEADER_SIZE w = (EFI_SUCCESS, sec, w')"
    using same_read(2) [OF assms(1) sec] by auto
  moreover have "\<not> view_size view < FFU_SECURITY_HEADER_SIZE"
    using s assms(1) by (auto simp: same_image_def word_less_nat_alt)
  ultimately show ?thesis
    using check_security_as_file [OF c] by (auto simp: file_security_def)
qed

lemma image_agree:
  assumes im: "same_image E view d data sz" and h: "hdr_image data sz ps = Some (Inr ps1)"
  shows "\<exists>w'. file_image E view (as_file vs w ps) = Some (Inr (as_file vs w' ps1))"
proof -
  obtain img ps' st tail where img: "mem_read_exact (Some data) sz (ps_cursor ps) FFU_IMAGE_HEADER_V1_SIZE = Some (EFI_SUCCESS, img)"
    and sig: "check_image_sig img ps = Some (Inr ps')"
    and tl: "(if image_header_size (ps_plan ps') = 28
                 then mem_read_exact (Some data) sz (ps_cursor ps' + FFU_IMAGE_HEADER_V1_SIZE) 4
                 else Some (EFI_SUCCESS, [])) = Some (st, tail)" "\<not> EFI_ERROR st"
    and bd: "check_image_body (img @ tail) ps' = Some (Inr ps1)"
    using h same_read(1) [OF im] by (auto simp: hdr_image_def split: section_splits)
  obtain w1 where r1: "file_read_exact E view (ps_cursor ps) FFU_IMAGE_HEADER_V1_SIZE w = (EFI_SUCCESS, img, w1)"
    using same_read(2) [OF im img] by auto
  have "\<exists>w2. (if image_header_size (ps_plan ps') = 28
                     then file_read_exact E view (ps_cursor ps' + FFU_IMAGE_HEADER_V1_SIZE) 4 w1
                     else (EFI_SUCCESS, [], w1)) = (EFI_SUCCESS, tail, w2)"
    using tl same_read [OF im] by (auto split: if_splits)
  then obtain w2 where r2: "(if image_header_size (ps_plan ps') = 28
                     then file_read_exact E view (ps_cursor ps' + FFU_IMAGE_HEADER_V1_SIZE) 4 w1
                     else (EFI_SUCCESS, [], w1)) = (EFI_SUCCESS, tail, w2)" by blast
  have "file_image E view (as_file vs w ps) = Some (Inr (as_file vs w2 ps1))"
    using r1 r2 check_image_sig_as_file [OF sig] check_image_body_as_file [OF bd]
    by (cases "image_header_size (ps_plan ps') = 28") (auto simp: file_image_def)
  then show ?thesis by blast
qed

lemma validation_agree:
  assumes im: "same_image E view d data sz" and "hdr_validation data sz n ps = Some (Inr ps1)"
  shows "\<exists>w'. file_validation E view n (as_file vs w ps) = Some (Inr (as_file vs w' ps1))"
  using assms(2)
proof (induction n arbitrary: ps w)
  case 0
  then show ?case by auto
next
  case (Suc n)
  let ?next = "\<lambda>skip. ps\<lparr>ps_cursor := ps_cursor ps + (28 + skip)\<rparr>"
  obtain vd skip where vd: "mem_read_exact (Some data) sz (ps_cursor ps) 28 = Some (EFI_SUCCESS, vd)"
    and sk: "vd_skip vd 7 0 = Some skip" and rest: "hdr_validation data sz n (?next skip) = Some (Inr ps1)"
    using Suc.prems same_read(1) [OF im] by (auto simp: Let_def split: section_splits)
  obtain w1 where "file_read_exact E view (ps_cursor ps) 28 w = (EFI_SUCCESS, vd, w1)"
    using same_read(2) [OF im vd] by auto
  then show ?case using Suc.IH [OF rest] sk by simp
qed

lemma store_v2_agree:
  assumes im: "same_image E view d data sz" and "hdr_store_v2 data sz ps = Some (Inr (n, ps1))"
  shows "\<exists>w'. file_store_v2 E view (as_file vs w ps) = Some (Inr (n, as_file vs w' ps1))"
proof -
  obtain tail where t: "mem_read_exact (Some data) sz (ps_cursor ps)
      (FFU_STORE_HEADER_V2_BASE_SIZE - FFU_STORE_HEADER_V1_SIZE) = Some (EFI_SUCCESS, tail)"
    using assms(2) same_read(1) [OF im] by (auto simp: hdr_store_v2_def Let_def split: section_splits)
  obtain w1 where "file_read_exact E view (ps_cursor ps)
      (FFU_STORE_HEADER_V2_BASE_SIZE - FFU_STORE_HEADER_V1_SIZE) w = (EFI_SUCCESS, tail, w1)"
    using same_read(2) [OF im t] by auto
  then show ?thesis
    using assms(2) t by (auto simp: hdr_store_v2_def file_store_v2_def Let_def split: section_splits)
qed

lemma descriptors_agree:
  assumes im: "same_image E view d data sz" and mem: "memory_ok E"
    and "hdr_descriptors E0 data sz bs i n rel ps = Some (Inr (rel1, ps1))"
  shows "\<exists>w'. file_descriptors E view bs i n rel (as_file vs w ps) = Some (Inr (rel1, as_file vs w' ps1))"
  using assms(3)
proof (induction n arbitrary: ps rel w)
  case 0
  then show ?case by auto
next
  case (Suc n)
  obtain st wh locs blocks st' pl cap v where
    wh: "mem_read_exact (Some data) sz (ps_cursor ps) 8 = Some (st, wh)" "\<not> EFI_ERROR st"
    and f: "rd_le32 wh = Some locs" "rd_le32 (drop 4 wh) = Some blocks" "locs \<noteq> 0" "blocks \<noteq> 0"
      "\<not> 0xffffffff < (ucast bs * ucast blocks :: u64)"
    and app: "append_entry E0 (ps_plan ps) (ps_entry_cap ps) (make_entry rel (ps_cursor ps) (ucast bs * ucast blocks) blocks locs i)
       (ps_world ps) = Some (st', pl, cap, v)" "\<not> EFI_ERROR st'"
    and rest: "hdr_descriptors E0 data sz bs i n (rel + ucast bs * ucast blocks) (ps\<lparr>ps_plan := pl, ps_entry_cap := cap, ps_world := v,
      ps_cursor := ps_cursor ps + (8 + ucast locs * 8)\<rparr>) = Some (Inr (rel1, ps1))"
    using Suc.prems by (rule hdr_descriptors_success)
  let ?bytes = "ucast bs * ucast blocks :: u64"
  let ?e = "make_entry rel (ps_cursor ps) ?bytes blocks locs i"
  let ?next = "\<lambda>pl cap v. ps\<lparr>ps_plan := pl, ps_entry_cap := cap, ps_world := v,
      ps_cursor := ps_cursor ps + (8 + ucast locs * 8)\<rparr>"
  obtain w1 where r: "file_read_exact E view (ps_cursor ps) 8 w = (EFI_SUCCESS, wh, w1)"
    using same_read(2) [OF im wh(1,2)] by auto
  obtain w2 where a: "append_entry E ((ps_plan ps)\<lparr>file_size := vs\<rparr>) (ps_entry_cap ps) ?e w1
      = Some (EFI_SUCCESS, pl\<lparr>file_size := vs\<rparr>, cap, w2)"
    using append_entry_as_file [OF mem app] by blast
  have fin: "(as_file vs w1 ps)\<lparr>ps_plan := pl\<lparr>file_size := vs\<rparr>, ps_entry_cap := cap, ps_world := w2,
      ps_cursor := ps_cursor ps + (8 + ucast locs * 8)\<rparr> = as_file vs w2 (?next pl cap v)"
    by (simp add: as_file_def)
  then show ?case using Suc.IH [OF rest, of w2] r a f by (simp add: Let_def fin)
qed

lemma store_agree:
  assumes im: "same_image E view d data sz" and mem: "memory_ok E" and h: "hdr_store E0 data sz ps = Some (Inr ps1)"
  shows "\<exists>w'. file_store E view (as_file vs w ps) = Some (Inr (as_file vs w' ps1))"
proof -
  obtain st0 sh marker psize p2 bs dc rel p3 st pl cap v where
    sh: "mem_read_exact (Some data) sz (store_cursor ps) FFU_STORE_HEADER_V1_SIZE = Some (st0, sh)" "\<not> EFI_ERROR st0"
    and mk: "rd_le16 (drop 4 sh) = Some marker"
    and v2: "(if marker = 2 then hdr_store_v2 data sz (after_store_header ps) else Some (Inr (0, after_store_header ps)))
      = Some (Inr (psize, p2))"
    and ch: "check_store_header sh = Some (Inr (bs, dc))"
    and ds: "hdr_descriptors E0 data sz bs (store_count (ps_plan ps)) (unat dc) 0 p2 = Some (Inr (rel, p3))"
    and app: "append_store E0 (ps_plan p3) (ps_store_cap p3) (make_store (store_cursor ps) (ps_cursor p2) psize bs dc
       (entry_count (ps_plan p2)) rel) (ps_world p3) = Some (st, pl, cap, v)" "\<not> EFI_ERROR st"
    and p: "ps1 = p3\<lparr>ps_plan := pl, ps_store_cap := cap, ps_world := v\<rparr>"
    using h by (rule hdr_store_success)
  let ?c = "store_cursor ps" and ?p1 = "after_store_header ps"
  let ?st = "make_store ?c (ps_cursor p2) psize bs dc (entry_count (ps_plan p2)) rel"
  obtain w1 where r: "file_read_exact E view ?c FFU_STORE_HEADER_V1_SIZE w = (EFI_SUCCESS, sh, w1)"
    using same_read(2) [OF im sh] by auto
  obtain w2 where r2: "(if marker = 2 then file_store_v2 E view (as_file vs w1 ?p1) else Some (Inr (0, as_file vs w1 ?p1)))
      = Some (Inr (psize, as_file vs w2 p2))"
    using v2 store_v2_agree [OF im, of ?p1 psize p2 vs w1] by (cases "marker = 2") auto
  obtain w3 where r3: "file_descriptors E view bs (store_count (ps_plan ps)) (unat dc) 0 (as_file vs w2 p2)
      = Some (Inr (rel, as_file vs w3 p3))"
    using descriptors_agree [OF im mem ds] by blast
  obtain w4 where r4: "append_store E ((ps_plan p3)\<lparr>file_size := vs\<rparr>) (ps_store_cap p3) ?st w3
      = Some (EFI_SUCCESS, pl\<lparr>file_size := vs\<rparr>, cap, w4)"
    using append_store_as_file [OF mem app] by blast
  have fin: "(as_file vs w3 p3)\<lparr>ps_plan := pl\<lparr>file_size := vs\<rparr>, ps_store_cap := cap, ps_world := w4\<rparr> = as_file vs w4 ps1"
    by (simp add: as_file_def p)
  have "file_store E view (as_file vs w ps) = Some (Inr (as_file vs w4 ps1))"
    using mk ch by (simp add: file_store_def Let_def store_cursor_def [symmetric] r after_store_header_def [symmetric] r2 r3 r4 fin)
  then show ?thesis by blast
qed

lemma stores_agree:
  assumes mem: "memory_ok E"
  shows "same_image E view d data sz \<Longrightarrow> hdr_stores E0 data sz ps = Some (Inr ps1)
    \<Longrightarrow> \<exists>w'. file_stores E view (as_file vs w ps) = Some (Inr (as_file vs w' ps1))"
proof (induction E0 data sz ps arbitrary: w rule: hdr_stores.induct)
  case (1 E0 data sz ps)
  show ?case
  proof (cases "store_count (ps_plan ps) < ps_desired ps")
    case True
    then obtain p2 where p2: "hdr_store E0 data sz ps = Some (Inr p2)" and rest: "hdr_stores E0 data sz p2 = Some (Inr ps1)"
      using 1(3) by (subst (asm) hdr_stores.simps) (auto split: option.splits sum.splits)
    obtain w1 where "file_store E view (as_file vs w ps) = Some (Inr (as_file vs w1 p2))"
      using store_agree [OF 1(2) mem p2] by blast
    then show ?thesis
      using 1(1) [OF True p2 refl 1(2) rest, of w1] True by (subst file_stores.simps) simp
  qed (use 1(3) in \<open>auto simp: hdr_stores.simps file_stores.simps\<close>)
qed

section \<open>The parsers\<close>

lemma file_size_outside:
  "p\<lparr>file_size := vs, entries := es, total_payload_bytes := t\<rparr>
    = (p\<lparr>entries := es, total_payload_bytes := t\<rparr>)\<lparr>file_size := vs\<rparr>"
  "p\<lparr>file_size := vs, stores := ss\<rparr> = (p\<lparr>stores := ss\<rparr>)\<lparr>file_size := vs\<rparr>"
  "p\<lparr>file_size := vs, payload_base := b\<rparr> = (p\<lparr>payload_base := b\<rparr>)\<lparr>file_size := vs\<rparr>"
  "p\<lparr>file_size := vs, header_size := b\<rparr> = (p\<lparr>header_size := b\<rparr>)\<lparr>file_size := vs\<rparr>"
  by (cases p; simp)+

lemma place_entries_file_size:
  "place_entries n i pc p = Some p' \<Longrightarrow> place_entries n i pc (p\<lparr>file_size := vs\<rparr>) = Some (p'\<lparr>file_size := vs\<rparr>)"
  by (induction n arbitrary: i p) (auto simp: Let_def file_size_outside split: Option.bind_splits)

lemma place_stores_file_size:
  "place_stores n i pc p = Some p' \<Longrightarrow> place_stores n i pc (p\<lparr>file_size := vs\<rparr>) = Some (p'\<lparr>file_size := vs\<rparr>)"
proof (induction n arbitrary: i pc p)
  case (Suc n)
  obtain st where st: "peek (stores p) i = Some st" using Suc.prems by (auto split: Option.bind_splits)
  define c where "c = align_up_u64 pc (ucast (block_size st))"
  define q where "q = (if payload_base p = 0 then p\<lparr>stores := (stores p)[i := st\<lparr>store_payload_base := c\<rparr>], payload_base := c\<rparr>
    else p\<lparr>stores := (stores p)[i := st\<lparr>store_payload_base := c\<rparr>]\<rparr>)"
  have q: "(if payload_base p = 0 then p\<lparr>file_size := vs, stores := (stores p)[i := st\<lparr>store_payload_base := c\<rparr>], payload_base := c\<rparr>
    else p\<lparr>file_size := vs, stores := (stores p)[i := st\<lparr>store_payload_base := c\<rparr>]\<rparr>) = q\<lparr>file_size := vs\<rparr>"
    by (simp add: q_def file_size_outside)
  obtain p1 where p1: "place_entries (unat (store_entry_count st)) (entry_start st) c q = Some p1"
    and rest: "place_stores n (Suc i) (c + payload_size st) p1 = Some p'"
    using Suc.prems st unfolding q_def c_def by (auto simp: Let_def split: Option.bind_splits)
  show ?case
    using st q place_entries_file_size [OF p1, of vs] Suc.IH [OF rest]
    by (cases "payload_base p = 0") (simp_all add: Let_def c_def [symmetric])
qed simp

lemma finish_agree:
  assumes "finish_plan short sz ps = Some (EFI_SUCCESS, pl, w')" "EFI_ERROR short" "sz \<le> vs"
  shows "finish_plan short' vs (as_file vs w ps) = Some (EFI_SUCCESS, pl\<lparr>file_size := vs\<rparr>, w)"
proof -
  obtain q where q: "place_stores (unat (store_count (ps_plan ps))) 0 (ps_cursor ps) (ps_plan ps) = Some q"
    and r: "\<not> (payload_base q = 0 \<or> sz < payload_base q)" "pl = q\<lparr>header_size := payload_base q\<rparr>"
    using assms(1,2) by (auto simp: finish_plan_def Let_def split: Option.bind_splits if_splits)
  then show ?thesis
    using place_stores_file_size [OF q, of vs] assms(3) by (auto simp: finish_plan_def Let_def file_size_outside)
qed

lemma parse_simulation:
  assumes im: "same_image E view d data sz" and mem: "memory_ok E" and sz: "unat sz < 2 ^ 35"
    and h: "ffu_parse_header_bytes E0 (Some data) sz pl0 w0 = Some (EFI_SUCCESS, pl, w0')"
  shows "\<exists>w'. ffu_parse E view w = Some (EFI_SUCCESS, pl\<lparr>file_size := view_size view\<rparr>, w')"
proof -
  let ?vs = "view_size view"
  have "sz \<le> ?vs" using im by (simp add: same_image_def word_le_nat_alt)
  obtain p1 p2 p3 ps where s: "hdr_security data sz (start_pstate sz w0) = Some (Inr p1)"
    "hdr_image data sz p1 = Some (Inr p2)"
    "hdr_validation data sz (unat (validation_descriptor_count (ps_plan p2))) p2 = Some (Inr p3)"
    "hdr_stores E0 data sz p3 = Some (Inr ps)" "finish_plan EFI_END_OF_FILE sz ps = Some (EFI_SUCCESS, pl, w0')"
    using h by (rule hdr_parse_success) (use im sz in \<open>simp_all add: same_image_def\<close>)
  have st: "start_pstate ?vs w = as_file ?vs w (start_pstate sz w0)"
    by (simp add: start_pstate_def as_file_def)
  obtain w1 where "file_security E view (start_pstate ?vs w) = Some (Inr (as_file ?vs w1 p1))"
    using security_agree [OF im s(1)] unfolding st by blast
  moreover obtain w2 where "file_image E view (as_file ?vs w1 p1) = Some (Inr (as_file ?vs w2 p2))"
    using image_agree [OF im s(2)] by blast
  moreover obtain w3 where "file_validation E view (unat (validation_descriptor_count (ps_plan p2))) (as_file ?vs w2 p2)
      = Some (Inr (as_file ?vs w3 p3))"
    using validation_agree [OF im s(3)] by blast
  moreover obtain w4 where "file_stores E view (as_file ?vs w3 p3) = Some (Inr (as_file ?vs w4 ps))"
    using stores_agree [OF mem im s(4)] by blast
  ultimately have "file_sections E view w = Some (Inr (as_file ?vs w4 ps))"
    by (simp add: file_sections_def and_then_def)
  then show ?thesis
    using finish_agree [OF s(5) _ \<open>sz \<le> ?vs\<close>] by (auto simp: ffu_parse_def)
qed

end
