(* ===== verification/App_Spec.thy ===== *)
theory App_Spec
  imports App Secure_Spec Ffu_File_Wf Parse_Agree
begin

text \<open>
  The entry point as a whole: every mode of \<open>EfiMain\<close> returns (the USB mode may wait for a
  message), and what the file mode does to the disk follows from the image alone.
\<close>

section \<open>Options\<close>

text \<open>A path that the options hold is as long as they say.\<close>

definition path_ok :: "OPTIONS \<Rightarrow> bool" where
  "path_ok o' \<longleftrightarrow> (\<forall>p. path o' = Some p \<longrightarrow> unat (path_len o') \<le> length p \<and> unat (path_len o') < 2 ^ 32)"

lemma path_ok_update [simp]:
  "path_ok (o'\<lparr>show_help := a\<rparr>) = path_ok o'" "path_ok (o'\<lparr>list_block := a\<rparr>) = path_ok o'"
  "path_ok (o'\<lparr>packets := a\<rparr>) = path_ok o'" "path_ok (o'\<lparr>flash_option := a\<rparr>) = path_ok o'"
  "path_ok (o'\<lparr>usb_ffu := a\<rparr>) = path_ok o'" "path_ok (o'\<lparr>yes := a\<rparr>) = path_ok o'"
  "path_ok (o'\<lparr>target := t\<rparr>) = path_ok o'" "path_ok default_options"
  by (simp_all add: path_ok_def default_options_def)

lemma plain_token_path:
  assumes "plain_token t len o' = Some (Inr o'')" "unat len \<le> length t" "unat len < 2 ^ 32" "path_ok o'"
  shows "path_ok o''"
  using assms by (auto simp: plain_token_def path_ok_def split: Option.bind_splits option.splits if_splits)

lemma option_token_path:
  assumes "option_token t len o' = Some (Inr (o'', e))" "unat len \<le> length t" "unat len < 2 ^ 32" "path_ok o'"
  shows "path_ok o''"
  using assms plain_token_path [of t len o']
  by (auto simp: option_token_def split: Option.bind_splits if_splits sum.splits)

lemma parse_token_path:
  assumes "parse_token t len s = Some (Inr s')" "unat len \<le> length t" "unat len < 2 ^ 32" "path_ok (opts s)"
  shows "path_ok (opts s')"
  using assms option_token_path [of t len "opts s"]
  by (auto simp: parse_token_def Let_def split: Option.bind_splits if_splits sum.splits option.splits)

lemma parse_round_path:
  assumes r: "parse_round cmd len s = Some (Inr s')" and l: "len \<le> length cmd" "len < 2 ^ 32" and s: "path_ok (opts s)"
  shows "path_ok (opts s')"
proof -
  obtain st en q where t: "next_token cmd len (pos s) = Some (Some (st, en, q))"
    using r by (cases "next_token cmd len (pos s)") (auto simp: parse_round_def split: option.splits)
  note m = next_token_mono [OF t]
  show ?thesis
  proof (cases "st = en")
    case True
    then show ?thesis using r t s by (auto simp: parse_round_def)
  next
    case False
    have k: "unat (of_nat (en - st) :: u64) = en - st"
      using m l by (simp add: unsigned_of_nat take_bit_nat_eq_self del: of_nat_diff)
    have "parse_token (drop st cmd) (of_nat (en - st)) (s\<lparr>pos := q\<rparr>) = Some (Inr s')"
      using r t False by (auto simp: parse_round_def simp del: of_nat_diff split: Option.bind_splits sum.splits)
    then show ?thesis
      by (rule parse_token_path) (use k m l s in \<open>simp_all del: of_nat_diff\<close>)
  qed
qed

lemma parse_round_stop: "parse_round cmd len s = Some (Inl (Inr s')) \<Longrightarrow> s' = s"
  by (auto simp: parse_round_def split: Option.bind_splits option.splits if_splits sum.splits)

lemma parse_loop_path:
  "parse_loop cmd len s = Some (Inr s') \<Longrightarrow> len \<le> length cmd \<Longrightarrow> len < 2 ^ 32 \<Longrightarrow> path_ok (opts s) \<Longrightarrow> path_ok (opts s')"
proof (induction cmd len s rule: parse_loop.induct)
  case (1 cmd len s)
  show ?case
  proof (cases "pos s < len")
    case False
    then show ?thesis using 1 by (simp add: parse_loop.simps)
  next
    case True
    obtain r where r: "parse_round cmd len s = Some r"
      using 1(2) True by (cases "parse_round cmd len s") (simp_all add: parse_loop.simps)
    show ?thesis
    proof (cases r)
      case (Inl x)
      then have "x = Inr s'" using 1(2) True r by (simp add: parse_loop.simps)
      then show ?thesis using parse_round_stop [of cmd len s s'] r Inl 1(5) by simp
    next
      case (Inr s1)
      then have "parse_loop cmd len s1 = Some (Inr s')" using 1(2) True r by (simp add: parse_loop.simps [of cmd len s])
      then show ?thesis using 1(1) [OF True r Inr] parse_round_path [OF r [unfolded Inr] 1(3,4,5)] 1(3,4) by simp
    qed
  qed
qed

lemma parse_options_path:
  assumes "parse_options E loaded w = Some (st, o', w')"
    and "\<And>img cmd. loaded = Some img \<Longrightarrow> LoadOptions img = Some cmd \<Longrightarrow> unat (LoadOptionsSize img) div 2 \<le> length cmd"
  shows "path_ok o'"
proof -
  have p: "path_ok (opts s)"
    if "loaded = Some img" "LoadOptions img = Some cmd"
      "parse_loop cmd (unat (LoadOptionsSize img) div 2) start_parse = Some (Inr s)" for img cmd s
    using parse_loop_path [OF that(3) assms(2) [OF that(1,2)]] unat_u32_lt [of "LoadOptionsSize img"]
    by (simp add: start_parse_def)
  show ?thesis using assms(1) p
    by (auto simp: parse_options_def Let_def split: if_splits option.splits sum.splits Option.bind_splits)
qed

section \<open>Opening the image\<close>

lemma open_path_loop_in:
  "start + i + n \<le> length p \<Longrightarrow> i + n \<le> length copy
    \<Longrightarrow> \<exists>c. open_path_loop copy i p start n = Some c \<and> length c = length copy"
proof (induction n arbitrary: i copy)
  case (Suc n)
  have "peek p (start + i) = Some (p ! (start + i))" using Suc.prems by (simp add: peek_in)
  moreover obtain c1 where "poke copy i [if p ! (start + i) = 0x2f then 0x5c else p ! (start + i)] = Some c1"
      "length c1 = length copy"
    using Suc.prems by (auto simp: poke_in)
  ultimately show ?case using Suc.prems Suc.IH [of "Suc i" c1] by (simp del: add_Suc_right)
qed simp

lemma make_open_path_in:
  assumes "\<And>p. pth = Some p \<Longrightarrow> unat n \<le> length p \<and> unat n < 2 ^ 32"
  shows "\<exists>st c w'. make_open_path E pth n w = Some (st, c, w') \<and> same_io w w'"
proof (cases pth)
  case None
  then show ?thesis by (simp add: make_open_path_def)
next
  case (Some p)
  have p: "unat n \<le> length p" "unat n < 2 ^ 32" using assms [OF Some] by simp_all
  show ?thesis
  proof (cases "n = 0")
    case True
    then show ?thesis using Some by (simp add: make_open_path_def)
  next
    case False
    obtain b where b: "andM (Some (3 \<le> n)) (do { c \<leftarrow> peek p 2; Some (c = 0x3a) }) = Some b"
        "b \<Longrightarrow> 3 \<le> n"
      using p(1) by (cases "3 \<le> n") (auto simp: peek_in andM_def word_le_nat_alt)
    define start where "start = (if b then 3 else 0 :: u64)"
    have st: "start \<le> n" using b(2) by (auto simp: start_def)
    then have l: "unat (n - start) = unat n - unat start" "unat start \<le> unat n"
      by (simp_all add: word_le_sub_unat word_le_nat_alt)
    have l1: "unat (n - start + 1) = unat (n - start) + 1"
      using l p(2) by (subst unat_add_le) simp_all
    have l2: "unat ((n - start + 1) * 2) = (unat (n - start) + 1) * 2"
      using l l1 p(2) by (subst unat_mult_le) simp_all
    obtain m w1 where m: "uefi_alloc E ((n - start + 1) * 2) w = (m, w1)" by force
    have io: "same_io w w1" using m grew_alloc [OF m grew_refl] by (simp add: same_io_def)
    show ?thesis
    proof (cases m)
      case None
      then show ?thesis using Some False b m io
        by (simp add: make_open_path_def alloc_chars_def start_def [symmetric])
    next
      case (Some bs)
      have "(n - start + 1) * 2 \<noteq> 0" using l2 by (metis unat_0 mult_is_0 add_is_0 zero_neq_numeral zero_neq_one)
      then have lb: "length bs div 2 = unat (n - start) + 1"
        using uefi_alloc_length [of E "(n - start + 1) * 2" w bs w1] m Some l2 by simp
      define copy where "copy = (replicate (length bs div 2) 0 :: CHAR16 list)"
      have lc: "length copy = unat (n - start) + 1" by (simp add: copy_def lb)
      obtain c where c: "open_path_loop copy 0 p (unat start) (unat (n - start)) = Some c" "length c = length copy"
        using open_path_loop_in [of "unat start" 0 "unat (n - start)" p copy] l p(1) lc by auto
      have "\<exists>x. poke c (unat (n - start)) [0] = Some x" using c(2) lc by (simp add: poke_in)
      then show ?thesis using \<open>pth = Some p\<close> False b m Some io c
        by (auto simp: make_open_path_def alloc_chars_def start_def [symmetric] copy_def [symmetric])
    qed
  qed
qed

text \<open>The contract of \<open>GetPosition\<close>: after a seek to the end it is the size of the file.\<close>

definition file_sized :: "env \<Rightarrow> bytes \<Rightarrow> bool" where
  "file_sized E d \<longleftrightarrow> (\<forall>t. case get_position E (t @ [FileSetPosition (- 1), FileGetPosition]) of
     (st, n) \<Rightarrow> EFI_ERROR st \<or> unat n = length d)"

lemma disk_writes_call [simp]:
  "disk_writes (emit (HandleProtocol g) w) = disk_writes w" "disk_writes (emit OpenVolume w) = disk_writes w"
  "disk_writes (emit (FileOpen p m a) w) = disk_writes w" "disk_writes (emit FileClose w) = disk_writes w"
  "disk_writes (emit FileGetPosition w) = disk_writes w" "disk_writes (emit (LocateHandleBuffer g) w) = disk_writes w"
  by (simp_all add: disk_writes_def)

lemma uefi_free_io [simp]: "polls (uefi_free E b w) = polls w"
  by (simp add: uefi_free_def)

lemma file_size_of_post:
  assumes "file_sized E d" "file_size_of E w = (st, n, w')"
  shows "same_io w w'" "\<not> EFI_ERROR st \<Longrightarrow> unat n = length d"
  using assms(2) spec [OF assms(1) [unfolded file_sized_def], of "trace w"]
  by (auto simp: file_size_of_def SetPosition_call_def Let_def same_io_def split: if_splits prod.splits)

definition open_post :: "bytes \<Rightarrow> world \<Rightarrow> (EFI_STATUS \<times> UEFI_FILE_VIEW \<times> world) option \<Rightarrow> bool" where
  "open_post d w r \<longleftrightarrow> (\<exists>st view w'. r = Some (st, view, w') \<and> same_io w w'
    \<and> (st = EFI_SUCCESS \<and> file_open view \<and> unat (view_size view) = length d \<or> EFI_ERROR st))"

lemma open_post_if:
  "same_io w v \<Longrightarrow> open_post d w r \<Longrightarrow> open_post d w (if EFI_ERROR st then Some (st, closed_view, v) else r)"
  by (simp add: open_post_def)

lemma same_io_calls:
  "same_io w v \<Longrightarrow> same_io w (emit (HandleProtocol g) v)" "same_io w v \<Longrightarrow> same_io w (emit OpenVolume v)"
  "same_io w v \<Longrightarrow> same_io w (emit (FileOpen p m a) v)" "same_io w v \<Longrightarrow> same_io w (emit FileClose v)"
  "same_io w v \<Longrightarrow> same_io w (uefi_free E b v)" "same_io w v \<Longrightarrow> same_io w (emit (LocateHandleBuffer g) v)"
  by (simp_all add: same_io_def)

lemma file_open_post:
  assumes sz: "file_sized E d" and p: "\<And>p. pth = Some p \<Longrightarrow> unat n \<le> length p \<and> unat n < 2 ^ 32"
  shows "open_post d w (file_open_from_image E pth n w)"
proof -
  obtain st c w1 where o: "make_open_path E pth n w = Some (st, c, w1)" "same_io w w1"
    using make_open_path_in [OF p, where E = E and w = w] by blast
  have fin: "open_post d w (case file_size_of E v of (st, n, w) \<Rightarrow>
       if EFI_ERROR st then Some (st, closed_view, emit FileClose w)
       else Some (EFI_SUCCESS, \<lparr>file_open = True, view_size = n\<rparr>, w))"
    if "same_io w v" for v
  proof -
    obtain st' k w' where s: "file_size_of E v = (st', k, w')" by (cases "file_size_of E v")
    have q: "same_io w w'" "\<not> EFI_ERROR st' \<Longrightarrow> unat k = length d"
      using file_size_of_post [OF sz s] that same_io_trans by auto
    show ?thesis using q by (cases "EFI_ERROR st'") (simp_all add: s same_io_def open_post_def)
  qed
  show ?thesis
    unfolding file_open_from_image_def o(1) Option.bind.simps prod.case HandleProtocol_call_def Let_def
    by (intro open_post_if fin same_io_calls o(2))
qed

section \<open>Devices\<close>

lemma list_device_io: "same_io w v \<Longrightarrow> same_io w (list_device E i h v)"
  by (auto simp: list_device_def HandleProtocol_call_def Let_def same_io_def split: option.splits)

lemma list_devices_io: "same_io w v \<Longrightarrow> same_io w (list_devices E i hs v)"
  by (induction E i hs v rule: list_devices.induct) (simp_all add: list_device_io)

lemma LocateHandleBuffer_io:
  "LocateHandleBuffer_call E w = (st, hs, w') \<Longrightarrow> same_io w w' \<and> hs = snd (locate_handles E (trace w'))"
  by (auto simp: LocateHandleBuffer_call_def Let_def same_io_def split: prod.splits)

lemma list_block_devices_io: "same_io w (snd (list_block_devices E w))"
proof -
  obtain st hs v where l: "LocateHandleBuffer_call E w = (st, hs, v)" by (cases "LocateHandleBuffer_call E w")
  then have "same_io w v" using LocateHandleBuffer_io by blast
  then have "same_io w (list_devices E 0 hs (con_crlf E (say_dec E ''Block I/O handles: '' (of_nat (length hs)) v)))"
    by (intro list_devices_io) (simp add: same_io_def)
  then show ?thesis using \<open>same_io w v\<close> by (simp add: list_block_devices_def l Let_def same_io_def)
qed

text \<open>The device that a successful choice returns is one that the firmware listed, at the index
  that was asked for.\<close>

lemma get_block_device_post:
  assumes "get_block_device E n w = (st, b, w')"
  shows "same_io w w'"
    "\<not> EFI_ERROR st \<Longrightarrow> \<exists>t. unat n < length (snd (locate_handles E t)) \<and> b = snd (locate_handles E t) ! unat n"
proof -
  obtain st1 hs v where l: "LocateHandleBuffer_call E w = (st1, hs, v)" by (cases "LocateHandleBuffer_call E w")
  have v: "same_io w v" "hs = snd (locate_handles E (trace v))" using LocateHandleBuffer_io [OF l] by simp_all
  show "same_io w w'"
    using assms v(1) by (auto simp: get_block_device_def l HandleProtocol_call_def Let_def same_io_def split: if_splits)
  assume "\<not> EFI_ERROR st"
  then have "\<not> length hs \<le> unat n" "b = hs ! unat n"
    using assms by (auto simp: get_block_device_def l HandleProtocol_call_def Let_def split: if_splits)
  then show "\<exists>t. unat n < length (snd (locate_handles E t)) \<and> b = snd (locate_handles E t) ! unat n"
    using v(2) by (intro exI [of _ "trace v"]) simp
qed

section \<open>The file mode\<close>

text \<open>The device with the number \<open>n\<close>, as the firmware lists it at some time.\<close>

definition listed_device :: "env \<Rightarrow> u32 \<Rightarrow> EFI_BLOCK_IO_MEDIA \<Rightarrow> bool" where
  "listed_device E n media \<longleftrightarrow> (\<exists>t dev. unat n < length (snd (locate_handles E t))
     \<and> snd (locate_handles E t) ! unat n = Some dev \<and> Media dev = Some media)"

text \<open>What flashing a plan from a file with the contents \<open>d\<close> may have done to the disk.\<close>

definition flashed :: "env \<Rightarrow> bytes \<Rightarrow> FFU_PLAN \<Rightarrow> u32 \<Rightarrow> bool \<Rightarrow> EFI_STATUS \<Rightarrow> (u64 \<times> bytes) list \<Rightarrow> bool" where
  "flashed E d pl n commit st ws \<longleftrightarrow> ws = [] \<and> EFI_ERROR st
     \<or> (\<exists>media. listed_device E n media \<and> prefix ws (file_image_writes commit d media pl)
          \<and> (EFI_ERROR st \<or> ws = file_image_writes commit d media pl \<or> misaligned pl media)
          \<and> (\<forall>x \<in> set ws. in_device media x))"

lemma dry_file_image: "file_image_writes False d media pl = []"
  by (simp add: file_image_writes_def file_entry_writes_def location_slice_def slice_writes_def)

lemma flashed_dry: "flashed E d pl n False st ws \<Longrightarrow> ws = []"
  by (auto simp: flashed_def dry_file_image)

lemma main_flash_post:
  assumes fb: "file_backed E d" "file_open view" "length d < 2 ^ 64" and wf: "plan_wf hs pl" "unat hs \<le> length d"
  shows "\<exists>st w' ws. main_flash E view pl o' w = Some (st, w') \<and> disk_writes w' = disk_writes w @ ws \<and> polls w' = polls w
    \<and> flashed E d pl (target o') (yes o') st ws"
proof (cases "sint (target o') < 0")
  case True
  then show ?thesis by (simp add: main_flash_def flashed_def)
next
  case False
  obtain st b v where g: "get_block_device E (target o') w = (st, b, v)" by (cases "get_block_device E (target o') w")
  note G = get_block_device_post [OF g]
  show ?thesis
  proof (cases "EFI_ERROR st")
    case True
    then show ?thesis using False g G(1) by (simp add: main_flash_def flashed_def same_io_def)
  next
    case ok: False
    have inv: "EFI_ERROR EFI_INVALID_PARAMETER" by simp
    show ?thesis
    proof (cases "\<exists>dev media. b = Some dev \<and> Media dev = Some media")
      case False
      then have "ffu_flash_to_block_io E view pl b (yes o') v = Some (EFI_INVALID_PARAMETER, v)"
        by (auto simp: ffu_flash_to_block_io_def split: option.splits)
      then show ?thesis using \<open>\<not> sint (target o') < 0\<close> ok g G(1)
        by (simp add: main_flash_def flashed_def same_io_def)
    next
      case True
      then obtain dev media where b: "b = Some dev" "Media dev = Some media" by blast
      obtain st' w' ws where f: "ffu_flash_to_block_io E view pl (Some dev) (yes o') v = Some (st', w')"
          "disk_writes w' = disk_writes v @ ws" "polls w' = polls v" "prefix ws (file_image_writes (yes o') d media pl)"
          "EFI_ERROR st' \<or> ws = file_image_writes (yes o') d media pl \<or> FlushBlocks dev \<and> misaligned pl media" "\<forall>x \<in> set ws. in_device media x"
        using flash_to_block_io_post [OF fb wf b(2), of "yes o'" v] by blast
      obtain t where "unat (target o') < length (snd (locate_handles E t))" "snd (locate_handles E t) ! unat (target o') = Some dev"
        using G(2) [OF ok] b(1) by metis
      then have "listed_device E (target o') media" unfolding listed_device_def
        using b(2) by (intro exI [of _ t] exI [of _ dev]) simp
      then have "flashed E d pl (target o') (yes o') st' ws" using f by (auto simp: flashed_def)
      then show ?thesis using \<open>\<not> sint (target o') < 0\<close> ok g G(1) f b
        by (simp add: main_flash_def same_io_def)
    qed
  qed
qed

lemma packet_dry_run_post:
  assumes "length (entries pl) = unat (entry_count pl)"
  shows "\<exists>w'. ffu_packet_dry_run E pl w = Some (EFI_SUCCESS, w') \<and> same_io w w'"
proof -
  have "0 < packet_bytes" by (simp add: UFP_MAX_PAYLOAD_DATA_def)
  then obtain q c where "packet_entries pl 0 (unat (entry_count pl)) 0 0 = Some (q, c)"
    using packet_entries_eq [of 0 "unat (entry_count pl)" pl 0 0] assms by auto
  then show ?thesis by (simp add: ffu_packet_dry_run_def Let_def same_io_def)
qed

text \<open>What the file mode has done: nothing without a plan, else what flashing the plan does.\<close>

definition file_effect :: "env \<Rightarrow> bytes \<Rightarrow> OPTIONS \<Rightarrow> EFI_STATUS \<Rightarrow> (u64 \<times> bytes) list \<Rightarrow> bool" where
  "file_effect E d o' st ws \<longleftrightarrow> ws = [] \<and> EFI_ERROR st
     \<or> (\<exists>view v v' pl. file_open view \<and> unat (view_size view) = length d
         \<and> ffu_parse E view v = Some (EFI_SUCCESS, pl, v') \<and> plan_wf (view_size view) pl
         \<and> (if flash_option o' then flashed E d pl (target o') (yes o') st ws else ws = []))"

lemma main_file_post:
  assumes fb: "file_backed E d" "file_sized E d" "length d < 2 ^ 34" and o: "path_ok o'"
  shows "\<exists>st w' ws. main_file E o' w = Some (st, w') \<and> disk_writes w' = disk_writes w @ ws \<and> polls w' = polls w
    \<and> file_effect E d o' st ws"
proof -
  obtain st view w1 where op: "file_open_from_image E (path o') (path_len o') w = Some (st, view, w1)" "same_io w w1"
      "st = EFI_SUCCESS \<and> file_open view \<and> unat (view_size view) = length d \<or> EFI_ERROR st"
    using file_open_post [OF fb(2), of "path o'" "path_len o'" w] o by (auto simp: path_ok_def open_post_def)
  show ?thesis
  proof (cases "EFI_ERROR st")
    case True
    then show ?thesis using op(1,2) by (simp add: main_file_def same_io_def file_effect_def)
  next
    case False
    then have view: "st = EFI_SUCCESS" "file_open view" "unat (view_size view) = length d" using op(3) by simp_all
    obtain st2 pl w2 where pa: "ffu_parse E view w1 = Some (st2, pl, w2)" "same_io w1 w2"
        "st2 = EFI_SUCCESS \<and> plan_wf (view_size view) pl \<or> EFI_ERROR st2"
      using parse_file_post [OF fb(1) view(2) fb(3)] by blast
    have close: "same_io u (snd (file_close view u))" for u by (simp add: file_close_def same_io_def)
    show ?thesis
    proof (cases "EFI_ERROR st2")
      case True
      then show ?thesis using op(1,2) pa(1,2) False close
        by (auto simp: main_file_def same_io_def Let_def file_effect_def)
    next
      case ok: False
      then have pl: "st2 = EFI_SUCCESS" "plan_wf (view_size view) pl" using pa(3) by simp_all
      then have cnt: "length (stores pl) = unat (store_count pl)" "length (entries pl) = unat (entry_count pl)"
        by (simp_all add: plan_wf_def)
      obtain x w3 where su: "ffu_print_summary E pl w2 = Some (x, w3)" "same_io w2 w3"
        using print_summary_post [of pl E w2] cnt by (auto simp: same_io_def)
      obtain y w4 where pk: "(if packets o' then ffu_packet_dry_run E pl w3 else Some (EFI_SUCCESS, w3)) = Some (y, w4)"
          "same_io w3 w4"
        using packet_dry_run_post [OF cnt(2), of E w3] by (cases "packets o'") auto
      obtain st5 w5 ws where fl: "(if flash_option o' then main_flash E view pl o' w4 else Some (EFI_SUCCESS, w4)) = Some (st5, w5)"
          "disk_writes w5 = disk_writes w4 @ ws" "polls w5 = polls w4"
          "if flash_option o' then flashed E d pl (target o') (yes o') st5 ws else ws = []"
      proof (cases "flash_option o'")
        case True
        then show ?thesis using that main_flash_post [OF fb(1) view(2) _ pl(2), of o' w4] fb(3) view(3) by auto
      qed (use that in simp)
      have "main_file E o' w = Some (st5, snd (file_close view (snd (ffu_plan_free E pl w5))))"
        using op(1) pa(1) su(1) pk(1) fl(1) view(1) pl(1)
        by (auto simp: main_file_def Let_def ffu_plan_free_def simp del: split_paired_Ex split: if_splits)
      moreover have "same_io w5 (snd (file_close view (snd (ffu_plan_free E pl w5))))"
        using same_io_trans [OF _ close, of w5 "snd (ffu_plan_free E pl w5)"] by (simp add: ffu_plan_free_def same_io_def)
      moreover have "file_effect E d o' st5 ws"
        unfolding file_effect_def using view(2,3) pa(1) pl fl(4) by blast
      ultimately show ?thesis using fl(2,3) op(2) pa(2) su(2) pk(2) by (simp add: same_io_def)
    qed
  qed
qed

section \<open>The entry point\<close>

text \<open>Every listed device has its media, which the message handlers rely on.\<close>

definition devices_ok :: "env \<Rightarrow> bool" where
  "devices_ok E \<longleftrightarrow> (\<forall>t. \<forall>b \<in> set (snd (locate_handles E t)). \<exists>dev media. b = Some dev \<and> Media dev = Some media)"

lemma run_world_simps [simp]: "run_world (Waiting w) = w" "run_world (Returns (st, s, w)) = w"
  by (simp_all add: run_world_def)

definition main_world :: "(EFI_STATUS \<times> world) run \<Rightarrow> world" where
  "main_world r = (case r of Waiting w \<Rightarrow> w | Returns (st, w) \<Rightarrow> w)"

lemma main_world_simps [simp]: "main_world (Waiting w) = w" "main_world (Returns (st, w)) = w"
  by (simp_all add: main_world_def)

lemma usage_io: "same_io w v \<Longrightarrow> same_io w (usage E v)"
  by (simp add: usage_def same_io_def)

lemma main_usb_post:
  assumes E: "usb_contract E" "uefi_bs E" "firmware_ok E" "devices_ok E"
    and app: "length (g_ms_ext_props usb) = 142" "app_ok app"
    and p: "\<And>v st usb' w'. usb_transport_open E usb v = Some (st, usb', w') \<Longrightarrow> polls_ok c (max_transfer usb') (polls w)"
  shows "\<exists>r. main_usb E usb app o' w = Some r \<and> (\<not> yes o' \<longrightarrow> disk_writes (main_world r) = disk_writes w)"
proof (cases "sint (target o') < 0 \<or> \<not> yes o'")
  case True
  then show ?thesis by (auto simp: main_usb_def)
next
  case False
  obtain st b v where g: "get_block_device E (target o') w = (st, b, v)" by (cases "get_block_device E (target o') w")
  note G = get_block_device_post [OF g]
  show ?thesis
  proof (cases "EFI_ERROR st")
    case True
    then show ?thesis using False g by (simp add: main_usb_def)
  next
    case ok: False
    obtain t where "unat (target o') < length (snd (locate_handles E t))" "b = snd (locate_handles E t) ! unat (target o')"
      using G(2) [OF ok] by blast
    then obtain dev media where dev: "b = Some dev" "Media dev = Some media"
      using E(4) nth_mem unfolding devices_ok_def by metis
    have pv: "polls_ok c (max_transfer usb') (polls v)"
      if "usb_transport_open E usb v = Some (x, usb', w')" for x usb' w'
      using p [OF that] G(1) by (simp add: same_io_def)
    obtain r where "usb_secure_flash_loop E dev (yes o') usb app v = Some r"
      using usb_loop_post [OF E(1-3) dev(2) app, where commit = "yes o'" and w = v and c = c] pv by blast
    then show ?thesis using False g ok dev(1)
      by (cases r) (auto simp: main_usb_def device_of_def)
  qed
qed

lemma efi_main_post:
  assumes E: "usb_contract E" "uefi_bs E" "firmware_ok E" "devices_ok E"
    and fl: "file_backed E d" "file_sized E d" "length d < 2 ^ 34"
    and cmd: "\<And>img cmd. loaded = Some img \<Longrightarrow> LoadOptions img = Some cmd \<Longrightarrow> unat (LoadOptionsSize img) div 2 \<le> length cmd"
    and app: "length (g_ms_ext_props usb) = 142" "app_ok app"
    and p: "\<And>v st usb' w'. usb_transport_open E usb v = Some (st, usb', w') \<Longrightarrow> polls_ok c (max_transfer usb') (polls w)"
  shows "\<exists>st o' v r. parse_options E loaded (con_crlf E (say E ''UfpFfu: recovered UFP FFU protocol app'' w)) = Some (st, o', v)
    \<and> EfiMain E loaded (uefi_system_table E) usb app w = Some r \<and> (\<not> yes o' \<longrightarrow> disk_writes (main_world r) = disk_writes w)"
proof -
  let ?w = "con_crlf E (say E ''UfpFfu: recovered UFP FFU protocol app'' w)"
  obtain st o' v where o: "parse_options E loaded ?w = Some (st, o', v)" "v = emit (HandleProtocol gEfiLoadedImageProtocolGuid) ?w"
    using parse_options_in [OF cmd E(2)] by blast
  have io: "same_io w v" using o(2) by (simp add: same_io_def)
  have pv: "polls_ok c (max_transfer usb') (polls v)"
    if "usb_transport_open E usb u = Some (x, usb', w')" for u x usb' w'
    using p [OF that] io by (simp add: same_io_def)
  obtain ru where ru: "main_usb E usb app o' v = Some ru" "\<not> yes o' \<longrightarrow> disk_writes (main_world ru) = disk_writes v"
    using main_usb_post [OF E app, where o' = o' and w = v and c = c] pv by blast
  obtain st2 w2 ws where rf: "main_file E o' v = Some (st2, w2)" "disk_writes w2 = disk_writes v @ ws" "file_effect E d o' st2 ws"
    using main_file_post [OF fl parse_options_path [OF o(1) cmd], of v] by blast
  have dry: "ws = []" if "\<not> yes o'" using rf(3) that flashed_dry
    by (auto simp: file_effect_def split: if_splits)
  have lb: "same_io v (snd (list_block_devices E v))" by (rule list_block_devices_io)
  have us: "same_io v (usage E u)" if "same_io v u" for u using usage_io [OF that] .
  have "\<exists>r. EfiMain E loaded (uefi_system_table E) usb app w = Some r \<and> (\<not> yes o' \<longrightarrow> disk_writes (main_world r) = disk_writes w)"
    unfolding EfiMain_def Let_def system_table_set o(1) Option.bind.simps prod.case ru(1) rf(1)
    using io ru(2) rf(2) dry lb us [of v] us [of "con_crlf E (con_put_status E st (say E ''Argument parse failed: '' v))"]
    by (cases "list_block_devices E v") (auto simp: same_io_def)
  then show ?thesis using o(1) by blast
qed

end
