(* ===== verification/Stream_Live.thy ===== *)
theory Stream_Live
  imports Ffu_Stream_Spec
begin

text \<open>
  When feeding the stream flasher succeeds: the image is one that the device can take
  (\<open>flashable\<close>: absolute locations, sizes and targets that are whole sectors), the device
  accepts the writes, and no more bytes are sent than the entries still need.
\<close>

definition flashable :: "bytes \<Rightarrow> FFU_STREAM_FLASH \<Rightarrow> bool" where
  "flashable p ctx \<longleftrightarrow> (\<forall>e \<in> set (entries (plan ctx)). byte_count e mod media_block ctx = 0
     \<and> (\<forall>l < unat (location_count e). entry_method p e l = 0
          \<and> entry_target p (block_size (stores (plan ctx) ! unat (store_index e))) e l mod ucast (media_block ctx) = 0))"

definition writes_succeed :: "env \<Rightarrow> bool" where
  "writes_succeed E \<longleftrightarrow> (\<forall>t. \<not> EFI_ERROR (write_blocks E t))"

definition no_error :: "(EFI_STATUS \<times> 'a \<times> 'b) option \<Rightarrow> bool" where
  "no_error r \<longleftrightarrow> (\<forall>st x y. r = Some (st, x, y) \<longrightarrow> \<not> EFI_ERROR st)"

text \<open>The bytes that the entries still need.\<close>

definition missing :: "FFU_STREAM_FLASH \<Rightarrow> nat" where
  "missing ctx = image_bytes (drop (unat (entry_index ctx)) (entries (plan ctx))) - unat (entry_received ctx)"

lemma flashable_config: "config ctx' = config ctx \<Longrightarrow> flashable p ctx' = flashable p ctx"
  by (simp add: flashable_def config_def)

lemma stream_location_ok:
  assumes hd: "header ctx = Some a" "H a = Some p" "unat (hdr_size ctx) \<le> length p"
    and e: "unat (descriptor_offset e) + 8 + 8 * unat (location_count e) \<le> unat (hdr_size ctx)"
    and l: "l < location_count e"
    and f: "byte_count e mod media_block ctx = 0" "entry_method p e (unat l) = 0"
      "entry_target p (block_size s) e (unat l) mod ucast (media_block ctx) = 0"
    and w: "writes_succeed E"
  shows "no_error (stream_location E H ctx e s l w)"
proof -
  note rd = read_location_in [of ctx a H p e l, OF hd e l]
  have wb: "\<not> EFI_ERROR st" if "WriteBlocks_call E m n k d v = (st, v')" for m n k d v st v'
    using w that by (auto simp: WriteBlocks_call_def Let_def writes_succeed_def)
  show ?thesis using f wb
    by (auto simp: no_error_def stream_location_def rd entry_target_def Let_def
        split: if_splits Option.bind_splits prod.splits)
qed

lemma stream_locations_ok:
  assumes hd: "header ctx = Some a" "H a = Some p" "unat (hdr_size ctx) \<le> length p"
    and e: "unat (descriptor_offset e) + 8 + 8 * unat (location_count e) \<le> unat (hdr_size ctx)"
    and f: "byte_count e mod media_block ctx = 0"
      "\<forall>l < unat (location_count e). entry_method p e l = 0
         \<and> entry_target p (block_size s) e l mod ucast (media_block ctx) = 0"
    and w: "writes_succeed E"
  shows "unat l + n = unat (location_count e) \<Longrightarrow> no_error (stream_locations E H ctx e s n l w)"
  using hd e f
proof (induction n arbitrary: ctx l w)
  case 0
  then show ?case by (simp add: no_error_def)
next
  case (Suc n)
  have l: "l < location_count e" "unat l < unat (location_count e)" using Suc.prems(1) by (simp_all add: word_less_nat_alt)
  have l1: "unat (l + 1) = unat l + 1" using count_up(1) [OF l(1)] .
  have ok: "no_error (stream_location E H ctx e s l w)"
    using stream_location_ok [of ctx a H p e l, OF Suc.prems(2-5) l(1) Suc.prems(6)] Suc.prems(7) l(2) assms(7) by blast
  show ?case
  proof (cases "stream_location E H ctx e s l w")
    case None
    then show ?thesis by (simp add: no_error_def)
  next
    case (Some r)
    obtain st ctx' w' where r: "r = (st, ctx', w')" by (cases r)
    then have st: "\<not> EFI_ERROR st" using ok Some by (simp add: no_error_def)
    obtain x where x: "ctx' = ctx\<lparr>last_sector := x\<rparr>" using stream_location_ctx Some r by blast
    have "no_error (stream_locations E H ctx' e s n (l + 1) w')"
      using Suc.IH [of "l + 1" ctx' w'] Suc.prems l1 x by simp
    then show ?thesis using Some r st by simp
  qed
qed

lemma stream_write_ok:
  assumes inv: "stream_inv H p ctx" and e: "e \<in> set (entries (plan ctx))"
    and f: "flashable p ctx" and w: "writes_succeed E"
  shows "no_error (stream_write_completed_entry E H ctx e w)"
proof -
  obtain a where a: "header ctx = Some a" "H a = Some p" using inv by (auto simp: stream_inv_def)
  have wf: "plan_wf (hdr_size ctx) (plan ctx)" using inv by (simp add: stream_inv_def)
  note we = plan_wf_entry [OF wf e]
  have "no_error (stream_locations E H ctx e (stores (plan ctx) ! unat (store_index e)) (unat (location_count e)) 0 w)"
    using inv a we(2) f e w
    by (intro stream_locations_ok [where a = a and p = p]) (auto simp: stream_inv_def entry_ok_def flashable_def)
  then show ?thesis using we(1) by (simp add: stream_write_completed_entry_def mem_simps)
qed

lemma missing_at:
  assumes "unat (entry_index ctx) < length (entries (plan ctx))"
  shows "missing ctx = unat (byte_count (entries (plan ctx) ! unat (entry_index ctx)))
    + image_bytes (drop (Suc (unat (entry_index ctx))) (entries (plan ctx))) - unat (entry_received ctx)"
  using assms by (simp add: missing_def image_bytes_def Cons_nth_drop_Suc [symmetric])

lemma payload_loop_ok:
  "stream_inv H p ctx \<Longrightarrow> flashable p ctx \<Longrightarrow> writes_succeed E \<Longrightarrow> unat len = length data \<Longrightarrow> pos \<le> len
    \<Longrightarrow> length data - unat pos \<le> missing ctx \<Longrightarrow> no_error (payload_loop E H ctx data len pos w)"
proof (induction E H ctx data len pos w rule: payload_loop.induct)
  case (1 E H ctx data len pos w)
  note inv = 1(2) and f = 1(3) and ws = 1(4) and len = 1(5) and room = 1(7)
  show ?case
  proof (cases "pos < len")
    case False
    then show ?thesis by (simp add: payload_loop.simps no_error_def)
  next
    case pos: True
    then have need: "0 < missing ctx" using room len by (simp add: word_less_nat_alt)
    have i: "unat (entry_index ctx) < length (entries (plan ctx))"
    proof (rule ccontr)
      assume "\<not> unat (entry_index ctx) < length (entries (plan ctx))"
      then show False using need by (simp add: missing_def image_bytes_def)
    qed
    define e where "e = entries (plan ctx) ! unat (entry_index ctx)"
    define tk where "tk = step_take ctx e len pos"
    have le: "entry_received ctx \<le> byte_count e" using inv i e_def by (simp add: stream_inv_def)
    note t = step_take_unat [OF le less_imp_le [OF pos], folded tk_def]
    note st = stream_step_in [OF inv i e_def pos eq_imp_le [OF len] tk_def]
    have tp: "unat pos + unat tk \<le> unat len" using t(1) pos by (simp add: word_less_nat_alt)
    let ?c = "filled ctx data tk pos"
    have same: "config ?c = config ctx" "plan ?c = plan ctx" "entry_index ?c = entry_index ctx"
        "entry_received ?c = entry_received ctx + tk"
      by (simp_all add: config_def filled_def)
    have go: "no_error (payload_loop E H c' data len (pos + tk) w')"
      if s: "stream_step E H ctx data len pos w = Some (Inr (c', pos + tk, w'))"
        and c': "stream_inv H p c'" "config c' = config ctx" "missing ctx \<le> missing c' + unat tk" for c' w'
    proof (rule 1(1) [OF pos s refl refl refl c'(1) _ ws len])
      show "flashable p c'" using f flashable_config [OF c'(2)] by simp
      show "pos + tk \<le> len" using tp t(3) by (simp add: word_le_nat_alt)
      show "length data - unat (pos + tk) \<le> missing c'" using room c'(3) t(3) by simp
    qed
    show ?thesis
    proof (cases "entry_received ctx + tk = byte_count e")
      case False
      have s: "stream_step E H ctx data len pos w = Some (Inr (?c, pos + tk, w))" using st(1) False by simp
      have "missing ctx \<le> missing ?c + unat tk" using t(2) by (simp add: missing_def same)
      then show ?thesis unfolding feed_next [OF s pos] by (rule go [OF s st(2) same(1)])
    next
      case True
      have ein: "e \<in> set (entries (plan ?c))" using e_def i same by simp
      have ok: "no_error (stream_write_completed_entry E H ?c e w)"
        by (rule stream_write_ok [OF st(2) ein _ ws]) (use f flashable_config [OF same(1)] in simp)
      obtain st' x w' where wr: "stream_write_completed_entry E H ?c e w = Some (st', ?c\<lparr>last_sector := x\<rparr>, w')"
        using stream_write_post [OF st(2) ein, of E w] unfolding wr_post_def by blast
      then have "\<not> EFI_ERROR st'" using ok by (simp add: no_error_def)
      let ?a = "?c\<lparr>last_sector := x, entry_received := 0, entry_index := entry_index ?c + 1\<rparr>"
      have s: "stream_step E H ctx data len pos w = Some (Inr (?a, pos + tk, w'))"
        using st(1) True wr \<open>\<not> EFI_ERROR st'\<close> by simp
      have i': "unat (entry_index ?c) < length (entries (plan ?c))" using i same by simp
      note adv = advance_inv [OF st(2) i', of x]
      have "fst (pending ?a) = drop (Suc (unat (entry_index ctx))) (entries (plan ctx))" using adv(3) same by simp
      then have "missing ?a = image_bytes (drop (Suc (unat (entry_index ctx))) (entries (plan ctx)))"
        by (simp add: missing_def pending_def same)
      moreover have "unat (byte_count e) = unat (entry_received ctx) + unat tk" using True t(2) by simp
      ultimately have m: "missing ctx \<le> missing ?a + unat tk" using missing_at [OF i] by (simp add: e_def)
      have "config ?a = config ctx" using same(1) by (simp add: config_def)
      then show ?thesis unfolding feed_next [OF s pos] by (rule go [OF s adv(1) _ m])
    qed
  qed
qed

text \<open>Feeding part of what is missing succeeds, and then that much less is missing.\<close>

lemma missing_pending:
  assumes "stream_inv H p ctx"
  shows "missing ctx = image_bytes (fst (pending ctx)) - length (snd (pending ctx))"
    "length (snd (pending ctx)) = unat (entry_received ctx)"
proof -
  have "entry_received ctx \<le> entry_capacity ctx"
  proof (cases "unat (entry_index ctx) < length (entries (plan ctx))")
    case True
    then have "entry_received ctx \<le> byte_count (entries (plan ctx) ! unat (entry_index ctx))"
      "byte_count (entries (plan ctx) ! unat (entry_index ctx)) \<le> entry_capacity ctx"
      using assms by (simp_all add: stream_inv_def)
    then show ?thesis by (rule order_trans)
  qed (use assms in \<open>simp add: stream_inv_def\<close>)
  then show "length (snd (pending ctx)) = unat (entry_received ctx)"
    using assms by (simp add: pending_def stream_inv_def word_le_nat_alt)
  then show "missing ctx = image_bytes (fst (pending ctx)) - length (snd (pending ctx))"
    by (simp add: missing_def pending_def)
qed

lemma consume_length:
  "consume f es b = (ws, es', b') \<Longrightarrow> image_bytes es' + length b = image_bytes es + length b'"
proof (induction es arbitrary: b ws)
  case Nil
  then show ?case by simp
next
  case (Cons e es)
  show ?case
  proof (cases "unat (byte_count e) \<le> length b")
    case True
    then obtain ws' where "consume f es (drop (unat (byte_count e)) b) = (ws', es', b')"
      using Cons.prems by (auto simp: Let_def split: prod.splits)
    from Cons.IH [OF this] show ?thesis using True by (simp add: image_bytes_def)
  next
    case False
    then show ?thesis using Cons.prems by auto
  qed
qed

lemma payload_succeeds:
  assumes inv: "stream_inv H p ctx" "live ctx" and len: "unat len = length data"
    and f: "flashable p ctx" "writes_succeed E" and room: "length data \<le> missing ctx"
    and c: "consume (emits p ctx) (fst (pending ctx)) (snd (pending ctx) @ data) = (ws, es, b)"
  shows "\<exists>ctx' w'. ffu_stream_flash_payload E H ctx (Some data) len w = Some (EFI_SUCCESS, ctx', w')
    \<and> stream_inv H p ctx' \<and> live ctx' \<and> config ctx' = config ctx \<and> pending ctx' = (es, b)
    \<and> missing ctx' = missing ctx - length data
    \<and> disk_writes w' = disk_writes w @ ws \<and> polls w' = polls w"
proof -
  obtain st ctx' w' ws' where r: "ffu_stream_flash_payload E H ctx (Some data) len w = Some (st, ctx', w')"
    "stream_inv H p ctx'" "config ctx' = config ctx" "disk_writes w' = disk_writes w @ ws'" "polls w' = polls w"
    "EFI_ERROR st \<or> st = EFI_SUCCESS \<and> ws' = ws \<and> live ctx' \<and> pending ctx' = (es, b)"
    using payload_post [OF inv len, of w E] c unfolding feed_post_def by auto
  have "no_error (payload_loop E H ctx data len 0 w)"
    by (rule payload_loop_ok [OF inv(1) f len]) (simp_all add: room)
  then have "\<not> EFI_ERROR st" using r(1)
    by (auto simp: no_error_def ffu_stream_flash_payload_def split: Option.bind_splits if_splits)
  then have s: "st = EFI_SUCCESS" "ws' = ws" "live ctx'" "pending ctx' = (es, b)" using r(6) by simp_all
  have "image_bytes es + (length (snd (pending ctx)) + length data) = image_bytes (fst (pending ctx)) + length b"
    using consume_length [OF c] by simp
  then have "missing ctx' = missing ctx - length data"
    using missing_pending(1) [OF inv(1)] missing_pending(1) [OF r(2)] s(4) by simp
  then show ?thesis using r s by blast
qed

text \<open>When nothing is missing, the flasher is done.\<close>

lemma missing_done:
  assumes inv: "stream_inv H p ctx" "live ctx"
  shows "missing ctx = 0 \<longleftrightarrow> ffu_stream_flash_done ctx"
proof (cases "unat (entry_index ctx) < length (entries (plan ctx))")
  case True
  define e where "e = entries (plan ctx) ! unat (entry_index ctx)"
  have "entry_received ctx < byte_count e" using inv(2) True by (simp add: live_def e_def)
  then have "missing ctx \<noteq> 0" using missing_at [OF True] by (simp add: e_def word_less_nat_alt)
  moreover have "fst (pending ctx) \<noteq> []" using True by (simp add: pending_def)
  ultimately show ?thesis using done_pending [OF inv(1)] by simp
next
  case False
  then show ?thesis using done_pending [OF inv(1)] by (simp add: pending_def missing_def image_bytes_def)
qed

end
