(* ===== verification/Flash_Live.thy ===== *)
theory Flash_Live
  imports Stream_Live Ffu_Flash_Spec Parse_Agree
begin

text \<open>
  When flashing a file succeeds: the image is one that the device can take (\<open>fits_device\<close>), the
  file holds its payload, and the firmware has memory and accepts the writes.
\<close>

definition location_fits :: "bytes \<Rightarrow> EFI_BLOCK_IO_MEDIA \<Rightarrow> FFU_WRITE_ENTRY \<Rightarrow> u32 \<Rightarrow> nat \<Rightarrow> bool" where
  "location_fits d media e bs l \<longleftrightarrow> entry_method d e l = 0 \<and> entry_target d bs e l mod ucast (BlockSize media) = 0
     \<and> unat (entry_target d bs e l div ucast (BlockSize media)) + unat (byte_count e) div unat (BlockSize media)
         \<le> unat (LastBlock media) + 1"

definition entry_fits :: "bytes \<Rightarrow> FFU_PLAN \<Rightarrow> EFI_BLOCK_IO_MEDIA \<Rightarrow> FFU_WRITE_ENTRY \<Rightarrow> bool" where
  "entry_fits d pl media e \<longleftrightarrow> byte_count e mod BlockSize media = 0
     \<and> unat (payload_offset e) + unat (byte_count e) \<le> length d
     \<and> (\<forall>l < unat (location_count e). location_fits d media e (block_size (stores pl ! unat (store_index e))) l)"

definition fits_device :: "bytes \<Rightarrow> FFU_PLAN \<Rightarrow> EFI_BLOCK_IO_MEDIA \<Rightarrow> bool" where
  "fits_device d pl media \<longleftrightarrow> MediaPresent media \<and> \<not> ReadOnly media \<and> BlockSize media \<noteq> 0
     \<and> unat (LastBlock media) + 1 < 2 ^ 64 \<and> (\<forall>e \<in> set (entries pl). entry_fits d pl media e)"

definition flushes :: "env \<Rightarrow> bool" where
  "flushes E \<longleftrightarrow> (\<forall>t. \<not> EFI_ERROR (flush_blocks E t))"

lemma no_error_None [simp]: "no_error None"
  by (simp add: no_error_def)

lemma no_error_Some [simp]: "no_error (Some (st, x, y)) \<longleftrightarrow> \<not> EFI_ERROR st"
  by (simp add: no_error_def)

lemma no_error_seq:
  assumes "no_error r" "\<And>st b w. r = Some (st, b, w) \<Longrightarrow> \<not> EFI_ERROR st \<Longrightarrow> no_error (f st b w)"
  shows "no_error (do { (st, b, w) \<leftarrow> r; if EFI_ERROR st then Some (st, b, w) else f st b w })"
  using assms by (cases r) auto

lemma write_ok: "writes_succeed E \<Longrightarrow> WriteBlocks_call E m n k d v = (st, v') \<Longrightarrow> \<not> EFI_ERROR st"
  by (auto simp: WriteBlocks_call_def Let_def writes_succeed_def)

lemma copy_round_ok:
  assumes fb: "file_backed E d" "file_open view" "length d < 2 ^ 64"
    and at: "unat po + unat copied + unat tk \<le> length d" and E: "writes_succeed E" and st: "\<not> EFI_ERROR st"
  shows "no_error (copy_round E view mid mb commit po lba st buffer tk copied w)"
proof (cases commit)
  case True
  have off: "unat (po + ucast copied) = unat po + unat copied"
  proof -
    have "unat po + unat copied < 2 ^ 64" using at fb(3) by linarith
    then show ?thesis by (subst unat_add_le) simp_all
  qed
  have rd: "\<exists>v. file_read_exact E view (po + ucast copied) tk w = (EFI_SUCCESS, take (unat tk) (drop (unat po + unat copied) d), v)"
    using file_backed_read [OF fb(1,2), of "po + ucast copied" tk w, unfolded off] at by simp
  show ?thesis using True rd write_ok [OF E]
    by (auto simp: copy_round_def Let_def split: Option.bind_splits prod.splits)
qed (use st in \<open>simp add: copy_round_def\<close>)

lemma copy_loop_ok:
  assumes fb: "file_backed E d" "file_open view" "length d < 2 ^ 64" and E: "writes_succeed E"
    and mb: "mb \<noteq> 0" and bsz: "unat mb dvd unat bsz" "bsz \<noteq> 0"
  shows "unat mb dvd unat remaining \<Longrightarrow> unat copied + unat remaining < 2 ^ 32
    \<Longrightarrow> unat po + unat copied + unat remaining \<le> length d \<Longrightarrow> \<not> EFI_ERROR st
    \<Longrightarrow> no_error (copy_loop E view mid mb commit po lba bsz st buffer remaining copied w)"
proof (induction "unat remaining" arbitrary: remaining copied st buffer w rule: less_induct)
  case less
  show ?case
  proof (cases "remaining = 0")
    case True
    then show ?thesis using less.prems(4) by (subst copy_loop.simps) simp
  next
    case False
    let ?t = "copy_take remaining bsz mb" let ?m = "min (unat remaining) (unat bsz)"
    have pos: "0 < unat remaining" "0 < unat bsz" using False bsz(2) by (simp_all add: unat_gt_0)
    have mdvd: "unat mb dvd ?m" using less.prems(1) bsz(1) by (simp add: min_def)
    have t: "unat ?t = ?m" using copy_take_unat(1) [OF mb, of remaining bsz] mdvd by simp
    then have tz: "?t \<noteq> 0" using pos by (metis min_less_iff_conj not_gr_zero unat_0)
    have t32: "unat (ucast ?t :: u32) = ?m" using copy_take_unat(2) [OF mb, of remaining bsz] t by simp
    have r': "unat (remaining - ucast ?t) = unat remaining - ?m"
      using t32 by (subst word_le_sub_unat) (simp_all add: word_le_nat_alt)
    have c': "unat (copied + ucast ?t) = unat copied + ?m"
      using t32 less.prems(2) by (subst unat_add_le) auto
    have round: "no_error (copy_round E view mid mb commit po lba st buffer ?t copied w)"
      by (rule copy_round_ok [OF fb _ E less.prems(4)]) (use t less.prems(3) in simp)
    have cont: "no_error (copy_loop E view mid mb commit po lba bsz st1 b1 (remaining - ucast ?t) (copied + ucast ?t) w1)"
      if "\<not> EFI_ERROR st1" for st1 b1 w1
      by (rule less.hyps) (use that r' c' pos less.prems mdvd in simp_all)
    have eq: "copy_loop E view mid mb commit po lba bsz st buffer remaining copied w
        = (do { (st, b, w) \<leftarrow> copy_round E view mid mb commit po lba st buffer ?t copied w;
             if EFI_ERROR st then Some (st, b, w)
             else copy_loop E view mid mb commit po lba bsz st b (remaining - ucast ?t) (copied + ucast ?t) w })"
      using False tz by (subst copy_loop.simps) (auto simp: Let_def split: option.split)
    show ?thesis unfolding eq by (rule no_error_seq [OF round cont])
  qed
qed

lemma device_check_ok:
  fixes lba lb :: u64 and n :: u32
  assumes "unat lba + unat n \<le> unat lb + 1" "unat lb + 1 < 2 ^ 64" "n \<noteq> 0"
  shows "\<not> (lb < lba \<or> lb - lba + 1 < ucast n)"
proof -
  have "0 < unat n" using assms(3) by (simp add: unat_gt_0)
  then have le: "lba \<le> lb" "unat lba \<le> unat lb" using assms(1) by (simp_all add: word_le_nat_alt)
  then have "unat (lb - lba + 1) = unat lb - unat lba + 1"
    using assms(2) by (subst unat_add_le) (simp_all add: word_le_sub_unat)
  then show ?thesis using le assms(1) by (simp add: word_less_nat_alt not_less)
qed

lemma flash_location_ok:
  fixes hs :: u64
  assumes fb: "file_backed E d" "file_open view" "length d < 2 ^ 64" and E: "writes_succeed E"
    and e: "unat (descriptor_offset e) + 8 + 8 * unat (location_count e) \<le> unat hs" "unat hs \<le> length d"
    and mb: "BlockSize media \<noteq> 0" "byte_count e mod BlockSize media = 0" "byte_count e \<noteq> 0"
    and lb: "unat (LastBlock media) + 1 < 2 ^ 64"
    and po: "unat (payload_offset e) + unat (byte_count e) \<le> length d"
    and bsz: "unat (BlockSize media) dvd unat bsz" "bsz \<noteq> 0"
    and l: "l < location_count e" and f: "location_fits d media e (block_size s) (unat l)"
  shows "no_error (flash_location E view media commit e s bsz buffer l w)"
proof -
  obtain v where v: "read_location E view (descriptor_offset e) l w
      = Some (EFI_SUCCESS, entry_method d e (unat l), le32_at d (unat (descriptor_offset e) + 8 + 8 * unat l + 4), v)"
    using file_location_in [OF fb(1,2) e l] by blast
  let ?mb = "BlockSize media" let ?lba = "entry_target d (block_size s) e (unat l) div ucast ?mb"
  have mdvd: "unat ?mb dvd unat (byte_count e)" using mb(2) by (metis mod_0_imp_dvd unat_0 unat_mod_distrib)
  have nz: "byte_count e div ?mb \<noteq> 0"
  proof
    assume "byte_count e div ?mb = 0"
    then have "unat (byte_count e) div unat ?mb = 0" by (metis unat_0 unat_div_distrib)
    then have "unat (byte_count e) = 0" using mdvd mb(1) by (metis dvd_div_eq_0_iff)
    then show False using mb(3) by (metis unat_eq_zero)
  qed
  have dev: "\<not> (LastBlock media < ?lba \<or> LastBlock media - ?lba + 1 < ucast (byte_count e div ?mb))"
    by (rule device_check_ok [OF _ lb nz]) (use f in \<open>simp add: location_fits_def unat_div_distrib\<close>)
  have copy: "no_error (copy_loop E view (MediaId media) ?mb commit (payload_offset e) ?lba bsz EFI_SUCCESS buffer (byte_count e) 0 v)"
    by (rule copy_loop_ok [OF fb E mb(1) bsz mdvd]) (use po unat_u32_lt [of "byte_count e"] in simp_all)
  have t: "ucast (le32_at d (unat (descriptor_offset e) + 8 + 8 * unat l + 4)) * ucast (block_size s)
      = entry_target d (block_size s) e (unat l)" by (simp add: entry_target_def)
  show ?thesis unfolding flash_location_def v Option.bind.simps prod.case Let_def t
    using f dev copy by (simp add: location_fits_def)
qed

lemma flash_locations_ok:
  fixes hs :: u64
  assumes fb: "file_backed E d" "file_open view" "length d < 2 ^ 64" and E: "writes_succeed E"
    and e: "unat (descriptor_offset e) + 8 + 8 * unat (location_count e) \<le> unat hs" "unat hs \<le> length d"
    and mb: "BlockSize media \<noteq> 0" "byte_count e mod BlockSize media = 0" "byte_count e \<noteq> 0"
    and lb: "unat (LastBlock media) + 1 < 2 ^ 64"
    and po: "unat (payload_offset e) + unat (byte_count e) \<le> length d"
    and bsz: "unat (BlockSize media) dvd unat bsz" "bsz \<noteq> 0"
    and f: "\<forall>l < unat (location_count e). location_fits d media e (block_size s) l"
  shows "unat l + n = unat (location_count e) \<Longrightarrow> \<not> EFI_ERROR st
    \<Longrightarrow> no_error (flash_locations E view media commit e s bsz st buffer n l w)"
proof (induction n arbitrary: l st buffer w)
  case (Suc n)
  have l: "l < location_count e" "unat l < unat (location_count e)" using Suc.prems(1) by (simp_all add: word_less_nat_alt)
  have l1: "unat (l + 1) = unat l + 1" using count_up(1) [OF l(1)] .
  show ?case unfolding flash_locations.simps
    by (rule no_error_seq [OF flash_location_ok [OF fb E e mb lb po bsz l(1)] Suc.IH])
      (use f l l1 Suc.prems(1) in simp_all)
qed simp

lemma flash_entries_ok:
  assumes fb: "file_backed E d" "file_open view" "length d < 2 ^ 64" and E: "writes_succeed E"
    and wf: "plan_wf hs pl" "unat hs \<le> length d" and f: "fits_device d pl media"
    and bsz: "unat (BlockSize media) dvd unat bsz" "bsz \<noteq> 0"
  shows "unat i + n = length (entries pl) \<Longrightarrow> \<not> EFI_ERROR st
    \<Longrightarrow> no_error (map_option snd (flash_entries E view pl media commit bsz st buffer n i w))"
proof (induction n arbitrary: i st buffer w)
  case (Suc n)
  have i: "unat i < length (entries pl)" using Suc.prems(1) by simp
  let ?e = "entries pl ! unat i"
  have e: "?e \<in> set (entries pl)" using i by simp
  note we = plan_wf_entry [OF wf(1) e]
  have fe: "entry_fits d pl media ?e" using f e by (simp add: fits_device_def)
  have "i < entry_count pl" using i wf(1) by (simp add: plan_wf_def word_less_nat_alt)
  then have i1: "unat (i + 1) = unat i + 1" by (rule count_up(1))
  have o: "unat (descriptor_offset ?e) + 8 + 8 * unat (location_count ?e) \<le> unat hs" "byte_count ?e \<noteq> 0"
    using we(2,4) by (simp_all add: entry_ok_def)
  have locs: "no_error (flash_locations E view media commit ?e (stores pl ! unat (store_index ?e)) bsz st buffer
      (unat (location_count ?e)) 0 w)"
    by (rule flash_locations_ok [OF fb E o(1) wf(2) _ _ o(2) _ _ bsz])
      (use f fe Suc.prems(2) in \<open>simp_all add: fits_device_def entry_fits_def\<close>)
  have "no_error (do { (st, b, w) \<leftarrow> flash_locations E view media commit ?e (stores pl ! unat (store_index ?e)) bsz st buffer
        (unat (location_count ?e)) 0 w;
      if EFI_ERROR st then Some (st, b, w)
      else map_option snd (flash_entries E view pl media commit bsz st b n (i + 1) (flash_progress E pl i w)) })"
    by (rule no_error_seq [OF locs Suc.IH]) (use Suc.prems(1) i1 in simp_all)
  then show ?case using i we(1) fe by (simp add: mem_simps map_snd_seq entry_fits_def)
qed simp

text \<open>Flashing a file that fits the device: no error, and the whole image is written.\<close>

lemma flash_to_block_io_ok:
  assumes fb: "file_backed E d" "file_open view" "length d < 2 ^ 64"
    and E: "writes_succeed E" "flushes E" "memory_ok E"
    and wf: "plan_wf hs pl" "unat hs \<le> length d" and f: "fits_device d pl media" and bp: "Media bp = Some media"
  shows "\<exists>st w'. ffu_flash_to_block_io E view pl (Some bp) commit w = Some (st, w') \<and> \<not> EFI_ERROR st
    \<and> disk_writes w' = disk_writes w @ file_image_writes commit d media pl \<and> polls w' = polls w"
proof -
  let ?bsz = "flash_buffer_size (BlockSize media)"
  have ok: "MediaPresent media" "\<not> ReadOnly media" "BlockSize media \<noteq> 0" using f by (simp_all add: fits_device_def)
  note B = flash_buffer_ok [OF ok(3)]
  obtain st w' ws where r: "ffu_flash_to_block_io E view pl (Some bp) commit w = Some (st, w')"
      "disk_writes w' = disk_writes w @ ws" "polls w' = polls w"
      "EFI_ERROR st \<or> ws = file_image_writes commit d media pl \<or> FlushBlocks bp \<and> misaligned pl media"
    using flash_to_block_io_post [OF fb wf bp, of commit w] by blast
  have al: "\<not> misaligned pl media" using f by (auto simp: misaligned_def fits_device_def entry_fits_def)
  obtain buffer v where a: "uefi_alloc E ?bsz w = (Some buffer, v)"
    using E(3) B(2) by (cases "uefi_alloc E ?bsz w") (auto simp: uefi_alloc_def memory_ok_def Let_def)
  have n: "unat (0 :: u32) + unat (entry_count pl) = length (entries pl)" using wf(1) by (simp add: plan_wf_def)
  let ?u = "con_crlf E (say E (if commit then ''Flash mode: COMMIT'' else ''Flash mode: dry-run'') v)"
  let ?r = "flash_entries E view pl media commit ?bsz EFI_SUCCESS buffer (unat (entry_count pl)) 0 ?u"
  have "no_error (map_option snd ?r)"
    by (rule flash_entries_ok [OF fb E(1) wf f B n]) simp
  moreover have "?r \<noteq> None"
    using r(1) ok bp a by (cases ?r) (simp_all add: ffu_flash_to_block_io_def Let_def)
  ultimately obtain out st1 b1 w1 where "?r = Some (out, st1, b1, w1)" "\<not> EFI_ERROR st1"
    by (cases ?r) auto
  then have "\<not> EFI_ERROR st" using r(1) ok bp a E(2)
    by (auto simp: ffu_flash_to_block_io_def Let_def FlushBlocks_call_def flushes_def split: if_splits)
  then show ?thesis using r al by auto
qed

end
