(* ===== verification/Command_Line.thy ===== *)
theory Command_Line
  imports Options
begin

text \<open>
  A specification of the command line that knows nothing of positions and pointers: a line is a
  list of words between gaps of white space, quoted or not, and the options are read from the
  words one after the other. The lemmas show that the parser of \<open>src/main.c\<close> implements it.
\<close>

section \<open>Words\<close>

abbreviation chars :: "string \<Rightarrow> CHAR16 list" where
  "chars s \<equiv> map ucast (asc s)"

text \<open>A word with the gap before it, and whether it is quoted.\<close>

record ITEM =
  gap :: "CHAR16 list"
  quoted :: bool
  word :: "CHAR16 list"

definition item_ok :: "ITEM \<Rightarrow> bool" where
  "item_ok x \<longleftrightarrow> list_all ch_is_space (gap x) \<and> word x \<noteq> [] \<and> (quoted x \<or> hd (word x) \<noteq> 0x22)
     \<and> list_all (\<lambda>c. c \<noteq> 0 \<and> (if quoted x then c \<noteq> 0x22 else \<not> ch_is_space c)) (word x)"

definition item_text :: "ITEM \<Rightarrow> CHAR16 list" where
  "item_text x = gap x @ (if quoted x then 0x22 # word x @ [0x22] else word x)"

definition line_text :: "ITEM list \<Rightarrow> CHAR16 list" where
  "line_text xs = concat (map item_text xs)"

text \<open>What may follow the last word: white space, then the end or a terminator.\<close>

definition line_end :: "CHAR16 list \<Rightarrow> bool" where
  "line_end t \<longleftrightarrow> (case dropWhile ch_is_space t of [] \<Rightarrow> True | c # _ \<Rightarrow> c = 0)"

definition line_ok :: "ITEM list \<Rightarrow> bool" where
  "line_ok xs \<longleftrightarrow> list_all item_ok xs \<and> list_all (\<lambda>x. gap x \<noteq> []) (tl xs)"

section \<open>Reading the options from words\<close>

definition efi_name :: "CHAR16 list \<Rightarrow> bool" where
  "efi_name w \<longleftrightarrow> 4 \<le> length w \<and> map ch_lower (drop (length w - 4) w) = chars ''.efi''"

definition number :: "CHAR16 list \<Rightarrow> u32 option" where
  "number w = (if w \<noteq> [] \<and> list_all is_digit w then Some (of_nat (digits_val w)) else None)"

definition word_option :: "CHAR16 list \<Rightarrow> OPTIONS \<Rightarrow> (OPTIONS \<times> bool) option" where
  "word_option w o' =
     (if w = chars ''--help'' \<or> w = chars ''-h'' then Some (o'\<lparr>show_help := True\<rparr>, False)
      else if w = chars ''--list-block'' then Some (o'\<lparr>list_block := True\<rparr>, False)
      else if w = chars ''--packets'' then Some (o'\<lparr>packets := True\<rparr>, False)
      else if w = chars ''--info'' then Some (o'\<lparr>packets := False, flash_option := False\<rparr>, False)
      else if w = chars ''--flash'' then Some (o'\<lparr>flash_option := True\<rparr>, False)
      else if w = chars ''--usb-ffu'' \<or> w = chars ''--usb'' then Some (o'\<lparr>usb_ffu := True\<rparr>, False)
      else if w = chars ''--yes'' then Some (o'\<lparr>yes := True\<rparr>, False)
      else if w = chars ''--target'' then Some (o', True)
      else if prefix (chars ''--target='') w then map_option (\<lambda>v. (o'\<lparr>target := v\<rparr>, False)) (number (drop 9 w))
      else Some (if path o' = None then o'\<lparr>path := Some w, path_len := of_nat (length w)\<rparr> else o', False))"

text \<open>One word: the options after it, and whether the next word is the target; \<open>None\<close> is a
  number that cannot be read.\<close>

definition word_step :: "bool \<Rightarrow> bool \<Rightarrow> CHAR16 list \<Rightarrow> OPTIONS \<Rightarrow> (OPTIONS \<times> bool) option" where
  "word_step first expect w o' =
     (if first \<and> efi_name w then Some (o', expect)
      else if expect then map_option (\<lambda>v. (o'\<lparr>target := v\<rparr>, False)) (number w)
      else word_option w o')"

fun read_words :: "bool \<Rightarrow> bool \<Rightarrow> CHAR16 list list \<Rightarrow> OPTIONS \<Rightarrow> (OPTIONS \<times> bool) option" where
  "read_words first expect [] o' = Some (o', expect)"
| "read_words first expect (w # ws) o' =
     (case word_step first expect w o' of None \<Rightarrow> None
      | Some (o', expect) \<Rightarrow> read_words False expect ws o')"

text \<open>The options with the path cut to its length; the parser keeps a pointer into the line.\<close>

definition cut_path :: "OPTIONS \<Rightarrow> OPTIONS" where
  "cut_path o' = o'\<lparr>path := map_option (take (unat (path_len o'))) (path o')\<rparr>"

lemma cut_path_simps [simp]:
  "show_help (cut_path o') = show_help o'" "list_block (cut_path o') = list_block o'" "packets (cut_path o') = packets o'"
  "flash_option (cut_path o') = flash_option o'" "usb_ffu (cut_path o') = usb_ffu o'" "yes (cut_path o') = yes o'"
  "target (cut_path o') = target o'" "path_len (cut_path o') = path_len o'"
  "path (cut_path o') = map_option (take (unat (path_len o'))) (path o')"
  by (simp_all add: cut_path_def)

lemma cut_path_update:
  "cut_path (o'\<lparr>show_help := a\<rparr>) = cut_path o'\<lparr>show_help := a\<rparr>" "cut_path (o'\<lparr>list_block := a\<rparr>) = cut_path o'\<lparr>list_block := a\<rparr>"
  "cut_path (o'\<lparr>packets := a\<rparr>) = cut_path o'\<lparr>packets := a\<rparr>" "cut_path (o'\<lparr>flash_option := a\<rparr>) = cut_path o'\<lparr>flash_option := a\<rparr>"
  "cut_path (o'\<lparr>usb_ffu := a\<rparr>) = cut_path o'\<lparr>usb_ffu := a\<rparr>" "cut_path (o'\<lparr>yes := a\<rparr>) = cut_path o'\<lparr>yes := a\<rparr>"
  "cut_path (o'\<lparr>target := v\<rparr>) = cut_path o'\<lparr>target := v\<rparr>" "cut_path default_options = default_options"
  by (simp_all add: cut_path_def default_options_def)

text \<open>What the parser returns for a word, a list of words.\<close>

definition agrees :: "(OPTIONS \<times> bool) option \<Rightarrow> EFI_STATUS + OPTIONS \<times> bool \<Rightarrow> bool" where
  "agrees x r \<longleftrightarrow> (case x of None \<Rightarrow> r = Inl EFI_INVALID_PARAMETER
     | Some (o', e) \<Rightarrow> (\<exists>o''. r = Inr (o'', e) \<and> cut_path o'' = o'))"

section \<open>One word\<close>

lemma efi_name_eq:
  assumes "prefix w t" "length w < 2 ^ 32"
  shows "token_is_efi_name t (of_nat (length w)) = Some (efi_name w)"
proof (cases "length w < 4")
  case True
  have "(of_nat (length w) :: u64) < 4"
    using True by (simp add: word_less_nat_alt unsigned_of_nat take_bit_nat_eq_self)
  then show ?thesis using True by (simp add: token_is_efi_name_def efi_name_def)
next
  case False
  let ?n = "of_nat (length w) :: u64"
  have u: "unat ?n = length w" using assms(2) by (simp add: unsigned_of_nat take_bit_nat_eq_self)
  have k: "peek t (unat (?n - k)) = Some (w ! (length w - unat k))" if "0 < unat k" "unat k \<le> 4" for k
  proof -
    have "unat (?n - k) = length w - unat k" using that False u by (simp add: word_le_sub_unat word_le_nat_alt)
    moreover obtain z where "t = w @ z" using assms(1) by (auto simp: prefix_def)
    moreover have "length w - unat k < length w" using that False by linarith
    ultimately show ?thesis by (simp add: peek_in nth_append)
  qed
  have n: "\<not> ?n < 4" using False u by (simp add: word_less_nat_alt)
  have d: "drop (length w - 4) w = [w ! (length w - 4), w ! (length w - 3), w ! (length w - 2), w ! (length w - 1)]"
  proof -
    have "drop (length w - 4) w = map ((!) w) [length w - 4..<length w]"
      by (metis drop_map drop_upt map_nth add.left_neutral)
    moreover have "[length w - 4..<length w] = [length w - 4, length w - 3, length w - 2, length w - 1]"
    proof -
      obtain m where "length w = m + 4" using False by (metis add.commute le_iff_add not_less)
      then show ?thesis by (simp add: upt_rec)
    qed
    ultimately show ?thesis by simp
  qed
  have low: "ch_lower c = 0x2e \<longleftrightarrow> c = 0x2e" for c :: CHAR16
  proof -
    have "c + 0x20 \<noteq> 0x2e" if "0x41 \<le> c" "c \<le> 0x5a"
    proof
      assume c: "c + 0x20 = 0x2e"
      have "unat (c + 0x20) = unat c + 32"
        using that(2) by (subst unat_add_le) (simp_all add: word_le_nat_alt)
      then show False using c that(1) by (simp add: word_le_nat_alt)
    qed
    then show ?thesis by (auto simp: ch_lower_def)
  qed
  show ?thesis using False n k [of 4] k [of 3] k [of 2] k [of 1]
    by (simp add: token_is_efi_name_def efi_name_def d low andM_def)
qed

lemma prefix_take: "prefix w t \<Longrightarrow> take (length w) t = w"
  by (auto simp: prefix_def)

lemma token_len: "length w < 2 ^ 32 \<Longrightarrow> unat (of_nat (length w) :: u64) = length w" for w :: "CHAR16 list"
  by (simp add: unsigned_of_nat take_bit_nat_eq_self)

lemma number_eq:
  assumes "prefix w t" "length w < 2 ^ 32"
  shows "parse_uint_token t (of_nat (length w)) = Some (number w)"
proof -
  have "(of_nat (length w) :: u64) = 0 \<longleftrightarrow> w = []"
    unfolding unat_eq_0 [symmetric] token_len [OF assms(2)] by simp
  then show ?thesis
    using parse_uint_token_eq [of "of_nat (length w)" t] assms token_len [OF assms(2)] prefix_length_le [OF assms(1)]
    by (auto simp: number_def prefix_take list_all_iff)
qed

lemma plain_token_eq:
  assumes w: "prefix w t" "length w < 2 ^ 32"
  shows "plain_token t (of_nat (length w)) o' = Some (
    if prefix (chars ''--target='') w then
      (case number (drop 9 w) of None \<Rightarrow> Inl EFI_INVALID_PARAMETER | Some v \<Rightarrow> Inr (o'\<lparr>target := v\<rparr>))
    else Inr (if path o' = None then o'\<lparr>path := Some t, path_len := of_nat (length w)\<rparr> else o'))"
proof -
  have l: "length w \<le> length t" using prefix_length_le [OF w(1)] .
  have sc: "token_scan t (length w) (asc ''--target='') 0 = Some (if prefix (chars ''--target='') w then Some 9 else None)"
    using token_scan_eq [OF l, of 0 "asc ''--target=''"] prefix_take [OF w(1)] by simp
  show ?thesis
  proof (cases "prefix (chars ''--target='') w")
    case True
    then obtain z where z: "w = chars ''--target='' @ z" by (auto simp: prefix_def)
    have pz: "prefix z (drop 9 t)" using w(1) z by (auto simp: prefix_def)
    have lz: "length w = 9 + length z" using z by simp
    then have "(of_nat (length w) :: u64) - 9 = of_nat (length z)" by simp
    moreover have "parse_uint_token (drop 9 t) (of_nat (length z)) = Some (number z)"
      using number_eq [OF pz] lz w(2) by simp
    moreover have "drop 9 w = z" using z by simp
    ultimately show ?thesis using sc True token_len [OF w(2)]
      by (simp add: plain_token_def token_starts_ascii_def)
  next
    case False
    then show ?thesis using sc token_len [OF w(2)] by (simp add: plain_token_def token_starts_ascii_def)
  qed
qed

lemma agrees_Some: "cut_path o'' = o' \<Longrightarrow> agrees (Some (o', e)) (Inr (o'', e))"
  by (simp add: agrees_def)

lemma option_token_agrees:
  assumes w: "prefix w t" "length w < 2 ^ 32"
  shows "\<exists>r. option_token t (of_nat (length w)) o' = Some r \<and> agrees (word_option w (cut_path o')) r"
proof -
  have e: "token_eq_ascii t (of_nat (length w)) s = Some (w = chars s)" for s
    using token_eq_ascii_eq [of "of_nat (length w)" t s] token_len [OF w(2)] prefix_length_le [OF w(1)] prefix_take [OF w(1)]
    by simp
  have plain: "\<exists>r. plain_token t (of_nat (length w)) o' = Some r
      \<and> agrees (if prefix (chars ''--target='') w then map_option (\<lambda>v. (cut_path o'\<lparr>target := v\<rparr>, False)) (number (drop 9 w))
        else Some (if path (cut_path o') = None then cut_path o'\<lparr>path := Some w, path_len := of_nat (length w)\<rparr> else cut_path o', False))
        (case r of Inl st \<Rightarrow> Inl st | Inr x \<Rightarrow> Inr (x, False))"
    unfolding plain_token_eq [OF w]
    using token_len [OF w(2)] prefix_take [OF w(1)]
    by (auto simp: agrees_def cut_path_update cut_path_def split: option.split)
  then obtain r where r: "plain_token t (of_nat (length w)) o' = Some r"
      "agrees (if prefix (chars ''--target='') w then map_option (\<lambda>v. (cut_path o'\<lparr>target := v\<rparr>, False)) (number (drop 9 w))
        else Some (if path (cut_path o') = None then cut_path o'\<lparr>path := Some w, path_len := of_nat (length w)\<rparr> else cut_path o', False))
        (case r of Inl st \<Rightarrow> Inl st | Inr x \<Rightarrow> Inr (x, False))" by blast
  have pick: "\<exists>x. (if b then Some u else v) = Some x \<and> agrees (if b then u' else v') x"
    if "agrees u' u" "\<exists>x. v = Some x \<and> agrees v' x" for b u v u' v' using that by auto
  show ?thesis unfolding option_token_def word_option_def e Option.bind.simps r(1)
    by (intro pick agrees_Some cut_path_update refl, simp add: cut_path_update, rule exI, rule conjI, rule refl, rule r(2))
qed

lemma parse_token_agrees:
  assumes w: "prefix w t" "length w < 2 ^ 32" and x: "expect_target s = e" "(token_index s = 0) = first"
  shows "\<exists>r. parse_token t (of_nat (length w)) s = Some r
    \<and> (case word_step first e w (cut_path (opts s)) of None \<Rightarrow> r = Inl EFI_INVALID_PARAMETER
       | Some (o', e') \<Rightarrow> \<exists>s'. r = Inr s' \<and> cut_path (opts s') = o' \<and> expect_target s' = e'
            \<and> pos s' = pos s \<and> token_index s' = token_index s + 1)"
proof -
  obtain r where r: "option_token t (of_nat (length w)) (opts s) = Some r" "agrees (word_option w (cut_path (opts s))) r"
    using option_token_agrees [OF w] by blast
  show ?thesis using x r(2)
    by (auto simp: parse_token_def efi_name_eq [OF w] number_eq [OF w] r(1) word_step_def andM_def agrees_def Let_def
        cut_path_update split: option.splits)
qed

section \<open>Finding the words\<close>

lemma skip_spaces_eq:
  "p + n \<le> length cmd \<Longrightarrow> skip_spaces cmd p n = Some (p + length (takeWhile ch_is_space (take n (drop p cmd))))"
proof (induction cmd p n rule: skip_spaces.induct)
  case (2 cmd p n)
  then have "take (Suc n) (drop p cmd) = cmd ! p # take n (drop (Suc p) cmd)"
    by (simp add: Cons_nth_drop_Suc [symmetric])
  then show ?case using 2 by (simp add: peek_in)
qed simp

definition in_token :: "bool \<Rightarrow> CHAR16 \<Rightarrow> bool" where
  "in_token q c \<longleftrightarrow> c \<noteq> 0 \<and> (q \<and> c \<noteq> 0x22 \<or> \<not> q \<and> \<not> ch_is_space c)"

lemma token_end_eq:
  "p + n \<le> length cmd \<Longrightarrow> token_end cmd q p n = Some (p + length (takeWhile (in_token q) (take n (drop p cmd))))"
proof (induction cmd q p n rule: token_end.induct)
  case (2 cmd q p n)
  then have "take (Suc n) (drop p cmd) = cmd ! p # take n (drop (Suc p) cmd)"
    by (simp add: Cons_nth_drop_Suc [symmetric])
  then show ?case using 2 by (simp add: peek_in in_token_def)
qed simp

text \<open>The part of the line from a position on.\<close>

definition rest_of :: "CHAR16 list \<Rightarrow> nat \<Rightarrow> nat \<Rightarrow> CHAR16 list" where
  "rest_of cmd len p = take (len - p) (drop p cmd)"

lemma rest_step: "rest_of cmd len p = xs @ ys \<Longrightarrow> rest_of cmd len (p + length xs) = ys"
  by (simp add: rest_of_def) (metis append_eq_conv_conj diff_diff_left drop_drop drop_take add.commute)

lemma rest_Cons:
  assumes "rest_of cmd len p = c # ys" "len \<le> length cmd"
  shows "p < len" "peek cmd p = Some c"
proof -
  show "p < len" using assms(1) by (auto simp: rest_of_def intro: ccontr)
  then show "peek cmd p = Some c" using assms
    by (simp add: rest_of_def peek_def) (metis Cons_nth_drop_Suc less_le_trans nth_Cons_0 take_Suc_Cons zero_less_diff gr0_conv_Suc list.inject)
qed

lemma rest_Nil: "rest_of cmd len p = [] \<Longrightarrow> len \<le> length cmd \<Longrightarrow> len \<le> p"
  by (auto simp: rest_of_def)

lemma rest_prefix: "rest_of cmd len p = xs @ ys \<Longrightarrow> prefix xs (drop p cmd)"
  by (metis rest_of_def append_take_drop_id prefixI append.assoc)

lemma takeWhile_split: "list_all P xs \<Longrightarrow> ys = [] \<or> \<not> P (hd ys) \<Longrightarrow> takeWhile P (xs @ ys) = xs"
  by (cases ys) (auto simp: list_all_iff takeWhile_append)

text \<open>What may come after a word that is not quoted.\<close>

definition word_stop :: "CHAR16 list \<Rightarrow> bool" where
  "word_stop r \<longleftrightarrow> r = [] \<or> hd r = 0 \<or> ch_is_space (hd r)"

lemma next_token_item:
  assumes r: "rest_of cmd len p = item_text x @ r" and ok: "item_ok x" and len: "len \<le> length cmd"
    and stop: "quoted x \<or> word_stop r"
  shows "\<exists>st. next_token cmd len p = Some (Some (st, st + length (word x), p + length (item_text x)))
    \<and> prefix (word x) (drop st cmd) \<and> rest_of cmd len (p + length (item_text x)) = r \<and> st + length (word x) \<le> len"
proof -
  define body where "body = (if quoted x then 0x22 # word x @ 0x22 # r else word x @ r)"
  have t: "rest_of cmd len p = gap x @ body" using r by (simp add: body_def item_text_def)
  obtain c cs where w: "word x = c # cs" using ok by (cases "word x") (auto simp: item_ok_def)
  obtain b bs where b: "body = b # bs" "b \<noteq> 0" "\<not> ch_is_space b" "b = 0x22 \<longleftrightarrow> quoted x"
    using ok w by (cases "quoted x") (auto simp: body_def item_ok_def ch_is_space_def)
  let ?a = "p + length (gap x)"
  have ra: "rest_of cmd len ?a = b # bs" using rest_step [OF t] b(1) by simp
  note a = rest_Cons [OF ra len]
  have "p + (len - p) \<le> length cmd" using a(1) len by simp
  moreover have "takeWhile ch_is_space (gap x @ body) = gap x"
    using takeWhile_split [of ch_is_space "gap x" body] ok b by (simp add: item_ok_def)
  ultimately have sp: "skip_spaces cmd p (len - p) = Some ?a"
    using skip_spaces_eq [of p "len - p" cmd] t by (simp add: rest_of_def)
  define st where "st = (if quoted x then Suc ?a else ?a)"
  have rs: "rest_of cmd len st = word x @ (if quoted x then 0x22 # r else r)"
  proof (cases "quoted x")
    case True
    then have "rest_of cmd len ?a = [0x22] @ (word x @ 0x22 # r)" using rest_step [OF t] by (simp add: body_def)
    from rest_step [OF this] show ?thesis using True by (simp add: st_def)
  next
    case False
    then show ?thesis using rest_step [OF t] by (simp add: body_def st_def)
  qed
  have sl: "st < len" using rest_Cons(1) [of cmd len st c] rs w len by simp
  have tk: "takeWhile (in_token (quoted x)) (word x @ (if quoted x then 0x22 # r else r)) = word x"
  proof (cases "quoted x")
    case True
    then show ?thesis using ok
      by (intro takeWhile_split) (auto simp: item_ok_def in_token_def list_all_iff)
  next
    case False
    then show ?thesis using ok stop
      by (intro takeWhile_split) (auto simp: item_ok_def in_token_def list_all_iff word_stop_def)
  qed
  have "st + (len - st) \<le> length cmd" using sl len by simp
  then have te: "token_end cmd (quoted x) st (len - st) = Some (st + length (word x))"
    using token_end_eq [of st "len - st" cmd "quoted x"] rs tk by (simp add: rest_of_def)
  have re: "rest_of cmd len (st + length (word x)) = (if quoted x then 0x22 # r else r)" using rest_step [OF rs] .
  have cl: "andM (Some (quoted x \<and> st + length (word x) < len))
      (do { c \<leftarrow> peek cmd (st + length (word x)); Some (c = 0x22) }) = Some (quoted x)"
  proof (cases "quoted x")
    case True
    then show ?thesis using rest_Cons [of cmd len "st + length (word x)" "0x22" r] re len by simp
  qed simp
  have fin: "(if quoted x then Suc (st + length (word x)) else st + length (word x)) = p + length (item_text x)"
    by (simp add: st_def item_text_def)
  have "next_token cmd len p = Some (Some (st, st + length (word x), p + length (item_text x)))"
    unfolding next_token_def sp Option.bind.simps if_not_P [OF leD [OF less_imp_le [OF a(1)]]]
    using a b te cl fin by (simp add: st_def [symmetric] not_le Let_def)
  moreover have "prefix (word x) (drop st cmd)" using rest_prefix [OF rs] .
  moreover have "st + length (word x) \<le> len"
  proof -
    have "length (rest_of cmd len st) \<le> len - st" by (simp add: rest_of_def)
    then show ?thesis using rs sl by simp
  qed
  ultimately show ?thesis using rest_step [OF r] by blast
qed

lemma next_token_end:
  assumes "rest_of cmd len p = t" "line_end t" "len \<le> length cmd" "p < len"
  shows "next_token cmd len p = Some None"
proof -
  let ?g = "takeWhile ch_is_space t"
  have "p + (len - p) \<le> length cmd" using assms(3,4) by simp
  then have sp: "skip_spaces cmd p (len - p) = Some (p + length ?g)"
    using skip_spaces_eq [of p "len - p" cmd] assms(1) by (simp add: rest_of_def)
  have r: "rest_of cmd len (p + length ?g) = dropWhile ch_is_space t"
    using rest_step [of cmd len p ?g "dropWhile ch_is_space t"] assms(1) by simp
  show ?thesis
  proof (cases "dropWhile ch_is_space t")
    case Nil
    then have "len \<le> p + length ?g" using rest_Nil [OF _ assms(3)] r by metis
    then show ?thesis by (simp add: next_token_def sp)
  next
    case (Cons c cs)
    then have "c = 0" using assms(2) by (simp add: line_end_def)
    then show ?thesis using rest_Cons [of cmd len "p + length ?g" c cs] r Cons assms(3)
      by (simp add: next_token_def sp)
  qed
qed

section \<open>The line\<close>

lemma line_stop: "line_ok (x # xs) \<Longrightarrow> line_end t \<Longrightarrow> word_stop (line_text xs @ t)"
proof (cases xs)
  case Nil
  assume "line_end t"
  then show ?thesis using Nil
    by (cases t) (auto simp: line_text_def line_end_def word_stop_def split: if_splits)
next
  case (Cons y ys)
  assume "line_ok (x # xs)"
  then obtain g gs where "gap y = g # gs" "ch_is_space g"
    using Cons by (cases "gap y") (auto simp: line_ok_def item_ok_def)
  then show ?thesis using Cons by (simp add: line_text_def item_text_def word_stop_def)
qed

lemma parse_loop_words:
  assumes len: "len \<le> length cmd" "len < 2 ^ 32" and t: "line_end t"
  shows "rest_of cmd len (pos s) = line_text xs @ t \<Longrightarrow> line_ok xs \<Longrightarrow> unat (token_index s) + length xs < 2 ^ 64
    \<Longrightarrow> \<exists>r. parse_loop cmd len s = Some r
      \<and> (case read_words (token_index s = 0) (expect_target s) (map word xs) (cut_path (opts s)) of
           None \<Rightarrow> r = Inl EFI_INVALID_PARAMETER
         | Some (o', e) \<Rightarrow> \<exists>s'. r = Inr s' \<and> cut_path (opts s') = o' \<and> expect_target s' = e)"
proof (induction xs arbitrary: s)
  case Nil
  show ?case
  proof (cases "pos s < len")
    case True
    then have "next_token cmd len (pos s) = Some None"
      using next_token_end [OF _ t len(1) True] Nil(1) by (simp add: line_text_def)
    then show ?thesis using True by (simp add: parse_loop.simps parse_round_def)
  qed (simp add: parse_loop.simps)
next
  case (Cons x xs)
  have x: "item_ok x" "word x \<noteq> []" using Cons.prems(2) by (simp_all add: line_ok_def item_ok_def)
  have r: "rest_of cmd len (pos s) = item_text x @ (line_text xs @ t)" using Cons.prems(1) by (simp add: line_text_def)
  obtain st where st: "next_token cmd len (pos s) = Some (Some (st, st + length (word x), pos s + length (item_text x)))"
      "prefix (word x) (drop st cmd)" "rest_of cmd len (pos s + length (item_text x)) = line_text xs @ t"
      "st + length (word x) \<le> len"
    using next_token_item [OF r x(1) len(1)] line_stop [OF Cons.prems(2) t] by blast
  note mono = next_token_mono [OF st(1)]
  have p: "pos s < len" by (rule less_le_trans [OF mono(5,4)])
  let ?s = "s\<lparr>pos := pos s + length (item_text x)\<rparr>"
  have l: "length (word x) < 2 ^ 32" using st(4) len(2) by linarith
  obtain q where q: "parse_token (drop st cmd) (of_nat (length (word x))) ?s = Some q"
      "case word_step (token_index ?s = 0) (expect_target ?s) (word x) (cut_path (opts ?s)) of None \<Rightarrow> q = Inl EFI_INVALID_PARAMETER
       | Some (o', e') \<Rightarrow> \<exists>s'. q = Inr s' \<and> cut_path (opts s') = o' \<and> expect_target s' = e'
            \<and> pos s' = pos ?s \<and> token_index s' = token_index ?s + 1"
    using parse_token_agrees [OF st(2) l refl refl, of ?s] by blast
  have round: "parse_round cmd len s = Some (case q of Inl e \<Rightarrow> Inl (Inl e) | Inr s' \<Rightarrow> Inr s')"
    using st(1) x(2) q(1) by (simp add: parse_round_def)
  show ?case
  proof (cases "word_step (token_index s = 0) (expect_target s) (word x) (cut_path (opts s))")
    case None
    then show ?thesis using p round q(2) by (simp add: parse_loop.simps [of cmd len s])
  next
    case (Some z)
    obtain o1 e1 where z: "z = (o1, e1)" by (cases z)
    then obtain s1 where s1: "q = Inr s1" "cut_path (opts s1) = o1" "expect_target s1 = e1"
        "pos s1 = pos s + length (item_text x)" "token_index s1 = token_index s + 1"
      using q(2) Some by auto
    have ti: "unat (token_index s + 1) = unat (token_index s) + 1"
      using Cons.prems(3) by (subst unat_add_le) simp_all
    then have nz: "token_index s1 \<noteq> 0" using s1(5) by (metis unat_0 Suc_eq_plus1 nat.distinct(1))
    have "line_ok xs" using Cons.prems(2) by (cases xs) (auto simp: line_ok_def)
    then have "\<exists>r. parse_loop cmd len s1 = Some r
      \<and> (case read_words (token_index s1 = 0) (expect_target s1) (map word xs) (cut_path (opts s1)) of
           None \<Rightarrow> r = Inl EFI_INVALID_PARAMETER
         | Some (o', e) \<Rightarrow> \<exists>s'. r = Inr s' \<and> cut_path (opts s') = o' \<and> expect_target s' = e)"
      using Cons.IH [of s1] st(3) s1(4,5) ti Cons.prems(3) by simp
    then show ?thesis using p round s1 nz Some z by (simp add: parse_loop.simps [of cmd len s])
  qed
qed

text \<open>The options that a line stands for.\<close>

definition line_options :: "CHAR16 list list \<Rightarrow> OPTIONS option" where
  "line_options ws = (case read_words True False ws default_options of
     Some (o', e) \<Rightarrow> if e then None else Some o' | None \<Rightarrow> None)"

lemma line_length: "line_ok xs \<Longrightarrow> length xs \<le> length (line_text xs)"
proof (induction xs)
  case (Cons x xs)
  then have "item_text x \<noteq> []" "line_ok xs" by (cases xs; auto simp: line_ok_def item_ok_def item_text_def)+
  then show ?case using Cons.IH by (cases "item_text x") (auto simp: line_text_def)
qed simp

lemma parse_options_line:
  assumes E: "uefi_bs E" "\<not> EFI_ERROR (handle_protocol E (trace w @ [HandleProtocol gEfiLoadedImageProtocolGuid]))"
    and l: "LoadOptions img = Some cmd" "LoadOptionsSize img \<noteq> 0" "unat (LoadOptionsSize img) div 2 \<le> length cmd"
    and x: "take (unat (LoadOptionsSize img) div 2) cmd = line_text xs @ t" "line_ok xs" "line_end t"
  shows "\<exists>st o'. parse_options E (Some img) w = Some (st, o', emit (HandleProtocol gEfiLoadedImageProtocolGuid) w)
    \<and> (case line_options (map word xs) of None \<Rightarrow> st = EFI_INVALID_PARAMETER
       | Some o'' \<Rightarrow> st = EFI_SUCCESS \<and> cut_path o' = o'')"
proof -
  let ?len = "unat (LoadOptionsSize img) div 2"
  have n: "?len < 2 ^ 32" using unat_u32_lt [of "LoadOptionsSize img"] by simp
  have "length (line_text xs @ t) \<le> ?len" unfolding x(1) [symmetric] by simp
  then have k: "length xs \<le> ?len" using line_length [OF x(2)] by simp
  have "rest_of cmd ?len (pos start_parse) = line_text xs @ t" using x(1) by (simp add: rest_of_def start_parse_def)
  moreover have "unat (token_index start_parse) + length xs < 2 ^ 64" using k n by (simp add: start_parse_def)
  ultimately obtain r where r: "parse_loop cmd ?len start_parse = Some r"
      "case read_words (token_index start_parse = 0) (expect_target start_parse) (map word xs) (cut_path (opts start_parse)) of
           None \<Rightarrow> r = Inl EFI_INVALID_PARAMETER
         | Some (o', e) \<Rightarrow> \<exists>s'. r = Inr s' \<and> cut_path (opts s') = o' \<and> expect_target s' = e"
    using parse_loop_words [OF l(3) n x(3) _ x(2), of start_parse] by blast
  have r2: "case read_words True False (map word xs) default_options of None \<Rightarrow> r = Inl EFI_INVALID_PARAMETER
         | Some (o', e) \<Rightarrow> \<exists>s'. r = Inr s' \<and> cut_path (opts s') = o' \<and> expect_target s' = e"
    using r(2) by (simp add: start_parse_def cut_path_update)
  show ?thesis
  proof (cases "read_words True False (map word xs) default_options")
    case None
    then show ?thesis using E l r(1) r2 by (simp add: parse_options_def line_options_def)
  next
    case (Some z)
    then show ?thesis using E l r(1) r2 by (cases z) (auto simp: parse_options_def line_options_def)
  qed
qed

section \<open>Numbers\<close>

lemma digits_of_dec:
  "\<forall>c \<in> set buf. is_digit c \<Longrightarrow> \<forall>c \<in> set (con_dec_loop v k buf). is_digit c"
proof (induction v k buf rule: con_dec_loop.induct)
  case (2 v k buf)
  have "is_digit (0x30 + ucast (v mod 10))"
    using unat_digit [of v] mod_less_divisor [of 10 "unat v"] by (simp add: is_digit_def word_le_nat_alt)
  then show ?case using 2 by simp
qed simp

text \<open>A number printed on the console and typed back as an option is the same number modulo two
  to the 32: the option parser reads what the decimal printer writes.\<close>

lemma number_printed: "number (con_dec_chars v) = Some (ucast v)"
proof -
  have dg: "\<forall>c \<in> set (con_dec_chars v). is_digit c"
    using digits_of_dec [of "[]" v 31] by (simp add: con_dec_chars_def is_digit_def)
  have "unat v < 10 ^ 31" using unat_u64_lt [of v] by simp
  from con_dec_loop_val [OF this, of "[]"]
  have val: "digits_val (con_dec_chars v) = unat v"
    by (simp add: con_dec_chars_def digits_val_def)
  have "con_dec_chars v \<noteq> []"
  proof (cases "v = 0")
    case False
    then show ?thesis using val by (auto simp: digits_val_def unat_eq_0)
  qed (simp add: con_dec_chars_def)
  then show ?thesis using dg val by (simp add: number_def list_all_iff)
qed

section \<open>The documented lines\<close>

text \<open>The words of \<open>UfpFfu.efi --flash <ffu> --target=N --yes\<close> and of
  \<open>UfpFfu.efi --usb-ffu --target=N --yes\<close>. A path must not look like an option.\<close>

definition target_word :: "u32 \<Rightarrow> CHAR16 list" where
  "target_word n = chars ''--target='' @ con_dec_chars (ucast n)"

definition flash_words :: "CHAR16 list \<Rightarrow> u32 \<Rightarrow> CHAR16 list list" where
  "flash_words p n = [chars ''UfpFfu.efi'', chars ''--flash'', p, target_word n, chars ''--yes'']"

definition usb_words :: "u32 \<Rightarrow> CHAR16 list list" where
  "usb_words n = [chars ''UfpFfu.efi'', chars ''--usb-ffu'', target_word n, chars ''--yes'']"

definition is_path :: "CHAR16 list \<Rightarrow> bool" where
  "is_path p \<longleftrightarrow> p \<noteq> [] \<and> hd p \<noteq> 0x2d"

lemma option_chars:
  "chars ''--help'' = [0x2d, 0x2d, 0x68, 0x65, 0x6c, 0x70]" "chars ''-h'' = [0x2d, 0x68]"
  "chars ''--list-block'' = [0x2d, 0x2d, 0x6c, 0x69, 0x73, 0x74, 0x2d, 0x62, 0x6c, 0x6f, 0x63, 0x6b]"
  "chars ''--packets'' = [0x2d, 0x2d, 0x70, 0x61, 0x63, 0x6b, 0x65, 0x74, 0x73]"
  "chars ''--info'' = [0x2d, 0x2d, 0x69, 0x6e, 0x66, 0x6f]" "chars ''--flash'' = [0x2d, 0x2d, 0x66, 0x6c, 0x61, 0x73, 0x68]"
  "chars ''--usb-ffu'' = [0x2d, 0x2d, 0x75, 0x73, 0x62, 0x2d, 0x66, 0x66, 0x75]" "chars ''--usb'' = [0x2d, 0x2d, 0x75, 0x73, 0x62]"
  "chars ''--yes'' = [0x2d, 0x2d, 0x79, 0x65, 0x73]" "chars ''--target'' = [0x2d, 0x2d, 0x74, 0x61, 0x72, 0x67, 0x65, 0x74]"
  "chars ''--target='' = [0x2d, 0x2d, 0x74, 0x61, 0x72, 0x67, 0x65, 0x74, 0x3d]"
  "chars ''UfpFfu.efi'' = [0x55, 0x66, 0x70, 0x46, 0x66, 0x75, 0x2e, 0x65, 0x66, 0x69]" "chars ''.efi'' = [0x2e, 0x65, 0x66, 0x69]"
  by code_simp+

lemma target_option:
  "word_option (target_word n) o' = Some (o'\<lparr>target := n\<rparr>, False)"
proof -
  have "unat (ucast (ucast n :: u64) :: u32) = unat (ucast n :: u64)"
    using unat_u32_lt [of n] by (intro unat_ucast_small) simp
  then have "(ucast (ucast n :: u64) :: u32) = n" by (simp add: word_unat_eq_iff)
  then show ?thesis using number_printed [of "ucast n"]
    by (simp add: word_option_def target_word_def option_chars)
qed

lemma path_option:
  "is_path p \<Longrightarrow> path o' = None \<Longrightarrow> word_option p o' = Some (o'\<lparr>path := Some p, path_len := of_nat (length p)\<rparr>, False)"
  by (cases p) (auto simp: word_option_def is_path_def option_chars)

lemma line_options_flash:
  assumes "is_path p"
  shows "line_options (flash_words p n) = Some (default_options\<lparr>flash_option := True, path := Some p,
    path_len := of_nat (length p), target := n, yes := True\<rparr>)"
proof -
  have "efi_name (chars ''UfpFfu.efi'')" by (simp add: efi_name_def option_chars ch_lower_def)
  moreover have "word_option (chars ''--flash'') x = Some (x\<lparr>flash_option := True\<rparr>, False)"
    "word_option (chars ''--yes'') x = Some (x\<lparr>yes := True\<rparr>, False)" for x
    by (simp_all add: word_option_def option_chars)
  ultimately show ?thesis using assms
    by (simp add: line_options_def flash_words_def word_step_def target_option path_option default_options_def del: list.map)
qed

lemma line_options_usb:
  "line_options (usb_words n) = Some (default_options\<lparr>usb_ffu := True, target := n, yes := True\<rparr>)"
proof -
  have "efi_name (chars ''UfpFfu.efi'')" by (simp add: efi_name_def option_chars ch_lower_def)
  moreover have "word_option (chars ''--usb-ffu'') x = Some (x\<lparr>usb_ffu := True\<rparr>, False)"
    "word_option (chars ''--yes'') x = Some (x\<lparr>yes := True\<rparr>, False)" for x
    by (simp_all add: word_option_def option_chars)
  ultimately show ?thesis
    by (simp add: line_options_def usb_words_def word_step_def target_option default_options_def del: list.map)
qed

end
