(* ===== verification/Secure_Session.thy ===== *)
theory Secure_Session
  imports Secure_Spec Stream_Live
begin

text \<open>
  A whole flashing session over USB: a host that sends the payload packets of the protocol
  (\<open>payload_frame\<close>, the packets that \<open>ufp_build_secure_payload_request\<close> builds) and reads one
  answer to each. If the device takes the writes, the loop accepts every packet, writes the
  image and leaves with success.
\<close>

section \<open>One exchange\<close>

definition accepting :: "env \<Rightarrow> bool" where
  "accepting E \<longleftrightarrow> (\<forall>t. \<not> EFI_ERROR (usb_transfer E t))"

definition completed :: "u64 \<Rightarrow> USBFN_TRANSFER_RESULT" where
  "completed n = \<lparr>BytesTransferred = n, TransferStatus = UsbTransferStatusComplete,
     EndpointIndex = USBFN_BULK_ENDPOINT_INDEX\<rparr>"

text \<open>The events of one exchange: the message \<open>m\<close> arrives, and the answer is taken.\<close>

definition exchange :: "bytes \<Rightarrow> usbfn_poll list" where
  "exchange m = [Poll_Rx (completed (of_nat (length m))) m, Poll_Tx (completed 0)]"

lemma recv_exact:
  assumes "usb_ok usb" "accepting E" "polls w = Poll_Rx (completed k) m # ps"
  shows "usb_transport_recv E usb w = Some (Returns (EFI_SUCCESS, k, usb\<lparr>rx := map_option (received m) (rx usb)\<rparr>,
    (emit (TransferOut USBFN_BULK_ENDPOINT_INDEX (max_transfer usb)) w)\<lparr>polls := ps\<rparr>))"
  using assms
  by (simp add: usb_transport_recv_def pump_until_def usb_ok_def Transfer_call_def Let_def accepting_def completed_def)

lemma send_exact:
  assumes ok: "usb_ok usb" and E: "accepting E" and p: "polls w = Poll_Tx (completed k) # ps"
    and n: "unat n \<le> length d" "n \<le> max_transfer usb"
  shows "\<exists>usb'. usb_transport_send E usb (Some d) n w = Some (Returns (EFI_SUCCESS, usb',
      (emit (TransferIn USBFN_BULK_ENDPOINT_INDEX (take (unat n) d)) w)\<lparr>polls := ps\<rparr>))
    \<and> usb_ok usb' \<and> usb_keep usb' = usb_keep usb"
proof -
  obtain t where t: "tx usb = Some t" "length t = unat (max_transfer usb)" using ok by (auto simp: usb_ok_def)
  then have l: "unat n \<le> length t" using n(2) by (simp add: word_le_nat_alt)
  let ?b = "take (unat n) d @ drop (unat n) t"
  have cp: "memcpy t 0 d 0 (unat n) = Some ?b" using l n(1) by (simp add: memcpy_in)
  have ld: "load ?b 0 (unat n) = Some (take (unat n) d)" using n(1) by (simp add: load_def)
  let ?u = "usb\<lparr>tx := Some ?b\<rparr>"
  have io: "io usb" using ok by (simp add: usb_ok_def)
  let ?w = "emit (TransferIn USBFN_BULK_ENDPOINT_INDEX (take (unat n) d)) w"
  define st where "st = usb_transfer E (trace ?w)"
  have st: "\<not> EFI_ERROR st" using E by (simp add: accepting_def st_def)
  have "usb_transport_send E usb (Some d) n w = Some (Returns (EFI_SUCCESS, ?u, ?w\<lparr>polls := ps\<rparr>))"
  proof -
    have tc: "Transfer_call E (TransferIn USBFN_BULK_ENDPOINT_INDEX (take (unat n) d)) w = (st, ?w)"
      by (simp only: Transfer_call_def Let_def st_def)
    have lim: "\<not> max_transfer usb < n" using n(2) by simp
    have pu: "pump_until E False True ?u ?w = Some (Returns (EFI_SUCCESS, 0, ?u, ?w\<lparr>polls := ps\<rparr>))"
      using io p unfolding pump_until_def by (simp add: completed_def)
    show ?thesis
      unfolding usb_transport_send_def option.case t(1) Option.bind.simps cp ld Let_def tc if_not_P [OF lim]
      using io st by (simp add: pu)
  qed
  moreover have "usb_ok ?u" "usb_keep ?u = usb_keep usb"
    using ok t n(1) l by (simp_all add: usb_ok_def usb_keep_def)
  ultimately show ?thesis by blast
qed

text \<open>A round in which the message \<open>m\<close> arrives handles it, followed by what the receive buffer
  held behind it.\<close>

lemma round_receives:
  assumes ok: "loop_ok mt c commit s" and E: "accepting E" and m: "length m \<le> unat mt"
    and p: "polls w = Poll_Rx (completed (of_nat (length m))) m # ps"
  obtains usb v r where "secure_round E dev commit s w = loop_message E dev commit (m @ r) (of_nat (length m)) (s\<lparr>port := usb\<rparr>) v"
    "loop_ok mt c commit (s\<lparr>port := usb\<rparr>)" "polls v = ps" "disk_writes v = disk_writes w" "sent v = sent w"
proof -
  obtain buf where buf: "rx (port s) = Some buf" "length buf = unat mt"
    using ok by (auto simp: loop_ok_def port_ok_def usb_ok_def)
  define usb where "usb = port s\<lparr>rx := map_option (received m) (rx (port s))\<rparr>"
  define v where "v = (emit (TransferOut USBFN_BULK_ENDPOINT_INDEX (max_transfer (port s))) w)\<lparr>polls := ps\<rparr>"
  have uo: "usb_ok (port s)" using ok by (simp add: loop_ok_def port_ok_def)
  have rv: "usb_transport_recv E (port s) w = Some (Returns (EFI_SUCCESS, of_nat (length m), usb, v))"
    unfolding usb_def v_def by (rule recv_exact [OF uo E p])
  have rc: "received m buf = m @ drop (length m) buf" using m buf(2) by (simp add: received_def)
  have "usb_ok usb" "max_transfer usb = max_transfer (port s)"
    using uo buf by (auto simp: usb_def usb_ok_def received_def)
  then have "loop_ok mt c commit (s\<lparr>port := usb\<rparr>)"
    using ok by (simp add: loop_ok_def port_ok_def header_ok_def ready_ok_def)
  moreover have "secure_round E dev commit s w
      = loop_message E dev commit (m @ drop (length m) buf) (of_nat (length m)) (s\<lparr>port := usb\<rparr>) v"
    using rv rc buf by (simp add: secure_round_def usb_def)
  moreover have "polls v = ps" "disk_writes v = disk_writes w" "sent v = sent w"
    by (simp_all add: v_def disk_writes_def)
  ultimately show thesis using that by blast
qed

section \<open>A payload packet\<close>

lemma payload_frame_fields:
  fixes n :: u32
  assumes m: "m = payload_frame pr n fp @ d"
  shows "length (payload_frame pr n fp) = 32" "take 4 m = asc ''NOKX''" "m ! 4 = 0x46" "m ! 5 = 0x53"
    "rd_be16 (drop 6 m) = Some 4" "m ! 8 = (if fp then 100 else pr)" "m ! 11 = 1"
    "rd_be32 (drop 12 m) = Some 0x1b" "rd_be32 (drop 16 m) = Some (n + 12)" "rd_be32 (drop 20 m) = Some n"
    "m ! 24 = 0" "drop 32 m = d"
proof -
  have "drop 6 m = be16_bytes 4 @ drop 8 m" "drop 12 m = be32_bytes 0x1b @ drop 16 m"
    "drop 16 m = be32_bytes (n + 12) @ drop 20 m" "drop 20 m = be32_bytes n @ drop 24 m"
    by (simp_all add: m payload_frame_def be16_bytes_def be32_bytes_def)
  then show "rd_be16 (drop 6 m) = Some 4" "rd_be32 (drop 12 m) = Some 0x1b"
    "rd_be32 (drop 16 m) = Some (n + 12)" "rd_be32 (drop 20 m) = Some n"
    by (metis be16.dec_enc be32.dec_enc)+
qed (simp_all add: m payload_frame_def be32_bytes_def)

lemma payload_dispatch:
  assumes "n \<le> UFP_MAX_PAYLOAD_DATA" "length d = unat n"
  shows "loop_message E dev commit (payload_frame pr n fp @ d @ r) (32 + ucast n) s w
    = payload_message E dev commit (payload_frame pr n fp @ d @ r) (32 + ucast n) 4
        (if fp then 100 else pr) UFP_SEC_SUBBLOCK_PAYLOAD_V2 s w"
    and "payload_check (payload_frame pr n fp @ d @ r) (32 + ucast n) 4 UFP_SEC_SUBBLOCK_PAYLOAD_V2
      = Some (Inr (n, 32))"
proof -
  define m where "m = payload_frame pr n fp @ d @ r"
  note F = payload_frame_fields [OF m_def]
  have l: "32 \<le> length m" using F(1) by (simp add: m_def)
  have u: "unat (32 + ucast n :: u64) = 32 + unat n"
    using unat_u32_lt [of n] by (subst unat_add_le) simp_all
  have ge: "\<not> (32 + ucast n :: u64) < k" if "unat k \<le> 32" for k
    using that u by (simp add: word_less_nat_alt)
  have m4: "m ! 0 = 0x4e" "m ! 1 = 0x4f" "m ! 2 = 0x4b" "m ! 3 = 0x58"
    by (simp_all add: m_def payload_frame_def)
  have pk: "peek m i = Some (m ! i)" if "i < 32" for i using that l by (simp add: peek_in)
  have b: "byte_is m i v = Some (m ! i = v)" if "i < 32" for i v using that l by (simp add: byte_is_in)
  have x: "loop_message E dev commit m (32 + ucast n) s w = extended_message E dev commit m (32 + ucast n) s w"
    unfolding loop_message_def using ge [of 4] ge [of 6] m4 by (simp add: b pk)
  also have "\<dots> = secure_message E dev commit m (32 + ucast n) s w"
    unfolding extended_message_def by (simp add: pk F(3,4))
  also have "\<dots> = payload_message E dev commit m (32 + ucast n) 4 (if fp then 100 else pr) UFP_SEC_SUBBLOCK_PAYLOAD_V2 s w"
    unfolding secure_message_def using ge [of 16] by (simp add: pk F(5-8) ufp_const_defs)
  finally show "loop_message E dev commit (payload_frame pr n fp @ d @ r) (32 + ucast n) s w
    = payload_message E dev commit (payload_frame pr n fp @ d @ r) (32 + ucast n) 4
        (if fp then 100 else pr) UFP_SEC_SUBBLOCK_PAYLOAD_V2 s w" unfolding m_def .
  show "payload_check (payload_frame pr n fp @ d @ r) (32 + ucast n) 4 UFP_SEC_SUBBLOCK_PAYLOAD_V2
      = Some (Inr (n, 32))"
    unfolding payload_check_def m_def [symmetric] using ge [of 25] assms(1)
    by (simp add: F(9-11) pk payload_layout_def ufp_const_defs not_less)
qed

text \<open>The flasher writes blocks and sends nothing.\<close>

lemma stream_location_sent:
  "stream_location E H ctx e s l w = Some (st, ctx', w') \<Longrightarrow> sent w' = sent w"
  by (auto simp: stream_location_def Let_def WriteBlocks_call_def split: Option.bind_splits if_splits prod.splits)

lemma stream_locations_sent:
  "stream_locations E H ctx e s n l w = Some (st, ctx', w') \<Longrightarrow> sent w' = sent w"
  by (induction n arbitrary: ctx l w)
    (auto dest: stream_location_sent split: Option.bind_splits if_splits)

lemma stream_step_sent:
  "stream_step E H ctx data len pos w = Some (Inl (st, ctx', w')) \<Longrightarrow> sent w' = sent w"
  "stream_step E H ctx data len pos w = Some (Inr (ctx', pos', w')) \<Longrightarrow> sent w' = sent w"
  by (auto simp: stream_step_def stream_write_completed_entry_def Let_def
      dest: stream_locations_sent split: Option.bind_splits if_splits)

lemma payload_loop_sent:
  "payload_loop E H ctx data len pos w = Some (st, ctx', w') \<Longrightarrow> sent w' = sent w"
proof (induction E H ctx data len pos w rule: payload_loop.induct)
  case (1 E H ctx data len pos w)
  show ?case
  proof (cases "pos < len")
    case True
    obtain r where r: "stream_step E H ctx data len pos w = Some r"
      using 1(2) True by (cases "stream_step E H ctx data len pos w") (simp_all add: payload_loop.simps)
    show ?thesis
    proof (cases r)
      case (Inl x)
      then show ?thesis using 1(2) True r by (cases x) (simp add: payload_loop.simps stream_step_sent)
    next
      case (Inr x)
      obtain c' pos' v where x: "x = (c', pos', v)" by (cases x)
      have "payload_loop E H c' data len pos' v = Some (st, ctx', w')"
        using 1(2) True r Inr x by (simp add: payload_loop.simps [of E H ctx])
      then show ?thesis
        using 1(1) [OF True r Inr x [symmetric] refl] stream_step_sent(2) [OF r [unfolded Inr x]] by simp
    qed
  qed (use 1(2) in \<open>simp add: payload_loop.simps\<close>)
qed

lemma payload_sent:
  "ffu_stream_flash_payload E H ctx (Some d) n w = Some (st, ctx', w') \<Longrightarrow> sent w' = sent w"
  by (auto simp: ffu_stream_flash_payload_def dest: payload_loop_sent split: Option.bind_splits if_splits)

text \<open>A payload packet whose data the flasher takes is answered with status 0; the last one of
  the image ends the session.\<close>

lemma payload_message_exact:
  fixes n :: u32
  assumes ok: "loop_ok mt c True s" and rd: "flash_ready s" and E: "accepting E" and mt: "36 \<le> mt"
    and d: "n \<le> UFP_MAX_PAYLOAD_DATA" "length d = unat n"
    and f: "if n = 0 then ctx = flash s \<and> v = w
      else ffu_stream_flash_payload E (mem s) (flash s) (Some d) n w = Some (EFI_SUCCESS, ctx, v)"
    and inv: "stream_inv (mem s) p ctx" "config ctx = config (flash s)"
    and p: "polls v = Poll_Tx (completed k) # ps"
    and fin: "fp \<longrightarrow> ffu_stream_flash_done ctx" "pr \<noteq> 100"
  shows "\<exists>s' w'. loop_message E dev True (payload_frame pr n fp @ d @ r) (32 + ucast n) s w
      = Some (Returns (if fp then Leave EFI_SUCCESS else Next, s', w'))
    \<and> loop_ok mt c True s' \<and> flash s' = ctx \<and> mem s' = mem s \<and> flash_ready s'
    \<and> disk_writes w' = disk_writes v \<and> polls w' = ps
    \<and> sent w' = sent w @ [status_frame 0 0 0xffffffff (last_sector ctx) (if fp then 1 else 0)]"
proof -
  let ?m = "payload_frame pr n fp @ d @ r" and ?len = "32 + ucast n :: u64"
  let ?s = "s\<lparr>flash := ctx\<rparr>" and ?fs = "if fp then 1 else 0 :: u8"
  let ?f = "status_frame 0 0 0xffffffff (last_sector ctx) ?fs"
  have ok': "loop_ok mt c True ?s" by (rule loop_ok_flash [OF ok rd inv])
  note F = payload_frame_fields(12) [OF refl, of pr n fp "d @ r"]
  have "n \<noteq> 0 \<Longrightarrow> ffu_stream_flash_payload E (mem s) (flash s) (Some (d @ r)) n w = Some (EFI_SUCCESS, ctx, v)"
    using payload_prefix [of n "d @ r" E "mem s" "flash s" w] f d(2) by simp
  then have feed: "payload_feed E ?m n 32 s w = Some (0, 0, ?s, v)"
    using rd f by (simp add: payload_feed_def F)
  have sv: "sent v = sent w" using f payload_sent by (auto split: if_splits)
  have "(36 :: u64) \<le> max_transfer (port s)" "usb_ok (port s)" using ok mt by (simp_all add: loop_ok_def port_ok_def)
  then obtain usb' where snd: "usb_transport_send E (port s) (Some (?f @ drop 36 (stack 64))) 36 v
      = Some (Returns (EFI_SUCCESS, usb', (emit (TransferIn USBFN_BULK_ENDPOINT_INDEX ?f) v)\<lparr>polls := ps\<rparr>))"
      "usb_ok usb'" "usb_keep usb' = usb_keep (port s)"
    using send_exact [OF _ E p, of "port s" 36 "?f @ drop 36 (stack 64)"] by (auto simp: async_frame_lengths)
  let ?u = "(emit (TransferIn USBFN_BULK_ENDPOINT_INDEX ?f) v)\<lparr>polls := ps\<rparr>"
  let ?v = "con_crlf E (say E ''USB FFU flashing completed.'' ?u)"
  let ?w = "if fp then if FlushBlocks dev then snd (FlushBlocks_call E ?v) else ?v else ?u"
  have prog: "(if (if fp then 100 else pr) = 100 \<and> ffu_stream_flash_done ctx then 1 else 0) = ?fs"
    "(if (if fp then 100 else pr) = 100 \<and> ?fs = 0 \<and> (0 :: u16) = 0 then 8 else 0) = (0 :: u16)"
    using fin by auto
  have eq: "loop_message E dev True ?m ?len s w = Some (Returns (if fp then Leave EFI_SUCCESS else Next, ?s\<lparr>port := usb'\<rparr>, ?w))"
    unfolding payload_dispatch(1) [OF d(1,2)] payload_message_def payload_dispatch(2) [OF d(1,2)]
      Option.bind.simps sum.case prod.case feed Let_def
    using prog snd(1) by (simp add: frames_64 async_frame_lengths)
  have "loop_ok mt c True (?s\<lparr>port := usb'\<rparr>)" using loop_ok_port [OF ok'] snd(2,3) by simp
  moreover have "disk_writes ?w = disk_writes v" "polls ?w = ps" "sent ?w = sent w @ [?f]"
    using sv by (simp_all add: FlushBlocks_call_def Let_def say_def)
  ultimately show ?thesis using eq rd by (intro exI [of _ "?s\<lparr>port := usb'\<rparr>"] exI [of _ ?w]) simp
qed

section \<open>The session\<close>

text \<open>The packet that carries the bytes \<open>d\<close>; \<open>packets_of\<close> marks the last one of the image, which
  may be empty.\<close>

definition packet_of :: "u8 \<Rightarrow> bool \<Rightarrow> bytes \<Rightarrow> bytes" where
  "packet_of pr final d = payload_frame pr (of_nat (length d)) final @ d"

fun packets_of :: "u8 \<Rightarrow> bytes list \<Rightarrow> bytes list" where
  "packets_of pr [] = []"
| "packets_of pr [d] = [packet_of pr True d]"
| "packets_of pr (d # ds) = packet_of pr False d # packets_of pr ds"

definition packet_fits :: "u64 \<Rightarrow> bytes \<Rightarrow> bool" where
  "packet_fits mt d \<longleftrightarrow> length d \<le> unat UFP_MAX_PAYLOAD_DATA \<and> 32 + length d \<le> unat mt"

lemma packet_length:
  assumes "packet_fits mt d"
  defines "n \<equiv> of_nat (length d) :: u32"
  shows "unat n = length d" "n \<le> UFP_MAX_PAYLOAD_DATA" "n = 0 \<longleftrightarrow> d = []"
    "of_nat (length (packet_of pr fp d)) = (32 + ucast n :: u64)"
proof -
  have l: "length d \<le> 0x1FFC18" using assms(1) by (simp add: packet_fits_def UFP_MAX_PAYLOAD_DATA_def)
  then show u: "unat n = length d" by (simp add: n_def unat_of_nat)
  then show "n \<le> UFP_MAX_PAYLOAD_DATA" using assms(1) by (simp add: packet_fits_def word_le_nat_alt)
  show "n = 0 \<longleftrightarrow> d = []" using u by (metis length_0_conv unat_eq_0)
  have "(ucast n :: u64) = of_nat (length d)" by (simp flip: u)
  then show "of_nat (length (packet_of pr fp d)) = (32 + ucast n :: u64)" by (simp add: packet_of_def)
qed

lemma payload_packet_round:
  assumes ok: "loop_ok mt c True s" and rd: "flash_ready s" and mt: "36 \<le> mt"
    and E: "accepting E" "writes_succeed E" and d: "packet_fits mt d" and pr: "pr \<noteq> 100"
    and inv: "stream_inv (mem s) p (flash s)" "live (flash s)" "flashable p (flash s)"
    and room: "length d \<le> missing (flash s)"
    and c: "consume (emits p (flash s)) (fst (pending (flash s))) (snd (pending (flash s)) @ d) = (ws, es, b)"
    and p: "polls w = exchange (packet_of pr fp d) @ ps" and fp: "fp \<Longrightarrow> es = []"
  shows "\<exists>s' w' ls. secure_round E dev True s w = Some (Returns (if fp then Leave EFI_SUCCESS else Next, s', w'))
    \<and> loop_ok mt c True s' \<and> flash_ready s' \<and> mem s' = mem s \<and> config (flash s') = config (flash s)
    \<and> stream_inv (mem s') p (flash s') \<and> live (flash s') \<and> pending (flash s') = (es, b)
    \<and> missing (flash s') = missing (flash s) - length d
    \<and> disk_writes w' = disk_writes w @ ws \<and> polls w' = ps
    \<and> sent w' = sent w @ [status_frame 0 0 0xffffffff ls (if fp then 1 else 0)]"
proof -
  define n :: u32 where "n = of_nat (length d)"
  note n = packet_length [OF d, folded n_def]
  let ?m = "packet_of pr fp d"
  have lm: "length ?m \<le> unat mt" using d by (simp add: packet_of_def packet_fits_def)
  have p': "polls w = Poll_Rx (completed (of_nat (length ?m))) ?m # Poll_Tx (completed 0) # ps"
    using p by (simp add: exchange_def)
  obtain usb v r where rc: "secure_round E dev True s w
        = loop_message E dev True (?m @ r) (of_nat (length ?m)) (s\<lparr>port := usb\<rparr>) v"
      "loop_ok mt c True (s\<lparr>port := usb\<rparr>)" "polls v = Poll_Tx (completed 0) # ps" "disk_writes v = disk_writes w"
      "sent v = sent w"
    using round_receives [OF ok E(1) lm p'] by blast
  let ?s = "s\<lparr>port := usb\<rparr>"
  have eq: "secure_round E dev True s w = loop_message E dev True (payload_frame pr n fp @ d @ r) (32 + ucast n) ?s v"
    using rc(1) unfolding n(4) by (simp add: packet_of_def n_def)
  have "\<exists>ctx' w'. (if n = 0 then ctx' = flash s \<and> w' = v
      else ffu_stream_flash_payload E (mem s) (flash s) (Some d) n v = Some (EFI_SUCCESS, ctx', w'))
    \<and> stream_inv (mem s) p ctx' \<and> live ctx' \<and> config ctx' = config (flash s) \<and> pending ctx' = (es, b)
    \<and> missing ctx' = missing (flash s) - length d \<and> disk_writes w' = disk_writes v @ ws \<and> polls w' = polls v"
  proof (cases "n = 0")
    case True
    then have "d = []" using n(3) by simp
    moreover have "ws = []" "pending (flash s) = (es, b)"
      using live_consume [OF inv(1,2), of "emits p (flash s)"] c \<open>d = []\<close> by simp_all
    ultimately show ?thesis using True inv by (intro exI [of _ "flash s"] exI [of _ v]) simp
  next
    case False
    then show ?thesis using payload_succeeds [OF inv(1,2) n(1) inv(3) E(2) room c, of v] by auto
  qed
  then obtain ctx' w' where f: "if n = 0 then ctx' = flash s \<and> w' = v
      else ffu_stream_flash_payload E (mem s) (flash s) (Some d) n v = Some (EFI_SUCCESS, ctx', w')"
    "stream_inv (mem s) p ctx'" "live ctx'" "config ctx' = config (flash s)" "pending ctx' = (es, b)"
    "missing ctx' = missing (flash s) - length d" "disk_writes w' = disk_writes v @ ws" "polls w' = polls v"
    by auto
  have dn: "fp \<longrightarrow> ffu_stream_flash_done ctx'" using done_pending [OF f(2)] fp f(5) by simp
  have pv: "polls w' = Poll_Tx (completed 0) # ps" using f(8) rc(3) by simp
  obtain s' u where m: "loop_message E dev True (payload_frame pr n fp @ d @ r) (32 + ucast n) ?s v
      = Some (Returns (if fp then Leave EFI_SUCCESS else Next, s', u))"
    "loop_ok mt c True s'" "flash s' = ctx'" "mem s' = mem s" "flash_ready s'"
    "disk_writes u = disk_writes w'" "polls u = ps"
    "sent u = sent v @ [status_frame 0 0 0xffffffff (last_sector ctx') (if fp then 1 else 0)]"
    using payload_message_exact [OF rc(2), where E = E and n = n and d = d and ctx = ctx' and v = w' and w = v and p = p and k = 0
        and ps = ps and fp = fp and pr = pr and dev = dev and r = r]
      rd E(1) mt n f(1,2,4) pv dn pr by auto
  then show ?thesis using eq f rc(4,5)
    by (intro exI [of _ s'] exI [of _ u] exI [of _ "last_sector ctx'"]) simp
qed

text \<open>The answers to a session that completes: status 0, and 1 for the final state of the last.\<close>

fun acks :: "u32 list \<Rightarrow> bytes list" where
  "acks [] = []"
| "acks [l] = [status_frame 0 0 0xffffffff l 1]"
| "acks (l # ls) = status_frame 0 0 0xffffffff l 0 # acks ls"

lemma packets_Cons: "ds \<noteq> [] \<Longrightarrow> packets_of pr (d # ds) = packet_of pr False d # packets_of pr ds"
  by (cases ds) simp_all

lemma acks_Cons: "ls \<noteq> [] \<Longrightarrow> acks (l # ls) = status_frame 0 0 0xffffffff l 0 # acks ls"
  by (cases ls) simp_all

definition session_ok :: "bytes \<Rightarrow> LOOP \<Rightarrow> bool" where
  "session_ok p s \<longleftrightarrow> flash_ready s \<and> stream_inv (mem s) p (flash s) \<and> live (flash s) \<and> flashable p (flash s)"

lemma session_rounds:
  assumes E: "accepting E" "writes_succeed E" and mt: "36 \<le> mt" and pr: "pr \<noteq> 100"
  shows "ds \<noteq> [] \<Longrightarrow> loop_ok mt c True s \<Longrightarrow> session_ok p s \<Longrightarrow> \<forall>d \<in> set ds. packet_fits mt d
    \<Longrightarrow> length (concat ds) = missing (flash s) \<Longrightarrow> polls w = concat (map exchange (packets_of pr ds)) @ ps
    \<Longrightarrow> length ds \<le> fuel
    \<Longrightarrow> consume (emits p (flash s)) (fst (pending (flash s))) (snd (pending (flash s)) @ concat ds) = (ws, [], [])
    \<Longrightarrow> \<exists>s' w' ls. secure_loop E dev True fuel s w = Some (Returns (EFI_SUCCESS, s', w'))
      \<and> loop_ok mt c True s' \<and> ffu_stream_flash_done (flash s') \<and> disk_writes w' = disk_writes w @ ws \<and> polls w' = ps
      \<and> length ls = length ds \<and> sent w' = sent w @ acks ls"
proof (induction ds arbitrary: s w fuel ws)
  case Nil
  then show ?case by simp
next
  case (Cons d ds)
  note so = Cons.prems(3) [unfolded session_ok_def]
  obtain fuel' where fu: "fuel = Suc fuel'" using Cons.prems(7) by (cases fuel) simp_all
  let ?f = "emits p (flash s)" and ?es = "fst (pending (flash s))" and ?b = "snd (pending (flash s))"
  obtain ws1 es b where c1: "consume ?f ?es (?b @ d) = (ws1, es, b)" by (metis surj_pair)
  obtain ws2 r where c2: "consume ?f es (b @ concat ds) = (ws2, r)" by (metis surj_pair)
  have "(ws, [], []) = (ws1 @ ws2, r)"
    using Cons.prems(8) consume_append [of ?f ?es "?b @ d" "concat ds"] c1 c2 by simp
  then have ws: "ws = ws1 @ ws2" "r = ([], [])" by simp_all
  have lens: "length d \<le> missing (flash s)" "length (concat ds) = missing (flash s) - length d"
    using Cons.prems(5) by simp_all
  have pf: "packet_fits mt d" using Cons.prems(4) by simp
  show ?case
  proof (cases "ds = []")
    case True
    then have e: "es = [] \<and> b = []" "ws2 = []"
      using c2 ws(2) consume_length [OF c2 [unfolded ws(2)]] Cons.prems(8) c1 by simp_all
    have p: "polls w = exchange (packet_of pr True d) @ ps" using Cons.prems(6) True by simp
    obtain s' w' l where x: "secure_round E dev True s w = Some (Returns (Leave EFI_SUCCESS, s', w'))"
      "loop_ok mt c True s'" "stream_inv (mem s') p (flash s')" "pending (flash s') = (es, b)"
      "disk_writes w' = disk_writes w @ ws1" "polls w' = ps" "sent w' = sent w @ [status_frame 0 0 0xffffffff l 1]"
      using payload_packet_round [OF Cons.prems(2) _ mt E pf pr, of p ws1 es b w True ps dev] so lens(1) c1 p e by auto
    have "ffu_stream_flash_done (flash s')" using done_pending [OF x(3)] x(4) e by simp
    then show ?thesis using x True ws e fu
      by (intro exI [of _ s'] exI [of _ w'] exI [of _ "[l]"]) simp
  next
    case False
    have p: "polls w = exchange (packet_of pr False d) @ concat (map exchange (packets_of pr ds)) @ ps"
      using Cons.prems(6) False by (simp add: packets_Cons)
    obtain s1 w1 l where x: "secure_round E dev True s w = Some (Returns (Next, s1, w1))"
      "loop_ok mt c True s1" "flash_ready s1" "config (flash s1) = config (flash s)"
      "stream_inv (mem s1) p (flash s1)" "live (flash s1)" "pending (flash s1) = (es, b)"
      "missing (flash s1) = missing (flash s) - length d"
      "disk_writes w1 = disk_writes w @ ws1" "polls w1 = concat (map exchange (packets_of pr ds)) @ ps"
      "sent w1 = sent w @ [status_frame 0 0 0xffffffff l 0]"
      using payload_packet_round [OF Cons.prems(2) _ mt E pf pr, of p ws1 es b w False "concat (map exchange (packets_of pr ds)) @ ps" dev]
        so lens(1) c1 p by auto
    have so1: "session_ok p s1" using x(3,5,6) so flashable_config [OF x(4)] by (simp add: session_ok_def)
    have c3: "consume (emits p (flash s1)) (fst (pending (flash s1))) (snd (pending (flash s1)) @ concat ds) = (ws2, [], [])"
      using c2 ws(2) x(7) emits_config [OF x(4)] by simp
    obtain s' w' ls where y: "secure_loop E dev True fuel' s1 w1 = Some (Returns (EFI_SUCCESS, s', w'))"
      "loop_ok mt c True s'" "ffu_stream_flash_done (flash s')" "disk_writes w' = disk_writes w1 @ ws2" "polls w' = ps"
      "length ls = length ds" "sent w' = sent w1 @ acks ls"
      using Cons.IH [OF False x(2) so1 _ _ x(10) _ c3, of fuel'] Cons.prems(4,7) lens(2) x(8) fu by auto
    then have "ls \<noteq> []" using False by auto
    then show ?thesis using x(1,9,11) y ws(1) fu
      by (intro exI [of _ s'] exI [of _ w'] exI [of _ "l # ls"]) (simp add: acks_Cons)
  qed
qed

text \<open>Nothing is missing from the image any more, so all of it has been written, in order.\<close>

lemma session_completes:
  assumes E: "accepting E" "writes_succeed E" and mt: "36 \<le> mt" and pr: "pr \<noteq> 100"
    and ok: "loop_ok mt c True s" "session_ok p s"
    and start: "pending (flash s) = (entries (plan (flash s)), [])"
    and ds: "ds \<noteq> []" "\<forall>d \<in> set ds. packet_fits mt d" "length (concat ds) = image_bytes (entries (plan (flash s)))"
    and w: "polls w = concat (map exchange (packets_of pr ds)) @ ps" "length ds \<le> fuel"
  shows "\<exists>s' w' ls. secure_loop E dev True fuel s w = Some (Returns (EFI_SUCCESS, s', w'))
      \<and> ffu_stream_flash_done (flash s')
      \<and> disk_writes w' = disk_writes w @ image_writes (emits p (flash s)) (entries (plan (flash s))) (concat ds)
      \<and> polls w' = ps \<and> length ls = length ds \<and> sent w' = sent w @ acks ls"
proof -
  have "stream_inv (mem s) p (flash s)" using ok(2) by (simp add: session_ok_def)
  then have "length (concat ds) = missing (flash s)" using missing_pending(1) start ds(3) by simp
  moreover have "consume (emits p (flash s)) (fst (pending (flash s))) (snd (pending (flash s)) @ concat ds)
      = (image_writes (emits p (flash s)) (entries (plan (flash s))) (concat ds), [], [])"
    using consume_complete [OF ds(3)] start by simp
  ultimately show ?thesis using session_rounds [OF E mt pr ds(1) ok ds(2) _ w] by blast
qed

end
