(* ===== verification/Parse_Stable.thy ===== *)
theory Parse_Stable
  imports Parse_Agree
begin

text \<open>
  The header parser looks at the bytes of the header only: what lies behind them in the
  buffer, what the world has been through before and what was parsed earlier have no
  influence on a success. So a header that was assembled in a larger buffer, after any
  exchange of messages, is accepted if the header is.
\<close>

definition same_head :: "bytes \<Rightarrow> bytes \<Rightarrow> u64 \<Rightarrow> bool" where
  "same_head data data' sz \<longleftrightarrow> unat sz \<le> length data \<and> unat sz \<le> length data'
     \<and> take (unat sz) data = take (unat sz) data'"

lemma same_head_read:
  assumes "same_head data data' sz"
  shows "mem_read_exact (Some data) sz off n = mem_read_exact (Some data') sz off n"
proof -
  have l: "unat sz \<le> length data" "unat sz \<le> length data'" and t: "take (unat sz) data = take (unat sz) data'"
    using assms by (simp_all add: same_head_def)
  show ?thesis
  proof (cases "unat off + unat n \<le> unat sz")
    case True
    then have cut: "take (unat n) (drop (unat off) x) = take (unat n) (drop (unat off) (take (unat sz) x))" for x :: bytes
      by (simp add: drop_take min_absorb1)
    have "take (unat n) (drop (unat off) data) = take (unat n) (drop (unat off) data')"
      by (subst cut, subst t, rule cut [symmetric])
    then show ?thesis using True unfolding mem_read_exact_in [OF l(1)] mem_read_exact_in [OF l(2)] by simp
  qed (simp add: mem_read_exact_in [OF l(1)] mem_read_exact_in [OF l(2)])
qed

lemma security_stable:
  assumes "same_head data data' sz" "hdr_security data sz ps = Some (Inr ps1)"
  shows "hdr_security data' sz (as_file vs w ps) = Some (Inr (as_file vs w ps1))"
  using assms(2)
  by (auto simp: hdr_security_def same_head_read [OF assms(1)] check_security_as_file split: section_splits)

lemma image_stable:
  assumes "same_head data data' sz" "hdr_image data sz ps = Some (Inr ps1)"
  shows "hdr_image data' sz (as_file vs w ps) = Some (Inr (as_file vs w ps1))"
  using assms(2)
  by (auto simp: hdr_image_def same_head_read [OF assms(1)] check_image_sig_as_file check_image_body_as_file
      split: section_splits)

lemma validation_stable:
  assumes "same_head data data' sz"
  shows "hdr_validation data sz n ps = Some (Inr ps1)
    \<Longrightarrow> hdr_validation data' sz n (as_file vs w ps) = Some (Inr (as_file vs w ps1))"
  by (induction n arbitrary: ps)
    (auto simp: same_head_read [OF assms] Let_def split: section_splits)

lemma store_v2_stable:
  assumes "same_head data data' sz" "hdr_store_v2 data sz ps = Some (Inr (n, ps1))"
  shows "hdr_store_v2 data' sz (as_file vs w ps) = Some (Inr (n, as_file vs w ps1))"
  using assms(2)
  by (auto simp: hdr_store_v2_def same_head_read [OF assms(1)] Let_def split: section_splits)

lemma descriptors_stable:
  assumes hd: "same_head data data' sz" and mem: "memory_ok E"
    and "hdr_descriptors E0 data sz bs i n rel ps = Some (Inr (rel1, ps1))"
  shows "\<exists>w'. hdr_descriptors E data' sz bs i n rel (as_file vs w ps) = Some (Inr (rel1, as_file vs w' ps1))"
  using assms(3)
proof (induction n arbitrary: ps rel w)
  case 0
  then show ?case by auto
next
  case (Suc n)
  obtain st wh locs blocks st' pl cap v where
    wh: "mem_read_exact (Some data) sz (ps_cursor ps) 8 = Some (st, wh)" "\<not> EFI_ERROR st"
    and f: "rd_le32 wh = Some locs" "rd_le32 (drop 4 wh) = Some blocks" "locs \<noteq> 0" "blocks \<noteq> 0"
      "\<not> sz < ps_cursor ps + 8 + ucast locs * 8" "\<not> 0xffffffff < (ucast bs * ucast blocks :: u64)"
    and app: "append_entry E0 (ps_plan ps) (ps_entry_cap ps) (make_entry rel (ps_cursor ps) (ucast bs * ucast blocks) blocks locs i)
       (ps_world ps) = Some (st', pl, cap, v)" "\<not> EFI_ERROR st'"
    and rest: "hdr_descriptors E0 data sz bs i n (rel + ucast bs * ucast blocks) (ps\<lparr>ps_plan := pl, ps_entry_cap := cap, ps_world := v,
      ps_cursor := ps_cursor ps + (8 + ucast locs * 8)\<rparr>) = Some (Inr (rel1, ps1))"
    using Suc.prems by (rule hdr_descriptors_success)
  let ?bytes = "ucast bs * ucast blocks :: u64"
  let ?e = "make_entry rel (ps_cursor ps) ?bytes blocks locs i"
  let ?next = "\<lambda>pl cap v. ps\<lparr>ps_plan := pl, ps_entry_cap := cap, ps_world := v,
      ps_cursor := ps_cursor ps + (8 + ucast locs * 8)\<rparr>"
  obtain w2 where a: "append_entry E ((ps_plan ps)\<lparr>file_size := vs\<rparr>) (ps_entry_cap ps) ?e w
      = Some (EFI_SUCCESS, pl\<lparr>file_size := vs\<rparr>, cap, w2)"
    using append_entry_as_file [OF mem app] by blast
  have fin: "(as_file vs w ps)\<lparr>ps_plan := pl\<lparr>file_size := vs\<rparr>, ps_entry_cap := cap, ps_world := w2,
      ps_cursor := ps_cursor ps + (8 + ucast locs * 8)\<rparr> = as_file vs w2 (?next pl cap v)"
    by (simp add: as_file_def)
  show ?case using Suc.IH [OF rest, of w2] wh a f
    by (simp add: Let_def fin same_head_read [OF hd, symmetric])
qed

lemma store_stable:
  assumes hd: "same_head data data' sz" and mem: "memory_ok E" and h: "hdr_store E0 data sz ps = Some (Inr ps1)"
  shows "\<exists>w'. hdr_store E data' sz (as_file vs w ps) = Some (Inr (as_file vs w' ps1))"
proof -
  obtain st0 sh marker psize p2 bs dc rel p3 st pl cap v where
    sh: "mem_read_exact (Some data) sz (store_cursor ps) FFU_STORE_HEADER_V1_SIZE = Some (st0, sh)" "\<not> EFI_ERROR st0"
    and mk: "rd_le16 (drop 4 sh) = Some marker"
    and v2: "(if marker = 2 then hdr_store_v2 data sz (after_store_header ps) else Some (Inr (0, after_store_header ps)))
      = Some (Inr (psize, p2))"
    and ch: "check_store_header sh = Some (Inr (bs, dc))"
    and ds: "hdr_descriptors E0 data sz bs (store_count (ps_plan ps)) (unat dc) 0 p2 = Some (Inr (rel, p3))"
    and app: "append_store E0 (ps_plan p3) (ps_store_cap p3) (make_store (store_cursor ps) (ps_cursor p2) psize bs dc
       (entry_count (ps_plan p2)) rel) (ps_world p3) = Some (st, pl, cap, v)" "\<not> EFI_ERROR st"
    and p: "ps1 = p3\<lparr>ps_plan := pl, ps_store_cap := cap, ps_world := v\<rparr>"
    using h by (rule hdr_store_success)
  let ?c = "store_cursor ps" and ?p1 = "after_store_header ps"
  let ?st = "make_store ?c (ps_cursor p2) psize bs dc (entry_count (ps_plan p2)) rel"
  have r2: "(if marker = 2 then hdr_store_v2 data' sz (as_file vs w ?p1) else Some (Inr (0, as_file vs w ?p1)))
      = Some (Inr (psize, as_file vs w p2))"
    using v2 store_v2_stable [OF hd, of ?p1 psize p2 vs w] by (cases "marker = 2") auto
  obtain w3 where r3: "hdr_descriptors E data' sz bs (store_count (ps_plan ps)) (unat dc) 0 (as_file vs w p2)
      = Some (Inr (rel, as_file vs w3 p3))"
    using descriptors_stable [OF hd mem ds] by blast
  obtain w4 where r4: "append_store E ((ps_plan p3)\<lparr>file_size := vs\<rparr>) (ps_store_cap p3) ?st w3
      = Some (EFI_SUCCESS, pl\<lparr>file_size := vs\<rparr>, cap, w4)"
    using append_store_as_file [OF mem app] by blast
  have fin: "(as_file vs w3 p3)\<lparr>ps_plan := pl\<lparr>file_size := vs\<rparr>, ps_store_cap := cap, ps_world := w4\<rparr> = as_file vs w4 ps1"
    by (simp add: as_file_def p)
  have "hdr_store E data' sz (as_file vs w ps) = Some (Inr (as_file vs w4 ps1))"
    using mk ch sh by (simp add: hdr_store_def Let_def store_cursor_def [symmetric] same_head_read [OF hd, symmetric]
        after_store_header_def [symmetric] r2 r3 r4 fin)
  then show ?thesis by blast
qed

lemma stores_stable:
  assumes mem: "memory_ok E"
  shows "same_head data data' sz \<Longrightarrow> hdr_stores E0 data sz ps = Some (Inr ps1)
    \<Longrightarrow> \<exists>w'. hdr_stores E data' sz (as_file vs w ps) = Some (Inr (as_file vs w' ps1))"
proof (induction E0 data sz ps arbitrary: w rule: hdr_stores.induct)
  case (1 E0 data sz ps)
  show ?case
  proof (cases "store_count (ps_plan ps) < ps_desired ps")
    case True
    then obtain p2 where p2: "hdr_store E0 data sz ps = Some (Inr p2)" and rest: "hdr_stores E0 data sz p2 = Some (Inr ps1)"
      using 1(3) by (subst (asm) hdr_stores.simps) (auto split: option.splits sum.splits)
    obtain w1 where "hdr_store E data' sz (as_file vs w ps) = Some (Inr (as_file vs w1 p2))"
      using store_stable [OF 1(2) mem p2] by blast
    then show ?thesis
      using 1(1) [OF True p2 refl 1(2) rest, of w1] True by (subst hdr_stores.simps) simp
  qed (use 1(3) in \<open>auto simp: hdr_stores.simps\<close>)
qed

lemma parse_stable:
  assumes hd: "same_head data data' sz" and mem: "memory_ok E" and sz: "unat sz < 2 ^ 35"
    and h: "ffu_parse_header_bytes E0 (Some data) sz pl0 w0 = Some (EFI_SUCCESS, pl, w0')"
  shows "\<exists>w'. ffu_parse_header_bytes E (Some data') sz pl1 w = Some (EFI_SUCCESS, pl\<lparr>file_size := sz\<rparr>, w')"
proof -
  obtain p1 p2 p3 ps where s: "hdr_security data sz (start_pstate sz w0) = Some (Inr p1)"
    "hdr_image data sz p1 = Some (Inr p2)"
    "hdr_validation data sz (unat (validation_descriptor_count (ps_plan p2))) p2 = Some (Inr p3)"
    "hdr_stores E0 data sz p3 = Some (Inr ps)" "finish_plan EFI_END_OF_FILE sz ps = Some (EFI_SUCCESS, pl, w0')"
    using h by (rule hdr_parse_success) (use hd sz in \<open>simp_all add: same_head_def\<close>)
  have st: "start_pstate sz w = as_file sz w (start_pstate sz w0)"
    by (simp add: start_pstate_def as_file_def)
  obtain w4 where w4: "hdr_stores E data' sz (as_file sz w p3) = Some (Inr (as_file sz w4 ps))"
    using stores_stable [OF mem hd s(4)] by blast
  have "hdr_sections E data' sz w = Some (Inr (as_file sz w4 ps))"
    unfolding hdr_sections_def st using security_stable [OF hd s(1)] image_stable [OF hd s(2)] validation_stable [OF hd s(3)] w4
    by (simp add: and_then_def)
  then show ?thesis
    using finish_agree [OF s(5) _ order_refl] by (simp add: ffu_parse_header_bytes_def)
qed

end
