(* ===== verification/Header_Session.thy ===== *)
theory Header_Session
  imports Secure_Session Parse_Stable
begin

text \<open>
  The header transfer over USB: a host sends the header in version 2 packets
  (\<open>header_packet\<close>, the layout of the README, with the length of the whole header in bytes
  24 to 27) and reads one answer to each. The device assembles the chunks in its buffer and
  starts the stream flasher when the header is complete.
\<close>

section \<open>Nothing is sent by the parser\<close>

lemma alloc_sent [simp]: "uefi_alloc E n w = (p, w') \<Longrightarrow> sent w' = sent w"
  by (auto simp: uefi_alloc_def Let_def split: if_splits)

lemma free_sent [simp]: "sent (uefi_free E b w) = sent w"
  by (simp add: uefi_free_def)

lemma append_sent:
  "append_entry E p cap e w = Some (st, p', cap', w') \<Longrightarrow> sent w' = sent w"
  "append_store E p cap x w = Some (st, p', cap', w') \<Longrightarrow> sent w' = sent w"
  by (auto simp: append_entry_def append_store_def Let_def split: if_splits prod.splits option.splits)

lemma check_world:
  "check_security b ps = Some (Inr ps') \<Longrightarrow> ps_world ps' = ps_world ps"
  "check_image_sig b ps = Some (Inr ps') \<Longrightarrow> ps_world ps' = ps_world ps"
  "check_image_body b ps = Some (Inr ps') \<Longrightarrow> ps_world ps' = ps_world ps"
  by (auto simp: check_security_def check_image_sig_def check_image_body_def Let_def split: section_splits)

lemma section_world:
  "hdr_security d sz ps = Some (Inr ps') \<Longrightarrow> ps_world ps' = ps_world ps"
  "hdr_image d sz ps = Some (Inr ps') \<Longrightarrow> ps_world ps' = ps_world ps"
  "hdr_store_v2 d sz ps = Some (Inr (n, ps')) \<Longrightarrow> ps_world ps' = ps_world ps"
  by (auto simp: hdr_security_def hdr_image_def hdr_store_v2_def Let_def dest!: check_world split: section_splits)

lemma validation_world: "hdr_validation d sz n ps = Some (Inr ps') \<Longrightarrow> ps_world ps' = ps_world ps"
  by (induction n arbitrary: ps) (fastforce simp: Let_def split: section_splits)+

lemma descriptors_sent:
  "hdr_descriptors E d sz bs i n rel ps = Some (Inr (rel', ps')) \<Longrightarrow> sent (ps_world ps') = sent (ps_world ps)"
proof (induction n arbitrary: rel ps)
  case (Suc n)
  obtain q c e st pl cap v where "append_entry E q c e (ps_world ps) = Some (st, pl, cap, v)"
    and "\<exists>r ps1. ps_world ps1 = v \<and> hdr_descriptors E d sz bs i n r ps1 = Some (Inr (rel', ps'))"
    using Suc.prems by (rule hdr_descriptors_success) fastforce
  then show ?case using append_sent(1) Suc.IH by metis
qed simp

lemma store_sent: "hdr_store E d sz ps = Some (Inr ps') \<Longrightarrow> sent (ps_world ps') = sent (ps_world ps)"
  by (erule hdr_store_success)
    (auto simp: after_store_header_def dest!: append_sent(2) descriptors_sent section_world(3) split: if_splits)

lemma stores_sent: "hdr_stores E d sz ps = Some (Inr ps') \<Longrightarrow> sent (ps_world ps') = sent (ps_world ps)"
proof (induction E d sz ps rule: hdr_stores.induct)
  case (1 E d sz ps)
  show ?case
  proof (cases "store_count (ps_plan ps) < ps_desired ps")
    case True
    then obtain p2 where p2: "hdr_store E d sz ps = Some (Inr p2)" "hdr_stores E d sz p2 = Some (Inr ps')"
      using 1(2) by (subst (asm) hdr_stores.simps) (auto split: option.splits sum.splits)
    then show ?thesis using 1(1) [OF True p2(1) refl p2(2)] store_sent [OF p2(1)] by simp
  qed (use 1(2) in \<open>auto simp: hdr_stores.simps\<close>)
qed

lemma finish_world: "finish_plan short sz ps = Some (st, pl, w) \<Longrightarrow> w = ps_world ps"
  by (auto simp: finish_plan_def Let_def split: Option.bind_splits if_splits)

lemma parse_sent:
  assumes "ffu_parse_header_bytes E (Some d) sz pl0 w = Some (EFI_SUCCESS, pl, w')" "unat sz \<le> length d" "unat sz < 2 ^ 35"
  shows "sent w' = sent w"
  using assms
  by (rule hdr_parse_success)
    (auto simp: start_pstate_def dest!: finish_world stores_sent section_world validation_world)

section \<open>Starting the flasher\<close>

lemma max_entry_ok:
  "length (entries p) = i + n \<Longrightarrow> \<forall>e \<in> set (entries p). byte_count e \<noteq> 0 \<and> byte_count e \<le> b
    \<Longrightarrow> m \<le> b \<Longrightarrow> 0 < n \<or> m \<noteq> 0 \<Longrightarrow> \<exists>x. max_entry_loop p n i m = Some x \<and> x \<noteq> 0 \<and> x \<le> b"
proof (induction n arbitrary: i m)
  case (Suc n)
  have e: "entries p ! i \<in> set (entries p)" using Suc.prems(1) by simp
  have "peek (entries p) i = Some (entries p ! i)" using Suc.prems(1) by (simp add: peek_in)
  moreover have "(if m < byte_count (entries p ! i) then byte_count (entries p ! i) else m) \<noteq> 0"
    using Suc.prems(2) e by (auto simp: not_less)
  ultimately show ?case using Suc.prems e Suc.IH [of "Suc i"] by auto
qed simp

text \<open>A device that can be written.\<close>

definition writable :: "EFI_BLOCK_IO_MEDIA \<Rightarrow> bool" where
  "writable media \<longleftrightarrow> MediaPresent media \<and> \<not> ReadOnly media \<and> BlockSize media \<noteq> 0"

text \<open>The entries fit the buffer for one entry.\<close>

definition entries_fit :: "FFU_PLAN \<Rightarrow> bool" where
  "entries_fit pl \<longleftrightarrow> (\<forall>e \<in> set (entries pl). byte_count e \<le> UFP_MAX_PAYLOAD_DATA)"

lemma init_accepts:
  assumes hd: "same_head h p sz" and H: "H a = Some p" and sz: "unat sz < 2 ^ 35" and mem: "memory_ok E"
    and pl: "ffu_parse_header_bytes E0 (Some h) sz pl0 w0 = Some (EFI_SUCCESS, pl, w0')" "entries_fit pl"
    and dev: "Media dev = Some media" "writable media"
  shows "\<exists>ctx w'. ffu_stream_flash_init E H ctx0 (Some a) sz (Some dev) commit w = Some (EFI_SUCCESS, ctx, w')
    \<and> plan ctx = pl\<lparr>file_size := sz\<rparr> \<and> media_block ctx = BlockSize media \<and> header ctx = Some a
    \<and> hdr_size ctx = sz \<and> sent w' = sent w"
proof -
  let ?pl = "pl\<lparr>file_size := sz\<rparr>"
  obtain w1 where w1: "ffu_parse_header_bytes E (Some p) sz zero_plan w = Some (EFI_SUCCESS, ?pl, w1)"
    using parse_stable [OF hd mem sz pl(1)] by blast
  have lp: "unat sz \<le> length p" using hd by (simp add: same_head_def)
  have wf: "plan_wf sz ?pl" using parse_header_success(1) [OF lp sz w1] by simp
  have n: "length (entries pl) = unat (entry_count pl)" using wf by (simp add: plan_wf_def)
  have "entries pl \<noteq> []"
    using wf by (cases "stores pl") (auto simp: plan_wf_def Let_def store_ok_def unat_eq_zero)
  then have "0 < unat (entry_count pl)" using n by (metis length_greater_0_conv)
  moreover have "\<forall>e \<in> set (entries ?pl). byte_count e \<noteq> 0 \<and> byte_count e \<le> UFP_MAX_PAYLOAD_DATA"
    using pl(2) plan_wf_entry(4) [OF wf] by (auto simp: entries_fit_def)
  ultimately obtain x where x: "max_entry_loop ?pl (unat (entry_count pl)) 0 0 = Some x" "x \<noteq> 0" "x \<le> UFP_MAX_PAYLOAD_DATA"
    using max_entry_ok [of ?pl 0 "unat (entry_count pl)" UFP_MAX_PAYLOAD_DATA 0] n by auto
  obtain b w2 where b: "uefi_alloc E (ucast x) w1 = (Some b, w2)" using memory_alloc [OF mem] by blast
  have st: "sent w2 = sent w" using b parse_sent [OF w1 lp sz] by simp
  have m: "\<not> (\<not> MediaPresent media \<or> ReadOnly media \<or> BlockSize media = 0)"
    using dev by (simp_all add: writable_def)
  have x': "\<not> (x = 0 \<or> UFP_MAX_PAYLOAD_DATA < x)" using x(2,3) by (simp add: not_less)
  have d: "deref H (Some a) = Some (Some p)" using H by (simp add: deref_def)
  have "ffu_stream_flash_init E H ctx0 (Some a) sz (Some dev) commit w = Some (EFI_SUCCESS,
      zero_ctx\<lparr>plan := ?pl, entry_data := b, entry_capacity := x, bio := Some dev, header := Some a,
        hdr_size := sz, media_block := BlockSize media, media_id := MediaId media,
        dry_run := (if commit then 0 else 1), last_sector := 0xffffffff\<rparr>, w2)"
    unfolding ffu_stream_flash_init_def Option.bind.simps dev(1) option.case if_not_P [OF m] d w1 prod.case
    using x(1) x' b by simp
  then show ?thesis using st by simp
qed

section \<open>Short answers\<close>

lemma reply_short_exact:
  assumes ok: "loop_ok mt c commit s" and E: "accepting E" and mt: "16 \<le> mt" and p: "polls w = Poll_Tx (completed k) # ps"
  shows "\<exists>usb' w'. reply_short E s st sp w = Some (Returns (Next, s\<lparr>port := usb'\<rparr>, w'))
    \<and> loop_ok mt c commit (s\<lparr>port := usb'\<rparr>) \<and> polls w' = ps \<and> disk_writes w' = disk_writes w
    \<and> sent w' = sent w @ [fs_frame st sp]"
proof -
  have u: "usb_ok (port s)" "(16 :: u64) \<le> max_transfer (port s)" using ok mt by (simp_all add: loop_ok_def port_ok_def)
  have l: "length (fs_frame st sp) = 16" by (simp add: fs_frame_def be16_bytes_def be32_bytes_def)
  obtain usb' where snd: "usb_transport_send E (port s) (Some (fs_frame st sp)) 16 w
      = Some (Returns (EFI_SUCCESS, usb', (emit (TransferIn USBFN_BULK_ENDPOINT_INDEX (fs_frame st sp)) w)\<lparr>polls := ps\<rparr>))"
      "usb_ok usb'" "usb_keep usb' = usb_keep (port s)"
    using send_exact [OF u(1) E p, of 16 "fs_frame st sp"] u(2) l by auto
  have "reply_short E s st sp w = Some (Returns (Next, s\<lparr>port := usb'\<rparr>,
      (emit (TransferIn USBFN_BULK_ENDPOINT_INDEX (fs_frame st sp)) w)\<lparr>polls := ps\<rparr>))"
    by (simp add: reply_short_def reply_def short_frames snd(1))
  then show ?thesis using loop_ok_port [OF ok snd(2,3)]
    by (intro exI [of _ usb']
        exI [of _ "(emit (TransferIn USBFN_BULK_ENDPOINT_INDEX (fs_frame st sp)) w)\<lparr>polls := ps\<rparr>"])
      (simp add: disk_writes_def)
qed

section \<open>A header packet\<close>

definition header_packet :: "u32 \<Rightarrow> u32 \<Rightarrow> bytes \<Rightarrow> bytes" where
  "header_packet t off d =
     asc ''NOKXFS'' @ [0, 2] @ [0, 0, 0, 1] @ be32_bytes 0x21 @ be32_bytes (of_nat (length d) + 40)
     @ be32_bytes off @ be32_bytes t @ [0] @ be32_bytes off @ be32_bytes (of_nat (length d))
     @ [0] @ replicate 22 0 @ d"

lemma header_packet_length [simp]: "length (header_packet t off d) = 60 + length d"
  by (simp add: header_packet_def be32_bytes_def)

lemma unat_of_nat_u64: "n < 2 ^ 64 \<Longrightarrow> unat (of_nat n :: u64) = n"
  by (simp add: unsigned_of_nat take_bit_nat_eq_self)

text \<open>The library builds this packet when the chunk is the last one.\<close>

lemma header_packet_built: "header_packet (off + of_nat (length d)) off d = header_frame off off (of_nat (length d)) @ d"
  by (simp add: header_packet_def header_frame_def)

definition header_fits :: "u64 \<Rightarrow> bytes \<Rightarrow> bool" where
  "header_fits mt d \<longleftrightarrow> d \<noteq> [] \<and> length d \<le> unat UFP_MAX_HEADER_DATA \<and> 60 + length d \<le> unat mt"

lemma header_packet_fields:
  assumes m: "m = header_packet t off d @ r"
  shows "60 \<le> length m" "m ! 0 = 0x4e" "m ! 1 = 0x4f" "m ! 2 = 0x4b" "m ! 3 = 0x58" "m ! 4 = 0x46" "m ! 5 = 0x53"
    "rd_be16 (drop 6 m) = Some 2" "m ! 8 = 0" "m ! 11 = 1" "rd_be32 (drop 12 m) = Some 0x21"
    "rd_be32 (drop 20 m) = Some off" "rd_be32 (drop 24 m) = Some t" "m ! 28 = 0" "rd_be32 (drop 29 m) = Some off"
    "rd_be32 (drop 33 m) = Some (of_nat (length d))" "m ! 37 = 0" "drop 60 m = d @ r"
proof -
  have "drop 6 m = be16_bytes 2 @ drop 8 m" "drop 12 m = be32_bytes 0x21 @ drop 16 m"
    "drop 20 m = be32_bytes off @ drop 24 m" "drop 24 m = be32_bytes t @ drop 28 m"
    "drop 29 m = be32_bytes off @ drop 33 m" "drop 33 m = be32_bytes (of_nat (length d)) @ drop 37 m"
    by (simp_all add: m header_packet_def be16_bytes_def be32_bytes_def)
  then show "rd_be16 (drop 6 m) = Some 2" "rd_be32 (drop 12 m) = Some 0x21"
    "rd_be32 (drop 20 m) = Some off" "rd_be32 (drop 24 m) = Some t" "rd_be32 (drop 29 m) = Some off"
    "rd_be32 (drop 33 m) = Some (of_nat (length d))"
    by (metis be16.dec_enc be32.dec_enc)+
qed (simp_all add: m header_packet_def be32_bytes_def be16_bytes_def)

text \<open>The fields that the device reads.\<close>

definition packet_msg :: "u32 \<Rightarrow> u32 \<Rightarrow> u32 \<Rightarrow> u32 \<Rightarrow> HEADER_MSG" where
  "packet_msg t off n k = \<lparr>hm_v2 = True, hm_chunk = n, hm_offset = off, hm_total = t, hm_data = 60,
     hm_copy = k, hm_options = 0, hm_erase = 0\<rparr>"

lemma header_dispatch:
  assumes "len = of_nat (60 + length d)" "length d < 2 ^ 32"
  shows "loop_message E dev commit (header_packet t off d @ r) len s w
    = header_message E dev commit (header_packet t off d @ r) len True s w"
    and "header_v2_fields (header_packet t off d @ r) len s
      = Some (Inr (packet_msg t off (of_nat (length d)) (header_v2_received s), s))"
proof -
  define m where "m = header_packet t off d @ r"
  note F = header_packet_fields [OF m_def]
  have u: "unat len = 60 + length d"
    unfolding assms(1) by (rule unat_of_nat_u64) (use assms(2) in simp)
  have ge: "\<not> len < k" if "unat k \<le> 60" for k using that u by (simp add: word_less_nat_alt)
  have pk: "peek m i = Some (m ! i)" if "i < 60" for i using that F(1) by (simp add: peek_in)
  have b: "byte_is m i v = Some (m ! i = v)" if "i < 60" for i v using that F(1) by (simp add: byte_is_in)
  have "loop_message E dev commit m len s w = extended_message E dev commit m len s w"
    unfolding loop_message_def using ge [of 4] ge [of 6] F(2-5) by (simp add: b pk)
  also have "\<dots> = secure_message E dev commit m len s w"
    unfolding extended_message_def by (simp add: pk F(6,7))
  also have "\<dots> = header_message E dev commit m len True s w"
    unfolding secure_message_def using ge [of 16] by (simp add: pk F(8-11) ufp_const_defs)
  finally show "loop_message E dev commit (header_packet t off d @ r) len s w
    = header_message E dev commit (header_packet t off d @ r) len True s w" unfolding m_def .
  show "header_v2_fields (header_packet t off d @ r) len s
      = Some (Inr (packet_msg t off (of_nat (length d)) (header_v2_received s), s))"
    unfolding header_v2_fields_def m_def [symmetric] using ge [of 60]
    by (simp add: F(12-17) pk packet_msg_def)
qed

section \<open>Assembling the header\<close>

text \<open>The bytes \<open>h\<close> have arrived and stand at the start of the buffer; \<open>c\<close> is its capacity.\<close>

definition assembling :: "u64 \<Rightarrow> u64 \<Rightarrow> bytes \<Rightarrow> LOOP \<Rightarrow> bool" where
  "assembling mt c h s \<longleftrightarrow> loop_ok mt c True s \<and> \<not> flash_ready s
     \<and> unat (header_v2_received s) = length h \<and> unat (hdr_len s) = length h
     \<and> (if h = [] then hdr s = None else \<exists>a buf. hdr s = Some a \<and> mem s a = Some buf \<and> take (length h) buf = h)"

definition keeps :: "LOOP \<Rightarrow> world \<Rightarrow> LOOP \<Rightarrow> world \<Rightarrow> bool" where
  "keeps s w s' w' \<longleftrightarrow> port s' = port s \<and> flash s' = flash s \<and> same_io w w' \<and> sent w' = sent w"

lemma grow_assembling:
  fixes t :: u32
  assumes A: "assembling mt c h s" and t: "t \<noteq> 0" "need \<le> ucast t"
    and c: "header_capacity 0 (ucast t) = c" "c \<le> 128 * 1024 * 1024" and mem: "memory_ok E"
  shows "\<exists>s' w' a buf. header_grow E need (ucast t) s w = Some (Inr (s', w')) \<and> keeps s w s' w'
    \<and> loop_ok mt c True s' \<and> \<not> flash_ready s' \<and> hdr s' = Some a \<and> mem s' a = Some buf \<and> length buf = unat c
    \<and> take (length h) buf = h \<and> header_v2_received s' = header_v2_received s \<and> hdr_len s' = hdr_len s"
proof -
  have ok: "loop_ok mt c True s" "\<not> flash_ready s" using A by (simp_all add: assembling_def)
  have ct: "unat t \<le> unat c" using header_capacity_ge(1) [of t] c(1) by simp
  have tz: "(ucast t :: u64) \<noteq> 0" using t(1) by (metis unat_ucast_32_64 unat_eq_zero)
  show ?thesis
  proof (cases "h = []")
    case True
    then have n: "hdr s = None" "header_cap s = 0" using A ok by (simp_all add: assembling_def loop_ok_def header_ok_def)
    have lt: "header_cap s < need \<or> header_cap s < ucast t" using n(2) tz by (simp add: word_neq_0_conv)
    have new: "header_capacity need (ucast t) = c" using header_capacity_max [OF t(2)] c(1) by simp
    obtain b v where a: "uefi_alloc E c w = (Some b, v)" using memory_alloc [OF mem] by blast
    have "0 < unat t" using t(1) by (simp add: unat_gt_0)
    then have "c \<noteq> 0" using ct by auto
    then have "length b = unat c" using uefi_alloc_length [of E c w b v] a by simp
    then have z: "memset b 0 0 (unat c) = Some (replicate (unat c) 0)" by (simp add: memset_in)
    let ?s = "s\<lparr>mem := (mem s)(brk s := Some (replicate (unat c) 0)), hdr := Some (brk s), brk := brk s + 1, header_cap := c\<rparr>"
    have g: "header_grow E need (ucast t) s w = Some (Inr (?s, v))"
      using lt new a z n c(2) by (simp add: header_grow_def not_less [symmetric])
    have hl: "hdr_len s = 0" using ok n by (simp add: loop_ok_def header_ok_def)
    have "loop_ok mt c True ?s" using ok hl c(2) by (simp add: loop_ok_def port_ok_def header_ok_def ready_ok_def)
    moreover have "same_io w v" "sent v = sent w" using a grew_alloc [OF a grew_refl] by (simp_all add: same_io_def)
    ultimately show ?thesis using g True ok(2)
      by (intro exI [of _ ?s] exI [of _ v] exI [of _ "brk s"] exI [of _ "replicate (unat c) 0"]) (simp add: keeps_def)
  next
    case False
    then obtain a buf where b: "hdr s = Some a" "mem s a = Some buf" "take (length h) buf = h"
      using A by (auto simp: assembling_def)
    have cap: "header_cap s = c" "length buf = unat c" using ok b by (auto simp: loop_ok_def header_ok_def)
    have "\<not> (header_cap s < need \<or> header_cap s < ucast t)"
      using cap(1) ct t(2) by (simp add: word_less_nat_alt word_le_nat_alt)
    then have g: "header_grow E need (ucast t) s w = Some (Inr (s, w))" by (simp add: header_grow_def)
    show ?thesis
      by (intro exI [of _ s] exI [of _ w] exI [of _ a] exI [of _ buf]) (use g ok b cap in \<open>simp add: keeps_def same_io_def\<close>)
  qed
qed

lemma chunk_words:
  fixes t rcv n :: u32
  assumes "unat rcv = length h" "unat n = length d" "length h + length d \<le> unat t"
  shows "unat (ucast rcv + ucast n :: u64) = length h + length d" "(ucast rcv + ucast n :: u64) \<le> ucast t"
    "unat (ucast (ucast rcv + ucast n :: u64) :: u32) = length h + length d"
proof -
  show s: "unat (ucast rcv + ucast n :: u64) = length h + length d"
    using assms unat_u32_lt [of rcv] unat_u32_lt [of n] by (subst unat_add_le) simp_all
  then show "(ucast rcv + ucast n :: u64) \<le> ucast t" using assms(3) by (simp add: word_le_nat_alt)
  have "unat (ucast rcv + ucast n :: u64) < 2 ^ 32" using s assms(3) unat_u32_lt [of t] by simp
  then show "unat (ucast (ucast rcv + ucast n :: u64) :: u32) = length h + length d"
    using s by (subst unat_ucast_small) simp_all
qed

lemma store_assembling:
  fixes t rcv n :: u32
  assumes s: "loop_ok mt c True s" "\<not> flash_ready s" "hdr s = Some a" "mem s a = Some buf" "length buf = unat c"
      "take (length h) buf = h" "header_v2_received s = rcv" "unat (hdr_len s) = length h"
    and w: "unat rcv = length h" "unat n = length d" "length h + length d \<le> unat t" "d \<noteq> []"
    and c: "header_capacity 0 (ucast t) = c"
    and m: "drop 60 m = d @ r" "60 \<le> length m"
  shows "\<exists>s'. header_store (packet_msg t off n rcv) m rcv (ucast rcv + ucast n) s = Some s'
    \<and> assembling mt c (h @ d) s' \<and> port s' = port s \<and> flash s' = flash s"
proof -
  let ?need = "ucast rcv + ucast n :: u64"
  note W = chunk_words [OF w(1-3)]
  have ct: "unat t \<le> unat c" using header_capacity_ge(1) [of t] c by simp
  have lm: "60 + length d \<le> length m" using m by (metis length_append length_drop le_add1 le_diff_conv2 add.commute)
  have nz: "n \<noteq> 0" using w(2,4) by auto
  define buf' where "buf' = h @ d @ drop (length h + length d) buf"
  have tk: "take (length d) (drop 60 m) = d" by (simp add: m(1))
  have cp: "memcpy buf (unat rcv) m 60 (unat n) = Some buf'"
    using w ct s(5,6) lm by (subst memcpy_in) (simp_all add: buf'_def tk)
  have lt: "hdr_len s < ?need" using s(8) W(1) w(4) by (simp add: word_less_nat_alt)
  let ?s = "s\<lparr>mem := (mem s)(a := Some buf'), hdr_len := ?need, header_v2_received := ucast ?need\<rparr>"
  have e: "header_store (packet_msg t off n rcv) m rcv ?need s = Some ?s"
    using s nz cp lt by (simp add: header_store_def packet_msg_def Let_def)
  have "\<exists>s'. header_store (packet_msg t off n rcv) m rcv ?need s = Some s' \<and> loop_ok mt c True s' \<and> (hdr s' = None \<longrightarrow> t = 0)"
    by (rule header_store_post [OF s(1) W(2) c]) (use W w s(3) lm in \<open>simp_all add: packet_msg_def\<close>)
  then have "loop_ok mt c True ?s" using e by simp
  then have "assembling mt c (h @ d) ?s" using W w(4) s by (simp add: assembling_def buf'_def)
  then show ?thesis using e by (intro exI [of _ ?s]) simp
qed

text \<open>What a chunk must satisfy in a header of \<open>t\<close> bytes.\<close>

definition chunk_ok :: "u32 \<Rightarrow> u64 \<Rightarrow> u64 \<Rightarrow> bytes \<Rightarrow> bytes \<Rightarrow> bool" where
  "chunk_ok t mt c h d \<longleftrightarrow> t \<noteq> 0 \<and> header_capacity 0 (ucast t) = c \<and> c \<le> 128 * 1024 * 1024
     \<and> header_fits mt d \<and> length h + length d \<le> unat t"

lemma window_assembling:
  assumes "assembling mt c h s" "header_v2_received s = rcv" "unat rcv = length h"
  shows "header_window E (packet_msg t rcv n rcv) s w = Inr (rcv, ucast rcv + ucast n, ucast t, s, w)"
proof (cases "h = []")
  case True
  then have z: "rcv = 0" using assms(3) by (simp add: unat_eq_zero)
  have n: "hdr s = None" "\<not> flash_ready s" using assms(1) True by (simp_all add: assembling_def)
  have "s\<lparr>header_v2_received := 0\<rparr> = s" using assms(2) z by simp
  then have "header_restart E s w = (s, w)" using n by (simp add: header_restart_def)
  then show ?thesis using z assms(2) by (simp add: header_window_def packet_msg_def)
next
  case False
  then have "rcv \<noteq> 0" using assms(3) by auto
  moreover obtain a where "hdr s = Some a" using assms(1) False by (auto simp: assembling_def)
  ultimately show ?thesis using assms(2) by (simp add: header_window_def packet_msg_def)
qed

lemma chunk_received:
  assumes A: "assembling mt c h s" and ch: "chunk_ok t mt c h d" and mem: "memory_ok E"
  shows "\<exists>s' w' n. header_message E dev True (header_packet t (of_nat (length h)) d @ r) (of_nat (60 + length d)) True s w
      = header_finish E dev True (packet_msg t (of_nat (length h)) n (of_nat (length h))) (ucast t) s' w'
    \<and> assembling mt c (h @ d) s' \<and> keeps s w s' w'"
proof -
  define m where "m = header_packet t (of_nat (length h)) d @ r"
  define len where "len = (of_nat (60 + length d) :: u64)"
  define rcv where "rcv = header_v2_received s"
  define n :: u32 where "n = of_nat (length d)"
  have t: "t \<noteq> 0" "header_capacity 0 (ucast t) = c" "c \<le> 128 * 1024 * 1024" "length h + length d \<le> unat t"
    and d: "d \<noteq> []" "length d \<le> unat UFP_MAX_HEADER_DATA"
    using ch by (simp_all add: chunk_ok_def header_fits_def)
  have ld: "length d < 2 ^ 32" using t(4) unat_u32_lt [of t] by simp
  have un: "unat n = length d" using ld by (simp add: n_def unsigned_of_nat take_bit_nat_eq_self)
  have ur: "unat rcv = length h" using A by (simp add: assembling_def rcv_def)
  have off: "of_nat (length h) = rcv" by (simp flip: ur)
  note W = chunk_words [OF ur un t(4)]
  have fl: "header_v2_fields m len s = Some (Inr (packet_msg t rcv n rcv, s))"
    using header_dispatch(2) [OF refl ld, of t rcv r s] by (simp only: m_def len_def off n_def rcv_def)
  have ul: "unat len = 60 + length d" unfolding len_def by (rule unat_of_nat_u64) (use ld in simp)
  have ck: "header_check (packet_msg t rcv n rcv) len s = None"
  proof -
    have "\<not> (ucast t :: u64) < ucast rcv + ucast n" using W(2) by simp
    moreover have "\<not> UFP_MAX_HEADER_DATA < n" using d(2) un by (simp add: word_less_nat_alt)
    moreover have "unat (60 + ucast n :: u64) = 60 + length d"
      using un ld by (subst unat_add_le) simp_all
    then have "\<not> len < 60 + ucast n" using ul by (simp add: word_less_nat_alt)
    ultimately show ?thesis by (simp add: header_check_def packet_msg_def rcv_def)
  qed
  have win: "header_window E (packet_msg t rcv n rcv) s w = Inr (rcv, ucast rcv + ucast n, ucast t, s, w)"
    by (rule window_assembling [OF A _ ur]) (simp add: rcv_def)
  have tz: "(ucast t :: u64) \<noteq> 0" using t(1) by (metis unat_ucast_32_64 unat_eq_zero)
  obtain s1 w1 a buf where g: "header_grow E (ucast rcv + ucast n) (ucast t) s w = Some (Inr (s1, w1))" "keeps s w s1 w1"
      "loop_ok mt c True s1" "\<not> flash_ready s1" "hdr s1 = Some a" "mem s1 a = Some buf" "length buf = unat c"
      "take (length h) buf = h" "header_v2_received s1 = header_v2_received s" "hdr_len s1 = hdr_len s"
    using grow_assembling [OF A t(1) W(2) t(2,3) mem] by blast
  have hl: "unat (hdr_len s1) = length h" "header_v2_received s1 = rcv"
    using A g(9,10) by (simp_all add: assembling_def rcv_def)
  have m60: "drop 60 m = d @ r" "60 \<le> length m" using header_packet_fields(18,1) [OF m_def] by simp_all
  obtain s2 where st: "header_store (packet_msg t rcv n rcv) m rcv (ucast rcv + ucast n) s1 = Some s2"
      "assembling mt c (h @ d) s2" "port s2 = port s1" "flash s2 = flash s1"
    using store_assembling [OF g(3-8) hl(2,1) ur un t(4) d(1) t(2) m60, of rcv] by blast
  have "header_message E dev True m len True s w = header_finish E dev True (packet_msg t rcv n rcv) (ucast t) s2 w1"
    using fl ck win tz g(1) st(1) by (simp add: header_message_def)
  then show ?thesis using st g(2) unfolding m_def len_def off
    by (intro exI [of _ s2] exI [of _ w1] exI [of _ n]) (simp add: keeps_def)
qed

section \<open>Answering a chunk\<close>

text \<open>A chunk that does not complete the header is answered with status 0.\<close>

lemma finish_partial:
  fixes t :: u32
  assumes "assembling mt c h s" "length h < unat t" "accepting E" "16 \<le> mt" "polls w = Poll_Tx (completed k) # ps"
  shows "\<exists>s' w'. header_finish E dev True m (ucast t) s w = Some (Returns (Next, s', w')) \<and> assembling mt c h s'
    \<and> flash s' = flash s \<and> polls w' = ps \<and> disk_writes w' = disk_writes w \<and> sent w' = sent w @ [fs_frame 0 0]"
proof -
  have "hdr_len s < ucast t" using assms(1,2) by (simp add: assembling_def word_less_nat_alt)
  then have e: "header_finish E dev True m (ucast t) s w = reply_short E s 0 0 w"
    by (auto simp: header_finish_def)
  have ok: "loop_ok mt c True s" using assms(1) by (simp add: assembling_def)
  obtain usb' w' where r: "reply_short E s 0 0 w = Some (Returns (Next, s\<lparr>port := usb'\<rparr>, w'))"
      "loop_ok mt c True (s\<lparr>port := usb'\<rparr>)" "polls w' = ps" "disk_writes w' = disk_writes w" "sent w' = sent w @ [fs_frame 0 0]"
    using reply_short_exact [OF ok assms(3-5)] by blast
  have "assembling mt c h (s\<lparr>port := usb'\<rparr>)" using assms(1) r(2) by (simp add: assembling_def split: if_splits)
  then show ?thesis using e r by auto
qed

text \<open>The tables of the header do not change in the buffer.\<close>

lemma le32_at_head:
  assumes "same_head h p sz" "i + 4 \<le> unat sz"
  shows "le32_at p i = le32_at h i"
proof -
  have l: "unat sz \<le> length h" "unat sz \<le> length p" and t: "take (unat sz) p = take (unat sz) h"
    using assms(1) by (simp_all add: same_head_def)
  have cut: "take 4 (drop i x) = take 4 (drop i (take (unat sz) x))" for x :: bytes
    using assms(2) by (simp add: drop_take min_def)
  have "take 4 (drop i p) = take 4 (drop i h)" by (subst cut, subst t, rule cut [symmetric])
  then have "rd_le32 (drop i p) = rd_le32 (drop i h)"
    by (rule le32.dec_prefix) (use assms(2) l in simp_all)
  then show ?thesis by (simp add: le32_at_def)
qed

lemma entry_head:
  assumes hd: "same_head h p sz" and e: "unat (descriptor_offset e) + 8 + 8 * unat (location_count e) \<le> unat sz"
    and l: "l < unat (location_count e)"
  shows "entry_method p e l = entry_method h e l" "entry_target p bs e l = entry_target h bs e l"
  using l e by (simp_all add: entry_method_def entry_target_def le32_at_head [OF hd])

lemma image_writes_cong:
  "(\<And>e x. e \<in> set es \<Longrightarrow> f e x = g e x) \<Longrightarrow> image_writes f es d = image_writes g es d"
  by (induction es arbitrary: d) simp_all

text \<open>An image that the device can take, as the header describes it.\<close>

definition image_fits :: "bytes \<Rightarrow> FFU_PLAN \<Rightarrow> u32 \<Rightarrow> bool" where
  "image_fits h pl mb \<longleftrightarrow> entries_fit pl \<and> (\<forall>e \<in> set (entries pl). byte_count e mod mb = 0
     \<and> (\<forall>l < unat (location_count e). entry_method h e l = 0
          \<and> entry_target h (block_size (stores pl ! unat (store_index e))) e l mod ucast mb = 0))"

text \<open>The flasher that a complete header starts.\<close>

definition started :: "bytes \<Rightarrow> FFU_PLAN \<Rightarrow> u32 \<Rightarrow> LOOP \<Rightarrow> bool" where
  "started h pl mb s \<longleftrightarrow> (\<exists>p. session_ok p s \<and> pending (flash s) = (entries (plan (flash s)), [])
     \<and> entries (plan (flash s)) = entries pl
     \<and> (\<forall>d. image_writes (emits p (flash s)) (entries pl) d = image_writes (entry_writes h pl mb) (entries pl) d))"

lemma started_flasher:
  assumes hd: "same_head h p (hdr_size ctx)" and inv: "stream_inv H p ctx" "live ctx" "pending ctx = (entries (plan ctx), [])"
    and pl: "entries (plan ctx) = entries pl" "stores (plan ctx) = stores pl" "media_block ctx = mb" "dry_run ctx = 0"
    and fit: "image_fits h pl mb"
  shows "flashable p ctx"
    "image_writes (emits p ctx) (entries pl) d = image_writes (entry_writes h pl mb) (entries pl) d"
proof -
  have e: "unat (descriptor_offset e) + 8 + 8 * unat (location_count e) \<le> unat (hdr_size ctx)" if "e \<in> set (entries pl)" for e
    using inv(1) plan_wf_entry(2) [of "hdr_size ctx" "plan ctx" e] that pl(1) by (simp add: stream_inv_def entry_ok_def)
  show "flashable p ctx"
    using fit entry_head [OF hd e] pl by (simp add: flashable_def image_fits_def)
  show "image_writes (emits p ctx) (entries pl) d = image_writes (entry_writes h pl mb) (entries pl) d"
    by (rule image_writes_cong) (use entry_head(2) [OF hd e] pl in \<open>simp add: emits_def entry_writes_def\<close>)
qed

lemma print_stores_sent: "print_stores E pl i n w = Some w' \<Longrightarrow> sent w' = sent w"
  by (induction n arbitrary: i w) (auto simp: say_def say_dec_def split: Option.bind_splits)

lemma print_summary_sent: "ffu_print_summary E pl w = Some (st, w') \<Longrightarrow> sent w' = sent w"
  by (auto simp: ffu_print_summary_def say_def say_dec_def dest: print_stores_sent split: Option.bind_splits)

text \<open>The chunk that completes the header starts the flasher.\<close>

lemma finish_complete:
  fixes t :: u32
  assumes A: "assembling mt c h s" and t: "length h = unat t" "t \<noteq> 0" and m: "hm_v2 m"
    and pl: "ffu_parse_header_bytes E0 (Some h) (ucast t) pl0 w0 = Some (EFI_SUCCESS, pl, w0')" "image_fits h pl (BlockSize media)"
    and dev: "Media dev = Some media" "writable media" and mem: "memory_ok E"
    and E: "accepting E" "16 \<le> mt" "polls w = Poll_Tx (completed k) # ps"
  shows "\<exists>s' w'. header_finish E dev True m (ucast t) s w = Some (Returns (Next, s', w')) \<and> loop_ok mt c True s'
    \<and> started h pl (BlockSize media) s' \<and> polls w' = ps \<and> disk_writes w' = disk_writes w \<and> sent w' = sent w @ [fs_frame 0 0]"
proof -
  have ok: "loop_ok mt c True s" "\<not> flash_ready s" using A by (simp_all add: assembling_def)
  have "h \<noteq> []" using t by (auto simp: unat_eq_zero)
  then obtain a buf where b: "hdr s = Some a" "mem s a = Some buf" "take (length h) buf = h"
    using A by (auto simp: assembling_def)
  have "length h \<le> length buf" using b(3) by (metis length_take min.cobounded1)
  then have hd: "same_head h buf (ucast t)" using t(1) b(3) by (simp add: same_head_def)
  have sz: "unat (ucast t :: u64) < 2 ^ 35" "unat (ucast t :: u64) \<le> length buf"
    using unat_u32_lt [of t] hd by (simp_all add: same_head_def)
  have tz: "(ucast t :: u64) \<noteq> 0" using t(2) by (metis unat_ucast_32_64 unat_eq_zero)
  have hl: "\<not> hdr_len s < ucast t" using A t(1) by (simp add: assembling_def word_less_nat_alt)
  have fit: "entries_fit pl" using pl(2) by (simp add: image_fits_def)
  obtain ctx v where i: "ffu_stream_flash_init E (mem s) (flash s) (Some a) (ucast t) (Some dev) True w = Some (EFI_SUCCESS, ctx, v)"
      "plan ctx = pl\<lparr>file_size := ucast t\<rparr>" "media_block ctx = BlockSize media" "header ctx = Some a"
      "hdr_size ctx = ucast t" "sent v = sent w"
    using init_accepts [of h buf "ucast t" "mem s" a, OF hd b(2) sz(1) mem pl(1) fit dev, of "flash s" True w] by blast
  note q = init_success [of "mem s" a buf, OF b(2) sz(2,1) i(1)]
  have dr: "dry_run ctx = 0" using q(4) by simp
  have st: "flashable buf ctx" "\<And>d. image_writes (emits buf ctx) (entries pl) d = image_writes (entry_writes h pl (BlockSize media)) (entries pl) d"
    using started_flasher [OF _ q(1-3) _ _ i(3) dr pl(2)] hd i(2,5) by simp_all
  have "unat (store_count (plan ctx)) \<le> length (stores (plan ctx))" using q(1) by (simp add: stream_inv_def plan_wf_def)
  from print_summary_post [OF this]
  obtain x u where su: "ffu_print_summary E (plan ctx)
      (con_crlf E (say E ''Received complete FFU header over USB.'' v)) = Some (x, u)"
    "disk_writes u = disk_writes v" "polls u = polls v" by force
  have us: "sent u = sent v" using print_summary_sent [OF su(1)] by (simp add: say_def)
  let ?s = "s\<lparr>header_v2_received := 0, flash := ctx, flash_ready := True\<rparr>"
  have ok': "loop_ok mt c True ?s"
    using ok q(1) b(1) i(4) dr by (auto simp: loop_ok_def port_ok_def header_ok_def ready_ok_def)
  have pu: "polls u = Poll_Tx (completed k) # ps" using su(3) q(6) E(3) by simp
  obtain usb' w' where r: "reply_short E ?s 0 0 u = Some (Returns (Next, ?s\<lparr>port := usb'\<rparr>, w'))"
      "loop_ok mt c True (?s\<lparr>port := usb'\<rparr>)" "polls w' = ps" "disk_writes w' = disk_writes u" "sent w' = sent u @ [fs_frame 0 0]"
    using reply_short_exact [OF ok' E(1,2) pu] by blast
  have "header_finish E dev True m (ucast t) s w = reply_short E ?s 0 0 u"
    using hl ok(2) m tz b(1) i(1) su(1) by (simp add: header_finish_def)
  moreover have "started h pl (BlockSize media) (?s\<lparr>port := usb'\<rparr>)"
    using q(1-3) st i(2) by (simp add: started_def session_ok_def) (intro exI [of _ buf], simp)
  ultimately show ?thesis using r su(2) us q(5) i(6) by auto
qed

section \<open>The rounds of the header\<close>

lemma capacity_small:
  fixes t :: u32
  assumes "unat t \<le> 128 * 1024 * 1024"
  shows "header_capacity 0 (ucast t) \<le> 128 * 1024 * 1024"
proof -
  let ?v = "if (ucast t :: u64) \<noteq> 0 then ucast t else 1 :: u64"
  have v: "unat ?v \<le> 134217728" using assms by (auto simp: word_neq_0_conv)
  have "header_capacity 0 (ucast t) = align_up_u64 ?v (1024 * 1024)"
    by (auto simp: header_capacity_def Let_def word_neq_0_conv)
  moreover have "unat (align_up_u64 ?v (1024 * 1024))
      = (if unat ?v mod 1048576 = 0 then unat ?v else unat ?v + (1048576 - unat ?v mod 1048576))"
    using v align_up_u64_unat [of "1024 * 1024" ?v] by simp
  moreover have "x + (1048576 - x mod 1048576) \<le> 134217728" if "x \<le> 134217728" "x mod 1048576 \<noteq> 0" for x :: nat
  proof -
    have e: "x div 1048576 * 1048576 + x mod 1048576 = x" "x mod 1048576 < 1048576" by simp_all
    then have "x div 1048576 < 128" using that by linarith
    then show ?thesis using e by linarith
  qed
  ultimately have "unat (header_capacity 0 (ucast t)) \<le> 134217728" using v by auto
  then show ?thesis by (simp add: word_le_nat_alt)
qed

lemma header_round:
  assumes A: "assembling mt c h s" and ch: "chunk_ok t mt c h d" and mem: "memory_ok E" and E: "accepting E"
    and p: "polls w = exchange (header_packet t (of_nat (length h)) d) @ ps"
  obtains s1 w1 m where "secure_round E dev True s w = header_finish E dev True m (ucast t) s1 w1" "hm_v2 m"
    "assembling mt c (h @ d) s1" "polls w1 = Poll_Tx (completed 0) # ps" "disk_writes w1 = disk_writes w" "sent w1 = sent w"
proof -
  let ?m = "header_packet t (of_nat (length h)) d"
  have ok: "loop_ok mt c True s" using A by (simp add: assembling_def)
  have d: "length ?m \<le> unat mt" "length d < 2 ^ 32"
    using ch unat_u32_lt [of t] by (simp_all add: chunk_ok_def header_fits_def)
  have p': "polls w = Poll_Rx (completed (of_nat (length ?m))) ?m # Poll_Tx (completed 0) # ps"
    using p by (simp add: exchange_def)
  obtain usb v r where r: "secure_round E dev True s w = loop_message E dev True (?m @ r) (of_nat (length ?m)) (s\<lparr>port := usb\<rparr>) v"
      "loop_ok mt c True (s\<lparr>port := usb\<rparr>)" "polls v = Poll_Tx (completed 0) # ps" "disk_writes v = disk_writes w" "sent v = sent w"
    using round_receives [OF ok E d(1) p'] by blast
  have A': "assembling mt c h (s\<lparr>port := usb\<rparr>)" using A r(2) by (simp add: assembling_def split: if_splits)
  obtain s1 w1 n where f: "header_message E dev True (?m @ r) (of_nat (60 + length d)) True (s\<lparr>port := usb\<rparr>) v
      = header_finish E dev True (packet_msg t (of_nat (length h)) n (of_nat (length h))) (ucast t) s1 w1"
      "assembling mt c (h @ d) s1" "keeps (s\<lparr>port := usb\<rparr>) v s1 w1"
    using chunk_received [OF A' ch mem] by blast
  have "secure_round E dev True s w = header_finish E dev True (packet_msg t (of_nat (length h)) n (of_nat (length h))) (ucast t) s1 w1"
    using r(1) header_dispatch(1) [OF refl d(2)] f(1) by simp
  then show thesis using that f(2,3) r(3-5) by (simp add: keeps_def same_io_def packet_msg_def)
qed

text \<open>The packets of the whole header; \<open>n\<close> bytes have been sent before.\<close>

fun header_packets :: "u32 \<Rightarrow> nat \<Rightarrow> bytes list \<Rightarrow> bytes list" where
  "header_packets t n [] = []"
| "header_packets t n (d # ds) = header_packet t (of_nat n) d # header_packets t (n + length d) ds"

lemma header_packets_length [simp]: "length (header_packets t n ds) = length ds"
  by (induction ds arbitrary: n) simp_all

lemma header_rounds:
  fixes t :: u32
  assumes t: "t \<noteq> 0" "header_capacity 0 (ucast t) = c" "c \<le> 128 * 1024 * 1024"
    and dev: "Media dev = Some media" "writable media" and mem: "memory_ok E" and E: "accepting E"
  shows "ds \<noteq> [] \<Longrightarrow> assembling mt c h s \<Longrightarrow> \<forall>d \<in> set ds. header_fits mt d
    \<Longrightarrow> length (h @ concat ds) = unat t
    \<Longrightarrow> ffu_parse_header_bytes E0 (Some (h @ concat ds)) (ucast t) pl0 w0 = Some (EFI_SUCCESS, pl, w0')
    \<Longrightarrow> image_fits (h @ concat ds) pl (BlockSize media)
    \<Longrightarrow> polls w = concat (map exchange (header_packets t (length h) ds)) @ ps
    \<Longrightarrow> \<exists>s' w'. (\<forall>fuel. secure_loop E dev True (length ds + fuel) s w = secure_loop E dev True fuel s' w')
      \<and> loop_ok mt c True s' \<and> started (h @ concat ds) pl (BlockSize media) s' \<and> polls w' = ps
      \<and> disk_writes w' = disk_writes w \<and> sent w' = sent w @ replicate (length ds) (fs_frame 0 0)"
proof (induction ds arbitrary: h s w)
  case Nil
  then show ?case by simp
next
  case (Cons d ds)
  have fit: "header_fits mt d" and len: "length h + length d + length (concat ds) = unat t"
    using Cons.prems(3,4) by simp_all
  have ch: "chunk_ok t mt c h d" using t fit len by (simp add: chunk_ok_def)
  have mt: "16 \<le> mt" using fit by (simp add: header_fits_def word_le_nat_alt)
  have p: "polls w = exchange (header_packet t (of_nat (length h)) d)
      @ concat (map exchange (header_packets t (length (h @ d)) ds)) @ ps"
    using Cons.prems(7) by simp
  obtain s1 w1 m where r: "secure_round E dev True s w = header_finish E dev True m (ucast t) s1 w1" "hm_v2 m"
      "assembling mt c (h @ d) s1" "polls w1 = Poll_Tx (completed 0) # concat (map exchange (header_packets t (length (h @ d)) ds)) @ ps"
      "disk_writes w1 = disk_writes w" "sent w1 = sent w"
    using header_round [OF Cons.prems(2) ch mem E p] by blast
  show ?case
  proof (cases "ds = []")
    case True
    have "length (h @ d) = unat t" "ffu_parse_header_bytes E0 (Some (h @ d)) (ucast t) pl0 w0 = Some (EFI_SUCCESS, pl, w0')"
      "image_fits (h @ d) pl (BlockSize media)" "polls w1 = Poll_Tx (completed 0) # ps"
      using Cons.prems(5,6) len r(4) True by simp_all
    then obtain s' w' where f: "header_finish E dev True m (ucast t) s1 w1 = Some (Returns (Next, s', w'))" "loop_ok mt c True s'"
        "started (h @ d) pl (BlockSize media) s'" "polls w' = ps" "disk_writes w' = disk_writes w1" "sent w' = sent w1 @ [fs_frame 0 0]"
      using finish_complete [OF r(3) _ t(1) r(2) _ _ dev mem E mt] by blast
    then show ?thesis using True r by (intro exI [of _ s'] exI [of _ w']) simp
  next
    case False
    then have "concat ds \<noteq> []" using Cons.prems(3) by (cases ds) (simp_all add: header_fits_def)
    then have "length (h @ d) < unat t" using len by (cases "concat ds") simp_all
    then obtain s2 w2 where f: "header_finish E dev True m (ucast t) s1 w1 = Some (Returns (Next, s2, w2))"
        "assembling mt c (h @ d) s2" "polls w2 = concat (map exchange (header_packets t (length (h @ d)) ds)) @ ps"
        "disk_writes w2 = disk_writes w1" "sent w2 = sent w1 @ [fs_frame 0 0]"
      using finish_partial [OF r(3) _ E mt r(4), where dev = dev and m = m] by blast
    obtain s' w' where y: "\<And>fuel. secure_loop E dev True (length ds + fuel) s2 w2 = secure_loop E dev True fuel s' w'"
        "loop_ok mt c True s'" "started ((h @ d) @ concat ds) pl (BlockSize media) s'" "polls w' = ps"
        "disk_writes w' = disk_writes w2" "sent w' = sent w2 @ replicate (length ds) (fs_frame 0 0)"
      using Cons.IH [OF False f(2) _ _ _ _ f(3)] Cons.prems(3-6) by auto
    then show ?thesis using r f by (intro exI [of _ s'] exI [of _ w']) simp
  qed
qed

section \<open>The whole session\<close>

definition session_packets :: "u8 \<Rightarrow> bytes list \<Rightarrow> bytes list \<Rightarrow> bytes list" where
  "session_packets pr hs ds = header_packets (of_nat (length (concat hs))) 0 hs @ packets_of pr ds"

lemma packets_of_length [simp]: "length (packets_of pr ds) = length ds"
  by (induction pr ds rule: packets_of.induct) simp_all

lemma exchange_length: "length (concat (map exchange ms)) = 2 * length ms"
  by (induction ms) (simp_all add: exchange_def)

lemma whole_session:
  assumes ok: "loop_ok mt c0 True (start_loop usb app)" and E: "accepting E" "writes_succeed E" "memory_ok E"
    and dev: "Media dev = Some media" "writable media"
    and hs: "hs \<noteq> []" "\<forall>d \<in> set hs. header_fits mt d" "concat hs = h" "length h \<le> 128 * 1024 * 1024"
    and pl: "ffu_parse_header_bytes E0 (Some h) (of_nat (length h)) pl0 w0 = Some (EFI_SUCCESS, pl, w0')" "image_fits h pl (BlockSize media)"
    and ds: "ds \<noteq> []" "\<forall>d \<in> set ds. packet_fits mt d" "length (concat ds) = image_bytes (entries pl)" "pr \<noteq> 100"
    and p: "polls w = concat (map exchange (session_packets pr hs ds)) @ ps" and fuel: "length hs + length ds \<le> fuel"
  shows "\<exists>s' w' ls. secure_loop E dev True fuel (start_loop usb app) w = Some (Returns (EFI_SUCCESS, s', w'))
    \<and> disk_writes w' = disk_writes w @ image_writes (entry_writes h pl (BlockSize media)) (entries pl) (concat ds)
    \<and> length ls = length ds \<and> sent w' = sent w @ replicate (length hs) (fs_frame 0 0) @ acks ls"
proof -
  define t where "t = (of_nat (length h) :: u32)"
  define c where "c = header_capacity 0 (ucast t)"
  obtain d ds' where hs1: "hs = d # ds'" using hs(1) by (cases hs) simp_all
  have mt: "36 \<le> mt" using hs(2) hs1 by (simp add: header_fits_def word_le_nat_alt)
  have "h \<noteq> []" using hs(2,3) hs1 by (auto simp: header_fits_def)
  have ut: "unat t = length h" using hs(4) by (simp add: t_def unsigned_of_nat take_bit_nat_eq_self)
  have uc: "(ucast t :: u64) = of_nat (length h)" by (simp flip: ut)
  have tz: "t \<noteq> 0" using ut \<open>h \<noteq> []\<close> by auto
  have c: "c \<le> 128 * 1024 * 1024" unfolding c_def by (rule capacity_small) (use hs(4) ut in simp)
  have "loop_ok mt c True (start_loop usb app)"
    using ok by (simp add: loop_ok_def port_ok_def header_ok_def ready_ok_def start_loop_def)
  then have A: "assembling mt c [] (start_loop usb app)" by (simp add: assembling_def start_loop_def)
  have ph: "ffu_parse_header_bytes E0 (Some ([] @ concat hs)) (ucast t) pl0 w0 = Some (EFI_SUCCESS, pl, w0')"
    "image_fits ([] @ concat hs) pl (BlockSize media)" "length ([] @ concat hs) = unat t"
    using pl hs(3) uc ut by simp_all
  have pw: "polls w = concat (map exchange (header_packets t (length ([] :: bytes)) hs)) @ concat (map exchange (packets_of pr ds)) @ ps"
    using p hs(3) by (simp add: session_packets_def t_def)
  then obtain s1 w1 where s1: "\<And>fuel. secure_loop E dev True (length hs + fuel) (start_loop usb app) w = secure_loop E dev True fuel s1 w1"
      "loop_ok mt c True s1" "started h pl (BlockSize media) s1" "polls w1 = concat (map exchange (packets_of pr ds)) @ ps"
      "disk_writes w1 = disk_writes w" "sent w1 = sent w @ replicate (length hs) (fs_frame 0 0)"
    using header_rounds [OF tz c_def [symmetric] c dev E(3,1) hs(1) A hs(2) ph(3,1,2) pw]
    unfolding append_Nil hs(3) by blast
  obtain p where p: "session_ok p s1" "pending (flash s1) = (entries (plan (flash s1)), [])" "entries (plan (flash s1)) = entries pl"
      "\<And>d. image_writes (emits p (flash s1)) (entries pl) d = image_writes (entry_writes h pl (BlockSize media)) (entries pl) d"
    using s1(3) by (auto simp: started_def)
  obtain k where k: "fuel = length hs + k" "length ds \<le> k" using fuel that [of "fuel - length hs"] by simp
  have im: "length (concat ds) = image_bytes (entries (plan (flash s1)))" using ds(3) p(3) by simp
  obtain s' w' ls where f: "secure_loop E dev True k s1 w1 = Some (Returns (EFI_SUCCESS, s', w'))"
      "disk_writes w' = disk_writes w1 @ image_writes (emits p (flash s1)) (entries (plan (flash s1))) (concat ds)"
      "length ls = length ds" "sent w' = sent w1 @ acks ls"
    using session_completes [OF E(1,2) mt ds(4) s1(2) p(1,2) ds(1,2) im s1(4) k(2), of dev] by blast
  then show ?thesis using s1(1,5,6) k(1) p(3,4)
    by (intro exI [of _ s'] exI [of _ w'] exI [of _ ls]) simp
qed

lemma sent_release [simp]:
  "sent (emit (AbortTransfer i b) w) = sent w" "sent (emit StopController w) = sent w"
  "sent (emit FreeTransferBuffer w) = sent w"
  by (simp_all add: sent_def)

lemma sent_close [simp]: "sent (snd (usb_transport_close E usb w)) = sent w"
  by (simp add: usb_transport_close_def Let_def)

lemma end_loop_sent: "sent (snd (end_loop E s w)) = sent w"
proof -
  have f: "sent (snd (ffu_stream_flash_free E ctx v)) = sent v" for ctx v
    by (simp add: ffu_stream_flash_free_def ffu_plan_free_def Let_def)
  show ?thesis using f [of "flash s" w] by (simp add: end_loop_def case_prod_unfold Let_def)
qed

text \<open>The same from the call of the mode on: the transport opens, and is closed at the end.\<close>

lemma usb_mode_session:
  assumes "usb_contract E" "accepting E" "writes_succeed E" "memory_ok E"
    and "length (g_ms_ext_props usb) = 142" "app_ok app" "Media dev = Some media" "writable media"
    and "usb_transport_open E usb w = Some (EFI_SUCCESS, usb', w1)"
    and "hs \<noteq> []" "\<forall>d \<in> set hs. header_fits (max_transfer usb') d" "concat hs = h" "length h \<le> 128 * 1024 * 1024"
    and "ffu_parse_header_bytes E0 (Some h) (of_nat (length h)) pl0 w0 = Some (EFI_SUCCESS, pl, w0')"
    and "image_fits h pl (BlockSize media)"
    and "ds \<noteq> []" "\<forall>d \<in> set ds. packet_fits (max_transfer usb') d" "length (concat ds) = image_bytes (entries pl)" "pr \<noteq> 100"
    and "polls w = concat (map exchange (session_packets pr hs ds)) @ ps"
  shows "\<exists>s' w' ls. usb_secure_flash_loop E dev True usb app w = Some (Returns (EFI_SUCCESS, s', w'))
    \<and> disk_writes w' = disk_writes w @ image_writes (entry_writes h pl (BlockSize media)) (entries pl) (concat ds)
    \<and> length ls = length ds \<and> sent w' = sent w @ replicate (length hs) (fs_frame 0 0) @ acks ls"
proof -
  have ne: "\<not> EFI_ERROR EFI_SUCCESS" by (simp add: EFI_ERROR_def EFI_SUCCESS_def)
  note q = open_post [OF assms(1,5,9) ne]
  have bs: "uefi_bs E" using assms(9) by (auto simp: usb_transport_open_def Let_def split: if_splits)
  have l: "loop_ok (max_transfer usb') 0 True (start_loop usb' app)" using q assms(6) by (simp add: start_loop_ok)
  have p: "polls w1 = concat (map exchange (session_packets pr hs ds)) @ ps" using open_frame [of E usb w] assms(9,20) bs by auto
  have "length (polls w1) = 2 * (length hs + length ds) + length ps"
    unfolding p by (simp only: length_append exchange_length) (simp add: session_packets_def)
  then have f: "length hs + length ds \<le> Suc (length (polls w1))" by simp
  obtain s2 w2 ls where r: "secure_loop E dev True (Suc (length (polls w1))) (start_loop usb' app) w1 = Some (Returns (EFI_SUCCESS, s2, w2))"
      "disk_writes w2 = disk_writes w1 @ image_writes (entry_writes h pl (BlockSize media)) (entries pl) (concat ds)"
      "length ls = length ds" "sent w2 = sent w1 @ replicate (length hs) (fs_frame 0 0) @ acks ls"
    using whole_session [OF l assms(2-4,7,8,10-19) p f] by blast
  obtain s3 w3 where e: "end_loop E s2 w2 = (s3, w3)" by fastforce
  have "usb_secure_flash_loop E dev True usb app w = Some (Returns (EFI_SUCCESS, s3, w3))"
    using assms(9) ne r(1) e by (simp add: usb_secure_flash_loop_def del: secure_loop.simps)
  moreover have "disk_writes w3 = disk_writes w2" "sent w3 = sent w2"
    using end_loop_frame [of E s2 w2] end_loop_sent [of E s2 w2] e by simp_all
  ultimately show ?thesis using r q by (intro exI [of _ s3] exI [of _ w3] exI [of _ ls]) (simp add: quiet_def)
qed

end
