(* ===== verification/App_Live.thy ===== *)
theory App_Live
  imports App_Spec Flash_Live Command_Line Header_Session
begin

text \<open>
  The program at work, from its command line to the last block: with a firmware that does its
  part, \<open>UfpFfu.efi --flash <ffu> --target=N --yes\<close> writes the image in the file to the device,
  and \<open>UfpFfu.efi --usb-ffu --target=N --yes\<close> the image that the host sends.
\<close>

section \<open>A firmware that does its part\<close>

text \<open>Opening the file works, and the end of the file is where its contents end.\<close>

definition serves_file :: "env \<Rightarrow> bytes \<Rightarrow> bool" where
  "serves_file E d \<longleftrightarrow> file_backed E d \<and> (\<forall>t. \<not> EFI_ERROR (handle_protocol E t))
     \<and> (\<forall>t. \<not> EFI_ERROR (open_volume E t)) \<and> (\<forall>t. \<not> EFI_ERROR (open_file E t))
     \<and> (\<forall>t. \<not> EFI_ERROR (fst (get_position E (t @ [FileSetPosition (- 1), FileGetPosition])))
          \<and> unat (snd (get_position E (t @ [FileSetPosition (- 1), FileGetPosition]))) = length d)"

text \<open>The firmware always lists the device \<open>dev\<close> under the number \<open>n\<close>.\<close>

definition lists_device :: "env \<Rightarrow> u32 \<Rightarrow> EFI_BLOCK_IO_PROTOCOL \<Rightarrow> bool" where
  "lists_device E n dev \<longleftrightarrow> (\<forall>t. \<not> EFI_ERROR (handle_protocol E t) \<and> \<not> EFI_ERROR (fst (locate_handles E t))
     \<and> unat n < length (snd (locate_handles E t)) \<and> snd (locate_handles E t) ! unat n = Some dev)"

lemma serves_sized: "serves_file E d \<Longrightarrow> file_sized E d"
  by (auto simp: serves_file_def file_sized_def split: prod.split) (metis snd_conv)

lemma make_open_path_ok:
  assumes "memory_ok E" "n \<noteq> 0" "make_open_path E (Some p) n w = Some (st, c, w')"
  shows "st = EFI_SUCCESS"
proof -
  have a: "\<exists>x v. alloc_chars E k w = (Some x, v)" for k
    using alloc_ok [OF assms(1), of "k * 2" w] by (auto simp: alloc_chars_def)
  show ?thesis using assms(2,3) a
    by (auto simp: make_open_path_def Let_def split: Option.bind_splits prod.splits option.splits) (metis option.distinct(1) prod.inject)+
qed

lemma no_error_success: "\<not> EFI_ERROR EFI_SUCCESS"
  by (simp add: EFI_ERROR_def EFI_SUCCESS_def)

lemma file_size_ok:
  assumes "serves_file E d" "file_size_of E w = (st, n, w')"
  shows "\<not> EFI_ERROR st"
proof -
  have s: "\<not> EFI_ERROR (set_position E (t @ [FileSetPosition off]))" for t off
    using assms(1) by (simp add: serves_file_def file_backed_def no_error_success)
  have g: "\<not> EFI_ERROR (fst (get_position E (t @ [FileSetPosition (- 1), FileGetPosition])))" for t
    using assms(1) by (simp add: serves_file_def)
  show ?thesis using assms(2) s [of "trace w" "- 1"] g [of "trace w"] s [of "trace w @ [FileSetPosition (- 1), FileGetPosition]" 0]
    by (auto simp: file_size_of_def SetPosition_call_def Let_def split: prod.splits if_splits)
qed

lemma file_open_ok:
  assumes E: "serves_file E d" "memory_ok E" and p: "n \<noteq> 0" "unat n \<le> length p" "unat n < 2 ^ 32"
  shows "\<exists>view w'. file_open_from_image E (Some p) n w = Some (EFI_SUCCESS, view, w') \<and> same_io w w'
    \<and> file_open view \<and> unat (view_size view) = length d"
proof -
  obtain st c w1 where o: "make_open_path E (Some p) n w = Some (st, c, w1)"
    using make_open_path_in [of "Some p" n E w] p by blast
  have st: "st = EFI_SUCCESS" by (rule make_open_path_ok [OF E(2) p(1) o])
  have h: "\<not> EFI_ERROR (handle_protocol E t)" "\<not> EFI_ERROR (open_volume E t)" "\<not> EFI_ERROR (open_file E t)" for t
    using E(1) by (simp_all add: serves_file_def)
  obtain st' view w' where r: "file_open_from_image E (Some p) n w = Some (st', view, w')" "same_io w w'"
      "st' = EFI_SUCCESS \<and> file_open view \<and> unat (view_size view) = length d \<or> EFI_ERROR st'"
    using file_open_post [OF serves_sized [OF E(1)], of "Some p" n w] p by (auto simp: open_post_def)
  have "\<not> EFI_ERROR st'"
    using r(1) file_size_ok [OF E(1)]
    by (auto simp: file_open_from_image_def o st h no_error_success HandleProtocol_call_def Let_def split: prod.splits if_splits)
  then show ?thesis using r by auto
qed

lemma get_block_device_ok:
  assumes "lists_device E n dev" "0 \<le> sint n"
  shows "\<exists>st w'. get_block_device E n w = (st, Some dev, w') \<and> \<not> EFI_ERROR st \<and> same_io w w'"
proof -
  obtain st b w' where g: "get_block_device E n w = (st, b, w')" by (cases "get_block_device E n w")
  have l: "\<not> EFI_ERROR (handle_protocol E t)" "\<not> EFI_ERROR (fst (locate_handles E t))"
    "unat n < length (snd (locate_handles E t))" "snd (locate_handles E t) ! unat n = Some dev" for t
    using assms(1) by (simp_all add: lists_device_def)
  obtain s1 hs v where h: "LocateHandleBuffer_call E w = (s1, hs, v)" by (cases "LocateHandleBuffer_call E w")
  then have "s1 = fst (locate_handles E (trace v))" "hs = snd (locate_handles E (trace v))"
    by (auto simp: LocateHandleBuffer_call_def Let_def split: prod.splits)
  then have "\<not> EFI_ERROR st" "b = Some dev"
    using g l [of "trace v"] l(1) assms(2) h by (auto simp: get_block_device_def HandleProtocol_call_def Let_def)
  then show ?thesis using g get_block_device_post(1) [OF g] by auto
qed

section \<open>The file mode\<close>

lemma fits_device_size [simp]: "fits_device d (pl\<lparr>file_size := n\<rparr>) media = fits_device d pl media"
  by (simp add: fits_device_def entry_fits_def)

lemma main_flash_ok:
  assumes fb: "file_backed E d" "file_open view" "length d < 2 ^ 64"
    and E: "writes_succeed E" "flushes E" "memory_ok E"
    and dev: "lists_device E (target o') dev" "0 \<le> sint (target o')" "Media dev = Some media"
    and wf: "plan_wf hs pl" "unat hs \<le> length d" and f: "fits_device d pl media"
  shows "\<exists>st w'. main_flash E view pl o' w = Some (st, w') \<and> \<not> EFI_ERROR st
    \<and> disk_writes w' = disk_writes w @ file_image_writes (yes o') d media pl"
proof -
  obtain st v where g: "get_block_device E (target o') w = (st, Some dev, v)" "\<not> EFI_ERROR st" "same_io w v"
    using get_block_device_ok [OF dev(1,2)] by blast
  obtain st' w' where "ffu_flash_to_block_io E view pl (Some dev) (yes o') v = Some (st', w')" "\<not> EFI_ERROR st'"
      "disk_writes w' = disk_writes v @ file_image_writes (yes o') d media pl"
    using flash_to_block_io_ok [OF fb E wf f dev(3), of "yes o'" v] by blast
  then show ?thesis using g dev(2) by (simp add: main_flash_def same_io_def)
qed

lemma main_file_ok:
  assumes E: "serves_file E d" "writes_succeed E" "flushes E" "memory_ok E"
    and dev: "lists_device E (target o') dev" "0 \<le> sint (target o')" "Media dev = Some media"
    and h: "unat sz \<le> length data" "unat sz \<le> length d" "take (unat sz) data = take (unat sz) d" "length d < 2 ^ 34"
      "ffu_parse_header_bytes E0 (Some data) sz pl0 w0 = Some (EFI_SUCCESS, pl, w0')"
    and f: "fits_device d pl media"
    and p: "path o' = Some p" "path_len o' \<noteq> 0" "unat (path_len o') \<le> length p" "unat (path_len o') < 2 ^ 32" "flash_option o'"
  shows "\<exists>st w'. main_file E o' w = Some (st, w') \<and> \<not> EFI_ERROR st
    \<and> disk_writes w' = disk_writes w @ file_image_writes (yes o') d media pl"
proof -
  have fb: "file_backed E d" using E(1) by (simp add: serves_file_def)
  obtain view w1 where op: "file_open_from_image E (path o') (path_len o') w = Some (EFI_SUCCESS, view, w1)" "same_io w w1"
      "file_open view" "unat (view_size view) = length d"
    using file_open_ok [OF E(1,4) p(2-4), of w] p(1) by auto
  have im: "same_image E view d data sz" using fb op(3,4) h(1-3) by (simp add: same_image_def)
  have z: "unat sz < 2 ^ 35" using h(2,4) by simp
  let ?pl = "pl\<lparr>file_size := view_size view\<rparr>"
  obtain w2 where pa: "ffu_parse E view w1 = Some (EFI_SUCCESS, ?pl, w2)"
    using parse_simulation [OF im E(4) z h(5)] by blast
  then have wf: "same_io w1 w2" "plan_wf (view_size view) ?pl"
    using parse_file_post [OF fb op(3) h(4), of w1] by (auto simp: no_error_success)
  then have cnt: "length (stores ?pl) = unat (store_count ?pl)" "length (entries ?pl) = unat (entry_count ?pl)"
    by (simp_all only: plan_wf_def)
  obtain x w3 where su: "ffu_print_summary E ?pl w2 = Some (x, w3)" "same_io w2 w3"
    using print_summary_post [of ?pl E w2] cnt by (auto simp: same_io_def)
  obtain y w4 where pk: "(if packets o' then ffu_packet_dry_run E ?pl w3 else Some (EFI_SUCCESS, w3)) = Some (y, w4)" "same_io w3 w4"
    using packet_dry_run_post [OF cnt(2), of E w3] by (cases "packets o'") auto
  have d64: "length d < 2 ^ 64" "unat (view_size view) \<le> length d" using h(4) op(4) by simp_all
  obtain st w5 where fl: "main_flash E view ?pl o' w4 = Some (st, w5)" "\<not> EFI_ERROR st"
      "disk_writes w5 = disk_writes w4 @ file_image_writes (yes o') d media ?pl"
    using main_flash_ok [OF fb op(3) d64(1) E(2-4) dev wf(2) d64(2), of w4] f by auto
  have "main_file E o' w = Some (st, snd (file_close view (snd (ffu_plan_free E ?pl w5))))"
    using op(1) pa su(1) pk(1) fl(1) p(5)
    by (auto simp: main_file_def Let_def ffu_plan_free_def no_error_success simp del: split_paired_Ex split: if_splits)
  moreover have "same_io w5 (snd (file_close view (snd (ffu_plan_free E ?pl w5))))"
    by (simp add: file_close_def ffu_plan_free_def same_io_def)
  moreover have "file_image_writes (yes o') d media ?pl = file_image_writes (yes o') d media pl"
    by (simp add: file_image_writes_def file_entry_writes_def [abs_def])
  ultimately show ?thesis using fl(2,3) op(2) wf(1) su(2) pk(2) by (simp add: same_io_def)
qed

section \<open>From the command line\<close>

text \<open>The firmware hands over the line that consists of these words.\<close>

definition line_given :: "env \<Rightarrow> EFI_LOADED_IMAGE_PROTOCOL \<Rightarrow> CHAR16 list list \<Rightarrow> bool" where
  "line_given E img ws \<longleftrightarrow> (\<forall>t. \<not> EFI_ERROR (handle_protocol E t)) \<and> LoadOptionsSize img \<noteq> 0
     \<and> (\<exists>cmd xs t. LoadOptions img = Some cmd \<and> unat (LoadOptionsSize img) div 2 \<le> length cmd
          \<and> take (unat (LoadOptionsSize img) div 2) cmd = line_text xs @ t \<and> line_ok xs \<and> line_end t \<and> map word xs = ws)"

lemma given_options:
  assumes "uefi_bs E" "line_given E img ws" "line_options ws = Some o''"
  shows "\<exists>o'. parse_options E (Some img) w = Some (EFI_SUCCESS, o', emit (HandleProtocol gEfiLoadedImageProtocolGuid) w)
    \<and> cut_path o' = o'' \<and> path_ok o'"
proof -
  obtain cmd xs t where l: "LoadOptions img = Some cmd" "unat (LoadOptionsSize img) div 2 \<le> length cmd"
      "take (unat (LoadOptionsSize img) div 2) cmd = line_text xs @ t" "line_ok xs" "line_end t" "map word xs = ws"
    using assms(2) by (auto simp: line_given_def)
  have g: "\<not> EFI_ERROR (handle_protocol E (trace w @ [HandleProtocol gEfiLoadedImageProtocolGuid]))" "LoadOptionsSize img \<noteq> 0"
    using assms(2) by (simp_all add: line_given_def)
  obtain o' where o: "parse_options E (Some img) w = Some (EFI_SUCCESS, o', emit (HandleProtocol gEfiLoadedImageProtocolGuid) w)"
      "cut_path o' = o''"
    using parse_options_line [OF assms(1) g(1) l(1) g(2) l(2-5)] assms(3) l(6) by auto
  moreover have "path_ok o'" by (rule parse_options_path [OF o(1)]) (use l(1,2) in auto)
  ultimately show ?thesis by blast
qed

lemma efi_main_flashes:
  assumes E: "uefi_bs E" "serves_file E d" "writes_succeed E" "flushes E" "memory_ok E"
    and l: "line_given E img (flash_words p n)" "is_path p"
    and dev: "lists_device E n dev" "0 \<le> sint n" "Media dev = Some media"
    and h: "unat sz \<le> length data" "unat sz \<le> length d" "take (unat sz) data = take (unat sz) d" "length d < 2 ^ 34"
      "ffu_parse_header_bytes E0 (Some data) sz pl0 w0 = Some (EFI_SUCCESS, pl, w0')"
    and f: "fits_device d pl media"
  shows "\<exists>st w'. EfiMain E (Some img) (uefi_system_table E) usb app w = Some (Returns (st, w')) \<and> \<not> EFI_ERROR st
    \<and> disk_writes w' = disk_writes w @ file_image_writes True d media pl"
proof -
  let ?w = "con_crlf E (say E ''UfpFfu: recovered UFP FFU protocol app'' w)"
  let ?v = "emit (HandleProtocol gEfiLoadedImageProtocolGuid) ?w"
  obtain o' where o: "parse_options E (Some img) ?w = Some (EFI_SUCCESS, o', ?v)" "path_ok o'"
      "cut_path o' = default_options\<lparr>flash_option := True, path := Some p, path_len := of_nat (length p), target := n, yes := True\<rparr>"
    using given_options [OF E(1) l(1) line_options_flash [OF l(2)], of ?w] by blast
  have c: "\<not> show_help o'" "\<not> list_block o'" "\<not> usb_ffu o'" "flash_option o'" "yes o'" "target o' = n"
    using arg_cong [OF o(3), of show_help] arg_cong [OF o(3), of list_block] arg_cong [OF o(3), of usb_ffu]
      arg_cong [OF o(3), of flash_option] arg_cong [OF o(3), of yes] arg_cong [OF o(3), of target]
    by (simp_all add: default_options_def)
  obtain p' where p': "path o' = Some p'" "take (unat (path_len o')) p' = p"
    using arg_cong [OF o(3), of path] by (auto simp: default_options_def)
  have pl: "unat (path_len o') \<le> length p'" "unat (path_len o') < 2 ^ 32" "path_len o' \<noteq> 0"
    using o(2) p' l(2) by (auto simp: path_ok_def is_path_def)
  obtain st w' where m: "main_file E o' ?v = Some (st, w')" "\<not> EFI_ERROR st"
      "disk_writes w' = disk_writes ?v @ file_image_writes True d media pl"
    using main_file_ok [OF E(2-5) _ _ dev(3) h f p'(1) pl(3,1,2) c(4), of ?v] dev(1,2) c(5,6) by auto
  have "same_io w ?v" by (simp add: same_io_def)
  then show ?thesis using o(1) c(1-3) p'(1) pl(3) m
    by (auto simp: EfiMain_def Let_def no_error_success same_io_def)
qed

lemma efi_main_usb:
  assumes E: "uefi_bs E" "usb_contract E" "accepting E" "writes_succeed E" "memory_ok E"
    and l: "line_given E img (usb_words n)" and dev: "lists_device E n dev" "0 \<le> sint n"
    and u: "length (g_ms_ext_props usb) = 142" "app_ok app" "Media dev = Some media" "writable media"
      "\<forall>v. \<exists>w1. usb_transport_open E usb v = Some (EFI_SUCCESS, usb', w1)"
    and h: "hs \<noteq> []" "\<forall>d \<in> set hs. header_fits (max_transfer usb') d" "concat hs = h" "length h \<le> 128 * 1024 * 1024"
      "ffu_parse_header_bytes E0 (Some h) (of_nat (length h)) pl0 w0 = Some (EFI_SUCCESS, pl, w0')"
      "image_fits h pl (BlockSize media)"
    and ds: "ds \<noteq> []" "\<forall>d \<in> set ds. packet_fits (max_transfer usb') d" "length (concat ds) = image_bytes (entries pl)" "pr \<noteq> 100"
      "polls w = concat (map exchange (session_packets pr hs ds)) @ ps"
  shows "\<exists>w'. EfiMain E (Some img) (uefi_system_table E) usb app w = Some (Returns (EFI_SUCCESS, w'))
    \<and> disk_writes w' = disk_writes w @ image_writes (entry_writes h pl (BlockSize media)) (entries pl) (concat ds)"
proof -
  let ?w = "con_crlf E (say E ''UfpFfu: recovered UFP FFU protocol app'' w)"
  let ?v = "emit (HandleProtocol gEfiLoadedImageProtocolGuid) ?w"
  obtain o' where o: "parse_options E (Some img) ?w = Some (EFI_SUCCESS, o', ?v)"
      "cut_path o' = default_options\<lparr>usb_ffu := True, target := n, yes := True\<rparr>"
    using given_options [OF E(1) l line_options_usb, of ?w] by blast
  have c: "\<not> show_help o'" "\<not> list_block o'" "usb_ffu o'" "yes o'" "target o' = n"
    using arg_cong [OF o(2), of show_help] arg_cong [OF o(2), of list_block] arg_cong [OF o(2), of usb_ffu]
      arg_cong [OF o(2), of yes] arg_cong [OF o(2), of target]
    by (simp_all add: default_options_def)
  obtain st v where g: "get_block_device E n ?v = (st, Some dev, v)" "\<not> EFI_ERROR st" "same_io ?v v"
    using get_block_device_ok [OF dev] by blast
  have io: "same_io w v" by (rule same_io_trans [OF _ g(3)]) (simp add: same_io_def)
  then have p: "polls v = concat (map exchange (session_packets pr hs ds)) @ ps" using ds(5) by (simp add: same_io_def)
  obtain w1 where w1: "usb_transport_open E usb v = Some (EFI_SUCCESS, usb', w1)" using u(5) by blast
  obtain s' w' where s: "usb_secure_flash_loop E dev True usb app v = Some (Returns (EFI_SUCCESS, s', w'))"
      "disk_writes w' = disk_writes v @ image_writes (entry_writes h pl (BlockSize media)) (entries pl) (concat ds)"
    using usb_mode_session [OF E(2-5) u(1-4) w1 h ds(1-4) p] by blast
  have "main_usb E usb app o' ?v = Some (Returns (EFI_SUCCESS, w'))"
    using g(1,2) c(4,5) dev(2) s(1) by (simp add: main_usb_def device_of_def)
  then show ?thesis using o(1) c(1-3) s(2) io
    by (auto simp: EfiMain_def Let_def no_error_success same_io_def)
qed

end
