(* ===== verification/Device_Properties.thy ===== *)
theory Device_Properties
  imports Handlers Sample
begin

text \<open>
  The properties of the USB transport and of the message handlers: what goes over the wire,
  what the firmware is asked to do, and that no message leads to an access outside a buffer.
  All hold for any firmware \<open>E\<close> and any history, up to the contracts that are named.
\<close>

section \<open>The transport\<close>

definition sample_usb :: USB_TRANSPORT where
  "sample_usb = \<lparr>io = True, speed = 0, configured = 0, max_transfer = 64, rx = Some (replicate 64 0),
     tx = Some (replicate 64 0), g_ms_ext_props = replicate 142 0, g_ms_ext_props_ready = False\<rparr>"

lemma sample_usb_ok: "usb_ok sample_usb"
  by (simp add: usb_ok_def sample_usb_def)

text \<open>C29. Every control request, well formed or not, is answered by exactly one event on
  endpoint 0: data of at most the length asked for, a status stage, or a stall. The buffers of
  the transport stay as they are.\<close>

theorem setup_answered_once:
  assumes "length (g_ms_ext_props usb) = 142"
  shows "\<exists>st usb' ev. handle_setup E usb s w = Some (st, usb', emit ev w) \<and> control_event (Length s) ev
    \<and> io usb' = io usb \<and> max_transfer usb' = max_transfer usb \<and> rx usb' = rx usb \<and> tx usb' = tx usb
    \<and> length (g_ms_ext_props usb') = 142"
  using handle_setup_post [OF assms, of s w E] unfolding setup_post_def by blast

theorem setup_answered_once_witness:
  "\<exists>st usb' ev. handle_setup sample_env sample_usb \<lparr>RequestType = 0x80, Request = 6, Value = 0x200, Index = 0, Length = 9\<rparr> sample_world
      = Some (st, usb', emit ev sample_world)
    \<and> control_event (Length \<lparr>RequestType = 0x80, Request = 6, Value = 0x200, Index = 0, Length = 9\<rparr>) ev
    \<and> io usb' = io sample_usb \<and> max_transfer usb' = max_transfer sample_usb \<and> rx usb' = rx sample_usb \<and> tx usb' = tx sample_usb
    \<and> length (g_ms_ext_props usb') = 142"
  by (rule setup_answered_once) (simp add: sample_usb_def)

text \<open>C31. A host that asks for the configuration gets it, cut at the length it asked for; read
  structure by structure, by the lengths, types and counts in it, it is exactly the
  configuration whose endpoints the firmware was told to enable.\<close>

theorem configuration_read_back:
  assumes "RequestType s AND 0x60 = 0" "Request s = 6" "drop_bit 8 (Value s) = 2"
  shows "\<exists>st d c. handle_setup E usb s w = Some (st, usb, emit (TransferIn 0 (take (unat (Length s)) d)) w)
    \<and> rd_configuration d = Some c \<and> length d = unat (TotalLength (ConfigDescriptor c)) \<and> ConfigInfoTable g_dev_info = [c]"
proof -
  have "ConfigInfoTable g_dev_info = [g_cfg_info]" "unat (TotalLength (ConfigDescriptor g_cfg_info)) = 32"
    by (simp_all add: g_dev_info_def g_cfg_info_def g_config_def)
  then show ?thesis using config_request [OF assms, of E usb w] config_bytes_read by fastforce
qed

theorem configuration_read_back_witness:
  "\<exists>st d c. handle_setup sample_env sample_usb \<lparr>RequestType = 0x80, Request = 6, Value = 0x200, Index = 0, Length = 9\<rparr> sample_world
      = Some (st, sample_usb, emit (TransferIn 0 (take (unat (9 :: u16)) d)) sample_world)
    \<and> rd_configuration d = Some c \<and> length d = unat (TotalLength (ConfigDescriptor c)) \<and> ConfigInfoTable g_dev_info = [c]"
  using configuration_read_back [of "\<lparr>RequestType = 0x80, Request = 6, Value = 0x200, Index = 0, Length = 9\<rparr>" sample_env sample_usb sample_world]
  by simp

text \<open>C27. Sending a message puts it on the bulk endpoint exactly once and unchanged, or, if it is
  longer than a transfer may be, not at all; nothing else is sent there, the disk is not
  touched, and the transport stays usable.\<close>

theorem send_delivers_once:
  assumes "usb_ok usb" "unat n \<le> length d"
  shows "delivers usb_ok usb_keep usb (if n \<le> max_transfer usb then [take (unat n) d] else []) w
    (usb_transport_send E usb (Some d) n w)"
  using usb.send_delivers [OF assms, of w E] by (simp add: usb.message_def)

theorem send_delivers_once_witness:
  "delivers usb_ok usb_keep sample_usb (if (3 :: u64) \<le> max_transfer sample_usb then [take (unat (3 :: u64)) [1, 2, 3, 4]] else [])
    sample_world (usb_transport_send sample_env sample_usb (Some [1, 2, 3, 4]) 3 sample_world)"
  by (rule send_delivers_once [OF sample_usb_ok]) simp

text \<open>C28. Receiving, exactly: a refused receive request is returned as it is, with no event taken.
  Otherwise the events are taken up to and including the first that is an error of the event
  handler or a transfer result on the bulk endpoint, and no further; if there is none, the
  call waits. The error is returned; a completed transfer gives success and the length that the
  controller reported, any other one \<open>EFI_ABORTED\<close>, with what the controller stored in the
  buffer. Each setup packet before that is answered once on endpoint 0, in order, and nothing
  else is done; the transport stays usable.\<close>

theorem recv_hands_over:
  assumes "usb_ok usb"
  shows "let w1 = emit (TransferOut USBFN_BULK_ENDPOINT_INDEX (max_transfer usb)) w; e = usb_transfer E (trace w1)
    in if EFI_ERROR e then usb_transport_recv E usb w = Some (Returns (e, 0, usb, w1))
       else case dropWhile waits (polls w) of
         [] \<Rightarrow> \<exists>w'. usb_transport_recv E usb w = Some (Waiting w') \<and> polls w' = [] \<and> answered (polls w) w1 w'
       | p # ps \<Rightarrow> \<exists>st n usb' w'. usb_transport_recv E usb w = Some (Returns (st, n, usb', w'))
           \<and> recv_ended usb p st n usb' \<and> polls w' = ps \<and> answered (takeWhile waits (polls w)) w1 w'
           \<and> usb_ok usb' \<and> max_transfer usb' = max_transfer usb"
  by (rule recv_exactly [OF assms])

text \<open>A reset of the bus, a message of three bytes, and an event that stays for the next call.\<close>

definition three_polls :: "usbfn_poll list" where
  "three_polls = [Poll_Reset,
     Poll_Rx \<lparr>BytesTransferred = 3, TransferStatus = UsbTransferStatusComplete, EndpointIndex = USBFN_BULK_ENDPOINT_INDEX\<rparr> [1, 2, 3],
     Poll_Detach]"

theorem recv_hands_over_witness:
  "\<exists>usb' w'. usb_transport_recv sample_env sample_usb (sample_world\<lparr>polls := three_polls\<rparr>)
      = Some (Returns (EFI_SUCCESS, 3, usb', w')) \<and> polls w' = [Poll_Detach]
    \<and> rx usb' = map_option (received [1, 2, 3]) (rx sample_usb) \<and> usb_ok usb'"
proof -
  let ?w = "sample_world\<lparr>polls := three_polls\<rparr>"
  have t: "\<not> EFI_ERROR (usb_transfer sample_env t)" for t by (simp add: sample_env_defs EFI_ERROR_def)
  have d: "dropWhile waits (polls ?w) = tl three_polls" by (simp add: three_polls_def waits_def)
  have "\<exists>st n usb' w'. usb_transport_recv sample_env sample_usb ?w = Some (Returns (st, n, usb', w'))
      \<and> recv_ended sample_usb (three_polls ! 1) st n usb' \<and> polls w' = [Poll_Detach] \<and> usb_ok usb'"
    using recv_hands_over [OF sample_usb_ok, of ?w sample_env] unfolding Let_def if_not_P [OF t] d
    by (simp add: three_polls_def) blast
  then show ?thesis by (auto simp: three_polls_def recv_ended_def)
qed

text \<open>C30. If opening the transport succeeds, it is usable: there is an interface, both transfer
  buffers have the size of the largest transfer, and that is positive and at most the limit of
  the code. The firmware is relied on to deliver buffers of the size asked for, and an
  interface when it says that it found one.\<close>

theorem open_makes_usable:
  assumes "usb_contract E" "length (g_ms_ext_props usb) = 142"
    and "usb_transport_open E usb w = Some (st, usb', w')" "\<not> EFI_ERROR st"
  shows "io usb' \<and> (\<exists>b. rx usb' = Some b \<and> length b = unat (max_transfer usb'))
    \<and> (\<exists>b. tx usb' = Some b \<and> length b = unat (max_transfer usb'))
    \<and> max_transfer usb' \<noteq> 0 \<and> max_transfer usb' \<le> USBFN_MAX_XFER \<and> sent w' = sent w \<and> quiet w w'"
  using open_post [OF assms] by (simp add: usb_ok_def)

definition buffer_env :: env where
  "buffer_env = sample_env\<lparr>has_get_max_transfer := True, get_max_transfer := \<lambda>_. (0, 64), has_alloc_buffer := True,
     alloc_buffer := \<lambda>t. (case last t of AllocateTransferBuffer n \<Rightarrow> (0, Some (replicate (unat n) 0)) | _ \<Rightarrow> (0, None))\<rparr>"

lemma buffer_env_contract: "usb_contract buffer_env"
  by (simp add: usb_contract_def buffer_env_def sample_env_defs)

lemma buffer_open: "\<exists>w'. usb_transport_open buffer_env sample_usb sample_world = Some (EFI_SUCCESS, sample_usb, w')"
  by (simp add: usb_transport_open_def open_buffers_def open_start_def buffer_env_def sample_env_defs zero_usb_def
      sample_usb_def sample_world_def EFI_ERROR_def EFI_SUCCESS_def USBFN_MAX_XFER_def Let_def)

theorem open_makes_usable_witness:
  "\<exists>w'. usb_transport_open buffer_env sample_usb sample_world = Some (EFI_SUCCESS, sample_usb, w')
    \<and> io sample_usb \<and> (\<exists>b. rx sample_usb = Some b \<and> length b = unat (max_transfer sample_usb))
    \<and> (\<exists>b. tx sample_usb = Some b \<and> length b = unat (max_transfer sample_usb))
    \<and> max_transfer sample_usb \<noteq> 0 \<and> max_transfer sample_usb \<le> USBFN_MAX_XFER
    \<and> sent w' = sent sample_world \<and> quiet sample_world w'"
proof -
  obtain w' where w: "usb_transport_open buffer_env sample_usb sample_world = Some (EFI_SUCCESS, sample_usb, w')"
    using buffer_open by blast
  have "length (g_ms_ext_props sample_usb) = 142" by (simp add: sample_usb_def)
  from open_makes_usable [OF buffer_env_contract this w] show ?thesis
    using w by (simp add: EFI_ERROR_def EFI_SUCCESS_def)
qed

section \<open>Device information and parameters\<close>

text \<open>C35. The version and capability message is a well-formed list of blocks: a host that reads
  the number of blocks from byte 10 and then as many blocks of identifier, 16-bit length and
  contents gets back exactly the capabilities: transfer sizes, sectors, versions, bus speed.\<close>

theorem device_info_roundtrip:
  assumes "usb_ok usb"
  shows "replies usb (v_frame (v_blocks usb dev)) w (send_v_info_response E usb dev w)
    \<and> read_blocks_tlv (unat (v_frame (v_blocks usb dev) ! 10)) (drop 11 (v_frame (v_blocks usb dev)))
      = Some (v_blocks usb dev)"
  using v_info_replies [OF assms] v_frame_parse by blast

theorem device_info_roundtrip_witness:
  "replies sample_usb (v_frame (v_blocks sample_usb None)) sample_world (send_v_info_response sample_env sample_usb None sample_world)
    \<and> read_blocks_tlv (unat (v_frame (v_blocks sample_usb None) ! 10)) (drop 11 (v_frame (v_blocks sample_usb None)))
      = Some (v_blocks sample_usb None)"
  by (rule device_info_roundtrip [OF sample_usb_ok])

text \<open>The 500 bytes of FFU options that a host writes are the ones that reading the same
  parameter returns.\<close>

theorem ffu_options_roundtrip:
  assumes "usb_ok usb" "app_ok app" "unat len \<le> length msg" "515 \<le> len"
    and "rd_be32 (drop 7 msg) = Some 0x464F0000" "rd_be32 (drop 11 msg) = Some 500"
    and "usb_ok usb'" "11 \<le> len'" "rd_be32 (drop 7 msg') = Some 0x464F0000"
  shows "\<exists>app' r. handle_write_param E app usb msg len w = Some (app', r) \<and> replies usb (fw_frame 0x464F0000 0) w (Some r)
    \<and> answers usb' (fr_frame 0x464F0000 0 500 (take 500 (drop 15 msg))) w' (handle_read_param E app' usb' dev msg' len' w')"
proof -
  obtain r where r: "handle_write_param E app usb msg len w = Some (app\<lparr>g_ffu_options := take 500 (drop 15 msg)\<rparr>, r)"
    "replies usb (fw_frame 0x464F0000 0) w (Some r)"
    using FO_write [OF assms(1-6), of E w] by blast
  have "(515 :: nat) \<le> unat len" using assms(4) by (simp add: word_le_nat_alt)
  then have l: "length (take 500 (drop 15 msg)) = 500" using assms(3) by simp
  have "answers usb' (fr_frame 0x464F0000 0 500 (take 500 (drop 15 msg))) w'
      (handle_read_param E (app\<lparr>g_ffu_options := take 500 (drop 15 msg)\<rparr>) usb' dev msg' len' w')"
    by (rule FO_read [OF assms(7) l _ assms(8,9)]) simp
  then show ?thesis using r by blast
qed

definition options_request :: bytes where
  "options_request = asc ''NOKXFW'' @ [0] @ be32_bytes 0x464F0000 @ be32_bytes 500 @ replicate 500 9"

definition options_query :: bytes where
  "options_query = asc ''NOKXFR'' @ [0] @ be32_bytes 0x464F0000"

definition sample_app :: app where "sample_app = \<lparr>g_ffu_options = replicate 500 0, g_mode_data = 0\<rparr>"

lemma options_messages:
  "drop 7 options_request = be32_bytes 0x464F0000 @ be32_bytes 500 @ replicate 500 9"
  "drop 11 options_request = be32_bytes 500 @ replicate 500 9"
  "drop 7 options_query = be32_bytes 0x464F0000 @ []" "length options_request = 515"
  by (simp_all add: options_request_def options_query_def)

theorem ffu_options_roundtrip_witness:
  "\<exists>app' r. handle_write_param sample_env sample_app sample_usb options_request 515 sample_world = Some (app', r)
    \<and> replies sample_usb (fw_frame 0x464F0000 0) sample_world (Some r)
    \<and> answers sample_usb (fr_frame 0x464F0000 0 500 (take 500 (drop 15 options_request))) sample_world
        (handle_read_param sample_env app' sample_usb None options_query 11 sample_world)"
  by (rule ffu_options_roundtrip [OF sample_usb_ok _ _ _ _ _ sample_usb_ok])
    (simp_all only: options_messages be32.dec_enc app_ok_def sample_app_def app.simps length_replicate, simp_all)

text \<open>A log identifier is accepted exactly if it lies inside the message, has at most 200
  bytes, ends with a zero and has no other.\<close>

theorem log_id_verdict:
  assumes "unat len \<le> length msg"
  shows "write_LI E usb param k msg len w = send_fw_response E usb param
      (if 15 + unat k \<le> unat len \<and> log_id_ok (take (unat k) (drop 15 msg)) (unat k) then 0 else 8) w"
  using write_LI_eq [OF assms, of E usb param k w] by (simp add: not_less [symmetric])

theorem log_id_verdict_witness:
  "write_LI sample_env sample_usb 0x4C490000 2 (replicate 15 0 @ [0x41, 0]) 17 sample_world
    = send_fw_response sample_env sample_usb 0x4C490000
      (if 15 + unat (2 :: u32) \<le> unat (17 :: u64) \<and> log_id_ok (take (unat (2 :: u32)) (drop 15 (replicate 15 0 @ [0x41, 0]))) (unat (2 :: u32))
       then 0 else 8) sample_world"
  by (rule log_id_verdict) simp

section \<open>UEFI variables\<close>

text \<open>C36. A request to read a variable is answered, once and with a parameter response, whenever
  the response fits the transport and memory does not run out. A request that is too short, has
  a malformed name or asks for more than 64 KB gets status 8, one whose value could not be sent
  back status 48, without asking the firmware. Any other is put to \<open>GetVariable\<close>, with the name,
  the vendor and the buffer size of the request, and answered as it says: status 10 for a
  variable that is not there and 2 for other errors, with no data, or status 0 with the
  attributes, the size and the value that it delivered.\<close>

theorem read_variable_answer:
  assumes "usb_ok usb" "unat len \<le> length msg" "variable_contract E" "memory_ok E"
  shows "replies usb (reply_frame param (read_reply E (trace w) (read_request E msg (unat len) (max_transfer usb)))) w
    (handle_read_uefi_var_value E usb param msg len w)"
  by (rule read_uefi_var_value_exact [OF assms])

lemma sample_variable_contract: "variable_contract sample_env"
  by (simp add: variable_contract_def sample_env_defs)

lemma sample_memory_ok: "memory_ok sample_env"
  by (simp add: memory_ok_def sample_env_defs EFI_ERROR_def)

text \<open>A variable that the firmware has, and a transport of 128 bytes.\<close>

definition variable_env :: env where
  "variable_env = sample_env\<lparr>get_variable := \<lambda>t. (case last t of GetVariable name guid n \<Rightarrow>
     if n = 4 then (0, 7, 3, [1, 2, 3]) else (EFI_NOT_FOUND, 0, 0, []) | _ \<Rightarrow> (0, 0, 0, []))\<rparr>"

definition mid_usb :: USB_TRANSPORT where
  "mid_usb = sample_usb\<lparr>max_transfer := 128, rx := Some (replicate (unat (128 :: u64)) 0), tx := Some (replicate (unat (128 :: u64)) 0)\<rparr>"

definition read_message :: bytes where
  "read_message = replicate 31 0 @ be32_bytes 4 @ be32_bytes 2 @ [0x41, 0]"

theorem read_variable_answer_witness:
  "replies mid_usb (fr_frame 0x47554656 0 11 (be32_bytes 7 @ be32_bytes 3 @ [1, 2, 3])) sample_world
    (handle_read_uefi_var_value variable_env mid_usb 0x47554656 read_message 41 sample_world)"
proof -
  have ok: "usb_ok mid_usb" using sample_usb_ok by (simp add: usb_ok_def mid_usb_def)
  have con: "variable_contract variable_env" "memory_ok variable_env"
    using sample_memory_ok by (auto simp: variable_contract_def variable_env_def memory_ok_def uefi_bs_def EFI_ERROR_def split: if_splits)
  have msg: "rd_be32 (drop 31 read_message) = Some 4" "rd_be32 (drop 35 read_message) = Some 2" "drop 39 read_message = [0x41, 0]"
      "length read_message = 41"
    by code_simp+
  have q: "read_request variable_env read_message (unat (41 :: u64)) (max_transfer mid_usb) = Inr ([0x41, 0, 0, 0], take 16 (drop 15 read_message), 4)"
    using msg by (simp add: read_request_def variable_env_def sample_env_defs uefi_rs_def mid_usb_def)
  have nf: "EFI_NOT_FOUND \<noteq> 0" by code_simp
  have "read_reply variable_env (trace sample_world) (Inr ([0x41, 0, 0, 0], take 16 (drop 15 read_message), 4))
    = (0, be32_bytes 7 @ be32_bytes 3 @ [1, 2, 3])"
    by (simp add: read_reply_def variable_env_def EFI_ERROR_def nf [symmetric])
  then have "reply_frame 0x47554656 (read_reply variable_env (trace sample_world)
      (read_request variable_env read_message (unat (41 :: u64)) (max_transfer mid_usb)))
    = fr_frame 0x47554656 0 11 (be32_bytes 7 @ be32_bytes 3 @ [1, 2, 3])"
    unfolding q by (simp add: reply_frame_def be32_bytes_def)
  then show ?thesis
    using read_variable_answer [OF ok _ con, where len = 41 and msg = read_message and param = "0x47554656" and w = sample_world] msg(4) by simp
qed

text \<open>C37. Writing a variable sets exactly the one that the request describes, once, or none: a
  request with a malformed name, or lengths beyond the message, is refused with status 8 and
  leaves the variables alone. The answer reports what the firmware said.\<close>

theorem write_variable_effect:
  assumes "usb_ok usb" "unat len \<le> length msg"
  shows "\<exists>s v. handle_write_uefi_var E usb param msg len w = send_fw_response E usb param s v \<and> sent v = sent w
    \<and> (case write_request msg (unat len) of None \<Rightarrow> s = 8 \<and> vars_set (trace v) = vars_set (trace w)
      | Some r \<Rightarrow> s = 8 \<and> \<not> (uefi_rs E \<and> has_set_variable E) \<and> vars_set (trace v) = vars_set (trace w)
          \<or> s = 1 \<and> vars_set (trace v) = vars_set (trace w)
          \<or> (s = 0 \<or> s = 4) \<and> vars_set (trace v) = vars_set (trace w) @ [r])"
  using write_uefi_var_post [OF assms, of E param w] unfolding write_outcome_def by blast

definition variable_message :: bytes where
  "variable_message = replicate 31 0 @ be32_bytes 2 @ [0x41, 0] @ replicate 510 0 @ be32_bytes 7 @ be32_bytes 1 @ [9]"

theorem write_variable_effect_witness:
  "\<exists>s v. handle_write_uefi_var sample_env sample_usb 0x53554656 variable_message 556 sample_world
      = send_fw_response sample_env sample_usb 0x53554656 s v \<and> sent v = sent sample_world
    \<and> (case write_request variable_message (unat (556 :: u64)) of None \<Rightarrow> s = 8 \<and> vars_set (trace v) = vars_set (trace sample_world)
      | Some r \<Rightarrow> s = 8 \<and> \<not> (uefi_rs sample_env \<and> has_set_variable sample_env) \<and> vars_set (trace v) = vars_set (trace sample_world)
          \<or> s = 1 \<and> vars_set (trace v) = vars_set (trace sample_world)
          \<or> (s = 0 \<or> s = 4) \<and> vars_set (trace v) = vars_set (trace sample_world) @ [r])"
  by (rule write_variable_effect [OF sample_usb_ok]) (simp add: variable_message_def)

section \<open>Messages that look at the disk\<close>

text \<open>C39. An unlock request is judged by its version and by whether its token lies inside the
  message, and every request, however short, gets one answer with that verdict.\<close>

theorem unlock_verdict_sent:
  assumes "usb_ok usb" "unat len \<le> length msg"
  shows "replies usb (unlock_frame (fst (unlock_verdict msg (unat len)))
      (efi_status_to_wire32 (snd (unlock_verdict msg (unat len))))) w (handle_unlock E usb msg len w)"
  by (rule unlock_replies [OF assms])

theorem unlock_verdict_sent_witness:
  "replies sample_usb (unlock_frame (fst (unlock_verdict (replicate 6 0 @ [0, 0, 0, 2]) (unat (10 :: u64))))
      (efi_status_to_wire32 (snd (unlock_verdict (replicate 6 0 @ [0, 0, 0, 2]) (unat (10 :: u64)))))) sample_world
    (handle_unlock sample_env sample_usb (replicate 6 0 @ [0, 0, 0, 2]) 10 sample_world)"
  by (rule unlock_verdict_sent [OF sample_usb_ok]) simp

text \<open>The echo message returns the bytes it was sent, cut at the end of the message if the
  length it announces is larger, and nothing that was not in the message.\<close>

theorem echo_returns_message:
  assumes "usb_ok usb" "unat len \<le> length msg" "unat len < 2 ^ 32"
  shows "answers usb (asc ''NOKXCE'' @ (if unat len < 10 then [] else
      case rd_be32 (drop 6 msg) of None \<Rightarrow> [] | Some k \<Rightarrow> take (min (unat k) (unat len - 10)) (drop 10 msg)))
    w (common_ext_echo E usb msg len w)"
  using echo_post [OF assms] by (simp add: echo_bytes_def)

theorem echo_returns_message_witness:
  "answers sample_usb (asc ''NOKXCE'' @ (if unat (12 :: u64) < 10 then [] else
      case rd_be32 (drop 6 (replicate 10 0 @ [5, 6])) of None \<Rightarrow> []
      | Some k \<Rightarrow> take (min (unat k) (unat (12 :: u64) - 10)) (drop 10 (replicate 10 0 @ [5, 6]))))
    sample_world (common_ext_echo sample_env sample_usb (replicate 10 0 @ [5, 6]) 12 sample_world)"
  by (rule echo_returns_message [OF sample_usb_ok]) simp_all

text \<open>C38. The partition table message is answered, once, whenever the answer fits the transport
  and memory does not run out: with status 0 and the first 34 blocks of 512 bytes or the first
  6 of 4096 as the device delivers them when it is asked for them, with status 2 and as many
  zeros if it reports an error, and with status 8 and no data, without reading, for any other
  block size.\<close>

theorem gpt_answer_sent:
  assumes "usb_ok usb" "Media dev = Some media" "read_contract E" "memory_ok E"
  shows "replies usb (gpt_frame (fst (gpt_reply E media (trace w))) (snd (gpt_reply E media (trace w)))) w
    (handle_get_gpt E usb dev w)"
  by (rule get_gpt_exact [OF assms])

definition reading_env :: env where
  "reading_env = sample_env\<lparr>read_blocks := \<lambda>t. (case last t of ReadBlocks m lba n \<Rightarrow> (0, replicate (unat n) 7) | _ \<Rightarrow> (0, []))\<rparr>"

definition disk_512 :: EFI_BLOCK_IO_MEDIA where
  "disk_512 = \<lparr>MediaId = 1, RemovableMedia = False, MediaPresent = True, LogicalPartition = False, ReadOnly = False,
     WriteCaching = False, BlockSize = 512, IoAlign = 0, LastBlock = 99, LowestAlignedLba = 0, LogicalBlocksPerPhysicalBlock = 0,
     OptimalTransferLengthGranularity = 0\<rparr>"

theorem gpt_answer_sent_witness:
  "replies sample_usb (gpt_frame 0 (replicate (34 * 512) 7)) sample_world
    (handle_get_gpt reading_env sample_usb \<lparr>Media = Some disk_512, FlushBlocks = True\<rparr> sample_world)"
proof -
  have m: "memory_ok reading_env" using sample_memory_ok by (simp add: memory_ok_def reading_env_def uefi_bs_def)
  have "gpt_reply reading_env disk_512 (trace sample_world) = (0, replicate (34 * 512) 7)"
    by (simp add: gpt_reply_def gpt_bytes_def disk_512_def reading_env_def EFI_ERROR_def)
  then show ?thesis
    using gpt_answer_sent [OF sample_usb_ok, of "\<lparr>Media = Some disk_512, FlushBlocks = True\<rparr>" disk_512 reading_env sample_world] m
    by (simp add: read_contract_def reading_env_def)
qed

text \<open>C23. A legacy flash message makes at most one write: the blocks that it carries, to the
  sector that it names, if they lie inside the message and inside the device, it is not a
  check, and the mode commits. There is always one answer.\<close>

theorem legacy_flash_effect:
  assumes "usb_ok usb" "unat len \<le> length msg" "Media dev = Some media"
  shows "\<exists>s n sp v. handle_legacy_flash E usb dev msg len commit w = send_legacy_flash_response E usb s n sp v
    \<and> replies usb (legacy_frame s n sp) v (send_legacy_flash_response E usb s n sp v)
    \<and> sent v = sent w \<and> polls v = polls w
    \<and> disk_writes v = disk_writes w @ (if commit then (case legacy_write media msg (unat len) of None \<Rightarrow> [] | Some x \<Rightarrow> [x]) else [])"
  using legacy_flash_post [OF assms(2,3), of E usb commit w] short_replies(5) [OF assms(1)]
  unfolding legacy_outcome_def by blast

definition legacy_message :: bytes where
  "legacy_message = replicate 11 0 @ be32_bytes 5 @ be32_bytes 1 @ replicate 45 0 @ replicate 512 3"

theorem legacy_flash_effect_witness:
  "\<exists>s n sp v. handle_legacy_flash sample_env sample_usb \<lparr>Media = Some disk_512, FlushBlocks = True\<rparr> legacy_message 576 True sample_world
      = send_legacy_flash_response sample_env sample_usb s n sp v
    \<and> replies sample_usb (legacy_frame s n sp) v (send_legacy_flash_response sample_env sample_usb s n sp v)
    \<and> sent v = sent sample_world \<and> polls v = polls sample_world
    \<and> disk_writes v = disk_writes sample_world @ (if True then
        (case legacy_write disk_512 legacy_message (unat (576 :: u64)) of None \<Rightarrow> [] | Some x \<Rightarrow> [x]) else [])"
  by (rule legacy_flash_effect [OF sample_usb_ok]) (simp_all add: legacy_message_def)

end
