(* ===== verification/Image_Properties.thy ===== *)
theory Image_Properties
  imports Flash_Live
begin

text \<open>
  The properties of the flashers of \<open>src/ffu.c\<close>: the stream flasher keeps its invariant and
  makes progress, the flasher that reads a file writes the image that the file describes and
  stays on the device, both write the same sectors, and the packet plan is the right one.
\<close>

section \<open>The stream flasher\<close>

text \<open>C20. Starting a stream flasher on a header that lies in memory either reports an error or
  establishes the invariant: a well-formed plan, a buffer that any entry fits, a position
  inside the plan. Nothing has been received then, and nothing written.\<close>

theorem stream_start_establishes:
  assumes "H a = Some p" "unat sz \<le> length p" "unat sz < 2 ^ 35"
  shows "\<exists>st ctx w'. ffu_stream_flash_init E H ctx0 (Some a) sz b commit w = Some (st, ctx, w')
    \<and> disk_writes w' = disk_writes w \<and> polls w' = polls w
    \<and> (EFI_ERROR st \<or> st = EFI_SUCCESS \<and> stream_inv H p ctx
         \<and> pending ctx = (entries (plan ctx), []) \<and> (dry_run ctx = 0 \<longleftrightarrow> commit))"
  using init_inv [of H a p sz, OF assms, of E ctx0 b commit w] by blast

theorem stream_start_establishes_witness:
  "\<exists>st ctx w'. ffu_stream_flash_init sample_env sample_heap zero_ctx (Some 0) 2312 None True sample_world = Some (st, ctx, w')
    \<and> disk_writes w' = disk_writes sample_world \<and> polls w' = polls sample_world
    \<and> (EFI_ERROR st \<or> st = EFI_SUCCESS \<and> stream_inv sample_heap sample_header ctx
         \<and> pending ctx = (entries (plan ctx), []) \<and> (dry_run ctx = 0 \<longleftrightarrow> True))"
  by (rule stream_start_establishes) (simp_all add: sample_heap_def)

text \<open>C19. Every message keeps the invariant, whatever the device answers: also after a failed
  write the flasher is in a state from which no message leads out of its buffers.\<close>

theorem stream_message_keeps_invariant:
  assumes "stream_inv H p ctx" "unat len = length data"
  shows "\<exists>st ctx' w'. ffu_stream_flash_payload E H ctx (Some data) len w = Some (st, ctx', w')
    \<and> stream_inv H p ctx' \<and> config ctx' = config ctx \<and> polls w' = polls w
    \<and> (dry_run ctx \<noteq> 0 \<longrightarrow> disk_writes w' = disk_writes w)"
  using payload_safe [OF assms, of E w] by fastforce

lemma sample_inv: "stream_inv sample_heap sample_header sample_ctx" "live sample_ctx"
  using init_success [OF _ _ _ sample_init, of sample_header] by (simp_all add: sample_heap_def)

theorem stream_message_keeps_invariant_witness:
  "\<exists>st ctx' w'. ffu_stream_flash_payload (sample_env\<lparr>write_blocks := \<lambda>_. EFIERR 7\<rparr>) sample_heap sample_ctx
        (Some [1, 2, 3, 4, 5, 6, 7, 8, 9]) 9 sample_world = Some (st, ctx', w')
    \<and> stream_inv sample_heap sample_header ctx' \<and> config ctx' = config sample_ctx \<and> polls w' = polls sample_world
    \<and> (dry_run sample_ctx \<noteq> 0 \<longrightarrow> disk_writes w' = disk_writes sample_world)"
  by (rule stream_message_keeps_invariant [OF sample_inv(1)]) simp

text \<open>C18. Progress: if the locations of the image are ones that the device can take and the
  device accepts its writes, then bytes that the image still needs are always accepted, and
  exactly that many fewer are missing.\<close>

theorem stream_accepts_missing:
  assumes "stream_inv H p ctx" "live ctx" "unat len = length data"
    and "flashable p ctx" "writes_succeed E" "length data \<le> missing ctx"
  shows "\<exists>ctx' w'. ffu_stream_flash_payload E H ctx (Some data) len w = Some (EFI_SUCCESS, ctx', w')
    \<and> stream_inv H p ctx' \<and> live ctx' \<and> missing ctx' = missing ctx - length data
    \<and> (missing ctx' = 0 \<longrightarrow> ffu_stream_flash_done ctx')"
proof -
  obtain ws es b where c: "consume (emits p ctx) (fst (pending ctx)) (snd (pending ctx) @ data) = (ws, es, b)"
    by (metis surj_pair)
  obtain ctx' w' where r: "ffu_stream_flash_payload E H ctx (Some data) len w = Some (EFI_SUCCESS, ctx', w')"
    "stream_inv H p ctx'" "live ctx'" "missing ctx' = missing ctx - length data"
    using payload_succeeds [OF assms c, of w] by blast
  have "ffu_stream_flash_done ctx'" if "missing ctx' = 0"
    using missing_done [OF r(2,3)] that by simp
  then show ?thesis using r by (intro exI [of _ ctx'] exI [of _ w']) simp
qed

lemma sample_location_word: "le32_at sample_header 2304 = 0" "le32_at sample_header 2308 = 3"
proof -
  have "drop 2304 sample_header = [0, 0, 0, 0, 3, 0, 0, 0]" "drop 2308 sample_header = [3, 0, 0, 0]"
    by (simp_all add: sample_header_def sample_lengths) (simp_all add: sample_descriptor_def)
  moreover have "rd_le32 [0, 0, 0, 0, 3, 0, 0, 0] = Some 0" "rd_le32 [3, 0, 0, 0] = Some 3"
    by code_simp+
  ultimately show "le32_at sample_header 2304 = 0" "le32_at sample_header 2308 = 3"
    by (simp_all add: le32_at_def)
qed

lemma sample_flashable: "flashable sample_header sample_ctx"
  by (simp add: flashable_def sample_defs entry_method_def entry_target_def sample_location_word)

lemma sample_missing: "missing sample_ctx = 8"
  by (simp add: missing_def sample_defs image_bytes_def)

theorem stream_accepts_missing_witness:
  "\<exists>ctx' w'. ffu_stream_flash_payload sample_env sample_heap sample_ctx (Some [1, 2, 3, 4, 5, 6, 7, 8]) 8 sample_world
      = Some (EFI_SUCCESS, ctx', w')
    \<and> stream_inv sample_heap sample_header ctx' \<and> live ctx'
    \<and> missing ctx' = missing sample_ctx - length [1, 2, 3, 4, 5, 6, 7, 8 :: u8]
    \<and> (missing ctx' = 0 \<longrightarrow> ffu_stream_flash_done ctx')"
  by (rule stream_accepts_missing [OF sample_inv _ sample_flashable])
    (simp_all add: writes_succeed_def sample_env_defs EFI_ERROR_def sample_missing)

section \<open>Flashing from a file\<close>

text \<open>C12. Flashing a file through Block I/O ends and makes only writes that the image describes,
  each inside the device, in order (none in a dry run): on an error the first ones, on success all
  of them, unless an entry is no multiple of the device's blocks; then the loop stops at that entry,
  and the flush replaces the error.\<close>

theorem file_flash_writes:
  assumes "file_backed E d" "file_open view" "length d < 2 ^ 64"
    and "plan_wf hs pl" "unat hs \<le> length d" "Media dev = Some media"
  shows "\<exists>st w' ws. ffu_flash_to_block_io E view pl (Some dev) commit w = Some (st, w')
    \<and> disk_writes w' = disk_writes w @ ws \<and> prefix ws (file_image_writes commit d media pl)
    \<and> (EFI_ERROR st \<or> ws = file_image_writes commit d media pl
         \<or> FlushBlocks dev \<and> (\<exists>e \<in> set (entries pl). byte_count e mod BlockSize media \<noteq> 0))
    \<and> (\<forall>x \<in> set ws. unat (BlockSize media) dvd length (snd x)
         \<and> unat (fst x) + length (snd x) div unat (BlockSize media) \<le> unat (LastBlock media) + 1)
    \<and> (\<not> commit \<longrightarrow> ws = [])"
proof -
  have dry: "file_image_writes False d media pl = []"
    by (simp add: file_image_writes_def file_entry_writes_def location_slice_def slice_writes_def)
  show ?thesis
    using flash_to_block_io_post [OF assms, of commit w] dry by (auto simp: in_device_def misaligned_def)
qed

text \<open>The firmware of a file with the contents \<open>d\<close>.\<close>

definition file_env :: "bytes \<Rightarrow> env" where
  "file_env d = sample_env\<lparr>file_read := \<lambda>t. (case rev t of
     FileRead n # FileSetPosition off # _ \<Rightarrow>
       if unat off \<le> length d then (EFI_SUCCESS, take (unat n) (drop (unat off) d)) else (EFIERR 7, [])
   | _ \<Rightarrow> (EFIERR 7, []))\<rparr>"

lemma file_env_backed: "file_backed (file_env d) d"
  by (simp add: file_backed_def file_env_def sample_env_defs EFI_SUCCESS_def)

definition sample_file :: bytes where
  "sample_file = sample_header @ [1, 2, 3, 4, 5, 6, 7, 8]"

lemma sample_plan_wf: "plan_wf 2312 sample_plan"
  using parse_header_success(1) [OF _ _ sample_parse] by simp

theorem file_flash_writes_witness:
  "\<exists>st w' ws. ffu_flash_to_block_io (file_env sample_file) \<lparr>file_open = True, view_size = 2320\<rparr> sample_plan
      (Some sample_bio) True sample_world = Some (st, w')
    \<and> disk_writes w' = disk_writes sample_world @ ws \<and> prefix ws (file_image_writes True sample_file sample_media sample_plan)
    \<and> (EFI_ERROR st \<or> ws = file_image_writes True sample_file sample_media sample_plan
         \<or> FlushBlocks sample_bio \<and> (\<exists>e \<in> set (entries sample_plan). byte_count e mod BlockSize sample_media \<noteq> 0))
    \<and> (\<forall>x \<in> set ws. unat (BlockSize sample_media) dvd length (snd x)
         \<and> unat (fst x) + length (snd x) div unat (BlockSize sample_media) \<le> unat (LastBlock sample_media) + 1)
    \<and> (\<not> True \<longrightarrow> ws = [])"
  by (rule file_flash_writes [OF file_env_backed _ _ sample_plan_wf])
    (simp_all add: sample_file_def sample_bio_def)

text \<open>C13. An image whose first entry is no multiple of the device's blocks is not written at all, and
  yet committing it to a device that flushes returns success: the loop over the entries is left
  with a break, and the status of the flush replaces the one of the entry.\<close>

theorem misaligned_flash_reports_success:
  assumes "memory_ok E" "flushes E" "plan_wf hs pl" "entries pl = e # es" "byte_count e mod BlockSize media \<noteq> 0"
    and "Media dev = Some media" "MediaPresent media" "\<not> ReadOnly media" "BlockSize media \<noteq> 0" "FlushBlocks dev"
  shows "\<exists>st w'. ffu_flash_to_block_io E view pl (Some dev) True w = Some (st, w') \<and> \<not> EFI_ERROR st
    \<and> disk_writes w' = disk_writes w"
proof -
  obtain b v where a: "uefi_alloc E (flash_buffer_size (BlockSize media)) w = (Some b, v)"
    using alloc_ok [OF assms(1)] by blast
  note dw = disk_writes_alloc [OF a]
  have "length (entries pl) = unat (entry_count pl)" using assms(3) by (simp only: plan_wf_def)
  then have n: "unat (entry_count pl) = Suc (length es)" using assms(4) by simp
  obtain st where st: "peek (stores pl) (unat (store_index e)) = Some st"
    using plan_wf_entry(1) [OF assms(3), of e] assms(4) by (simp add: peek_in)
  let ?v = "con_crlf E (say E ''Flash mode: COMMIT'' v)"
  have "flash_entries E view pl media True (flash_buffer_size (BlockSize media)) EFI_SUCCESS b (Suc (length es)) 0 ?v = Some (False, EFI_UNSUPPORTED, b, ?v)"
    using assms(4,5) st by (simp add: peek_in)
  then show ?thesis using assms(2,6-10) a dw n
    by (simp add: ffu_flash_to_block_io_def Let_def FlushBlocks_call_def flushes_def del: flash_entries.simps)
qed

text \<open>A device with blocks of 3 bytes, and the sample image with its entry of 8 bytes.\<close>

definition odd_bio :: EFI_BLOCK_IO_PROTOCOL where
  "odd_bio = \<lparr>Media = Some (sample_media\<lparr>BlockSize := 3\<rparr>), FlushBlocks = True\<rparr>"

theorem misaligned_flash_reports_success_witness:
  "\<exists>st w'. ffu_flash_to_block_io (file_env sample_file) \<lparr>file_open = True, view_size = 2320\<rparr> sample_plan (Some odd_bio) True sample_world
      = Some (st, w') \<and> \<not> EFI_ERROR st \<and> disk_writes w' = disk_writes sample_world"
  by (rule misaligned_flash_reports_success [where e = sample_entry and es = "[]" and media = "sample_media\<lparr>BlockSize := 3\<rparr>", OF _ _ sample_plan_wf])
    (simp_all add: memory_ok_def flushes_def file_env_def sample_env_defs EFI_ERROR_def sample_defs sample_media_def odd_bio_def)

section \<open>The packet plan\<close>

lemma round_up_packets:
  assumes "0 < (m :: nat)"
  shows "(n + m - 1) div m = (if n mod m = 0 then n div m else n div m + 1)"
proof -
  have "n + m - 1 = (n mod m + m - 1) + n div m * m" using assms div_mult_mod_eq [of n m] by linarith
  then have "(n + m - 1) div m = n div m + (n mod m + m - 1) div m"
    using assms div_mult_self1 [of m "n mod m + m - 1" "n div m"] by (simp only: add.commute)
  also have "(n mod m + m - 1) div m = (if n mod m = 0 then 0 else 1)"
  proof (cases "n mod m")
    case (Suc k)
    then have "k < m" using mod_less_divisor [OF assms, of n] by simp
    then have "(k + m) div m = 1" using div_add_self2 [of m k] assms by simp
    then show ?thesis using Suc by simp
  qed (use assms in simp)
  finally show ?thesis by simp
qed

text \<open>What has been printed stays in the trace.\<close>

lemma con_puts_stays: "x \<in> set (trace w) \<Longrightarrow> x \<in> set (trace (con_puts E s w))"
  by (simp add: con_puts_def)

lemma con_puta_stays: "x \<in> set (trace w) \<Longrightarrow> x \<in> set (trace (con_puta E s w))"
  by (induction E s w rule: con_puta.induct) (subst con_puta.simps, simp add: con_puts_stays)

lemmas printed_stays = con_puts_stays con_puta_stays

lemma con_put_dec_prints: "con_out E \<Longrightarrow> OutputString (con_dec_chars n) \<in> set (trace (con_put_dec E n w))"
  by (simp add: con_put_dec_def con_puts_def)

text \<open>C40. The packet plan counts the packets that sending the payload without gaps takes, the
  last one possibly short, and prints that number plus one for the final packet; it does not
  touch the disk.\<close>

theorem packet_plan_count:
  assumes "length (entries pl) = unat (entry_count pl)"
  shows "\<exists>w'. ffu_packet_dry_run E pl w = Some (EFI_SUCCESS, w') \<and> disk_writes w' = disk_writes w
    \<and> (con_out E \<longrightarrow> OutputString (con_dec_chars
         (of_nat ((image_bytes (entries pl) + packet_bytes - 1) div packet_bytes) + 1)) \<in> set (trace w'))"
proof -
  define n where "n = image_bytes (entries pl)"
  have pos: "0 < packet_bytes" by (simp add: UFP_MAX_PAYLOAD_DATA_def)
  obtain q c where q: "packet_entries pl 0 (unat (entry_count pl)) 0 0 = Some (q, c)"
    "unat q = n mod packet_bytes" "c = of_nat (n div packet_bytes)"
    using packet_entries_eq [of 0 "unat (entry_count pl)" pl 0 0] assms pos by (auto simp: n_def)
  have "q = 0 \<longleftrightarrow> n mod packet_bytes = 0" using q(2) by (metis unat_eq_0)
  then have "(if q \<noteq> 0 then c + 1 else c) = of_nat ((n + packet_bytes - 1) div packet_bytes)"
    using q(3) round_up_packets [OF pos, of n] by auto
  then show ?thesis
    using q(1) by (auto simp: ffu_packet_dry_run_def Let_def n_def [symmetric] say_def say_dec_def con_crlf_def
        con_put_dec_prints printed_stays)
qed

theorem packet_plan_count_witness:
  "\<exists>w'. ffu_packet_dry_run sample_env sample_plan sample_world = Some (EFI_SUCCESS, w') \<and> disk_writes w' = disk_writes sample_world
    \<and> (con_out sample_env \<longrightarrow> OutputString (con_dec_chars
         (of_nat ((image_bytes (entries sample_plan) + packet_bytes - 1) div packet_bytes) + 1)) \<in> set (trace w'))"
  by (rule packet_plan_count) (simp add: sample_plan_def)

end
