(* ===== verification/Loop_Properties.thy ===== *)
theory Loop_Properties
  imports Secure_Session App Device_Properties Image_Properties
begin

text \<open>
  The properties of the USB flashing mode as a whole: the message loop ends for any messages
  and makes no access outside its buffers, a dry run writes nothing, packets that the protocol
  library builds are understood, and a complete session writes the image. Two lemmas state
  where the code goes wrong.
\<close>

section \<open>Safety of the loop\<close>

text \<open>C11. If the header messages of a session all need one capacity of the header buffer, and the
  reported lengths cover received bytes (\<open>polls_ok\<close>), the message loop handles the messages, in
  any order and with any contents otherwise, without undefined behaviour, with as many rounds
  as there are events and one more: it ends with a status or waits for the next message, its
  invariant holds, and unless it commits it has written nothing. Header messages that need
  different capacities are excluded: \<open>grown_header_dangles\<close> shows what they lead to.\<close>

theorem loop_total_and_safe:
  assumes "Media dev = Some media" "variable_contract E" "read_contract E"
    and "loop_ok mt c commit s" "polls_ok c mt (polls w)" "length (polls w) < fuel"
  shows "\<exists>r. secure_loop E dev commit fuel s w = Some r
    \<and> (case r of Waiting w' \<Rightarrow> \<not> commit \<longrightarrow> disk_writes w' = disk_writes w
       | Returns (st, s', w') \<Rightarrow> loop_ok mt c commit s' \<and> (\<not> commit \<longrightarrow> disk_writes w' = disk_writes w))"
proof -
  have "firmware_ok E" using assms(2,3) by (simp add: firmware_ok_def)
  then obtain r where "secure_loop E dev commit fuel s w = Some r"
    "case r of Waiting w' \<Rightarrow> steps commit w w' | Returns (st, s', w') \<Rightarrow> loop_ok mt c commit s' \<and> steps commit w w'"
    using secure_loop_post [OF assms(1) _ assms(4-6)] by blast
  then show ?thesis by (intro exI [of _ r]) (auto simp: steps_def split: run.splits)
qed

lemma reading_env_contracts: "variable_contract reading_env" "read_contract reading_env"
  by (simp_all add: variable_contract_def read_contract_def reading_env_def sample_env_defs)

definition short_message :: usbfn_poll where
  "short_message = Poll_Rx (completed 4) (asc ''NOKI'')"

lemma sample_start_ok: "loop_ok 64 c commit (start_loop sample_usb sample_app)"
  using start_loop_ok [of sample_usb sample_app c commit] sample_usb_ok
  by (simp add: sample_usb_def sample_app_def app_ok_def USBFN_MAX_XFER_def)

theorem loop_total_and_safe_witness:
  "\<exists>r. secure_loop reading_env sample_bio False 3 (start_loop sample_usb sample_app) (sample_world\<lparr>polls := [short_message, Poll_Reset]\<rparr>) = Some r
    \<and> (case r of Waiting w' \<Rightarrow> \<not> False \<longrightarrow> disk_writes w' = disk_writes (sample_world\<lparr>polls := [short_message, Poll_Reset]\<rparr>)
       | Returns (st, s', w') \<Rightarrow> loop_ok 64 (1024 * 1024) False s'
         \<and> (\<not> False \<longrightarrow> disk_writes w' = disk_writes (sample_world\<lparr>polls := [short_message, Poll_Reset]\<rparr>)))"
proof (rule loop_total_and_safe [OF _ reading_env_contracts sample_start_ok])
  show "Media sample_bio = Some sample_media" by (simp add: sample_bio_def)
  show "polls_ok (1024 * 1024) 64 (polls (sample_world\<lparr>polls := [short_message, Poll_Reset]\<rparr>))"
    by (simp add: polls_ok_def short_message_def completed_def fits_capacity_def header_bytes_def)
qed simp

text \<open>The whole USB mode without \<open>--yes\<close> returns, or waits for a message, and writes nothing to
  the disk, whatever the host sends.\<close>

theorem usb_mode_without_commit:
  assumes "usb_contract E" "uefi_bs E" "variable_contract E" "read_contract E" "Media dev = Some media"
    and "length (g_ms_ext_props usb) = 142" "app_ok app"
    and "\<And>st usb' w'. usb_transport_open E usb w = Some (st, usb', w') \<Longrightarrow> polls_ok c (max_transfer usb') (polls w)"
  shows "\<exists>r. usb_secure_flash_loop E dev False usb app w = Some r \<and> disk_writes (run_world r) = disk_writes w"
proof -
  have "firmware_ok E" using assms(3,4) by (simp add: firmware_ok_def)
  from usb_loop_post [OF assms(1,2) this assms(5,6,7,8), where commit = False] show ?thesis by simp
qed

theorem usb_mode_without_commit_witness:
  "\<exists>r. usb_secure_flash_loop (buffer_env\<lparr>read_blocks := read_blocks reading_env\<rparr>) sample_bio False sample_usb sample_app
      (sample_world\<lparr>polls := [Poll_Reset]\<rparr>) = Some r
    \<and> disk_writes (run_world r) = disk_writes (sample_world\<lparr>polls := [Poll_Reset]\<rparr>)"
proof (rule usb_mode_without_commit [where c = 0])
  let ?E = "buffer_env\<lparr>read_blocks := read_blocks reading_env\<rparr>"
  show "usb_contract ?E" using buffer_env_contract by (simp add: usb_contract_def)
  show "uefi_bs ?E" by (simp add: buffer_env_def sample_env_defs)
  show "variable_contract ?E" using sample_variable_contract by (simp add: variable_contract_def buffer_env_def)
  show "read_contract ?E" using reading_env_contracts(2) by (simp add: read_contract_def)
  show "Media sample_bio = Some sample_media" by (simp add: sample_bio_def)
qed (simp_all add: sample_usb_def sample_app_def app_ok_def polls_ok_def)

section \<open>A session\<close>

text \<open>A session on a device that has its header: if the host cuts the payload into packets
  of any sizes that fit, the last one marked as the final one, and the device takes the writes,
  then the loop accepts every packet, answers each with status 0 (and the last one with final
  state 1), writes exactly the image and leaves with success.\<close>

theorem usb_session_writes_image:
  assumes "accepting E" "writes_succeed E" "36 \<le> mt" "pr \<noteq> 100"
    and "loop_ok mt c True s" "session_ok p s" "pending (flash s) = (entries (plan (flash s)), [])"
    and "ds \<noteq> []" "\<forall>d \<in> set ds. packet_fits mt d" "length (concat ds) = image_bytes (entries (plan (flash s)))"
    and "polls w = concat (map exchange (packets_of pr ds)) @ ps" "length ds \<le> fuel"
  shows "\<exists>s' w' ls. secure_loop E dev True fuel s w = Some (Returns (EFI_SUCCESS, s', w'))
      \<and> ffu_stream_flash_done (flash s')
      \<and> disk_writes w' = disk_writes w @ image_writes (emits p (flash s)) (entries (plan (flash s))) (concat ds)
      \<and> polls w' = ps \<and> length ls = length ds \<and> sent w' = sent w @ acks ls"
  using session_completes [OF assms] .

definition sample_loop :: LOOP where
  "sample_loop = (start_loop sample_usb sample_app)\<lparr>flash := sample_ctx, hdr := Some 0, hdr_len := 2312,
     header_cap := 2312, flash_ready := True, mem := sample_heap, brk := 1\<rparr>"

lemma sample_loop_ok: "loop_ok 64 2312 True sample_loop" "session_ok sample_header sample_loop"
proof -
  have "port_ok 64 sample_loop"
    using sample_usb_ok by (simp add: port_ok_def sample_loop_def start_loop_def sample_usb_def sample_app_def app_ok_def USBFN_MAX_XFER_def)
  moreover have "header_ok 2312 sample_loop"
    by (simp add: header_ok_def sample_loop_def start_loop_def sample_heap_def)
  moreover have "ready_ok True sample_loop"
    using sample_inv by (auto simp: ready_ok_def sample_loop_def start_loop_def sample_ctx_def)
  ultimately show "loop_ok 64 2312 True sample_loop" by (simp add: loop_ok_def)
  show "session_ok sample_header sample_loop"
    using sample_inv sample_flashable by (simp add: session_ok_def sample_loop_def start_loop_def)
qed

lemma sample_env_accepts: "accepting sample_env" "writes_succeed sample_env"
  by (simp_all add: accepting_def writes_succeed_def sample_env_defs EFI_ERROR_def)

definition sample_parts :: "bytes list" where "sample_parts = [[1, 2, 3], [4, 5, 6, 7, 8], []]"

theorem usb_session_writes_image_witness:
  "\<exists>s' w' ls. secure_loop sample_env sample_bio True 3 sample_loop
      (sample_world\<lparr>polls := concat (map exchange (packets_of 50 sample_parts))\<rparr>) = Some (Returns (EFI_SUCCESS, s', w'))
    \<and> ffu_stream_flash_done (flash s')
    \<and> disk_writes w' = disk_writes (sample_world\<lparr>polls := concat (map exchange (packets_of 50 sample_parts))\<rparr>)
        @ image_writes (emits sample_header (flash sample_loop)) (entries (plan (flash sample_loop))) (concat sample_parts)
    \<and> polls w' = [] \<and> length ls = length sample_parts
    \<and> sent w' = sent (sample_world\<lparr>polls := concat (map exchange (packets_of 50 sample_parts))\<rparr>) @ acks ls"
  by (rule usb_session_writes_image [OF sample_env_accepts _ _ sample_loop_ok])
    (simp_all add: sample_loop_def sample_parts_def packet_fits_def UFP_MAX_PAYLOAD_DATA_def pending_def
      sample_defs image_bytes_def)

text \<open>C21. A payload packet that the protocol library builds is understood by the device: the
  packet, followed by its data, is handled as a payload message, with the protocol and the
  progress of the packet, and its data is found where it is.\<close>

theorem built_packet_understood:
  assumes "n \<le> UFP_MAX_PAYLOAD_DATA" "length d = unat n" "ucast n + 32 \<le> cap" "unat cap \<le> length out"
  shows "\<exists>out'. ufp_build_secure_payload_request (Some out) cap pr n fp = Some (ucast n + 32, Some out')
    \<and> loop_message E dev commit (take 32 out' @ d @ r) (32 + ucast n) s w
      = payload_message E dev commit (take 32 out' @ d @ r) (32 + ucast n) 4 (if fp then 100 else pr) UFP_SEC_SUBBLOCK_PAYLOAD_V2 s w
    \<and> payload_check (take 32 out' @ d @ r) (32 + ucast n) 4 UFP_SEC_SUBBLOCK_PAYLOAD_V2 = Some (Inr (n, 32))
    \<and> drop 32 (take 32 out' @ d @ r) = d @ r"
proof -
  let ?o = "payload_frame pr n fp @ drop 32 out"
  have b: "ufp_build_secure_payload_request (Some out) cap pr n fp = Some (ucast n + 32, Some ?o)"
    using assms(1,3) payload_request_eq [OF assms(4), of pr n fp] by (simp add: leD)
  have t: "take 32 ?o = payload_frame pr n fp" by simp
  show ?thesis
    by (intro exI [of _ ?o]) (use b in \<open>simp add: t payload_dispatch [OF assms(1,2)]\<close>)
qed

theorem built_packet_understood_witness:
  "\<exists>out'. ufp_build_secure_payload_request (Some (replicate 64 0)) 64 50 3 False = Some (ucast (3 :: u32) + 32, Some out')
    \<and> loop_message sample_env sample_bio True (take 32 out' @ [1, 2, 3] @ []) (32 + ucast (3 :: u32)) sample_loop sample_world
      = payload_message sample_env sample_bio True (take 32 out' @ [1, 2, 3] @ []) (32 + ucast (3 :: u32)) 4
          (if False then 100 else 50) UFP_SEC_SUBBLOCK_PAYLOAD_V2 sample_loop sample_world
    \<and> payload_check (take 32 out' @ [1, 2, 3] @ []) (32 + ucast (3 :: u32)) 4 UFP_SEC_SUBBLOCK_PAYLOAD_V2 = Some (Inr (3, 32))
    \<and> drop 32 (take 32 out' @ [1, 2, 3] @ []) = [1, 2, 3] @ []"
  by (rule built_packet_understood) (simp_all add: UFP_MAX_PAYLOAD_DATA_def)

section \<open>Header messages\<close>

text \<open>C25. The header builder announces the end of the chunk as the total length: the device, which
  reads the field as the length of the whole header, takes the header for complete after the
  first chunk, whatever its real length.\<close>

theorem built_header_claims_complete:
  assumes "n \<le> UFP_MAX_HEADER_DATA" "ucast n + 60 \<le> cap" "unat cap \<le> length out" "60 \<le> len" "header_v2_received s = 0"
  shows "\<exists>out' m. ufp_build_secure_header_request (Some out) cap ao 0 n = Some (ucast n + 60, Some out')
    \<and> header_v2_fields (take 60 out' @ d) len s = Some (Inr (m, s)) \<and> hm_chunk m = n \<and> hm_offset m = 0 \<and> hm_total m = n
    \<and> (\<exists>s' w'. header_window E m s w = Inr (0, ucast n, ucast n, s', w'))"
proof -
  let ?o = "header_frame ao 0 n @ drop 60 out"
  have b: "ufp_build_secure_header_request (Some out) cap ao 0 n = Some (ucast n + 60, Some ?o)"
    using assms(1,2) header_request_eq [OF assms(3), of ao 0 n] by (simp add: leD)
  have t: "take 60 ?o = header_frame ao 0 n" by simp
  define p where "p = header_frame ao 0 n @ d"
  have "drop 20 p = be32_bytes ao @ drop 24 p" "drop 24 p = be32_bytes n @ drop 28 p"
    "drop 29 p = be32_bytes 0 @ drop 33 p" "drop 33 p = be32_bytes n @ drop 37 p"
    by (simp_all add: p_def header_frame_def be32_bytes_def)
  then have rd: "rd_be32 (drop 20 p) = Some ao" "rd_be32 (drop 24 p) = Some n"
    "rd_be32 (drop 29 p) = Some 0" "rd_be32 (drop 33 p) = Some n"
    by (metis be32.dec_enc)+
  have pk: "peek p 28 = Some 0" "peek p 37 = Some 0"
    by (simp_all add: p_def header_frame_def be32_bytes_def peek_def)
  let ?m = "\<lparr>hm_v2 = True, hm_chunk = n, hm_offset = 0, hm_total = n, hm_data = 60, hm_copy = 0, hm_options = 0, hm_erase = 0\<rparr>"
  have f: "header_v2_fields p len s = Some (Inr (?m, s))"
    using assms(4,5) rd pk by (simp add: header_v2_fields_def not_less [symmetric])
  have w: "\<exists>s' w'. header_window E ?m s w = Inr (0, ucast n, ucast n, s', w')"
    by (auto simp: header_window_def header_restart_def split: bool.splits option.splits)
  show ?thesis
    by (intro exI [of _ ?o] exI [of _ ?m]) (use b f w in \<open>simp add: t p_def\<close>)
qed

theorem built_header_claims_complete_witness:
  "\<exists>out' m. ufp_build_secure_header_request (Some (replicate 80 0)) 80 0 0 2 = Some (ucast (2 :: u32) + 60, Some out')
    \<and> header_v2_fields (take 60 out' @ [5, 6]) 62 (start_loop sample_usb sample_app) = Some (Inr (m, start_loop sample_usb sample_app))
    \<and> hm_chunk m = 2 \<and> hm_offset m = 0 \<and> hm_total m = 2
    \<and> (\<exists>s' w'. header_window sample_env m (start_loop sample_usb sample_app) sample_world = Inr (0, ucast (2 :: u32), ucast (2 :: u32), s', w'))"
  by (rule built_header_claims_complete) (simp_all add: UFP_MAX_HEADER_DATA_def start_loop_def)

text \<open>C26. A host that gives up a header transfer and starts over at offset 0 is refused: the
  overrun check still counts the bytes of the abandoned transfer, although a message at offset
  0 would have started a new one.\<close>

theorem header_restart_refused:
  assumes "hm_v2 m" "hm_offset m = 0" "hm_chunk m \<le> hm_total m"
    and "unat (hm_total m) < unat (header_v2_received s) + unat (hm_chunk m)"
  shows "header_check m len s = Some (16, hm_chunk m)"
proof -
  have "unat (ucast (header_v2_received s) + ucast (hm_chunk m) :: u64) = unat (header_v2_received s) + unat (hm_chunk m)"
    using unat_u32_lt [of "header_v2_received s"] unat_u32_lt [of "hm_chunk m"] by (subst unat_add_le) auto
  then show ?thesis using assms(1,4) by (simp add: header_check_def word_less_nat_alt)
qed

theorem header_restart_refused_witness:
  "header_check \<lparr>hm_v2 = True, hm_chunk = 3, hm_offset = 0, hm_total = 4, hm_data = 60, hm_copy = 2, hm_options = 0, hm_erase = 0\<rparr> 63
     ((start_loop sample_usb sample_app)\<lparr>header_v2_received := 2\<rparr>)
   = Some (16, hm_chunk \<lparr>hm_v2 = True, hm_chunk = 3, hm_offset = 0, hm_total = 4, hm_data = 60, hm_copy = 2, hm_options = 0, hm_erase = 0\<rparr>)"
  by (rule header_restart_refused) simp_all

text \<open>C24. A header message that needs a larger buffer frees the old one, also when a flasher has
  been started on it: the flasher is left with a pointer to freed memory, through which it
  reads when the next entry is complete.\<close>

theorem grown_header_dangles:
  assumes "header_grow E need complete_len s w = Some (Inr (s', w'))"
    and "header_cap s < need \<or> header_cap s < complete_len" "hdr s = Some a" "a < brk s" "header (flash s) = Some a"
  shows "header (flash s') = Some a \<and> mem s' a = None"
  using grow_frees [OF assms(1-4)] assms(5) by simp

theorem grown_header_dangles_witness:
  "\<exists>s' w'. header_grow sample_env 5000 5000 sample_loop sample_world = Some (Inr (s', w'))
    \<and> header (flash s') = Some 0 \<and> mem s' 0 = None"
proof -
  have c: "header_capacity 5000 5000 = 0x100000" by code_simp
  have l: "length sample_header = unat (2312 :: u64)" by simp
  have "\<exists>s' w'. header_grow sample_env 5000 5000 sample_loop sample_world = Some (Inr (s', w'))"
    by (simp add: header_grow_def c sample_alloc sample_loop_def start_loop_def sample_heap_def mem_simps Let_def)
  then obtain s' w' where g: "header_grow sample_env 5000 5000 sample_loop sample_world = Some (Inr (s', w'))" by blast
  have "header (flash s') = Some 0 \<and> mem s' 0 = None"
    by (rule grown_header_dangles [OF g]) (simp_all add: sample_loop_def start_loop_def sample_ctx_def)
  then show ?thesis using g by blast
qed

end
