(* ===== verification/Wire_Properties.thy ===== *)
theory Wire_Properties
  imports Ufp_Proto Options Sample
begin

text \<open>
  The properties of the parts that every mode shares: the byte codecs and memory primitives,
  the packets of the protocol, numbers on the console and on the command line, and the
  parsing of the options.
\<close>

section \<open>Bytes\<close>

text \<open>Storing a 64-bit field in a message and loading it again gives the value, and no
  other byte of the message changes.\<close>

theorem be64_store_load:
  assumes "i + 8 \<le> length p"
  shows "\<exists>q. wr_be64_local p i v = Some q \<and> rd_be64_local (drop i q) = Some v
    \<and> length q = length p \<and> take i q = take i p \<and> drop (i + 8) q = drop (i + 8) p"
proof -
  have w: "wr_be64_local p i v = Some (take i p @ be64_bytes v @ drop (i + 8) p)"
    using assms by (simp add: wr_be64_local_poke poke_def)
  have "rd_be64_local (be64_bytes v @ drop (i + 8) p) = Some v" by (rule be64.dec_enc)
  then show ?thesis using w assms by (intro exI [of _ "take i p @ be64_bytes v @ drop (i + 8) p"]) simp
qed

theorem be64_store_load_witness:
  "\<exists>q. wr_be64_local (replicate 10 7) 1 0x1122334455667788 = Some q \<and> rd_be64_local (drop 1 q) = Some 0x1122334455667788
    \<and> length q = length (replicate 10 (7 :: u8)) \<and> take 1 q = take 1 (replicate 10 7)
    \<and> drop (1 + 8) q = drop (1 + 8) (replicate 10 7)"
  by (rule be64_store_load) simp

text \<open>Rounding up gives the least multiple of the alignment that is not below the value,
  as long as value and alignment together fit 64 bits.\<close>

theorem align_up_least:
  assumes "a \<noteq> 0" "unat v + unat a \<le> 2 ^ 64"
  shows "unat a dvd unat (align_up_u64 v a) \<and> unat v \<le> unat (align_up_u64 v a)
    \<and> unat (align_up_u64 v a) < unat v + unat a"
proof -
  have a: "0 < unat a" using assms(1) by (simp add: unat_gt_0)
  note eq = align_up_u64_unat [OF assms]
  show ?thesis
  proof (cases "unat v mod unat a = 0")
    case True
    then show ?thesis using eq a by (simp add: mod_eq_0_iff_dvd)
  next
    case False
    then show ?thesis using eq round_up_nat [OF a] by simp
  qed
qed

theorem align_up_least_witness:
  "unat (1024 :: u64) dvd unat (align_up_u64 1049 1024) \<and> unat (1049 :: u64) \<le> unat (align_up_u64 1049 1024)
    \<and> unat (align_up_u64 1049 1024) < unat (1049 :: u64) + unat (1024 :: u64)"
  by (rule align_up_least) simp_all

text \<open>Comparing two regions stays inside both, and the result is zero exactly if the
  regions are equal.\<close>

theorem memcmp_decides:
  assumes "i + n \<le> length a" "j + n \<le> length b"
  shows "\<exists>r. memcmp a i b j n = Some r \<and> (r = 0 \<longleftrightarrow> take n (drop i a) = take n (drop j b))"
proof -
  have "i + n \<le> length a \<Longrightarrow> j + n \<le> length b \<Longrightarrow> \<exists>r. memcmp a i b j n = Some r"
    by (induction a i b j n rule: memcmp.induct) (auto simp: peek_in)
  then obtain r where r: "memcmp a i b j n = Some r" using assms by blast
  then show ?thesis using memcmp_zero_iff [OF assms] by simp
qed

theorem memcmp_decides_witness:
  "\<exists>r. memcmp [1, 2, 3] 1 [2, 4] 0 2 = Some r \<and> (r = 0 \<longleftrightarrow> take 2 (drop 1 [1, 2, 3]) = take 2 (drop 0 [2, 4 :: u8]))"
  by (rule memcmp_decides) simp_all

section \<open>Packets\<close>

text \<open>C34. No builder writes past the capacity it was given: it returns a length within the
  capacity, leaves all bytes from that length on as they were, and does not change the size of
  the buffer. This covers all requests and responses of the protocol; the two requests with
  data reserve room for it.\<close>

definition within :: "u64 \<Rightarrow> bytes \<Rightarrow> (u64 \<times> bytes option) option \<Rightarrow> bool" where
  "within cap out r \<longleftrightarrow> (\<exists>n out'. r = Some (n, Some out') \<and> n \<le> cap
     \<and> length out' = length out \<and> drop (unat n) out' = drop (unat n) out)"

theorem builders_stay_within:
  assumes "unat cap \<le> length out"
  shows "within cap out (ufp_build_switch_reboot (Some out) cap)
    \<and> within cap out (ufp_build_secure_header_request (Some out) cap ao fo n)
    \<and> within cap out (ufp_build_secure_payload_request (Some out) cap pr n fp)
    \<and> within cap out (ufp_build_async_start_response (Some out) cap s)
    \<and> within cap out (ufp_build_async_write_status (Some out) cap c st wst l us)
    \<and> within cap out (ufp_build_async_end_response (Some out) cap wst l uw)
    \<and> within cap out (ufp_build_secure_status_response (Some out) cap s sp bad l fs)"
proof -
  have len: "unat (ucast n + k :: u64) = unat n + unat k" if "unat k \<le> 60" for k
    using that unat_u32_lt [of n] by (subst unat_add_le) simp_all
  have req: "within cap out (Some (ucast n + k, Some (f @ drop (unat k) out)))"
    if "\<not> cap < ucast n + k" "length f = unat k" "unat k \<le> 60" for f :: bytes and k
    using that assms len [OF that(3)] by (auto simp: within_def word_less_nat_alt word_le_nat_alt not_less)
  have none: "within cap out (Some (0, Some out))" by (simp add: within_def)
  have "within cap out (ufp_build_secure_header_request (Some out) cap ao fo n)"
    using req [of 60 "header_frame ao fo n"] none unfolding header_request_eq [OF assms] by simp
  moreover have "within cap out (ufp_build_secure_payload_request (Some out) cap pr n fp)"
    using req [of 32 "payload_frame pr n fp"] none unfolding payload_request_eq [OF assms] by simp
  ultimately show ?thesis
    using switch.no_overrun [OF assms] async_start.no_overrun [OF assms] async_write.no_overrun [OF assms]
      async_end.no_overrun [OF assms] secure_status.no_overrun [OF assms]
    by (simp add: within_def)
qed

theorem builders_stay_within_witness:
  "within 40 (replicate 64 1) (ufp_build_switch_reboot (Some (replicate 64 1)) 40)
    \<and> within 40 (replicate 64 1) (ufp_build_secure_header_request (Some (replicate 64 1)) 40 1 2 8)
    \<and> within 40 (replicate 64 1) (ufp_build_secure_payload_request (Some (replicate 64 1)) 40 50 8 True)
    \<and> within 40 (replicate 64 1) (ufp_build_async_start_response (Some (replicate 64 1)) 40 8)
    \<and> within 40 (replicate 64 1) (ufp_build_async_write_status (Some (replicate 64 1)) 40 1 2 3 4 5)
    \<and> within 40 (replicate 64 1) (ufp_build_async_end_response (Some (replicate 64 1)) 40 3 4 5)
    \<and> within 40 (replicate 64 1) (ufp_build_secure_status_response (Some (replicate 64 1)) 40 8 1 2 4 1)"
  by (rule builders_stay_within) simp

text \<open>C32. What the device reports in a secure status response is what the host reads from it: the
  status, or, if it is zero, the last sector and the final state; a host that expects the end
  of the image takes a final state other than 1 for an error.\<close>

theorem status_response_roundtrip:
  assumes "36 \<le> cap" "unat cap \<le> length out"
  shows "\<exists>out'. ufp_build_secure_status_response (Some out) cap s sp bad lst fs = Some (36, Some out')
    \<and> ufp_parse_secure_payload_response (take 36 out') 36 expected =
      Some (if s \<noteq> 0 then (s, UFP_RESPONSE_zero\<lparr>resp_status := s, resp_specifier := sp\<rparr>)
            else (if expected \<and> fs \<noteq> 1 then ucast fs else UFP_STATUS_OK,
                  UFP_RESPONSE_zero\<lparr>resp_status := 0, resp_specifier := sp,
                    resp_last_sector := lst, resp_final_state := fs\<rparr>))"
proof -
  obtain out' where b: "ufp_build_secure_status_response (Some out) cap s sp bad lst fs = Some (36, Some out')"
    "take (unat (36 :: u64)) out' = status_frame s sp bad lst fs"
    using secure_status.sent_bytes [OF assms, of s sp bad lst fs] by auto
  then have "take 36 out' = status_frame s sp bad lst fs @ []" by simp
  then show ?thesis using b(1) parse_status_frame [of 36 "[]" s sp bad lst fs expected] by simp
qed

theorem status_response_roundtrip_witness:
  "\<exists>out'. ufp_build_secure_status_response (Some (replicate 64 0)) 64 0 0 5 7 1 = Some (36, Some out')
    \<and> ufp_parse_secure_payload_response (take 36 out') 36 True =
      Some (if (0 :: u16) \<noteq> 0 then (0, UFP_RESPONSE_zero\<lparr>resp_status := 0, resp_specifier := 0\<rparr>)
            else (if True \<and> (1 :: u8) \<noteq> 1 then ucast (1 :: u8) else UFP_STATUS_OK,
                  UFP_RESPONSE_zero\<lparr>resp_status := 0, resp_specifier := 0,
                    resp_last_sector := 7, resp_final_state := 1\<rparr>))"
  by (rule status_response_roundtrip) simp_all

text \<open>C33. What the host takes for success: a response of at least 36 bytes with the signature,
  status 0, a subblock of length 14 and, where the end of the image is expected, a final state
  of 1 or of 0. (A final state of 0 says that the image is not complete.)\<close>

theorem payload_response_accepted:
  assumes "unat len \<le> length msg"
  shows "(\<exists>resp. ufp_parse_secure_payload_response msg len expected = Some (UFP_STATUS_OK, resp))
    \<longleftrightarrow> 36 \<le> len \<and> take 6 msg = asc ''NOKXFS'' \<and> take 2 (drop 6 msg) = [0, 0] \<and> msg ! 15 \<noteq> 0
      \<and> take 4 (drop 16 msg) = [0, 0, 0, 14] \<and> (expected \<longrightarrow> msg ! 32 = 1 \<or> msg ! 32 = 0)"
proof -
  note eq = parse_payload_cases [OF assms, of expected]
  have st: "UFP_STATUS_RESP_INVALID_SIZE \<noteq> UFP_STATUS_OK" "UFP_STATUS_INVALID_MSG \<noteq> UFP_STATUS_OK"
    "UFP_STATUS_RESP_NO_SUBBLOCKS \<noteq> UFP_STATUS_OK" "UFP_STATUS_RESP_BAD_STATUS_LEN \<noteq> UFP_STATUS_OK"
    by (simp_all add: ufp_status_defs)
  have b14: "be32_bytes 14 = [0, 0, 0, 14]" "be16_bytes 0 = [0, 0]" by code_simp+
  show ?thesis
  proof (cases "len < 16")
    case True
    then have "\<not> 36 \<le> len" by (auto simp: word_less_nat_alt word_le_nat_alt)
    then show ?thesis using eq True st by simp
  next
    case False
    then have l: "16 \<le> length msg" using assms by (simp add: word_less_nat_alt)
    obtain s sp where rd: "rd_be16 (drop 6 msg) = Some s" "rd_be32 (drop 8 msg) = Some sp"
      using l be16.dec_drop_total [of 6 msg] be32.dec_drop_total [of 8 msg] by auto
    have s: "take 2 (drop 6 msg) = [0, 0] \<longleftrightarrow> s = 0"
      using be16.enc_dec [OF rd(1)] be16.enc_inject [of s 0] by (simp add: b14)
    have lst: "\<exists>lst. rd_be32 (drop 28 msg) = Some lst" if "36 \<le> len"
      using that assms be32.dec_drop_total [of 28 msg] by (simp add: word_le_nat_alt)
    have u8: "unat (x :: u8) < 256" for x using unsigned_less [of x] by simp
    have fs: "(ucast (msg ! 32) :: u16) = UFP_STATUS_OK \<longleftrightarrow> msg ! 32 = 0"
      using u8 [of "msg ! 32"] by (simp add: UFP_STATUS_OK_def unat_eq_0 [symmetric] unat_ucast_small)
    show ?thesis unfolding eq s using False rd st lst fs
      by (auto simp: b14 Let_def not_less not_le UFP_STATUS_OK_def)
  qed
qed

theorem payload_response_accepted_witness:
  "(\<exists>resp. ufp_parse_secure_payload_response (status_frame 0 0 0 7 0) 36 True = Some (UFP_STATUS_OK, resp))
    \<longleftrightarrow> (36 :: u64) \<le> 36 \<and> take 6 (status_frame 0 0 0 7 0) = asc ''NOKXFS''
      \<and> take 2 (drop 6 (status_frame 0 0 0 7 0)) = [0, 0] \<and> status_frame 0 0 0 7 0 ! 15 \<noteq> 0
      \<and> take 4 (drop 16 (status_frame 0 0 0 7 0)) = [0, 0, 0, 14]
      \<and> (True \<longrightarrow> status_frame 0 0 0 7 0 ! 32 = 1 \<or> status_frame 0 0 0 7 0 ! 32 = 0)"
  by (rule payload_response_accepted) simp

section \<open>Numbers\<close>

text \<open>A token of decimal digits is read as its value in 32 bits, so that values from two to
  the 32 on wrap around; any other token, and the empty one, is refused. Nothing outside the
  token is read.\<close>

theorem number_token_value:
  assumes "unat len \<le> length t"
  shows "parse_uint_token t len = Some (if len \<noteq> 0 \<and> (\<forall>c \<in> set (take (unat len) t). 0x30 \<le> c \<and> c \<le> 0x39)
      then Some (of_nat (digits_val (take (unat len) t))) else None)"
  using parse_uint_token_eq [OF assms] by (simp add: is_digit_def)

text \<open>4294967296 selects device 0.\<close>

theorem number_token_value_witness:
  "parse_uint_token (map ucast (asc ''4294967296'')) 10 = Some (Some 0)"
proof -
  have t: "map ucast (asc ''4294967296'') = [0x34, 0x32, 0x39, 0x34, 0x39, 0x36, 0x37, 0x32, 0x39, 0x36 :: CHAR16]"
    by code_simp
  show ?thesis using number_token_value [of 10 "map ucast (asc ''4294967296'')"]
    by (simp add: t digits_val_def)
qed

section \<open>The command line\<close>

text \<open>Parsing the options ends, and reads nothing outside the command line that the
  firmware handed over, whatever that contains: quotes that are not closed, no terminator,
  missing values.\<close>

theorem options_total:
  assumes "uefi_bs E"
    and "\<And>img cmd. loaded = Some img \<Longrightarrow> LoadOptions img = Some cmd \<Longrightarrow> unat (LoadOptionsSize img) div 2 \<le> length cmd"
  shows "\<exists>st o' w'. parse_options E loaded w = Some (st, o', w') \<and> disk_writes w' = disk_writes w"
  using parse_options_in [of loaded E w] assms by (auto simp: disk_writes_def)

definition quoted_line :: EFI_LOADED_IMAGE_PROTOCOL where
  "quoted_line = \<lparr>LoadOptionsSize = 6, LoadOptions = Some [0x22, 0x61, 0x20]\<rparr>"

theorem options_total_witness:
  "\<exists>st o' w'. parse_options (sample_env\<lparr>g_st := Some \<lparr>ConOut = False, RuntimeServices = True, BootServices = True\<rparr>\<rparr>) (Some quoted_line) sample_world = Some (st, o', w')
    \<and> disk_writes w' = disk_writes sample_world"
  by (rule options_total) (auto simp: sample_env_defs quoted_line_def)

end
