(* ===== verification/App_Properties.thy ===== *)
theory App_Properties
  imports App_Spec Loop_Properties Wire_Properties
begin

text \<open>
  Properties of the file parser, of the file mode and of the entry point, each with its claim
  number, a statement in words, and a concrete instance.
\<close>

section \<open>The two parsers\<close>

text \<open>C10. The two parsers agree: if \<open>ffu_parse_header_bytes\<close> accepts the first bytes of an image in
  memory, then \<open>ffu_parse\<close> accepts a file that starts with these bytes, and both return the same
  plan, up to the recorded size.\<close>

theorem parsers_agree:
  assumes "file_backed E d" "file_open view" "unat (view_size view) = length d" "memory_ok E"
    and "unat sz \<le> length data" "unat sz \<le> length d" "take (unat sz) data = take (unat sz) d" "unat sz < 2 ^ 35"
    and "ffu_parse_header_bytes E0 (Some data) sz pl0 w0 = Some (EFI_SUCCESS, pl, w0')"
  shows "\<exists>w'. ffu_parse E view w = Some (EFI_SUCCESS, pl\<lparr>file_size := view_size view\<rparr>, w')"
  by (rule parse_simulation [OF _ assms(4,8,9)]) (use assms(1-3,5-7) in \<open>simp add: same_image_def\<close>)

definition file_mode_env :: env where
  "file_mode_env = (file_env sample_file)\<lparr>get_position := \<lambda>_. (0, 2320), locate_handles := \<lambda>_. (0, [Some sample_bio]),
     read_blocks := read_blocks reading_env\<rparr>"

lemma file_mode_env_contracts:
  "file_backed file_mode_env sample_file" "memory_ok file_mode_env" "file_sized file_mode_env sample_file"
  using file_env_backed [of sample_file]
  by (simp_all add: file_backed_def file_mode_env_def file_env_def sample_env_defs memory_ok_def file_sized_def
      EFI_ERROR_def sample_file_def)

lemma sample_file_prefix: "take (unat (2312 :: u64)) sample_header = take (unat (2312 :: u64)) sample_file"
  by (simp add: sample_file_def)

theorem parsers_agree_witness:
  "\<exists>w'. ffu_parse file_mode_env \<lparr>file_open = True, view_size = 2320\<rparr> sample_world
    = Some (EFI_SUCCESS, sample_plan\<lparr>file_size := 2320\<rparr>, w')"
  using parsers_agree [OF file_mode_env_contracts(1) _ _ file_mode_env_contracts(2) _ _ sample_file_prefix _ sample_parse,
      of "\<lparr>file_open = True, view_size = 2320\<rparr>" sample_world]
  by (simp add: sample_file_def)

text \<open>C9. Parsing a file of less than \<open>2\<^sup>34\<close> bytes ends without undefined behaviour, whatever the
  file contains, and writes nothing to the disk; a plan that is returned with success is well
  formed, and all its location tables lie inside the file.\<close>

theorem file_parse_safe:
  assumes "file_backed E d" "file_open view" "length d < 2 ^ 34"
  shows "\<exists>st pl w'. ffu_parse E view w = Some (st, pl, w')
    \<and> disk_writes w' = disk_writes w \<and> polls w' = polls w
    \<and> (st = EFI_SUCCESS \<and> plan_wf (view_size view) pl \<or> EFI_ERROR st)"
  using parse_file_post [OF assms, of w] by (auto simp: same_io_def)

theorem file_parse_safe_witness:
  "\<exists>st pl w'. ffu_parse file_mode_env \<lparr>file_open = True, view_size = 2320\<rparr> sample_world = Some (st, pl, w')
    \<and> disk_writes w' = disk_writes sample_world \<and> polls w' = polls sample_world
    \<and> (st = EFI_SUCCESS \<and> plan_wf 2320 pl \<or> EFI_ERROR st)"
  using file_parse_safe [OF file_mode_env_contracts(1), of "\<lparr>file_open = True, view_size = 2320\<rparr>" sample_world]
  by (simp add: sample_file_def)

section \<open>The file mode\<close>

lemma file_image_size [simp]: "file_image_writes c d media (pl\<lparr>file_size := n\<rparr>) = file_image_writes c d media pl"
  by (simp add: file_image_writes_def file_entry_writes_def [abs_def])

text \<open>C4. \<open>--flash --yes\<close> on a file whose header is accepted: the mode ends; on the device with the
  chosen number it makes the writes that the image describes, in order and inside the device: the
  first ones when it returns an error, all of them otherwise, unless an entry of the image is no
  multiple of the device's blocks.\<close>

theorem file_mode_writes_image:
  assumes "file_backed E d" "file_sized E d" "length d < 2 ^ 34" "memory_ok E"
    and "unat sz \<le> length data" "unat sz \<le> length d" "take (unat sz) data = take (unat sz) d"
    and "ffu_parse_header_bytes E0 (Some data) sz pl0 w0 = Some (EFI_SUCCESS, pl, w0')"
    and "path o' = Some p" "unat (path_len o') \<le> length p" "unat (path_len o') < 2 ^ 32" "flash_option o'" "yes o'"
  shows "\<exists>st w' ws. main_file E o' w = Some (st, w') \<and> disk_writes w' = disk_writes w @ ws
    \<and> (ws = [] \<and> EFI_ERROR st \<or> (\<exists>media. listed_device E (target o') media \<and> prefix ws (file_image_writes True d media pl)
         \<and> (EFI_ERROR st \<or> ws = file_image_writes True d media pl
              \<or> (\<exists>e \<in> set (entries pl). byte_count e mod BlockSize media \<noteq> 0))
         \<and> (\<forall>x \<in> set ws. in_device media x)))"
proof -
  have o: "path_ok o'" using assms(9-11) by (simp add: path_ok_def)
  obtain st w' ws where m: "main_file E o' w = Some (st, w')" "disk_writes w' = disk_writes w @ ws" "file_effect E d o' st ws"
    using main_file_post [OF assms(1-3) o, of w] by blast
  have "ws = [] \<and> EFI_ERROR st \<or> flashed E d pl (target o') True st ws"
  proof (cases "ws = [] \<and> EFI_ERROR st")
    case False
    then obtain view v v' q where q: "file_open view" "unat (view_size view) = length d"
        "ffu_parse E view v = Some (EFI_SUCCESS, q, v')" "flashed E d q (target o') True st ws"
      using m(3) assms(12,13) by (auto simp: file_effect_def)
    have "same_image E view d data sz" using assms(1,5-7) q(1,2) by (simp add: same_image_def)
    then have "q = pl\<lparr>file_size := view_size view\<rparr>"
      using parse_simulation [OF _ assms(4) _ assms(8), of view d v] assms(3,6) q(3) by auto
    then show ?thesis using q(4) by (simp add: flashed_def misaligned_def)
  qed simp
  then show ?thesis using m(1,2) by (auto simp: flashed_def misaligned_def)
qed

definition flash_options :: OPTIONS where
  "flash_options = default_options\<lparr>flash_option := True, yes := True, target := 0, path := Some [0x61], path_len := 1\<rparr>"

theorem file_mode_writes_image_witness:
  "\<exists>st w' ws. main_file file_mode_env flash_options sample_world = Some (st, w') \<and> disk_writes w' = disk_writes sample_world @ ws
    \<and> (ws = [] \<and> EFI_ERROR st \<or> (\<exists>media. listed_device file_mode_env (target flash_options) media
         \<and> prefix ws (file_image_writes True sample_file media sample_plan)
         \<and> (EFI_ERROR st \<or> ws = file_image_writes True sample_file media sample_plan
              \<or> (\<exists>e \<in> set (entries sample_plan). byte_count e mod BlockSize media \<noteq> 0))
         \<and> (\<forall>x \<in> set ws. in_device media x)))"
  by (rule file_mode_writes_image [OF file_mode_env_contracts(1,3) _ file_mode_env_contracts(2) _ _ sample_file_prefix sample_parse,
        where p = "[0x61]"]) (simp_all add: sample_file_def flash_options_def)

section \<open>The entry point\<close>

text \<open>C3. \<open>EfiMain\<close> runs into no undefined behaviour, in any mode, for any command line and any
  contents of a file of less than \<open>2\<^sup>34\<close> bytes, and for any host whose header messages all need one
  capacity of the header buffer and whose reported lengths cover received bytes (\<open>polls_ok\<close>; when
  they need different ones, \<open>grown_header_dangles\<close> shows a pointer to freed memory): it returns, or
  waits for a message; and without \<open>--yes\<close> nothing is written to any disk.\<close>

theorem efi_main_safe:
  assumes "usb_contract E" "uefi_bs E" "variable_contract E" "read_contract E" "devices_ok E"
    and "file_backed E d" "file_sized E d" "length d < 2 ^ 34"
    and "\<And>img cmd. loaded = Some img \<Longrightarrow> LoadOptions img = Some cmd \<Longrightarrow> unat (LoadOptionsSize img) div 2 \<le> length cmd"
    and "length (g_ms_ext_props usb) = 142" "app_ok app"
    and "\<And>v st usb' w'. usb_transport_open E usb v = Some (st, usb', w') \<Longrightarrow> polls_ok c (max_transfer usb') (polls w)"
  shows "\<exists>st o' v r. parse_options E loaded (con_crlf E (say E ''UfpFfu: recovered UFP FFU protocol app'' w)) = Some (st, o', v)
    \<and> EfiMain E loaded (uefi_system_table E) usb app w = Some r \<and> (\<not> yes o' \<longrightarrow> disk_writes (main_world r) = disk_writes w)"
proof -
  have f: "firmware_ok E" using assms(3,4) by (simp add: firmware_ok_def)
  show ?thesis using efi_main_post [OF assms(1,2) f assms(5-12)] .
qed

definition whole_env :: env where
  "whole_env = buffer_env\<lparr>read_blocks := read_blocks reading_env, file_read := file_read (file_env sample_file),
     get_position := \<lambda>_. (0, 2320), locate_handles := \<lambda>_. (0, [Some sample_bio])\<rparr>"

theorem efi_main_safe_witness:
  "\<exists>st o' v r. parse_options whole_env (Some quoted_line) (con_crlf whole_env (say whole_env ''UfpFfu: recovered UFP FFU protocol app''
        (sample_world\<lparr>polls := [Poll_Reset]\<rparr>))) = Some (st, o', v)
    \<and> EfiMain whole_env (Some quoted_line) (uefi_system_table whole_env) sample_usb sample_app (sample_world\<lparr>polls := [Poll_Reset]\<rparr>) = Some r
    \<and> (\<not> yes o' \<longrightarrow> disk_writes (main_world r) = disk_writes (sample_world\<lparr>polls := [Poll_Reset]\<rparr>))"
proof (rule efi_main_safe [where c = 0 and d = sample_file])
  let ?E = whole_env
  show "usb_contract ?E" using buffer_env_contract by (simp add: usb_contract_def whole_env_def)
  show "uefi_bs ?E" by (simp add: whole_env_def buffer_env_def sample_env_defs)
  show "variable_contract ?E" using sample_variable_contract by (simp add: variable_contract_def whole_env_def buffer_env_def)
  show "read_contract ?E" using reading_env_contracts(2) by (simp add: read_contract_def whole_env_def)
  show "devices_ok ?E" by (simp add: devices_ok_def whole_env_def sample_bio_def)
  show "file_backed ?E sample_file" using file_env_backed [of sample_file]
    by (simp add: file_backed_def whole_env_def buffer_env_def file_env_def)
  show "file_sized ?E sample_file" by (simp add: file_sized_def whole_env_def sample_file_def)
qed (auto simp: sample_usb_def sample_app_def app_ok_def polls_ok_def quoted_line_def sample_file_def)

end
