(* ===== verification/Completion.thy ===== *)
theory Completion
  imports Secure_Spec
begin

text \<open>
  What a completed transfer means. \<open>written p ctx fed ws\<close> says that the writes \<open>ws\<close> that the device
  has accepted contain, in order, all writes of the entries that the flasher has completed, for
  the bytes \<open>fed\<close> that it was given. Every message that is not a header message keeps this, with
  \<open>fed\<close> growing by a prefix of the data of a payload message and by nothing otherwise, whichever
  writes fail: a failed entry is not complete, and is written again from its first location
  when more bytes arrive.
\<close>

section \<open>The stream flasher\<close>

definition written :: "bytes \<Rightarrow> FFU_STREAM_FLASH \<Rightarrow> bytes \<Rightarrow> (u32 \<times> u64 \<times> bytes) list \<Rightarrow> bool" where
  "written p ctx fed ws \<longleftrightarrow> (let es = take (unat (entry_index ctx)) (entries (plan ctx)) in
     length fed = image_bytes es + unat (entry_received ctx)
     \<and> drop (image_bytes es) fed = take (unat (entry_received ctx)) (entry_data ctx)
     \<and> subseq (map (Pair (media_id ctx)) (image_writes (emits p ctx) es fed)) ws)"

text \<open>From one context and world to another, \<open>d\<close> was fed.\<close>

definition grows :: "env \<Rightarrow> bytes \<Rightarrow> bytes \<Rightarrow> FFU_STREAM_FLASH \<Rightarrow> world \<Rightarrow> FFU_STREAM_FLASH \<Rightarrow> world \<Rightarrow> bool" where
  "grows E p d ctx w ctx' w' \<longleftrightarrow> grew w w'
     \<and> (\<forall>fed ws. written p ctx fed ws \<longrightarrow> written p ctx' (fed @ d) (ws @ taken E w w'))"

lemma written_more: "written p ctx fed ws \<Longrightarrow> written p ctx fed (ws @ ws')"
  unfolding written_def Let_def by (blast intro: list_emb_append2)

lemma grows_same: "grew w w' \<Longrightarrow> grows E p [] ctx w ctx w'"
  using written_more by (auto simp: grows_def)

lemma grows_trans: "grows E p d1 c1 w1 c2 w2 \<Longrightarrow> grows E p d2 c2 w2 c3 w3 \<Longrightarrow> grows E p (d1 @ d2) c1 w1 c3 w3"
  using taken_append [of w1 w2 w3 E] grew_trans [of w1 w2 w3] by (fastforce simp: grows_def)

lemma grows_after: "grows E p d c1 w1 c2 w2 \<Longrightarrow> grew w2 w3 \<Longrightarrow> grows E p d c1 w1 c2 w3"
  using grows_trans [of E p d c1 w1 c2 w2 "[]" c2 w3] grows_same [of w2 w3 E p c2] by simp

lemma grows_before: "grew w w1 \<Longrightarrow> grows E p d c1 w1 c2 w2 \<Longrightarrow> grows E p d c1 w c2 w2"
  using grows_trans [of E p "[]" c1 w c1 w1 d c2 w2] grows_same [of w w1 E p c1] by simp

lemma written_marks [simp]:
  "written p (c\<lparr>last_sector := x\<rparr>) = written p c" "written p (c\<lparr>final_state := n\<rparr>) = written p c"
proof -
  have "emits p (c\<lparr>last_sector := x\<rparr>) = emits p c" "emits p (c\<lparr>final_state := n\<rparr>) = emits p c"
    by (rule emits_config, simp add: config_def)+
  then show "written p (c\<lparr>last_sector := x\<rparr>) = written p c" "written p (c\<lparr>final_state := n\<rparr>) = written p c"
    by (intro ext, simp add: written_def)+
qed

lemma image_bytes_simps [simp]:
  "image_bytes [] = 0" "image_bytes (e # es) = unat (byte_count e) + image_bytes es"
  "image_bytes (xs @ ys) = image_bytes xs + image_bytes ys"
  by (simp_all add: image_bytes_def)

lemma image_writes_more: "image_bytes es \<le> length d \<Longrightarrow> image_writes f es (d @ d') = image_writes f es d"
  by (induction es arbitrary: d) auto

lemma image_writes_append:
  "image_writes f (xs @ ys) d = image_writes f xs d @ image_writes f ys (drop (image_bytes xs) d)"
  by (induction xs arbitrary: d) (simp_all add: add.commute)

lemma written_at_start:
  assumes "stream_inv H p ctx" "pending ctx = (entries (plan ctx), [])"
  shows "written p ctx [] []"
proof -
  let ?es = "take (unat (entry_index ctx)) (entries (plan ctx))"
  have "length (drop (unat (entry_index ctx)) (entries (plan ctx))) = length (entries (plan ctx))"
    using assms(2) by (simp add: pending_def)
  then have es: "?es = []" by (cases "entries (plan ctx)") auto
  have "entry_data ctx = [] \<or> entry_received ctx = 0" using assms(2) by (auto simp: pending_def unat_eq_zero)
  moreover have "entry_received ctx = 0" if "entry_data ctx = []"
  proof (cases "unat (entry_index ctx) < length (entries (plan ctx))")
    case True
    have "entry_received ctx \<le> byte_count (entries (plan ctx) ! unat (entry_index ctx))"
      "byte_count (entries (plan ctx) ! unat (entry_index ctx)) \<le> entry_capacity ctx" "unat (entry_capacity ctx) = 0"
      using assms(1) that True by (simp_all add: stream_inv_def)
    then have "unat (entry_received ctx) = 0" by (simp add: word_le_nat_alt)
    then show ?thesis by (simp add: unat_eq_zero)
  qed (use assms(1) in \<open>simp add: stream_inv_def\<close>)
  ultimately show ?thesis using es by (auto simp: written_def Let_def)
qed

text \<open>When nothing is pending, the whole image has been written.\<close>

lemma written_done:
  assumes inv: "stream_inv H p ctx" and d: "ffu_stream_flash_done ctx" and w: "written p ctx fed ws"
  shows "length fed = image_bytes (entries (plan ctx))
    \<and> subseq (map (Pair (media_id ctx)) (image_writes (emits p ctx) (entries (plan ctx)) fed)) ws"
proof -
  have n: "fst (pending ctx) = []" using done_pending [OF inv] d by simp
  then have k: "length (entries (plan ctx)) \<le> unat (entry_index ctx)" by (simp add: pending_def)
  then have "entry_received ctx = 0" using inv by (simp add: stream_inv_def)
  then show ?thesis using w k by (auto simp: written_def Let_def)
qed

text \<open>One round of the payload loop.\<close>

lemma written_filled:
  assumes inv: "stream_inv H p ctx" and i: "unat (entry_index ctx) < length (entries (plan ctx))"
    and e: "e = entries (plan ctx) ! unat (entry_index ctx)" and pos: "pos < len"
    and len: "unat len \<le> length data" and tk: "tk = step_take ctx e len pos" and w: "written p ctx fed ws"
  shows "written p (filled ctx data tk pos) (fed @ take (unat tk) (drop (unat pos) data)) ws"
proof -
  let ?c = "filled ctx data tk pos" and ?es = "take (unat (entry_index ctx)) (entries (plan ctx))"
  let ?d = "take (unat tk) (drop (unat pos) data)"
  have le: "entry_received ctx \<le> byte_count e" using inv i e by (simp add: stream_inv_def)
  note t = step_take_unat [OF le less_imp_le [OF pos], folded tk]
  have "e \<in> set (entries (plan ctx))" using e i by simp
  then have "byte_count e \<le> entry_capacity ctx" "length (entry_data ctx) = unat (entry_capacity ctx)"
    using inv by (auto simp: stream_inv_def)
  then have rl: "unat (entry_received ctx) \<le> length (entry_data ctx)" using le by (simp add: word_le_nat_alt)
  have pl: "unat pos + unat tk \<le> length data" using t(1) len pos by (simp add: word_less_nat_alt)
  note ft = filled_take [OF rl t(2) pl]
  have same: "plan ?c = plan ctx" "entry_index ?c = entry_index ctx" "config ?c = config ctx"
    "entry_received ?c = entry_received ctx + tk" "media_id ?c = media_id ctx" by (simp_all add: filled_def config_def)
  have f: "length fed = image_bytes ?es + unat (entry_received ctx)"
      "drop (image_bytes ?es) fed = take (unat (entry_received ctx)) (entry_data ctx)"
      "subseq (map (Pair (media_id ctx)) (image_writes (emits p ctx) ?es fed)) ws"
    using w by (auto simp: written_def Let_def)
  have "length (fed @ ?d) = image_bytes ?es + unat (entry_received ?c)" using f(1) t(2) pl same(4) by simp
  moreover have "drop (image_bytes ?es) (fed @ ?d) = take (unat (entry_received ?c)) (entry_data ?c)"
    using f(1,2) ft by simp
  moreover have "subseq (map (Pair (media_id ?c)) (image_writes (emits p ?c) ?es (fed @ ?d))) ws"
    unfolding same(5) using f(1,3) image_writes_more [of ?es fed "emits p ctx" ?d] emits_config [OF same(3)] by simp
  ultimately show ?thesis unfolding written_def Let_def same(1,2) by blast
qed

lemma written_next:
  assumes inv: "stream_inv H p c" and i: "unat (entry_index c) < length (entries (plan c))"
    and e: "e = entries (plan c) ! unat (entry_index c)" and full: "entry_received c = byte_count e" and w: "written p c fed ws"
  shows "written p (c\<lparr>last_sector := x, entry_received := 0, entry_index := entry_index c + 1\<rparr>) fed
    (ws @ map (Pair (media_id c)) (emits p c e (take (unat (byte_count e)) (entry_data c))))"
proof -
  let ?c = "c\<lparr>last_sector := x, entry_received := 0, entry_index := entry_index c + 1\<rparr>"
  let ?es = "take (unat (entry_index c)) (entries (plan c))" and ?d = "take (unat (byte_count e)) (entry_data c)"
  have "drop (unat (entry_index c + 1)) (entries (plan c)) = drop (Suc (unat (entry_index c))) (entries (plan c))"
    using advance_inv(3) [OF inv i, of x] by (simp add: pending_def)
  then have "length (entries (plan c)) - unat (entry_index c + 1) = length (entries (plan c)) - Suc (unat (entry_index c))"
    by (metis length_drop)
  moreover have "unat (entry_index c + 1) \<le> length (entries (plan c))" using advance_inv(1) [OF inv i, of x] by (simp add: stream_inv_def)
  ultimately have s: "unat (entry_index c + 1) = Suc (unat (entry_index c))" using i by linarith
  have tk: "take (unat (entry_index ?c)) (entries (plan ?c)) = ?es @ [e]" using i e by (simp add: s take_Suc_conv_app_nth)
  have em: "emits p ?c = emits p c" by (rule emits_config) (simp add: config_def)
  have f: "length fed = image_bytes ?es + unat (byte_count e)" "drop (image_bytes ?es) fed = ?d"
      "subseq (map (Pair (media_id c)) (image_writes (emits p c) ?es fed)) ws"
    using w full by (auto simp: written_def Let_def)
  have "image_writes (emits p c) (?es @ [e]) fed = image_writes (emits p c) ?es fed @ emits p c e ?d"
    using f(1,2) by (simp add: image_writes_append min_def)
  then have "subseq (map (Pair (media_id c)) (image_writes (emits p c) (?es @ [e]) fed)) (ws @ map (Pair (media_id c)) (emits p c e ?d))"
    using f(3) by (simp add: list_emb_append_mono)
  then show ?thesis unfolding written_def Let_def tk em using f(1) by simp
qed

lemma step_grows:
  assumes inv: "stream_inv H p ctx" and pos: "pos < len" and len: "unat len \<le> length data"
  shows "case stream_step E H ctx data len pos w of None \<Rightarrow> False
    | Some (Inl (st, ctx', w')) \<Rightarrow> \<exists>n. unat pos + n \<le> unat len \<and> grows E p (take n (drop (unat pos) data)) ctx w ctx' w'
    | Some (Inr (ctx', pos', w')) \<Rightarrow> \<exists>n. unat pos' = unat pos + n \<and> unat pos + n \<le> unat len
        \<and> grows E p (take n (drop (unat pos) data)) ctx w ctx' w' \<and> stream_inv H p ctx'"
proof (cases "unat (entry_index ctx) < length (entries (plan ctx))")
  case False
  then have "entry_count (plan ctx) \<le> entry_index ctx"
    using inv by (simp add: stream_inv_def plan_wf_def word_le_nat_alt)
  moreover have "unat pos + 0 \<le> unat len \<and> grows E p (take 0 (drop (unat pos) data)) ctx w ctx w"
    using pos grows_same [of w w E p ctx] by (simp add: word_less_nat_alt)
  ultimately show ?thesis by (auto simp: stream_step_def intro: exI [of _ 0])
next
  case i: True
  define e where "e = entries (plan ctx) ! unat (entry_index ctx)"
  define tk where "tk = step_take ctx e len pos"
  let ?c = "filled ctx data tk pos" and ?d = "take (unat tk) (drop (unat pos) data)"
  have same: "config ?c = config ctx" "plan ?c = plan ctx" "entry_index ?c = entry_index ctx"
      "entry_received ?c = entry_received ctx + tk" "media_id ?c = media_id ctx"
    by (simp_all add: config_def filled_def)
  note st = stream_step_in [OF inv i e_def pos len tk_def]
  have le: "entry_received ctx \<le> byte_count e" using inv i e_def by (simp add: stream_inv_def)
  note t = step_take_unat [OF le less_imp_le [OF pos], folded tk_def]
  have n: "unat (pos + tk) = unat pos + unat tk" "unat pos + unat tk \<le> unat len"
    using t(1,3) pos by (simp_all add: word_less_nat_alt)
  have wf: "written p ctx fed ws \<Longrightarrow> written p ?c (fed @ ?d) ws" for fed ws
    by (rule written_filled [OF inv i e_def pos len tk_def])
  have i': "unat (entry_index ?c) < length (entries (plan ?c))" "e = entries (plan ?c) ! unat (entry_index ?c)"
    using i by (simp_all only: same e_def)
  show ?thesis
  proof (cases "entry_received ctx + tk = byte_count e")
    case False
    have "grows E p ?d ctx w ?c w" using wf by (auto simp: grows_def)
    then show ?thesis using st n False by auto
  next
    case True
    have "e \<in> set (entries (plan ?c))" using i' by simp
    from stream_write_post [OF st(2) this, of E w]
    obtain st' x w' where wr: "stream_write_completed_entry E H ?c e w = Some (st', ?c\<lparr>last_sector := x\<rparr>, w')" "grew w w'"
        "EFI_ERROR st' \<or> taken E w w' = map (Pair (media_id ?c)) (emits p ?c e (take (unat (byte_count e)) (entry_data ?c)))"
      by (auto simp: wr_post_def)
    show ?thesis
    proof (cases "EFI_ERROR st'")
      case err: True
      have "written p ctx fed u \<Longrightarrow> written p (?c\<lparr>last_sector := x\<rparr>) (fed @ ?d) u" for fed u
        using wf [of fed u] by simp
      then have "grows E p ?d ctx w (?c\<lparr>last_sector := x\<rparr>) w'" using wr(2) written_more by (auto simp: grows_def)
      then show ?thesis using st(1) True wr(1) err n by auto
    next
      case ok: False
      let ?a = "?c\<lparr>last_sector := x, entry_received := 0, entry_index := entry_index ?c + 1\<rparr>"
      have full: "entry_received ?c = byte_count e" using True same(4) by simp
      have "written p ?a (fed @ ?d) (u @ taken E w w')" if "written p ctx fed u" for fed u
        using written_next [OF st(2) i' full wf [OF that], of x] wr(3) ok by simp
      then have "grows E p ?d ctx w ?a w'" using wr(2) by (simp add: grows_def)
      then show ?thesis using st(1) True wr(1) ok n advance_inv(1) [OF st(2) i'(1), of x] by auto
    qed
  qed
qed

lemma take_take_drop: "take n (drop k d) @ take m (drop (k + n) d) = take (n + m) (drop k d)"
  by (metis add.commute drop_drop take_add)

lemma payload_loop_grows:
  "payload_loop E H ctx data len pos w = Some (st, ctx', w') \<Longrightarrow> stream_inv H p ctx \<Longrightarrow> unat len \<le> length data
    \<Longrightarrow> pos \<le> len \<Longrightarrow> \<exists>n. unat pos + n \<le> unat len \<and> grows E p (take n (drop (unat pos) data)) ctx w ctx' w'"
proof (induction E H ctx data len pos w rule: payload_loop.induct)
  case (1 E H ctx data len pos w)
  show ?case
  proof (cases "pos < len")
    case True
    note post = step_grows [OF 1(3) True 1(4), where E = E and w = w]
    obtain r where r: "stream_step E H ctx data len pos w = Some r" using post by (cases "stream_step E H ctx data len pos w") simp_all
    show ?thesis
    proof (cases r)
      case (Inl x)
      then show ?thesis using 1(2) True r post by (cases x) (simp add: payload_loop.simps)
    next
      case (Inr x)
      obtain c pos' v where x: "x = (c, pos', v)" by (cases x)
      obtain n where n: "unat pos' = unat pos + n" "unat pos + n \<le> unat len"
          "grows E p (take n (drop (unat pos) data)) ctx w c v" "stream_inv H p c"
        using post r Inr x by auto
      have "payload_loop E H c data len pos' v = Some (st, ctx', w')"
        using 1(2) True r Inr x by (simp add: payload_loop.simps [of E H ctx])
      moreover have "pos' \<le> len" using n(1,2) by (simp add: word_le_nat_alt)
      ultimately obtain m where m: "unat pos' + m \<le> unat len" "grows E p (take m (drop (unat pos') data)) c v ctx' w'"
        using 1(1) [OF True r Inr x [symmetric] refl _ n(4) 1(4)] by blast
      show ?thesis using grows_trans [OF n(3) m(2)] m(1) n(1) unfolding n(1) take_take_drop
        by (intro exI [of _ "n + m"]) simp
    qed
  next
    case False
    then have "payload_loop E H ctx data len pos w = Some (EFI_SUCCESS, ctx, w)" by (simp add: payload_loop.simps)
    then have "ctx' = ctx" "w' = w" using 1(2) by simp_all
    then show ?thesis using grows_same [of w w E p ctx] 1(5) by (intro exI [of _ 0]) (simp add: word_le_nat_alt)
  qed
qed

lemma payload_grows:
  assumes "ffu_stream_flash_payload E H ctx (Some data) len w = Some (st, ctx', w')" "stream_inv H p ctx" "unat len \<le> length data"
  shows "\<exists>n \<le> unat len. grows E p (take n data) ctx w ctx' w'"
proof -
  have f: "grows E p d ctx w (c\<lparr>final_state := n\<rparr>) w' = grows E p d ctx w c w'" for c n d
    by (simp add: grows_def)
  show ?thesis using assms(1) payload_loop_grows [OF _ assms(2,3), of E 0 w]
    by (auto simp: ffu_stream_flash_payload_def f split: Option.bind_splits if_splits) blast+
qed

section \<open>Messages that leave the flasher alone\<close>

definition same_flash :: "LOOP \<Rightarrow> LOOP \<Rightarrow> bool" where
  "same_flash s s' \<longleftrightarrow> flash s' = flash s \<and> mem s' = mem s \<and> flash_ready s' = flash_ready s"

definition idle :: "LOOP \<Rightarrow> round \<Rightarrow> bool" where
  "idle s r \<longleftrightarrow> (\<forall>fl s' w'. r = Some (Returns (fl, s', w')) \<longrightarrow> same_flash s s')"

lemma idle_Returns [simp]: "idle s (Some (Returns (fl, s', w'))) = same_flash s s'" "idle s None"
  by (simp_all add: idle_def)

lemma idle_after: "(\<And>x. idle s (f x)) \<Longrightarrow> idle s (after r f)"
  by (auto simp: idle_def after_def split: option.splits run.splits)

lemma idle_bind: "(\<And>x. r = Some x \<Longrightarrow> idle s (f x)) \<Longrightarrow> idle s (Option.bind r f)"
  by (cases r) simp_all

lemma idle_reply: "same_flash s s1 \<Longrightarrow> idle s (reply s1 r)"
  unfolding reply_def by (rule idle_after) (auto simp: same_flash_def)

lemma same_flash_simps [simp]: "same_flash s s" "same_flash s (s\<lparr>port := u\<rparr>)" "same_flash s (s\<lparr>globals := a\<rparr>)"
    "same_flash s (async_reset s)" "same_flash s (async_fail s)"
  by (simp_all add: same_flash_def async_reset_def async_fail_def)

lemma async_blocks_idle: "async_blocks E media commit msg len start n s w = Some (s', w') \<Longrightarrow> same_flash s s'"
  by (auto simp: async_blocks_def async_fail_def same_flash_def Let_def split: if_splits Option.bind_splits prod.splits)

lemma async_idle: "idle s (async_message E dev commit msg len s w)"
proof -
  have w: "idle s (async_write E dev commit msg len s w)"
    unfolding async_write_def
  proof (intro idle_bind, unfold case_prod_unfold, intro idle_after idle_bind, unfold case_prod_unfold Let_def, intro idle_bind)
    fix x :: "EFI_STATUS \<times> USB_TRANSPORT \<times> world" and y ck and start n media
    assume "(if ck \<noteq> 1 then async_blocks E media commit msg len start n (s\<lparr>port := fst (snd x)\<rparr>) (snd (snd x))
      else Some (s\<lparr>port := fst (snd x)\<rparr>, snd (snd x))) = Some y"
    then have "same_flash (s\<lparr>port := fst (snd x)\<rparr>) (fst y)"
      using async_blocks_idle by (cases y) (auto split: if_splits)
    then show "idle s (Some (Returns (Next, fst y, snd y)))" by (cases y) (simp add: same_flash_def)
  qed
  have e: "idle s (async_end E s w)" "idle s (async_start E msg len s w)"
    by (auto simp: async_end_def async_start_def Let_def intro!: idle_bind idle_reply)
  show ?thesis unfolding async_message_def by (auto intro!: idle_bind idle_reply w e)
qed

lemma common_idle: "idle s (common_message E msg len m5 s w)"
  unfolding common_message_def by (auto simp: Let_def intro!: idle_bind idle_after)

lemma log_idle: "idle s (log_message E msg len ext s w)"
  unfolding log_message_def by (auto intro!: idle_bind idle_reply)

text \<open>The data that a payload message carries, by the layout of its three versions.\<close>

definition payload_data :: "bytes \<Rightarrow> bytes" where
  "payload_data m =
     (case (rd_be32 (drop 12 m), rd_be32 (drop 20 m)) of
        (Some sb, Some n) \<Rightarrow>
          if take 6 m \<noteq> asc ''NOKXFS'' then []
          else if sb = UFP_SEC_SUBBLOCK_PAYLOAD_V1 then take (unat n) (drop 28 m)
          else if sb = UFP_SEC_SUBBLOCK_PAYLOAD_V2 then take (unat n) (drop 32 m)
          else if sb = UFP_SEC_SUBBLOCK_PAYLOAD_V3 then take (unat n) (drop 64 m)
          else []
      | _ \<Rightarrow> [])"

definition payload_kind :: "bytes \<Rightarrow> u32 \<Rightarrow> bool" where
  "payload_kind m sb \<longleftrightarrow> take 6 m = asc ''NOKXFS'' \<and> rd_be32 (drop 12 m) = Some sb
     \<and> sb \<in> {UFP_SEC_SUBBLOCK_PAYLOAD_V1, UFP_SEC_SUBBLOCK_PAYLOAD_V2, UFP_SEC_SUBBLOCK_PAYLOAD_V3}"

lemma payload_check_data:
  assumes c: "payload_check msg len pr sb = Some (Inr (n, off))" and len: "unat len \<le> length msg" and k: "payload_kind msg sb"
  shows "take (unat n) (drop (unat off) msg) = payload_data (take (unat len) msg)"
proof -
  obtain d ov mask where lay: "payload_layout sb = (d, ov, mask)" by (cases "payload_layout sb")
  from c have f: "25 \<le> len" "rd_be32 (drop 20 msg) = Some n" "off = d" "\<not> len < ucast d + ucast n"
    by (auto simp: payload_check_def lay Let_def not_less split: if_splits Option.bind_splits)
  have l: "25 \<le> unat len" using f(1) by (simp add: word_le_nat_alt)
  have "unat (ucast d + ucast n :: u64) = unat d + unat n"
    using unat_u32_lt [of d] unat_u32_lt [of n] by (subst unat_add_le) auto
  then have dn: "unat d + unat n \<le> unat len" using f(4) by (simp add: word_less_nat_alt not_less)
  have t: "take (unat n) (drop (unat d) (take (unat len) msg)) = take (unat n) (drop (unat d) msg)"
    using dn by (simp add: drop_take min_def)
  have "take 6 (take (unat len) msg) = take 6 msg" using l by (simp add: min_def)
  moreover have "rd_be32 (drop 12 (take (unat len) msg)) = Some sb" "rd_be32 (drop 20 (take (unat len) msg)) = Some n"
    using be32_take [of 12 "unat len" msg] be32_take [of 20 "unat len" msg] l len k f(2) by (simp_all add: payload_kind_def)
  ultimately show ?thesis using k t lay f(3)
    by (auto simp: payload_data_def payload_kind_def payload_layout_def UFP_SEC_SUBBLOCK_PAYLOAD_V1_def
        UFP_SEC_SUBBLOCK_PAYLOAD_V2_def UFP_SEC_SUBBLOCK_PAYLOAD_V3_def)
qed

text \<open>A message that is not a header message is a payload message, or leaves the flasher alone.\<close>

definition calm :: "env \<Rightarrow> EFI_BLOCK_IO_PROTOCOL \<Rightarrow> bool \<Rightarrow> bytes \<Rightarrow> u64 \<Rightarrow> LOOP \<Rightarrow> world \<Rightarrow> round \<Rightarrow> bool" where
  "calm E dev commit msg len s w r \<longleftrightarrow> idle s r
     \<or> (\<exists>pr pg sb. payload_kind msg sb \<and> r = payload_message E dev commit msg len pr pg sb s w)"

lemma calm_intros:
  "idle s r \<Longrightarrow> calm E dev commit msg len s w r" "calm E dev commit msg len s w (reply s q)"
  "payload_kind msg sb \<Longrightarrow> calm E dev commit msg len s w (payload_message E dev commit msg len pr pg sb s w)"
  using idle_reply [of s s] by (auto simp: calm_def)

lemma secure_idle:
  assumes len: "unat len \<le> length msg" and magic: "take 6 msg = asc ''NOKXFS''" and no: "header_bytes (take (unat len) msg) = None"
  shows "calm E dev commit msg len s w (secure_message E dev commit msg len s w)"
proof (cases "len < 16")
  case True
  then show ?thesis by (simp add: secure_message_def reply_short_def calm_intros)
next
  case False
  have l: "16 \<le> length msg" using False len by (simp add: word_less_nat_alt)
  obtain pr sb where rd: "rd_be16 (drop 6 msg) = Some pr" "rd_be32 (drop 12 msg) = Some sb"
    using be16.dec_drop_total [of 6 msg] be32.dec_drop_total [of 12 msg] l by auto
  have pk: "peek msg 8 = Some (msg ! 8)" "peek msg 11 = Some (msg ! 11)" using l by (simp_all add: peek_in)
  have h: "idle s (header_message E dev commit msg len v2 s w)"
    if sb: "sb = UFP_SEC_SUBBLOCK_HEADER_V1 \<or> sb = UFP_SEC_SUBBLOCK_HEADER_V2" for v2
  proof (cases "len < 32")
    case True
    then have "len < 60" by (simp add: word_less_nat_alt)
    then show ?thesis using True
      by (simp add: header_message_def header_v1_fields_def header_v2_fields_def reply_short_def idle_reply)
  next
    case f: False
    then have "32 \<le> unat len" by (simp add: word_less_nat_alt)
    then obtain n where "rd_be32 (drop 24 msg) = Some n" using be32.dec_drop_total [of 24 msg] len by auto
    then show ?thesis using header_bytes_in [OF magic rd(2) len _ sb] no f by (simp add: not_less)
  qed
  show ?thesis unfolding secure_message_def if_not_P [OF False] rd pk Option.bind.simps
    using h magic rd(2) by (auto simp: reply_short_def payload_kind_def intro: calm_intros)
qed

lemma loop_message_idle:
  assumes len: "unat len \<le> length msg" and no: "header_bytes (take (unat len) msg) = None"
  shows "calm E dev commit msg len s w (loop_message E dev commit msg len s w)"
proof (cases "len < 4")
  case True
  then show ?thesis by (simp add: loop_message_def calm_intros)
next
  case False
  then have l: "4 \<le> length msg" using len by (simp add: word_less_nat_alt)
  define b where "b \<longleftrightarrow> msg ! 0 = 0x4e \<and> msg ! 1 = 0x4f \<and> msg ! 2 = 0x4b"
  have nok: "andM (byte_is msg 0 0x4e) (andM (byte_is msg 1 0x4f) (byte_is msg 2 0x4b)) = Some b"
  proof -
    have "0 < length msg" "1 < length msg" "2 < length msg" using l by linarith+
    then show ?thesis by (simp only: byte_is_in b_def) (auto simp: andM_def)
  qed
  have pk: "peek msg 3 = Some (msg ! 3)" using l by (simp add: peek_in)
  let ?P = "calm E dev commit msg len s w"
  have x: "?P (extended_message E dev commit msg len s w)" if h: "b" "msg ! 3 = 0x58" "\<not> len < 6"
  proof -
    have l6: "6 \<le> length msg" using h(3) len by (simp add: word_less_nat_alt)
    have pk: "peek msg 4 = Some (msg ! 4)" "peek msg 5 = Some (msg ! 5)" using l6 by (simp_all add: peek_in)
    have "take 6 msg = asc ''NOKXFS''" if "msg ! 4 = 0x46" "msg ! 5 = 0x53"
    proof -
      have "take 6 msg = [msg ! 0, msg ! 1, msg ! 2, msg ! 3, msg ! 4, msg ! 5]"
        using l6 by (auto simp: numeral_eq_Suc Suc_le_length_iff)
      then show ?thesis using that h by (simp add: b_def)
    qed
    then have s: "?P (secure_message E dev commit msg len s w)" if "msg ! 4 = 0x46" "msg ! 5 = 0x53"
      using that secure_idle [OF len _ no] by blast
    have wr: "idle s (handle_write_param E (globals s) (port s) msg len w \<bind> (\<lambda>(app, r). reply (s\<lparr>globals := app\<rparr>) (Some r)))"
      by (auto intro!: idle_bind idle_reply)
    show ?thesis unfolding extended_message_def pk Option.bind.simps
      using s calm_intros(1) [OF wr] calm_intros(1) [OF async_idle] calm_intros(1) [OF common_idle] calm_intros(1) [OF log_idle]
        calm_intros(2) by (simp only: if_split simp_thms) blast
  qed
  have u: "?P (Some (Returns (fl, s, w)))" for fl by (rule calm_intros) simp
  show ?thesis unfolding loop_message_def if_not_P [OF False] nok pk Option.bind.simps
    using x u calm_intros(2) by (simp only: if_split simp_thms) blast
qed

section \<open>Rounds\<close>

definition kept :: "env \<Rightarrow> bytes \<Rightarrow> bytes \<Rightarrow> LOOP \<Rightarrow> world \<Rightarrow> LOOP \<Rightarrow> world \<Rightarrow> bool" where
  "kept E p d s w s' w' \<longleftrightarrow> flash_ready s' \<and> stream_inv (mem s') p (flash s') \<and> config (flash s') = config (flash s)
     \<and> grows E p d (flash s) w (flash s') w'"

lemma kept_trans: "kept E p d1 s w s1 w1 \<Longrightarrow> kept E p d2 s1 w1 s' w' \<Longrightarrow> kept E p (d1 @ d2) s w s' w'"
  using grows_trans by (auto simp: kept_def)

lemma kept_before: "kept E p d s v s' w' \<Longrightarrow> grew w v \<Longrightarrow> kept E p d s w s' w'"
  using grows_before by (auto simp: kept_def)

lemma idle_kept:
  assumes "idle s r" "round_post mt c commit w r" "r = Some (Returns (fl, s', w'))"
    and "flash_ready s" "stream_inv (mem s) p (flash s)"
  shows "kept E p [] s w s' w'"
  using assms grows_same by (fastforce simp: same_flash_def round_post_def steps_def kept_def)

lemma payload_kept:
  assumes ok: "loop_ok mt c commit s" and len: "unat len \<le> length msg" and rd: "flash_ready s" and inv: "stream_inv (mem s) p (flash s)"
    and k: "payload_kind msg sb"
    and r: "payload_message E dev commit msg len pr pg sb s w = Some (Returns (fl, s', w'))"
  shows "\<exists>d. prefix d (payload_data (take (unat len) msg)) \<and> kept E p d s w s' w'"
proof -
  obtain q where q: "payload_check msg len pr sb = Some q"
    "\<forall>n off. q = Inr (n, off) \<longrightarrow> unat off + unat n \<le> length msg"
    using payload_check_post [OF len] by blast
  show ?thesis
  proof (cases q)
    case (Inl x)
    then have "idle s (payload_message E dev commit msg len pr pg sb s w)"
      using q(1) by (cases x) (simp add: payload_message_def reply_short_def idle_reply)
    then have "kept E p [] s w s' w'" by (rule idle_kept [OF _ payload_message_post [OF ok len] r rd inv])
    then show ?thesis by (intro exI [of _ "[]"]) simp
  next
    case (Inr x)
    obtain n off where x: "x = (n, off)" by fastforce
    then have b: "unat off + unat n \<le> length msg" using q(2) Inr by simp
    have pd: "take (unat n) (drop (unat off) msg) = payload_data (take (unat len) msg)"
      using payload_check_data [OF _ len k] q(1) Inr x by simp
    have "\<exists>st sp s1 w1 d. payload_feed E msg n off s w = Some (st, sp, s1, w1)
      \<and> prefix d (payload_data (take (unat len) msg)) \<and> kept E p d s w s1 w1"
    proof (cases "n = 0")
      case True
      have "kept E p [] s w s w" using rd inv grows_same [of w w] by (simp add: kept_def)
      then show ?thesis using True rd by (intro exI [of _ 0] exI [of _ s] exI [of _ w] exI [of _ "[]"]) (simp add: payload_feed_def)
    next
      case False
      have l: "unat n \<le> length (drop (unat off) msg)" using b by simp
      obtain st ctx v where f: "ffu_stream_flash_payload E (mem s) (flash s) (Some (drop (unat off) msg)) n w = Some (st, ctx, v)"
        "stream_inv (mem s) p ctx" "config ctx = config (flash s)"
        using payload_safe [OF inv, of n "take (unat n) (drop (unat off) msg)" E w] l unfolding payload_prefix [OF l] by auto
      obtain m where m: "m \<le> unat n" "grows E p (take m (drop (unat off) msg)) (flash s) w ctx v"
        using payload_grows [OF f(1) inv l] by blast
      have "take m (drop (unat off) msg) = take m (payload_data (take (unat len) msg))"
        unfolding pd [symmetric] using m(1) by (simp add: min_def)
      then have "prefix (take m (drop (unat off) msg)) (payload_data (take (unat len) msg))" using take_is_prefix by metis
      moreover have "kept E p (take m (drop (unat off) msg)) s w (s\<lparr>flash := ctx\<rparr>) v"
        using m(2) f(2,3) rd by (simp add: kept_def)
      moreover have "\<exists>x y. payload_feed E msg n off s w = Some (x, y, s\<lparr>flash := ctx\<rparr>, v)"
        using False rd f(1) by (simp add: payload_feed_def)
      ultimately show ?thesis by blast
    qed
    then obtain st sp s1 w1 d where f: "payload_feed E msg n off s w = Some (st, sp, s1, w1)"
      "prefix d (payload_data (take (unat len) msg))" "kept E p d s w s1 w1" by blast
    have u1: "usb_ok (port s1)" using payload_feed_post [OF ok b, of E w] f(1) loop_ok_usb [OF ok] by auto
    define fin where "fin = (if pg = 100 \<and> ffu_stream_flash_done (flash s1) then 1 else 0 :: u8)"
    define us where "us = (if pg = 100 \<and> fin = 0 \<and> st = 0 then 8 else st)"
    let ?f = "status_frame us sp 0xffffffff (last_sector (flash s1)) fin"
    let ?snd = "usb_transport_send E (port s1) (Some (?f @ drop 36 (stack 64))) 36 w1"
    have dl: "delivers usb_ok usb_keep (port s1) (usb.message (port s1) (?f @ drop 36 (stack 64)) 36) w1 ?snd"
      by (rule frame_delivers [OF u1]) (simp add: async_frame_lengths)
    let ?k = "\<lambda>(st :: EFI_STATUS, usb, w). let s = s1\<lparr>port := usb\<rparr>
       in if fin = 1 \<and> us = 0 then
              let w = con_crlf E (say E ''USB FFU flashing completed.'' w);
                  w = (if commit \<and> FlushBlocks dev then snd (FlushBlocks_call E w) else w)
              in Some (Returns (Leave EFI_SUCCESS, s, w))
            else Some (Returns (Next, s, w))"
    have eq: "after ?snd ?k = Some (Returns (fl, s', w'))"
      using r q(1) Inr x f(1)
      by (simp add: payload_message_def frames_64 async_frame_lengths fin_def [symmetric] us_def [symmetric])
    then obtain x1 where sx: "?snd = Some (Returns x1)" "?k x1 = Some (Returns (fl, s', w'))"
      by (auto simp: after_def split: option.splits run.splits)
    obtain st1 usb1 w2 where x1: "x1 = (st1, usb1, w2)" by (cases x1)
    have "quiet w1 w2" using dl sx(1) x1 by simp
    then have "grew w1 w2" by (simp add: quiet_def)
    then have "grew w1 w'" "s' = s1\<lparr>port := usb1\<rparr>"
      using sx(2) x1 by (auto simp: Let_def FlushBlocks_call_def split: if_splits)
    then have "kept E p d s w s' w'" using f(3) grows_after by (auto simp: kept_def)
    then show ?thesis using f(2) by blast
  qed
qed

text \<open>What a flasher can have been fed by a list of events: of some of the messages, in order, a
  prefix of their payload data.\<close>

inductive fed_by :: "usbfn_poll list \<Rightarrow> bytes \<Rightarrow> bool" where
  fed_none: "fed_by [] []"
| fed_skip: "fed_by ps fed \<Longrightarrow> fed_by (p # ps) fed"
| fed_part: "fed_by ps fed \<Longrightarrow> completed_rx r \<Longrightarrow> prefix d (payload_data (take (unat (BytesTransferred r)) b))
    \<Longrightarrow> fed_by (Poll_Rx r b # ps) (d @ fed)"

lemma fed_by_nothing: "fed_by ps []"
  by (induction ps) (auto intro: fed_by.intros)

lemma fed_by_append: "fed_by ps f1 \<Longrightarrow> fed_by qs f2 \<Longrightarrow> fed_by (ps @ qs) (f1 @ f2)"
  by (induction rule: fed_by.induct) (auto intro: fed_by.intros)

lemma fed_by_message:
  assumes "completed_rx r" "prefix d (payload_data (take (unat (BytesTransferred r)) b))"
  shows "fed_by (ps @ Poll_Rx r b # qs) d"
  using fed_by_append [OF fed_by_nothing [of ps] fed_part [OF fed_by_nothing [of qs] assms]] by simp

definition kept_fed :: "env \<Rightarrow> bytes \<Rightarrow> LOOP \<Rightarrow> world \<Rightarrow> LOOP \<Rightarrow> world \<Rightarrow> bool" where
  "kept_fed E p s w s' w' \<longleftrightarrow> (\<exists>ps d. polls w = ps @ polls w' \<and> fed_by ps d \<and> kept E p d s w s' w')"

lemma kept_fed_trans:
  assumes "kept_fed E p s w s1 w1" "kept_fed E p s1 w1 s' w'"
  shows "kept_fed E p s w s' w'"
proof -
  obtain ps d where a: "polls w = ps @ polls w1" "fed_by ps d" "kept E p d s w s1 w1"
    using assms(1) by (auto simp: kept_fed_def)
  obtain qs e where b: "polls w1 = qs @ polls w'" "fed_by qs e" "kept E p e s1 w1 s' w'"
    using assms(2) by (auto simp: kept_fed_def)
  show ?thesis unfolding kept_fed_def using a b fed_by_append [OF a(2) b(2)] kept_trans [OF a(3) b(3)]
    by (intro exI [of _ "ps @ qs"] exI [of _ "d @ e"]) simp
qed

lemma kept_fed_refl: "flash_ready s \<Longrightarrow> stream_inv (mem s) p (flash s) \<Longrightarrow> kept_fed E p s w s w"
  unfolding kept_fed_def using fed_none grows_same [of w w] by (intro exI [of _ "[]"]) (simp add: kept_def)

text \<open>Events without header messages.\<close>

definition no_headers :: "usbfn_poll list \<Rightarrow> bool" where
  "no_headers ps \<longleftrightarrow> (\<forall>r b. Poll_Rx r b \<in> set ps \<longrightarrow> header_bytes (take (unat (BytesTransferred r)) b) = None)"

lemma no_headers_drop: "no_headers ps \<Longrightarrow> no_headers (drop k ps)"
  by (auto simp: no_headers_def dest: in_set_dropD)

lemma round_kept:
  assumes ok: "loop_ok mt c commit s" and p: "polls_ok c mt (polls w)" "no_headers (polls w)"
    and dev: "Media dev = Some media" and E: "firmware_ok E"
    and rd: "flash_ready s" and inv: "stream_inv (mem s) h (flash s)"
    and r: "secure_round E dev commit s w = Some (Returns (fl, s', w'))"
  shows "kept_fed E h s w s' w'"
proof -
  have mt: "usb_ok (port s)" "max_transfer (port s) = mt" "mt \<le> USBFN_MAX_XFER"
    using ok by (simp_all add: loop_ok_def port_ok_def)
  note recv = recv_post [OF mt(1), where E = E and w = w]
  obtain st len usb v where ret: "usb_transport_recv E (port s) w = Some (Returns (st, len, usb, v))"
    using r by (auto simp: secure_round_def after_def split: option.splits run.splits)
  then have q: "quiet w v" "usb_ok usb" "max_transfer usb = mt"
    "EFI_ERROR st \<or> (\<exists>r b ps. polls w = ps @ Poll_Rx r b # polls v \<and> completed_rx r \<and> BytesTransferred r = len
      \<and> rx usb = map_option (received b) (rx (port s)))"
    using recv mt(2) by auto
  let ?s = "s\<lparr>port := usb\<rparr>"
  have s: "loop_ok mt c commit ?s"
    using ok q(2,3) by (simp add: loop_ok_def port_ok_def header_ok_def ready_ok_def)
  have g: "grew w v" using q(1) by (simp add: quiet_def)
  show ?thesis
  proof (cases "EFI_ERROR st")
    case True
    then have s': "s' = ?s" "grew w w'" "polls w' = polls v" using r ret g by (auto simp: secure_round_def)
    obtain k where "polls v = drop k (polls w)" using q(1) by (auto simp: quiet_def)
    then have "polls w = take k (polls w) @ polls w'" using s'(3) by simp
    moreover have "kept E h [] s w s' w'" using rd inv s'(1) grows_same [OF s'(2)] by (simp add: kept_def)
    ultimately show ?thesis using fed_by_nothing unfolding kept_fed_def by blast
  next
    case False
    then obtain x b ps where x: "polls w = ps @ Poll_Rx x b # polls v" "completed_rx x" "BytesTransferred x = len"
      "rx usb = map_option (received b) (rx (port s))"
      using q(4) by blast
    then have xin: "Poll_Rx x b \<in> set (polls w)" by simp
    obtain buf where buf: "rx (port s) = Some buf" using mt(1) by (auto simp: usb_ok_def)
    have m: "message_ok c (received b buf) len" using received_ok [OF mt(1) _ _ xin buf] p(1) mt(2,3) x(3) by simp
    then have len: "unat len \<le> length (received b buf)" by (simp add: message_ok_def)
    have "unat len \<le> length b" using p(1) xin x(3) by (auto simp: polls_ok_def)
    then have tb: "take (unat len) (received b buf) = take (unat len) b"
      using len by (auto simp: received_def min_def)
    then have no: "header_bytes (take (unat len) (received b buf)) = None" using p(2) xin x(3) by (auto simp: no_headers_def)
    have eq: "loop_message E dev commit (received b buf) len ?s v = Some (Returns (fl, s', w'))"
      using r ret False x(4) buf by (simp add: secure_round_def)
    have post: "round_post mt c commit v (Some (Returns (fl, s', w')))"
      using loop_message_post [OF s m dev E, of v] eq by simp
    have "calm E dev commit (received b buf) len ?s v (Some (Returns (fl, s', w')))"
      using loop_message_idle [OF len no, of E dev commit ?s v] eq by simp
    moreover have "kept E h [] ?s v s' w'" if "idle ?s (Some (Returns (fl, s', w')))"
      using idle_kept [OF that post refl] rd inv by simp
    moreover have "\<exists>d. prefix d (payload_data (take (unat len) b)) \<and> kept E h d ?s v s' w'"
      if "payload_kind (received b buf) sb" "Some (Returns (fl, s', w')) = payload_message E dev commit (received b buf) len pr pg sb ?s v" for pr pg sb
      using payload_kept [OF s len _ _ that(1) that(2) [symmetric]] rd inv tb by simp
    ultimately obtain d where d: "prefix d (payload_data (take (unat len) b))" "kept E h d ?s v s' w'"
      unfolding calm_def by (metis Nil_prefix)
    then have "kept E h d s v s' w'" by (simp add: kept_def)
    then have k: "kept E h d s w s' w'" using kept_before g by blast
    obtain j where "polls w' = drop j (polls v)" using post by (auto simp: steps_def)
    then have "polls w = (ps @ Poll_Rx x b # take j (polls v)) @ polls w'" using x(1) by simp
    moreover have "fed_by (ps @ Poll_Rx x b # take j (polls v)) d" using fed_by_message [OF x(2)] d(1) x(3) by simp
    ultimately show ?thesis using k unfolding kept_fed_def by blast
  qed
qed

end
