(* ===== verification/Loop_Runs.thy ===== *)
theory Loop_Runs
  imports Completion
begin

text \<open>
  The message loop as a state machine: a state is the pair of the loop's variables and the
  world, a step is one round that goes on. \<open>secure_loop\<close>, which counts rounds, is the same as
  a run of steps followed by a round that leaves; invariants are proved by rule induction on
  the runs and so hold between any two messages, not only at the end.
\<close>

section \<open>Runs\<close>

inductive runs :: "env \<Rightarrow> EFI_BLOCK_IO_PROTOCOL \<Rightarrow> bool \<Rightarrow> LOOP \<Rightarrow> world \<Rightarrow> LOOP \<Rightarrow> world \<Rightarrow> bool"
  for E dev commit where
  runs_refl: "runs E dev commit s w s w"
| runs_step: "runs E dev commit s w s1 w1 \<Longrightarrow> secure_round E dev commit s1 w1 = Some (Returns (Next, s2, w2))
    \<Longrightarrow> runs E dev commit s w s2 w2"

lemma runs_first:
  "runs E dev commit s1 w1 s' w' \<Longrightarrow> secure_round E dev commit s w = Some (Returns (Next, s1, w1))
    \<Longrightarrow> runs E dev commit s w s' w'"
  by (induction rule: runs.induct) (auto intro: runs.intros)

lemma runs_trans:
  "runs E dev commit s1 w1 s2 w2 \<Longrightarrow> runs E dev commit s w s1 w1 \<Longrightarrow> runs E dev commit s w s2 w2"
  by (induction rule: runs.induct) (auto intro: runs.intros)

section \<open>The loop is its runs\<close>

lemma loop_runs:
  "secure_loop E dev commit fuel s w = Some (Returns (st, s', w'))
    \<Longrightarrow> \<exists>s1 w1. runs E dev commit s w s1 w1 \<and> secure_round E dev commit s1 w1 = Some (Returns (Leave st, s', w'))"
proof (induction fuel arbitrary: s w)
  case (Suc fuel)
  obtain fl s1 v where r: "secure_round E dev commit s w = Some (Returns (fl, s1, v))"
    using Suc.prems by (auto simp: after_def split: option.splits run.splits)
  show ?case
  proof (cases fl)
    case (Leave x)
    then show ?thesis using r Suc.prems by (auto intro: runs_refl)
  next
    case Next
    then have "secure_loop E dev commit fuel s1 v = Some (Returns (st, s', w'))" using r Suc.prems by simp
    from Suc.IH [OF this] show ?thesis using runs_first r Next by blast
  qed
qed simp

text \<open>More fuel does not change a result.\<close>

lemma loop_more_fuel: "secure_loop E dev commit n s w = Some r \<Longrightarrow> secure_loop E dev commit (n + k) s w = Some r"
  by (induction n arbitrary: s w) (auto simp: after_def split: option.splits run.splits flow.splits)

lemma loop_unfold_run:
  "runs E dev commit s w s1 w1 \<Longrightarrow> \<exists>n. \<forall>k. secure_loop E dev commit (n + k) s w = secure_loop E dev commit k s1 w1"
proof (induction rule: runs.induct)
  case (runs_refl s w)
  show ?case by (rule exI [of _ 0]) simp
next
  case (runs_step s w s1 w1 s2 w2)
  then obtain n where n: "\<And>k. secure_loop E dev commit (n + k) s w = secure_loop E dev commit k s1 w1" by blast
  have "secure_loop E dev commit (Suc n + k) s w = secure_loop E dev commit k s2 w2" for k
    using n [of "Suc k"] runs_step(2) by simp
  then show ?case by blast
qed

lemma runs_loop:
  assumes "runs E dev commit s w s1 w1" "secure_round E dev commit s1 w1 = Some (Returns (Leave st, s', w'))"
  shows "\<exists>n. secure_loop E dev commit n s w = Some (Returns (st, s', w'))"
proof -
  obtain n where "secure_loop E dev commit (n + 1) s w = secure_loop E dev commit 1 s1 w1"
    using loop_unfold_run [OF assms(1)] by blast
  then show ?thesis using assms(2) by (intro exI [of _ "n + 1"]) simp
qed

section \<open>Invariants\<close>

lemma runs_invariant:
  assumes dev: "Media dev = Some media" and E: "firmware_ok E"
  shows "runs E dev commit s w s' w' \<Longrightarrow> loop_ok mt c commit s \<Longrightarrow> polls_ok c mt (polls w)
    \<Longrightarrow> loop_ok mt c commit s' \<and> steps commit w w' \<and> polls_ok c mt (polls w')"
proof (induction rule: runs.induct)
  case (runs_step s w s1 w1 s2 w2)
  then have i: "loop_ok mt c commit s1" "steps commit w w1" "polls_ok c mt (polls w1)" by simp_all
  have "loop_ok mt c commit s2" "steps commit w1 w2"
    using secure_round_post [OF i(1,3) dev E] runs_step(2) by simp_all
  moreover then have "polls_ok c mt (polls w2)" using i(3) by (auto simp: steps_def intro: polls_ok_drop)
  ultimately show ?case using i(2) steps_trans by blast
qed simp

lemma runs_kept:
  assumes dev: "Media dev = Some media" and E: "firmware_ok E"
  shows "runs E dev commit s w s' w' \<Longrightarrow> loop_ok mt c commit s \<Longrightarrow> polls_ok c mt (polls w) \<Longrightarrow> no_headers (polls w)
    \<Longrightarrow> flash_ready s \<Longrightarrow> stream_inv (mem s) h (flash s) \<Longrightarrow> kept_fed E h s w s' w'"
proof (induction rule: runs.induct)
  case (runs_refl s w)
  then show ?case by (simp add: kept_fed_refl)
next
  case (runs_step s w s1 w1 s2 w2)
  then have k: "kept_fed E h s w s1 w1" by simp
  have i: "loop_ok mt c commit s1" "steps commit w w1" "polls_ok c mt (polls w1)"
    using runs_invariant [OF dev E runs_step(1)] runs_step by blast+
  have "no_headers (polls w1)" using i(2) runs_step by (auto simp: steps_def intro: no_headers_drop)
  moreover have "flash_ready s1" "stream_inv (mem s1) h (flash s1)" using k by (auto simp: kept_fed_def kept_def)
  ultimately have "kept_fed E h s1 w1 s2 w2" using round_kept [OF i(1,3) _ dev E _ _ runs_step(2)] by blast
  then show ?case using k kept_fed_trans by blast
qed

lemma loop_kept:
  assumes dev: "Media dev = Some media" and E: "firmware_ok E"
    and ok: "loop_ok mt c commit s" "polls_ok c mt (polls w)" "no_headers (polls w)"
    and rd: "flash_ready s" "stream_inv (mem s) h (flash s)"
    and r: "secure_loop E dev commit fuel s w = Some (Returns (st, s', w'))"
  shows "kept_fed E h s w s' w'"
proof -
  obtain s1 w1 where x: "runs E dev commit s w s1 w1" "secure_round E dev commit s1 w1 = Some (Returns (Leave st, s', w'))"
    using loop_runs [OF r] by blast
  have k: "kept_fed E h s w s1 w1" by (rule runs_kept [OF dev E x(1) ok rd])
  have i: "loop_ok mt c commit s1" "steps commit w w1" "polls_ok c mt (polls w1)"
    using runs_invariant [OF dev E x(1) ok(1,2)] by blast+
  have "no_headers (polls w1)" using i(2) ok(3) by (auto simp: steps_def intro: no_headers_drop)
  moreover have "flash_ready s1" "stream_inv (mem s1) h (flash s1)" using k by (auto simp: kept_fed_def kept_def)
  ultimately have "kept_fed E h s1 w1 s' w'" using round_kept [OF i(1,3) _ dev E _ _ x(2)] by blast
  then show ?thesis using k kept_fed_trans by blast
qed

end
