(* ===== verification/Session_Properties.thy ===== *)
theory Session_Properties
  imports Header_Session Loop_Runs Loop_Properties
begin

text \<open>
  The USB mode from end to end: a host that sends the header of an image in any chunks and then
  its payload in any packets has the image on the disk when the mode returns; and a device that
  says it is done has written the whole image, whatever happened in between.
\<close>

text \<open>C5. Flashing over USB, from the call of the mode to its return: the transport opens, the
  host sends the header of an image that the device can take, cut into chunks of any sizes that
  fit, and then the payload, cut into packets of any sizes that fit. If the device takes the
  writes, the mode answers every packet with status 0, the last one with final state 1, writes
  exactly the image, and returns success.\<close>

theorem usb_mode_flashes_image:
  assumes "usb_contract E" "accepting E" "writes_succeed E" "memory_ok E"
    and "length (g_ms_ext_props usb) = 142" "app_ok app" "Media dev = Some media" "writable media"
    and "usb_transport_open E usb w = Some (EFI_SUCCESS, usb', w1)"
    and "hs \<noteq> []" "\<forall>d \<in> set hs. header_fits (max_transfer usb') d" "concat hs = h" "length h \<le> 128 * 1024 * 1024"
    and "ffu_parse_header_bytes E0 (Some h) (of_nat (length h)) pl0 w0 = Some (EFI_SUCCESS, pl, w0')"
    and "image_fits h pl (BlockSize media)"
    and "ds \<noteq> []" "\<forall>d \<in> set ds. packet_fits (max_transfer usb') d" "length (concat ds) = image_bytes (entries pl)" "pr \<noteq> 100"
    and "polls w = concat (map exchange (session_packets pr hs ds)) @ ps"
  shows "\<exists>s' w' ls. usb_secure_flash_loop E dev True usb app w = Some (Returns (EFI_SUCCESS, s', w'))
    \<and> disk_writes w' = disk_writes w @ image_writes (entry_writes h pl (BlockSize media)) (entries pl) (concat ds)
    \<and> length ls = length ds \<and> sent w' = sent w @ replicate (length hs) (fs_frame 0 0) @ acks ls"
  by (rule usb_mode_session [OF assms])

definition wide_env :: env where
  "wide_env = buffer_env\<lparr>get_max_transfer := \<lambda>_. (0, 4096)\<rparr>"

definition wide_usb :: USB_TRANSPORT where
  "wide_usb = sample_usb\<lparr>max_transfer := 4096, rx := Some (replicate (unat (4096 :: u64)) 0), tx := Some (replicate (unat (4096 :: u64)) 0)\<rparr>"

definition header_chunks :: "bytes list" where
  "header_chunks = [take 2000 sample_header, drop 2000 sample_header]"

lemma wide_env_contracts: "usb_contract wide_env" "accepting wide_env" "writes_succeed wide_env" "memory_ok wide_env"
  using buffer_env_contract
  by (simp_all add: usb_contract_def wide_env_def accepting_def writes_succeed_def memory_ok_def buffer_env_def sample_env_defs EFI_ERROR_def)

lemma wide_open: "\<exists>w'. usb_transport_open wide_env wide_usb w = Some (EFI_SUCCESS, wide_usb, w')"
  by (simp add: usb_transport_open_def open_buffers_def open_start_def wide_env_def buffer_env_def sample_env_defs zero_usb_def
      wide_usb_def sample_usb_def EFI_ERROR_def EFI_SUCCESS_def USBFN_MAX_XFER_def Let_def)

lemma sample_fits: "image_fits sample_header sample_plan 4"
  using sample_flashable
  by (simp add: image_fits_def entries_fit_def flashable_def sample_defs UFP_MAX_PAYLOAD_DATA_def)

theorem usb_mode_flashes_image_witness:
  "\<exists>s' w' ls. usb_secure_flash_loop wide_env sample_bio True wide_usb sample_app
      (sample_world\<lparr>polls := concat (map exchange (session_packets 50 header_chunks sample_parts))\<rparr>) = Some (Returns (EFI_SUCCESS, s', w'))
    \<and> disk_writes w' = disk_writes (sample_world\<lparr>polls := concat (map exchange (session_packets 50 header_chunks sample_parts))\<rparr>)
        @ image_writes (entry_writes sample_header sample_plan (BlockSize sample_media)) (entries sample_plan) (concat sample_parts)
    \<and> length ls = length sample_parts
    \<and> sent w' = sent (sample_world\<lparr>polls := concat (map exchange (session_packets 50 header_chunks sample_parts))\<rparr>)
        @ replicate (length header_chunks) (fs_frame 0 0) @ acks ls"
proof -
  let ?w = "sample_world\<lparr>polls := concat (map exchange (session_packets 50 header_chunks sample_parts))\<rparr>"
  obtain w1 where o: "usb_transport_open wide_env wide_usb ?w = Some (EFI_SUCCESS, wide_usb, w1)"
    using wide_open by blast
  have ps: "ffu_parse_header_bytes sample_env (Some sample_header) (of_nat (length sample_header)) zero_plan sample_world
    = Some (EFI_SUCCESS, sample_plan, sample_world')" using sample_parse by simp
  have "sample_header \<noteq> []" using sample_length by force
  then have hf: "\<forall>d \<in> set header_chunks. header_fits (max_transfer wide_usb) d"
    by (simp add: header_chunks_def header_fits_def wide_usb_def UFP_MAX_HEADER_DATA_def)
  show ?thesis
    by (rule usb_mode_flashes_image [OF wide_env_contracts _ _ _ _ o _ hf _ _ ps _ _ _ _ _, where ps = "[]"])
      (use sample_fits in \<open>simp_all add: wide_usb_def sample_usb_def sample_app_def app_ok_def sample_bio_def sample_media_def
        writable_def header_chunks_def sample_parts_def packet_fits_def UFP_MAX_PAYLOAD_DATA_def image_bytes_def
        sample_plan_def sample_entry_def\<close>)
qed

section \<open>Between two messages\<close>

text \<open>C22. If the header messages of a session all need one capacity of the header buffer, and the
  lengths that the controller reports cover received bytes (\<open>polls_ok\<close>), then in every state that
  the message loop passes through, between any two messages, its invariant holds: the buffers have their sizes, the header buffer is the one the flasher points
  to, the flasher's own invariant holds if it is started; events are consumed in order, and
  without a commit nothing has been written.\<close>

theorem reachable_states_safe:
  assumes "Media dev = Some media" "variable_contract E" "read_contract E" "loop_ok mt c commit s" "polls_ok c mt (polls w)"
    and "runs E dev commit s w s' w'"
  shows "loop_ok mt c commit s' \<and> (\<exists>k. polls w' = drop k (polls w)) \<and> (\<not> commit \<longrightarrow> disk_writes w' = disk_writes w)"
proof -
  have "firmware_ok E" using assms(2,3) by (simp add: firmware_ok_def)
  from runs_invariant [OF assms(1) this assms(6,4,5)] show ?thesis by (auto simp: steps_def)
qed

definition two_bytes :: usbfn_poll where "two_bytes = Poll_Rx (completed 2) [1, 2]"

lemma sample_run:
  "\<exists>s' w'. runs reading_env sample_bio False (start_loop sample_usb sample_app) (sample_world\<lparr>polls := [two_bytes, two_bytes]\<rparr>) s' w'
    \<and> polls w' = [two_bytes]"
proof -
  let ?s = "start_loop sample_usb sample_app" and ?w = "sample_world\<lparr>polls := [two_bytes, two_bytes]\<rparr>"
  have "usb_ok (port ?s)" using sample_usb_ok by (simp add: start_loop_def)
  moreover have "accepting reading_env" using sample_env_accepts by (simp add: reading_env_def accepting_def)
  moreover have "polls ?w = Poll_Rx (completed 2) [1, 2] # [two_bytes]" by (simp add: two_bytes_def)
  ultimately have "\<exists>usb v. usb_transport_recv reading_env (port ?s) ?w = Some (Returns (EFI_SUCCESS, 2, usb, v)) \<and> polls v = [two_bytes]"
    using recv_exact by fastforce
  then obtain usb v where r: "usb_transport_recv reading_env (port ?s) ?w = Some (Returns (EFI_SUCCESS, 2, usb, v))" "polls v = [two_bytes]"
    by blast
  have "secure_round reading_env sample_bio False ?s ?w = Some (Returns (Next, ?s\<lparr>port := usb\<rparr>, v))"
    using r(1) by (simp add: secure_round_def loop_message_def)
  then show ?thesis using runs.intros r(2) by blast
qed

theorem reachable_states_safe_witness:
  "\<exists>s' w'. runs reading_env sample_bio False (start_loop sample_usb sample_app) (sample_world\<lparr>polls := [two_bytes, two_bytes]\<rparr>) s' w'
    \<and> polls w' = [two_bytes] \<and> loop_ok 64 0 False s' \<and> disk_writes w' = disk_writes (sample_world\<lparr>polls := [two_bytes, two_bytes]\<rparr>)"
proof -
  let ?w = "sample_world\<lparr>polls := [two_bytes, two_bytes]\<rparr>"
  obtain s' w' where r: "runs reading_env sample_bio False (start_loop sample_usb sample_app) ?w s' w'" "polls w' = [two_bytes]"
    using sample_run by blast
  have md: "Media sample_bio = Some sample_media" by (simp add: sample_bio_def)
  have p: "polls_ok 0 64 (polls ?w)"
    by (simp add: polls_ok_def two_bytes_def completed_def fits_capacity_def header_bytes_def)
  from reachable_states_safe [OF md reading_env_contracts sample_start_ok p r(1)] show ?thesis using r by blast
qed

section \<open>What completion means\<close>

text \<open>C8. When the loop has ended with a completed flasher, the whole image is on the device: the
  events that were used up fed the flasher, from some of the payload messages and in order, a
  prefix of their data each, exactly as many bytes as the image has, and among the writes that
  the device accepted during the loop are, in order, all writes of all entries for these bytes,
  with the media id of the flasher. No header message may be among the events, and a reported
  length must cover received bytes (\<open>no_headers\<close>, \<open>polls_ok\<close>); any other messages may come in between,
  also such that write to the disk, and any writes may fail on the way.\<close>

theorem completion_means_written:
  assumes "Media dev = Some media" "variable_contract E" "read_contract E"
    and "loop_ok mt c True s" "polls_ok c mt (polls w)" "no_headers (polls w)"
    and "flash_ready s" "stream_inv (mem s) h (flash s)" "pending (flash s) = (entries (plan (flash s)), [])"
    and "secure_loop E dev True fuel s w = Some (Returns (st, s', w'))" "ffu_stream_flash_done (flash s')"
  shows "\<exists>ps fed. polls w = ps @ polls w' \<and> fed_by ps fed \<and> length fed = image_bytes (entries (plan (flash s)))
    \<and> subseq (map (Pair (media_id (flash s)))
          (image_writes (entry_writes h (plan (flash s)) (media_block (flash s))) (entries (plan (flash s))) fed))
        (taken E w w')"
proof -
  have f: "firmware_ok E" using assms(2,3) by (simp add: firmware_ok_def)
  obtain ps fed where k: "polls w = ps @ polls w'" "fed_by ps fed" "kept E h fed s w s' w'"
    using loop_kept [OF assms(1) f assms(4-8,10)] by (auto simp: kept_fed_def)
  have ws: "written h (flash s') fed (taken E w w')"
    using k(3) written_at_start [OF assms(8,9)] by (fastforce simp: kept_def grows_def)
  have cf: "config (flash s') = config (flash s)" and inv: "stream_inv (mem s') h (flash s')"
    using k(3) by (simp_all add: kept_def)
  then have pl: "plan (flash s') = plan (flash s)" "media_id (flash s') = media_id (flash s)" by (simp_all add: config_def)
  have "dry_run (flash s) = 0" using assms(4,7) by (simp add: loop_ok_def ready_ok_def)
  then have "emits h (flash s) = entry_writes h (plan (flash s)) (media_block (flash s))" by (simp add: emits_def fun_eq_iff)
  then show ?thesis using written_done [OF inv assms(11) ws] k(1,2) pl emits_config [OF cf, of h] by auto
qed

lemma payload_no_header: "header_bytes (packet_of pr fp d) = None"
proof -
  have "rd_be32 (drop 12 (packet_of pr fp d)) = Some 0x1b"
    unfolding packet_of_def by (rule payload_frame_fields(8) [OF refl])
  then have "rd_be32 (drop 12 (packet_of pr fp d)) \<notin> {Some UFP_SEC_SUBBLOCK_HEADER_V1, Some UFP_SEC_SUBBLOCK_HEADER_V2}"
    by (simp add: UFP_SEC_SUBBLOCK_HEADER_V1_def UFP_SEC_SUBBLOCK_HEADER_V2_def)
  then show ?thesis unfolding header_bytes_def by (simp only: simp_thms if_False)
qed

lemma packets_of_set: "m \<in> set (packets_of pr ds) \<Longrightarrow> \<exists>fp d. d \<in> set ds \<and> m = packet_of pr fp d"
  by (induction pr ds rule: packets_of.induct) auto

lemma sample_packets_ok:
  "polls_ok 2312 64 (concat (map exchange (packets_of 50 sample_parts)))"
  "no_headers (concat (map exchange (packets_of 50 sample_parts)))"
proof -
  have m: "header_bytes m = None \<and> length m \<le> 64" if "m \<in> set (packets_of 50 sample_parts)" for m
    using packets_of_set [OF that] payload_no_header by (auto simp: sample_parts_def packet_of_def payload_frame_fields(1) [OF refl])
  have p: "b \<in> set (packets_of 50 sample_parts) \<and> r = completed (of_nat (length b))"
    if "Poll_Rx r b \<in> set (concat (map exchange (packets_of 50 sample_parts)))" for r b
    using that by (auto simp: exchange_def)
  have u: "unat (BytesTransferred (completed (of_nat (length b)))) = length b" if "length b \<le> 64" for b :: bytes
    using that by (simp add: completed_def unat_of_nat_u64)
  show "no_headers (concat (map exchange (packets_of 50 sample_parts)))"
    using p m u by (fastforce simp: no_headers_def)
  show "polls_ok 2312 64 (concat (map exchange (packets_of 50 sample_parts)))"
    using p m u by (fastforce simp: polls_ok_def fits_capacity_def word_le_nat_alt)
qed

theorem completion_means_written_witness:
  "\<exists>st s' w' ps fed. secure_loop reading_env sample_bio True 3 sample_loop
      (sample_world\<lparr>polls := concat (map exchange (packets_of 50 sample_parts))\<rparr>) = Some (Returns (st, s', w'))
    \<and> concat (map exchange (packets_of 50 sample_parts)) = ps @ polls w' \<and> fed_by ps fed
    \<and> length fed = image_bytes (entries (plan (flash sample_loop)))
    \<and> subseq (map (Pair (media_id (flash sample_loop)))
          (image_writes (entry_writes sample_header (plan (flash sample_loop)) (media_block (flash sample_loop)))
             (entries (plan (flash sample_loop))) fed))
        (taken reading_env (sample_world\<lparr>polls := concat (map exchange (packets_of 50 sample_parts))\<rparr>) w')"
proof -
  let ?w = "sample_world\<lparr>polls := concat (map exchange (packets_of 50 sample_parts))\<rparr>"
  have E: "accepting reading_env" "writes_succeed reading_env"
    using sample_env_accepts by (simp_all add: reading_env_def accepting_def writes_succeed_def)
  have st: "pending (flash sample_loop) = (entries (plan (flash sample_loop)), [])"
    by (simp add: sample_loop_def pending_def sample_defs)
  have "\<exists>s' w' ls. secure_loop reading_env sample_bio True 3 sample_loop ?w = Some (Returns (EFI_SUCCESS, s', w'))
      \<and> ffu_stream_flash_done (flash s')
      \<and> disk_writes w' = disk_writes ?w @ image_writes (emits sample_header (flash sample_loop)) (entries (plan (flash sample_loop))) (concat sample_parts)
      \<and> polls w' = [] \<and> length ls = length sample_parts \<and> sent w' = sent ?w @ acks ls"
    by (rule session_completes [OF E _ _ sample_loop_ok st])
      (simp_all add: sample_loop_def sample_parts_def packet_fits_def UFP_MAX_PAYLOAD_DATA_def sample_defs image_bytes_def)
  then obtain s' w' where r: "secure_loop reading_env sample_bio True 3 sample_loop ?w = Some (Returns (EFI_SUCCESS, s', w'))"
      "ffu_stream_flash_done (flash s')" by blast
  have so: "flash_ready sample_loop" "stream_inv (mem sample_loop) sample_header (flash sample_loop)"
    using sample_loop_ok(2) by (simp_all add: session_ok_def)
  have md: "Media sample_bio = Some sample_media" by (simp add: sample_bio_def)
  have p: "polls_ok 2312 64 (polls ?w)" "no_headers (polls ?w)" using sample_packets_ok by simp_all
  show ?thesis
    using completion_means_written [OF md reading_env_contracts sample_loop_ok(1) p so st r] r(1) by fastforce
qed

end
