(* ===== verification/Run_Properties.thy ===== *)
theory Run_Properties
  imports App_Live App_Properties Session_Properties
begin

text \<open>
  What the program is for, from the command line to the last block: how a line is read, and that
  with a firmware and a host that do their part both modes put the image on the device.
\<close>

section \<open>The command line\<close>

text \<open>C14. The options are read from the words of the command line, one after the other: whatever
  white space is between the words, whether a word is quoted or not, and whatever follows the
  terminator. A number that cannot be read, or a missing one, is an invalid parameter. Of the
  path the parser keeps a pointer and a length; \<open>cut_path\<close> reads the word at them.\<close>

theorem command_line_read:
  assumes "uefi_bs E" "\<not> EFI_ERROR (handle_protocol E (trace w @ [HandleProtocol gEfiLoadedImageProtocolGuid]))"
    and "LoadOptions img = Some cmd" "LoadOptionsSize img \<noteq> 0" "unat (LoadOptionsSize img) div 2 \<le> length cmd"
    and "take (unat (LoadOptionsSize img) div 2) cmd = line_text xs @ t" "line_ok xs" "line_end t"
  shows "\<exists>st o'. parse_options E (Some img) w = Some (st, o', emit (HandleProtocol gEfiLoadedImageProtocolGuid) w)
    \<and> (case line_options (map word xs) of None \<Rightarrow> st = EFI_INVALID_PARAMETER
       | Some o'' \<Rightarrow> st = EFI_SUCCESS \<and> cut_path o' = o'')"
  by (rule parse_options_line [OF assms])

text \<open>A line that consists of given words: each after a space, in quotes if it has a space itself.\<close>

definition spaced :: "CHAR16 list list \<Rightarrow> ITEM list" where
  "spaced ws = map (\<lambda>w. \<lparr>gap = [0x20], quoted = list_ex ch_is_space w, word = w\<rparr>) ws"

definition line_of :: "CHAR16 list list \<Rightarrow> EFI_LOADED_IMAGE_PROTOCOL" where
  "line_of ws = \<lparr>LoadOptionsSize = of_nat (2 * length (line_text (spaced ws))), LoadOptions = Some (line_text (spaced ws))\<rparr>"

lemma spaced_ok:
  "list_all (\<lambda>w. w \<noteq> [] \<and> 0 \<notin> set w \<and> 0x22 \<notin> set w) ws \<Longrightarrow> line_ok (spaced ws) \<and> map word (spaced ws) = ws"
proof (induction ws)
  case (Cons w ws)
  then show ?case
    by (cases w) (auto simp: spaced_def line_ok_def item_ok_def list_all_iff list_ex_iff ch_is_space_def)
qed (simp add: spaced_def line_ok_def)

lemma line_of_given:
  assumes "\<forall>t. \<not> EFI_ERROR (handle_protocol E t)" "list_all (\<lambda>w. w \<noteq> [] \<and> 0 \<notin> set w \<and> 0x22 \<notin> set w) ws"
    and "ws \<noteq> []" "length (line_text (spaced ws)) < 2 ^ 31"
  shows "line_given E (line_of ws) ws"
proof -
  have n: "unat (of_nat (2 * length (line_text (spaced ws))) :: u32) = 2 * length (line_text (spaced ws))"
    using assms(4) by (simp add: unsigned_of_nat take_bit_nat_eq_self del: of_nat_mult)
  moreover have "line_text (spaced ws) \<noteq> []" using assms(3) by (cases ws) (auto simp: spaced_def line_text_def item_text_def)
  ultimately have "(of_nat (2 * length (line_text (spaced ws))) :: u32) \<noteq> 0" by (metis length_0_conv mult_is_0 unat_0 zero_neq_numeral)
  moreover have "line_end []" by (simp add: line_end_def)
  ultimately show ?thesis using assms(1) spaced_ok [OF assms(2)] n
    by (fastforce simp: line_given_def line_of_def intro: exI [of _ "spaced ws"])
qed

lemmas text_evaluation = line_of_def spaced_def line_text_def item_text_def flash_words_def usb_words_def target_word_def
  option_chars con_dec_chars_def ch_is_space_def

text \<open>A path with a space in it: \<open>a b\<close>.\<close>

definition sample_path :: "CHAR16 list" where "sample_path = [0x61, 0x20, 0x62]"

theorem command_line_read_witness:
  "\<exists>st o'. parse_options sample_env (Some (line_of (flash_words sample_path 0))) sample_world
      = Some (st, o', emit (HandleProtocol gEfiLoadedImageProtocolGuid) sample_world)
    \<and> st = EFI_SUCCESS \<and> cut_path o' = default_options\<lparr>flash_option := True, path := Some sample_path, path_len := 3, target := 0, yes := True\<rparr>"
proof -
  let ?ws = "flash_words sample_path 0"
  have ok: "line_ok (spaced ?ws) \<and> map word (spaced ?ws) = ?ws"
    by (rule spaced_ok) (simp add: flash_words_def target_word_def option_chars con_dec_chars_def sample_path_def)
  have "is_path sample_path" by (simp add: is_path_def sample_path_def)
  from line_options_flash [OF this, of 0] have lo: "line_options ?ws = Some (default_options\<lparr>flash_option := True,
      path := Some sample_path, path_len := 3, target := 0, yes := True\<rparr>)" by (simp add: sample_path_def)
  have len: "length (line_text (spaced ?ws)) = 42" by (simp add: text_evaluation sample_path_def)
  have "line_end []" by (simp add: line_end_def)
  from command_line_read [of sample_env sample_world "line_of ?ws" "line_text (spaced ?ws)" "spaced ?ws" "[]"] ok lo len this
  show ?thesis by (simp add: line_of_def sample_env_defs EFI_ERROR_def)
qed

section \<open>From the command line to the disk\<close>

lemma sample_line_given:
  assumes "\<forall>t. \<not> EFI_ERROR (handle_protocol E t)"
  shows "line_given E (line_of (flash_words sample_path 0)) (flash_words sample_path 0)"
    "line_given E (line_of (usb_words 0)) (usb_words 0)"
  by (rule line_of_given [OF assms]; simp add: text_evaluation item_text_def sample_path_def)+

text \<open>C2. \<open>UfpFfu.efi --flash <file> --target=N --yes\<close> flashes: when the file is a valid image that
  fits the device \<open>N\<close>, and the firmware serves the file, lists the device, has memory and takes
  the writes, the program writes every block that the image describes, in order, and nothing
  else, and returns without an error.\<close>

theorem efi_main_flashes_file:
  assumes "uefi_bs E" "serves_file E d" "writes_succeed E" "flushes E" "memory_ok E"
    and "line_given E img (flash_words p n)" "is_path p"
    and "lists_device E n dev" "0 \<le> sint n" "Media dev = Some media"
    and "unat sz \<le> length data" "unat sz \<le> length d" "take (unat sz) data = take (unat sz) d" "length d < 2 ^ 34"
    and "ffu_parse_header_bytes E0 (Some data) sz pl0 w0 = Some (EFI_SUCCESS, pl, w0')" "fits_device d pl media"
  shows "\<exists>st w'. EfiMain E (Some img) (uefi_system_table E) usb app w = Some (Returns (st, w')) \<and> \<not> EFI_ERROR st
    \<and> disk_writes w' = disk_writes w @ file_image_writes True d media pl"
  by (rule efi_main_flashes [OF assms])

lemma file_mode_env_serves:
  "uefi_bs file_mode_env" "serves_file file_mode_env sample_file" "writes_succeed file_mode_env" "flushes file_mode_env"
  "lists_device file_mode_env 0 sample_bio" "\<forall>t. \<not> EFI_ERROR (handle_protocol file_mode_env t)"
  using file_mode_env_contracts(1)
  by (simp_all add: serves_file_def writes_succeed_def flushes_def lists_device_def file_mode_env_def file_env_def sample_env_defs
      EFI_ERROR_def sample_file_def)

lemma sample_file_fits: "fits_device sample_file sample_plan sample_media"
proof -
  have "drop 2304 sample_file = [0, 0, 0, 0, 3, 0, 0, 0] @ drop 2312 sample_file" "drop 2308 sample_file = [3, 0, 0, 0] @ drop 2312 sample_file"
    by (simp_all add: sample_file_def) (simp_all add: sample_header_def sample_lengths, simp_all add: sample_descriptor_def)
  moreover have "le32_bytes 0 = [0, 0, 0, 0]" "le32_bytes 3 = [3, 0, 0, 0]" by code_simp+
  then have "rd_le32 ([0, 0, 0, 0, 3, 0, 0, 0] @ xs) = Some 0" "rd_le32 ([3, 0, 0, 0] @ xs) = Some 3" for xs
    using le_enc(2) [of 0 "[3, 0, 0, 0] @ xs"] le_enc(2) [of 3 xs] by simp_all
  ultimately have "le32_at sample_file 2304 = 0" "le32_at sample_file 2308 = 3" by (simp_all add: le32_at_def)
  then have "location_fits sample_file sample_media sample_entry 8 0"
    by (simp add: location_fits_def entry_method_def entry_target_def sample_entry_def sample_media_def)
  then show ?thesis
    by (simp add: fits_device_def entry_fits_def sample_plan_def sample_media_def sample_file_def) (simp add: sample_entry_def)
qed

theorem efi_main_flashes_file_witness:
  "\<exists>st w'. EfiMain file_mode_env (Some (line_of (flash_words sample_path 0))) (uefi_system_table file_mode_env) sample_usb sample_app sample_world = Some (Returns (st, w'))
    \<and> \<not> EFI_ERROR st
    \<and> disk_writes w' = disk_writes sample_world @ file_image_writes True sample_file sample_media sample_plan"
  by (rule efi_main_flashes_file [OF file_mode_env_serves(1-4) file_mode_env_contracts(2) sample_line_given(1) [OF file_mode_env_serves(6)] _
        file_mode_env_serves(5) _ _ _ _ sample_file_prefix _ sample_parse sample_file_fits])
    (simp_all add: is_path_def sample_path_def sample_bio_def sample_file_def)

text \<open>C1. \<open>UfpFfu.efi --usb-ffu --target=N --yes\<close> flashes: when the transport opens and a host sends
  the header of a valid image that fits the device \<open>N\<close> and then its payload, in any chunks and
  packets that fit the transport, the program writes exactly that image and returns success.\<close>

theorem efi_main_flashes_usb:
  assumes "uefi_bs E" "usb_contract E" "accepting E" "writes_succeed E" "memory_ok E"
    and "line_given E img (usb_words n)" "lists_device E n dev" "0 \<le> sint n"
    and "length (g_ms_ext_props usb) = 142" "app_ok app" "Media dev = Some media" "writable media"
    and "\<forall>v. \<exists>w1. usb_transport_open E usb v = Some (EFI_SUCCESS, usb', w1)"
    and "hs \<noteq> []" "\<forall>d \<in> set hs. header_fits (max_transfer usb') d" "concat hs = h" "length h \<le> 128 * 1024 * 1024"
    and "ffu_parse_header_bytes E0 (Some h) (of_nat (length h)) pl0 w0 = Some (EFI_SUCCESS, pl, w0')"
    and "image_fits h pl (BlockSize media)"
    and "ds \<noteq> []" "\<forall>d \<in> set ds. packet_fits (max_transfer usb') d" "length (concat ds) = image_bytes (entries pl)" "pr \<noteq> 100"
    and "polls w = concat (map exchange (session_packets pr hs ds)) @ ps"
  shows "\<exists>w'. EfiMain E (Some img) (uefi_system_table E) usb app w = Some (Returns (EFI_SUCCESS, w'))
    \<and> disk_writes w' = disk_writes w @ image_writes (entry_writes h pl (BlockSize media)) (entries pl) (concat ds)"
  by (rule efi_main_usb [OF assms])

definition listed_env :: env where
  "listed_env = wide_env\<lparr>locate_handles := \<lambda>_. (0, [Some sample_bio])\<rparr>"

lemma listed_env_contracts:
  "uefi_bs listed_env" "usb_contract listed_env" "accepting listed_env" "writes_succeed listed_env" "memory_ok listed_env"
  "lists_device listed_env 0 sample_bio" "\<forall>t. \<not> EFI_ERROR (handle_protocol listed_env t)"
  using wide_env_contracts
  by (simp_all add: usb_contract_def listed_env_def accepting_def writes_succeed_def memory_ok_def lists_device_def)
    (simp_all add: wide_env_def buffer_env_def sample_env_defs EFI_ERROR_def)

lemma listed_open: "\<forall>v. \<exists>w1. usb_transport_open listed_env wide_usb v = Some (EFI_SUCCESS, wide_usb, w1)"
  by (simp add: usb_transport_open_def open_buffers_def open_start_def listed_env_def wide_env_def buffer_env_def sample_env_defs
      zero_usb_def wide_usb_def sample_usb_def EFI_ERROR_def EFI_SUCCESS_def USBFN_MAX_XFER_def Let_def)

theorem efi_main_flashes_usb_witness:
  "\<exists>w'. EfiMain listed_env (Some (line_of (usb_words 0))) (uefi_system_table listed_env) wide_usb sample_app
      (sample_world\<lparr>polls := concat (map exchange (session_packets 50 header_chunks sample_parts))\<rparr>) = Some (Returns (EFI_SUCCESS, w'))
    \<and> disk_writes w' = disk_writes (sample_world\<lparr>polls := concat (map exchange (session_packets 50 header_chunks sample_parts))\<rparr>)
        @ image_writes (entry_writes sample_header sample_plan (BlockSize sample_media)) (entries sample_plan) (concat sample_parts)"
proof -
  have ps: "ffu_parse_header_bytes sample_env (Some sample_header) (of_nat (length sample_header)) zero_plan sample_world
    = Some (EFI_SUCCESS, sample_plan, sample_world')" using sample_parse by simp
  have "sample_header \<noteq> []" using sample_length by force
  then have hf: "\<forall>d \<in> set header_chunks. header_fits (max_transfer wide_usb) d"
    by (simp add: header_chunks_def header_fits_def wide_usb_def UFP_MAX_HEADER_DATA_def)
  show ?thesis
    by (rule efi_main_flashes_usb [OF listed_env_contracts(1-5) sample_line_given(2) [OF listed_env_contracts(7)]
          listed_env_contracts(6) _ _ _ _ _ listed_open _ hf _ _ ps _ _ _ _ _, where ps = "[]"])
      (use sample_fits in \<open>simp_all add: wide_usb_def sample_usb_def sample_app_def app_ok_def sample_bio_def sample_media_def
        writable_def header_chunks_def sample_parts_def packet_fits_def UFP_MAX_PAYLOAD_DATA_def image_bytes_def
        sample_plan_def sample_entry_def\<close>)
qed

section \<open>One image, two modes\<close>

lemma image_bytes_slices:
  assumes "length (concat (map (file_slice d) es)) = image_bytes es" "e \<in> set es" "byte_count e \<noteq> 0"
  shows "unat (payload_offset e) + unat (byte_count e) \<le> length d"
proof -
  have le: "length (concat (map (file_slice d) xs)) \<le> image_bytes xs" for xs
    by (induction xs) (simp_all add: file_slice_def)
  have "length (file_slice d e) = unat (byte_count e)"
    using assms(1,2)
  proof (induction es)
    case (Cons x xs)
    have "length (file_slice d x) \<le> unat (byte_count x)" by (simp add: file_slice_def)
    then show ?case using Cons le [of xs] by auto
  qed simp
  moreover have "0 < unat (byte_count e)" using assms(3) by (simp add: unat_gt_0)
  ultimately show ?thesis by (auto simp: file_slice_def)
qed

lemma init_parsed:
  assumes "ffu_stream_flash_init E H ctx0 (Some a) sz (Some dev) commit w = Some (EFI_SUCCESS, ctx, w1)" "H a = Some p"
    and "Media dev = Some media"
  shows "(\<exists>v. ffu_parse_header_bytes E (Some p) sz zero_plan w = Some (EFI_SUCCESS, plan ctx, v))
    \<or> (\<exists>st pl v. ffu_parse_header_bytes E (Some p) sz zero_plan w = Some (st, pl, v) \<and> st \<noteq> EFI_SUCCESS \<and> \<not> EFI_ERROR st)"
    "media_block ctx = BlockSize media" "hdr_size ctx = sz" "BlockSize media \<noteq> 0"
  using assms by (auto simp: ffu_stream_flash_init_def deref_def zero_ctx_def Let_def split: if_splits Option.bind_splits option.splits prod.splits)

text \<open>C17. One image, two modes: let the first bytes of a file be a header that the stream flasher
  accepts, and let the flasher be fed, in any chunks, the slices of the file that the entries of
  its plan describe, until it is done. Then the file parser accepts the file, and when flashing
  the parsed plan from the file to the device returns no error, and no entry is misaligned, both
  have put the same data to the same sectors in the same order.\<close>

theorem flashers_same_sectors:
  assumes "file_backed E d" "file_open view" "unat (view_size view) = length d" "memory_ok E"
    and "H a = Some p" "unat sz \<le> length p" "unat sz \<le> length d" "take (unat sz) p = take (unat sz) d" "unat sz < 2 ^ 35"
    and "Media dev = Some media"
    and "ffu_stream_flash_init E1 H ctx0 (Some a) sz (Some dev) True w = Some (EFI_SUCCESS, ctx, w1)"
    and "\<forall>x \<in> set ds. length x < 2 ^ 32" "concat ds = concat (map (file_slice d) (entries (plan ctx)))"
    and "feed_chunks E1 H ctx ds w1 = Some (EFI_SUCCESS, ctx', w2)" "ffu_stream_flash_done ctx'"
    and "\<forall>e \<in> set (entries (plan ctx)). byte_count e mod BlockSize media = 0"
  shows "\<exists>ws pl v st v' us. disk_writes w2 = disk_writes w @ ws
    \<and> ffu_parse E view u = Some (EFI_SUCCESS, pl, v) \<and> ffu_flash_to_block_io E view pl (Some dev) True v = Some (st, v')
    \<and> disk_writes v' = disk_writes v @ us
    \<and> (\<not> EFI_ERROR st \<longrightarrow> by_sector (unat (BlockSize media)) us = by_sector (unat (BlockSize media)) ws)"
proof -
  note i = init_success [of H a p sz, OF assms(5,6,9,11)]
  note m = init_parsed [OF assms(11,5,10)]
  obtain ph where ph: "ffu_parse_header_bytes E1 (Some p) sz zero_plan w = Some (EFI_SUCCESS, plan ctx, ph)"
    using m(1) parse_header_post [OF assms(6,9), of E1 zero_plan w] by auto
  have wf: "plan_wf sz (plan ctx)" using parse_header_success(1) [OF assms(6,9) ph] by simp
  have hd: "same_head p d sz" using assms(6-8) by (simp add: same_head_def)
  let ?ws = "image_writes (entry_writes p (plan ctx) (media_block ctx)) (entries (plan ctx)) (concat ds)"
  have s: "length (concat ds) = image_bytes (entries (plan ctx))" "disk_writes w2 = disk_writes w @ ?ws"
    using session_complete [of H a p sz, OF assms(5,6,9,11,12,14,15)] by simp_all
  let ?pl = "plan ctx\<lparr>file_size := view_size view\<rparr>"
  obtain v where v: "ffu_parse E view u = Some (EFI_SUCCESS, ?pl, v)"
    using parse_simulation [of E view d p sz E1 zero_plan w "plan ctx" ph u] assms(1-4,6-9) ph by (auto simp: same_image_def)
  have wf': "plan_wf sz ?pl" using wf by (auto simp: plan_wf_def)
  have ld: "length d < 2 ^ 64" using assms(3) unat_u64_lt [of "view_size view"] by simp
  obtain st v' us where f: "ffu_flash_to_block_io E view ?pl (Some dev) True v = Some (st, v')"
      "disk_writes v' = disk_writes v @ us" "EFI_ERROR st \<or> us = file_image_writes True d media ?pl"
    using flash_to_block_io_post [OF assms(1,2) ld wf' assms(7,10), of True v] assms(16) by (auto simp: misaligned_def)
  have sl: "\<forall>e \<in> set (entries ?pl). unat (payload_offset e) + unat (byte_count e) \<le> length d"
    using image_bytes_slices s(1) assms(13) plan_wf_entry(4) [OF wf] by fastforce
  have "?ws = image_writes (entry_writes d ?pl (BlockSize media)) (entries ?pl) (concat (map (file_slice d) (entries ?pl)))"
  proof -
    have "entry_target p bs e l = entry_target d bs e l" if "e \<in> set (entries (plan ctx))" "l < unat (location_count e)" for bs e l
      using entry_head(2) [OF hd _ that(2), symmetric] plan_wf_entry(2) [OF wf that(1)] by (simp add: entry_ok_def)
    then show ?thesis using assms(13) m(2) by (auto simp: entry_writes_def intro!: image_writes_cong)
  qed
  then have "\<not> EFI_ERROR st \<longrightarrow> by_sector (unat (BlockSize media)) us = by_sector (unat (BlockSize media)) ?ws"
    using f(3) flashers_agree [OF m(4) sl] by auto
  then show ?thesis using s(2) v f(1,2) by blast
qed

theorem flashers_same_sectors_witness:
  "\<exists>ws pl v st v' us. disk_writes (emit (WriteBlocks 7 6 8 [1, 2, 3, 4, 5, 6, 7, 8]) (emit (AllocatePool 8) sample_world'))
      = disk_writes sample_world @ ws
    \<and> ffu_parse file_mode_env \<lparr>file_open = True, view_size = 2320\<rparr> sample_world = Some (EFI_SUCCESS, pl, v)
    \<and> ffu_flash_to_block_io file_mode_env \<lparr>file_open = True, view_size = 2320\<rparr> pl (Some sample_bio) True v = Some (st, v')
    \<and> disk_writes v' = disk_writes v @ us
    \<and> (\<not> EFI_ERROR st \<longrightarrow> by_sector (unat (BlockSize sample_media)) us = by_sector (unat (BlockSize sample_media)) ws)"
proof -
  have h: "sample_heap 0 = Some sample_header" by (simp add: sample_heap_def)
  have sl: "concat [[1, 2, 3], [4, 5, 6, 7, 8]] = concat (map (file_slice sample_file) (entries (plan sample_ctx)))"
    by (simp add: sample_defs file_slice_def sample_file_def)
  show ?thesis
    by (rule flashers_same_sectors [OF file_mode_env_contracts(1) _ _ file_mode_env_contracts(2) h _ _ sample_file_prefix _ _
          sample_init _ sl sample_session sample_all_received])
      (simp_all add: sample_file_def sample_bio_def, simp add: sample_defs sample_media_def)
qed

end
