(* ===== verification/Spec2Isabelle.thy ===== *)
theory Spec2Isabelle
  imports Run_Properties
begin

text \<open>
  Verification development for UfpFfuDeviceEfi, a UEFI application that flashes Full Flash
  Update (FFU) images: from a file (\<open>--flash\<close>), or received over a USB function controller with
  the packets of the UFP protocol (\<open>--usb-ffu\<close>).

  \<^bold>\<open>The program and the theories.\<close> The source is five C files under \<open>src/src\<close> with the headers in
  \<open>src/include\<close>. Definitions keep the names of the C functions, types and constants; a long C
  function is cut into the sections it has, each a definition with the name of its job.

  \<^item> \<open>Prelude\<close>, \<open>Bytes\<close>: C integers as words, status codes, bounds-checked memory, and the byte
    order helpers of \<open>uefi_min.c\<close> (and the local ones of \<open>main.c\<close> and \<open>usb_transport.c\<close>).
  \<^item> \<open>Usb_Descriptors\<close>, \<open>Firmware\<close>: the descriptor structures of \<open>usbfn.h\<close> and their bytes;
    the boundary to the firmware, with the pointer to the system table and the pool allocator of
    \<open>uefi_min.c\<close>.
  \<^item> \<open>Console\<close>: the printers of \<open>uefi_min.c\<close>. \<open>Ufp_Proto\<close>: the seven builders and three parsers
    of \<open>ufp_proto.c\<close>.
  \<^item> \<open>Ffu_Plan\<close>, \<open>Ffu_Read\<close>, \<open>Ffu_Parse\<close>, \<open>Ffu_Flash\<close>, \<open>Ffu_Stream\<close>: \<open>ffu.c\<close>, that is the plan
    and its growing arrays, the two readers, the two parsers, opening a file, flashing a file,
    and flashing a stream.
  \<^item> \<open>Usb_Transport\<close>: \<open>usb_transport.c\<close>, with the answers to control requests and the event pump.
  \<^item> \<open>Responses\<close>, \<open>Variables\<close>, \<open>Params\<close>, \<open>Handlers\<close>, \<open>Secure_Loop\<close>: the message handlers and the
    message loop of \<open>main.c\<close>. \<open>Options\<close>, \<open>App\<close>: the command line, the choice of a device, and
    \<open>EfiMain\<close>.
  \<^item> \<open>Sample\<close>: a smallest complete image, for the concrete instances of the theorems.

  \<^bold>\<open>How it is modelled.\<close> A buffer is the list of its bytes; an access outside it is \<open>None\<close>, so
  that \<open>\<exists>r. f x = Some r\<close> states the absence of undefined behaviour. Integers have the width
  of the source and wrap. Early returns are \<open>Inl\<close>. State is passed explicitly: the C structs
  are records, the locals of a long function that live across its sections are \<open>pstate\<close> and
  \<open>LOOP\<close>. Memory that is shared is a heap from allocation numbers to bytes; it is needed for
  the header buffer only, which the stream flasher points into while the loop may replace it.
  Every call of the firmware is an event appended to the trace of the world; the answer is
  given by the parameter \<open>env\<close>, a function of the trace. What the controller will report is the
  list \<open>polls\<close>; a pump that has used it up is \<open>Waiting\<close>. \<open>disk_writes\<close> and \<open>sent\<close> read off the
  trace what was written to the disk and sent to the host, whatever the firmware answered; \<open>taken\<close>
  reads off a run the writes that the device accepted, with their media ids.

  \<^bold>\<open>What the lemmas show.\<close>
  \<^item> \<open>Ffu_Wf\<close>, \<open>Ffu_File_Wf\<close>: both parsers are total, and a plan they return is well formed
    (\<open>plan_wf\<close>); the locales \<open>exact_reader\<close> and \<open>growable\<close> carry the readers and the arrays.
  \<^item> \<open>Parse_Agree\<close>, \<open>Parse_Stable\<close>: a simulation of the header parser by the file parser, and
    its independence of what stands behind the header.
  \<^item> \<open>Ffu_Flash_Spec\<close>, \<open>Ffu_Stream_Spec\<close>, \<open>Stream_Live\<close>: the abstract effect of both flashers
    (\<open>consume\<close>, \<open>image_writes\<close>, \<open>file_image_writes\<close>), refinement, and progress.
  \<^item> \<open>Usb_Spec\<close>: the transport as a \<open>message_channel\<close>; the handlers are proved against the locale.
    Reception is characterised exactly (\<open>recv_exactly\<close>). \<open>Variables\<close>, \<open>Handlers\<close>: what each message
    does; when memory does not run out, the replies to a variable read and to a partition table
    message are given as functions of the request and of what the firmware answers.
  \<^item> \<open>Secure_Spec\<close>: the invariant \<open>loop_ok\<close> of the message loop and its preservation by every
    message. \<open>Secure_Session\<close>, \<open>Header_Session\<close>: complete sessions, packet by packet.
    \<open>Completion\<close>: when a flasher says it is done, the device has accepted every write of the
    image for the bytes that the payload messages carried (\<open>fed_by\<close>), for any messages in
    between and after failed writes; only header messages are excluded, because they may change
    the buffer that holds the location tables. \<open>Loop_Runs\<close>: the loop as a state machine
    (\<open>runs\<close>), its equivalence with the loop that counts rounds, and invariants by rule induction.
  \<^item> \<open>Command_Line\<close>: the command line as a list of words between gaps, an option reader on words
    (\<open>line_options\<close>), and the parser as its refinement.
  \<^item> \<open>App_Spec\<close>: the entry point is total, and what each mode may write. \<open>Flash_Live\<close>,
    \<open>App_Live\<close>: an image that fits the device is flashed, from the command line to the last
    block, in the file mode and in the USB mode.
  \<^item> The theories \<open>*_Properties\<close> and this one state the results, each with its claim number and
    a concrete instance.

  \<^bold>\<open>Bounds and fuel.\<close> A header is below \<open>2\<^sup>35\<close> bytes and a file below \<open>2\<^sup>34\<close>: no cursor can
  then wrap, since every section that moves a cursor far compares it with the size, or is followed
  by a read that fails beyond it. The loop accepts headers of at most 128 MiB, far below. The fuel
  of the message loop counts rounds; each round takes at least one event, so
  \<open>Suc (length polls)\<close> is enough, and running out of fuel is excluded by \<open>loop_total_and_safe\<close>.
  Loops in C that count are structural recursions over the count; the store and payload loops
  are functions with termination proofs.

  \<^bold>\<open>What is assumed of the firmware\<close>, each where it is needed and satisfied by an instance:
  \<open>file_backed\<close>, \<open>file_sized\<close> (reads, and the position after a seek to the end, are those of a
  file), \<open>memory_ok\<close> (allocation succeeds), \<open>usb_contract\<close> (transfer buffers, when their
  allocation succeeds, are there and of the size asked for),
  \<open>variable_contract\<close>, \<open>read_contract\<close> (no more bytes than asked for), \<open>devices_ok\<close> (handles have
  an interface with media), \<open>polls_ok\<close> (a transfer result reports no more bytes than arrived,
  and all header messages of a session announce lengths of one buffer capacity), \<open>accepting\<close> and
  \<open>writes_succeed\<close>, \<open>flushes\<close>, \<open>serves_file\<close>, \<open>lists_device\<close>, \<open>line_given\<close> (for the liveness results:
  transfers, writes and flushes do not fail, the file opens, the device is found, and the line
  consists of the given words).

  \<^bold>\<open>Where the code goes wrong.\<close> Four theorems state defects: \<open>grown_header_dangles\<close> (a larger
  header message frees the buffer the flasher points to, which is why \<open>polls_ok\<close> is needed),
  \<open>built_header_claims_complete\<close> (the header builder writes the end of the chunk where the
  device expects the total; the sessions proved here send the total, as the README says),
  \<open>header_restart_refused\<close>, and \<open>misaligned_flash_reports_success\<close> (an entry that is no multiple
  of the device's blocks ends the file mode with \<open>Flash completed.\<close> and nothing written from it
  on; the theorems about what a flash without error has written except that case). \<open>bos_counts_one\<close> shows a wrong count in a descriptor.
  Further ones are visible in what the definitions return: a final state of 0 is taken for
  success by the response parser, an error whose low half is zero is reported as success, a
  device number of two to the 32 selects the first device.

  \<^bold>\<open>Not modelled.\<close> The protocol tables of the firmware (the structs of function pointers in
  \<open>uefi_min.h\<close> and \<open>usbfn.h\<close>) are the parameter \<open>env\<close>; of the system table and the loaded image
  only the fields that the code reads are kept, and \<open>g_st\<close>, which only \<open>EfiMain\<close> sets, is a field
  of \<open>env\<close>; \<open>ufp_base.h\<close> and the prototypes of the other headers have no content of their own. The messages of
  the event handler are given decoded (\<open>usbfn_poll\<close>). Endless waiting is the result
  \<open>Waiting\<close>; time, interrupts and the order in which hardware completes transfers are the
  order of \<open>polls\<close>.
\<close>

section \<open>The header parser\<close>

text \<open>C7. Parsing a header in memory never makes an out-of-range access, never writes to the
  disk, and ends; a plan returned with success is well formed (\<open>plan_wf\<close>: the stores partition
  the entries, sizes are block count times block size and positive, payload ranges of a store
  are adjacent, location tables lie inside the header, the total is the sum of the sizes).\<close>

theorem header_parse_safe:
  assumes "unat sz \<le> length data" "unat sz < 2 ^ 35"
  shows "\<exists>st pl w'. ffu_parse_header_bytes E (Some data) sz pl0 w = Some (st, pl, w')
    \<and> disk_writes w' = disk_writes w \<and> polls w' = polls w
    \<and> (st = EFI_SUCCESS \<and> plan_wf sz pl \<or> EFI_ERROR st)"
  using parse_header_post [OF assms, of E pl0 w] by (auto simp: same_io_def)

theorem header_parse_safe_witness:
  "\<exists>st pl w'. ffu_parse_header_bytes sample_env (Some sample_header) 2312 zero_plan sample_world = Some (st, pl, w')
    \<and> disk_writes w' = disk_writes sample_world \<and> polls w' = polls sample_world
    \<and> (st = EFI_SUCCESS \<and> plan_wf 2312 pl \<or> EFI_ERROR st)"
  by (rule header_parse_safe) simp_all

section \<open>The stream flasher\<close>

text \<open>C6. A complete session: after a successful start, feeding the payload in chunks of any
  size until the flasher reports that it is done has written exactly the image: for every
  entry in order, its slice of the payload to each location its table lists, and, in a dry
  run, nothing. The payload had exactly the size that the entries describe.\<close>

theorem stream_session_correct:
  assumes "H a = Some p" "unat sz \<le> length p" "unat sz < 2 ^ 35"
    and "ffu_stream_flash_init E H ctx0 (Some a) sz b commit w = Some (EFI_SUCCESS, ctx, w1)"
    and "\<forall>d \<in> set ds. length d < 2 ^ 32"
    and "feed_chunks E H ctx ds w1 = Some (EFI_SUCCESS, ctx', w2)" "ffu_stream_flash_done ctx'"
  shows "length (concat ds) = image_bytes (entries (plan ctx))
    \<and> disk_writes w2 = disk_writes w @ (if commit
        then image_writes (entry_writes p (plan ctx) (media_block ctx)) (entries (plan ctx)) (concat ds)
        else [])"
  by (rule session_complete [OF assms])

theorem stream_session_correct_witness:
  "length (concat [[1, 2, 3], [4, 5, 6, 7, 8 :: u8]]) = image_bytes (entries (plan sample_ctx))
    \<and> disk_writes (emit (WriteBlocks 7 6 8 [1, 2, 3, 4, 5, 6, 7, 8]) (emit (AllocatePool 8) sample_world'))
      = disk_writes sample_world @ (if True
        then image_writes (entry_writes sample_header (plan sample_ctx) (media_block sample_ctx))
          (entries (plan sample_ctx)) (concat [[1, 2, 3], [4, 5, 6, 7, 8]])
        else [])"
  by (rule stream_session_correct [OF _ _ _ sample_init _ sample_session sample_all_received])
    (simp_all add: sample_heap_def)

text \<open>C15. How the payload is cut into chunks is not visible: two sessions that fed the same
  bytes without an error made the same writes and are in the same abstract state.\<close>

theorem stream_chunking_invisible:
  assumes "H a = Some p" "unat sz \<le> length p" "unat sz < 2 ^ 35"
    and "ffu_stream_flash_init E H ctx0 (Some a) sz b commit w = Some (EFI_SUCCESS, ctx, w1)"
    and "\<forall>d \<in> set (ds @ ds'). length d < 2 ^ 32" "concat ds = concat ds'"
    and "feed_chunks E H ctx ds w1 = Some (EFI_SUCCESS, c1, v1)"
    and "feed_chunks E H ctx ds' w1 = Some (EFI_SUCCESS, c2, v2)"
  shows "disk_writes v1 = disk_writes v2 \<and> pending c1 = pending c2
    \<and> ffu_stream_flash_done c1 = ffu_stream_flash_done c2"
proof -
  have len: "\<forall>d \<in> set ds. length d < 2 ^ 32" "\<forall>d \<in> set ds'. length d < 2 ^ 32" using assms(5) by auto
  note s1 = session_post [of H a p sz, OF assms(1-4) len(1)]
  note s2 = session_post [of H a p sz, OF assms(1-4) len(2)]
  obtain ws es r where c: "consume (emits p ctx) (entries (plan ctx)) (concat ds) = (ws, es, r)"
    by (rule prod_cases3)
  have "stream_inv H p c1" "disk_writes v1 = disk_writes w1 @ ws" "pending c1 = (es, r)"
    "stream_inv H p c2" "disk_writes v2 = disk_writes w1 @ ws" "pending c2 = (es, r)"
    using s1 s2 assms(6-8) c by (auto simp: feed_post_def)
  then show ?thesis by (simp add: done_pending)
qed

theorem stream_chunking_invisible_witness:
  "\<exists>c1 v1 c2 v2.
     feed_chunks sample_env sample_heap sample_ctx [[1, 2, 3], [], [4, 5, 6, 7, 8]] sample_world1 = Some (EFI_SUCCESS, c1, v1)
   \<and> feed_chunks sample_env sample_heap sample_ctx [[1, 2, 3], [4, 5, 6, 7, 8]] sample_world1 = Some (EFI_SUCCESS, c2, v2)
   \<and> disk_writes v1 = disk_writes v2 \<and> pending c1 = pending c2
   \<and> ffu_stream_flash_done c1 = ffu_stream_flash_done c2"
proof -
  have a: "feed_chunks sample_env sample_heap sample_ctx [[1, 2, 3], [], [4, 5, 6, 7, 8]] sample_world1
      = Some (EFI_SUCCESS, sample_done, emit (WriteBlocks 7 6 8 [1, 2, 3, 4, 5, 6, 7, 8]) sample_world1)"
    by (simp add: sample_feed1 sample_feed2 sample_feed0)
  have h: "sample_heap 0 = Some sample_header" by (simp add: sample_heap_def)
  show ?thesis
    using stream_chunking_invisible [OF h _ _ sample_init [folded sample_world1_def] _ _ a sample_session]
      a sample_session by simp
qed

text \<open>C16. After a successful start, feeding any chunks is free of undefined behaviour, even
  when the firmware reports errors; the writes made are a prefix of the writes that the
  payload asks for, and a dry run makes none.\<close>

theorem stream_feeding_safe:
  assumes "H a = Some p" "unat sz \<le> length p" "unat sz < 2 ^ 35"
    and "ffu_stream_flash_init E H ctx0 (Some a) sz b commit w = Some (EFI_SUCCESS, ctx, w1)"
    and "\<forall>d \<in> set ds. length d < 2 ^ 32"
  shows "\<exists>st ctx' w2 ws. feed_chunks E H ctx ds w1 = Some (st, ctx', w2)
    \<and> disk_writes w2 = disk_writes w @ ws \<and> (\<not> commit \<longrightarrow> ws = [])
    \<and> prefix ws (fst (consume (entry_writes p (plan ctx) (media_block ctx)) (entries (plan ctx)) (concat ds)))"
proof -
  note i = init_success [of H a p sz, OF assms(1-4)]
  obtain ws es r where c: "consume (emits p ctx) (entries (plan ctx)) (concat ds) = (ws, es, r)"
    by (rule prod_cases3)
  obtain st ctx' w2 ws' where f: "feed_chunks E H ctx ds w1 = Some (st, ctx', w2)"
      "disk_writes w2 = disk_writes w @ ws'" "prefix ws' ws"
    using session_post [of H a p sz, OF assms(1-5)] c i(5) by (auto simp: feed_post_def)
  have dry: "fst (consume (\<lambda>e d. [] :: (u64 \<times> bytes) list) es b) = []" for es b
    by (induction es arbitrary: b) (auto simp: Let_def split: prod.splits)
  show ?thesis
  proof (cases commit)
    case True
    then have "emits p ctx = entry_writes p (plan ctx) (media_block ctx)"
      using i(4) by (auto simp: emits_def fun_eq_iff)
    then show ?thesis using f c True by auto
  next
    case False
    then have "emits p ctx = (\<lambda>e d. [])" using i(4) by (auto simp: emits_def fun_eq_iff)
    then have "ws = []" using dry [of "entries (plan ctx)" "concat ds"] c by simp
    then show ?thesis using f False by auto
  qed
qed

theorem stream_feeding_safe_witness:
  "\<exists>st ctx' w2 ws. feed_chunks sample_env sample_heap sample_ctx [[1, 2, 3], [4]] (emit (AllocatePool 8) sample_world') = Some (st, ctx', w2)
    \<and> disk_writes w2 = disk_writes sample_world @ ws \<and> (\<not> True \<longrightarrow> ws = [])
    \<and> prefix ws (fst (consume (entry_writes sample_header (plan sample_ctx) (media_block sample_ctx)) (entries (plan sample_ctx)) (concat [[1, 2, 3], [4]])))"
  by (rule stream_feeding_safe [OF _ _ _ sample_init]) (simp_all add: sample_heap_def)

end
